(* ===== verification/Prelude.thy ===== *)
theory Prelude
  imports Main "HOL-Library.AList"
begin

text \<open>
  Shared vocabulary of the development: the exceptions the Python code raises, results as
  sums (\<open>Inl\<close> an exception, \<open>Inr\<close> a value), Python dictionaries as association lists in
  insertion order, and the generic facts on lists, integers and bits that several components
  use.  The collections \<open>result_simps\<close> and \<open>dict_simps\<close> carry the component proofs.
\<close>

section \<open>Collections\<close>

named_theorems result_simps \<open>rewriting a result that is known to be a value\<close>
named_theorems dict_simps \<open>reading a dictionary after an update\<close>

section \<open>Exceptions and results\<close>

text \<open>
  The exceptions of the modelled packages.  A message is kept as its constant part; the
  formatted values of an f-string are arguments where a handler could read them.
\<close>

datatype exn =
    ValueError string
  | KeyError string
  | RuntimeError string
  | TypeError string
  | HttpError nat string
  | InvalidConfigError string
  | StructError
  | ZeroDivisionError
  | IndexError
  | UnicodeDecodeError
  | OSError
  | FileNotFoundError
  | ClockMovedBackwardsError int int
  | SequenceOverflowError int int
  | QuorumNotMetError int int

type_synonym 'a result = "exn + 'a"

text \<open>Sequencing: a raised exception skips the rest of the block.\<close>

fun and_then :: "'e + 'a \<Rightarrow> ('a \<Rightarrow> 'e + 'b) \<Rightarrow> 'e + 'b" where
  "and_then (Inl e) f = Inl e"
| "and_then (Inr x) f = f x"

text \<open>
  Evaluation goes through a case expression, whose branches are not simplified before the scrutinee
  is a value.
\<close>

lemma and_then_case [code_unfold]:
  "and_then m f = (case m of Inl e \<Rightarrow> Inl e | Inr x \<Rightarrow> f x)"
  by (cases m) simp_all

text \<open>A guard of the form \<^verbatim>\<open>if not p: raise e\<close>.\<close>

definition require :: "bool \<Rightarrow> 'e \<Rightarrow> 'e + unit" where
  "require p e = (if p then Inr () else Inl e)"

lemma and_then_Inr_iff [result_simps]:
  "and_then m f = Inr y \<longleftrightarrow> (\<exists>x. m = Inr x \<and> f x = Inr y)"
  by (cases m) auto

lemma and_then_Inl_iff:
  "and_then m f = Inl e \<longleftrightarrow> m = Inl e \<or> (\<exists>x. m = Inr x \<and> f x = Inl e)"
  by (cases m) auto

lemma require_Inr_iff [result_simps]: "require p e = Inr u \<longleftrightarrow> p"
  by (simp add: require_def)

lemma require_Inl_iff: "require p e = Inl e' \<longleftrightarrow> \<not> p \<and> e' = e"
  by (auto simp: require_def)

lemma require_simps [simp]: "require True e = Inr ()" "require False e = Inl e"
  by (simp_all add: require_def)

text \<open>
  Sequencing of methods that update an object before they may raise: the state at the point of the
  exception is kept.
\<close>

definition then_do :: "'s \<times> ('e + 'a) \<Rightarrow> ('s \<Rightarrow> 'a \<Rightarrow> 's \<times> ('e + 'b)) \<Rightarrow> 's \<times> ('e + 'b)" where
  "then_do m f = (case m of (s, Inl e) \<Rightarrow> (s, Inl e) | (s, Inr x) \<Rightarrow> f s x)"

lemma then_do_simps [simp]: "then_do (s, Inl e) f = (s, Inl e)" "then_do (s, Inr x) f = f s x"
  by (simp_all add: then_do_def)

text \<open>A list comprehension whose element expression may raise.\<close>

fun traverse :: "('a \<Rightarrow> 'e + 'b) \<Rightarrow> 'a list \<Rightarrow> 'e + 'b list" where
  "traverse f [] = Inr []"
| "traverse f (x # xs) =
     and_then (f x) (\<lambda>y. and_then (traverse f xs) (\<lambda>ys. Inr (y # ys)))"

lemma traverse_Inr_iff [result_simps]:
  "traverse f xs = Inr ys \<longleftrightarrow> list_all2 (\<lambda>x y. f x = Inr y) xs ys"
proof (induction xs arbitrary: ys)
  case Nil
  then show ?case by auto
next
  case (Cons x xs)
  then show ?case by (cases ys) (auto simp: result_simps)
qed

lemma traverse_total: "\<forall>x\<in>set xs. f x = Inr (g x) \<Longrightarrow> traverse f xs = Inr (map g xs)"
  by (induction xs) simp_all

section \<open>Dictionaries in insertion order\<close>

text \<open>
  \<open>AList.update\<close> overwrites a present key in place and appends an absent one, which is what
  assignment to a Python dictionary does to its iteration order.
\<close>

type_synonym ('k, 'v) dict = "('k \<times> 'v) list"

definition dict_ok :: "('k, 'v) dict \<Rightarrow> bool" where
  "dict_ok d \<longleftrightarrow> distinct (map fst d)"

abbreviation dict_get :: "('k, 'v) dict \<Rightarrow> 'k \<Rightarrow> 'v option" where
  "dict_get \<equiv> map_of"

abbreviation dict_set :: "'k \<Rightarrow> 'v \<Rightarrow> ('k, 'v) dict \<Rightarrow> ('k, 'v) dict" where
  "dict_set \<equiv> AList.update"

abbreviation dict_del :: "'k \<Rightarrow> ('k, 'v) dict \<Rightarrow> ('k, 'v) dict" where
  "dict_del \<equiv> AList.delete"

definition dict_get_or :: "('k, 'v) dict \<Rightarrow> 'k \<Rightarrow> 'v \<Rightarrow> 'v" where
  "dict_get_or d k v = (case dict_get d k of None \<Rightarrow> v | Some w \<Rightarrow> w)"

lemma dict_ok_Nil [simp]: "dict_ok []"
  by (simp add: dict_ok_def)

lemma dict_ok_set [simp]: "dict_ok d \<Longrightarrow> dict_ok (dict_set k v d)"
  by (simp add: dict_ok_def distinct_update)

lemma dict_ok_del [simp]: "dict_ok d \<Longrightarrow> dict_ok (dict_del k d)"
  by (simp add: dict_ok_def distinct_delete)

lemma dict_get_set [dict_simps]:
  "dict_get (dict_set k v d) = (dict_get d)(k \<mapsto> v)"
  by (simp add: update_conv')

lemma dict_get_del [dict_simps]:
  "dict_get (dict_del k d) = (dict_get d)(k := None)"
  by (simp add: delete_conv')

lemma dict_get_mem: "dict_ok d \<Longrightarrow> (k, v) \<in> set d \<longleftrightarrow> dict_get d k = Some v"
  by (simp add: dict_ok_def)

lemma set_dict_set: "set (dict_set k v d) \<subseteq> insert (k, v) (set d)"
  by (induction d) auto

lemma length_dict_set: "length (dict_set k v d) = length d + (if dict_get d k = None then 1 else 0)"
  by (induction d) auto

lemma dict_get_dom: "dict_get d k \<noteq> None \<longleftrightarrow> k \<in> fst ` set d"
  by (induction d) auto

section \<open>Sums over dictionaries\<close>

text \<open>
  Totals over the values of a dictionary, as the ledgers of the system form them, and how one
  assignment changes them.
\<close>

definition dict_sum :: "('v \<Rightarrow> int) \<Rightarrow> ('k, 'v) dict \<Rightarrow> int" where
  "dict_sum f d = sum_list (map (f \<circ> snd) d)"

lemma dict_sum_Nil [simp]: "dict_sum f [] = 0"
  by (simp add: dict_sum_def)

lemma dict_sum_Cons [simp]: "dict_sum f ((k, v) # d) = f v + dict_sum f d"
  by (simp add: dict_sum_def)

lemma dict_sum_update:
  "dict_sum f (dict_set k v d)
   = dict_sum f d + f v - (case dict_get d k of None \<Rightarrow> 0 | Some w \<Rightarrow> f w)"
  by (induction d) auto

lemma dict_sum_set_present [dict_simps]:
  "dict_get d k = Some w \<Longrightarrow> dict_sum f (dict_set k v d) = dict_sum f d + f v - f w"
  by (simp add: dict_sum_update)

lemma dict_sum_set_absent [dict_simps]:
  "dict_get d k = None \<Longrightarrow> dict_sum f (dict_set k v d) = dict_sum f d + f v"
  by (simp add: dict_sum_update)

section \<open>Sorted integer lists\<close>

lemma sorted_wrt_less_distinct:
  fixes xs :: "'a :: linorder list"
  shows "sorted_wrt (<) xs \<Longrightarrow> distinct xs"
  by (induction xs) auto

section \<open>Decimal text\<close>

text \<open>\<^verbatim>\<open>str\<close> of an integer.\<close>

definition digit :: "nat \<Rightarrow> char" where
  "digit n = char_of (48 + n)"

fun dec_nat :: "nat \<Rightarrow> string" where
  "dec_nat n = (if n < 10 then [digit n] else dec_nat (n div 10) @ [digit (n mod 10)])"

declare dec_nat.simps [simp del]

definition str_int :: "int \<Rightarrow> string" where
  "str_int z = (if z < 0 then CHR ''-'' # dec_nat (nat (- z)) else dec_nat (nat z))"

definition dec_val :: "string \<Rightarrow> nat" where
  "dec_val s = foldl (\<lambda>a c. 10 * a + (of_char c - 48)) 0 s"

lemma of_char_digit: "n < 10 \<Longrightarrow> (of_char (digit n) :: nat) = 48 + n"
  by (simp add: digit_def)

lemma dec_val_dec_nat [simp]: "dec_val (dec_nat n) = n"
proof (induction n rule: dec_nat.induct)
  case (1 n)
  then show ?case
    by (cases "n < 10") (simp_all add: dec_nat.simps[of n] dec_val_def of_char_digit)
qed

lemma dec_nat_inject [simp]: "dec_nat m = dec_nat n \<longleftrightarrow> m = n"
  by (metis dec_val_dec_nat)

lemma dec_nat_no_sign: "CHR ''-'' \<notin> set (dec_nat n)"
proof (induction n rule: dec_nat.induct)
  case (1 n)
  have "digit m \<noteq> CHR ''-''" if "m < 10" for m
    using of_char_digit[OF that] by auto
  then have "digit (n mod 10) \<noteq> CHR ''-''" "n < 10 \<Longrightarrow> digit n \<noteq> CHR ''-''" by simp_all
  then show ?case
    using 1 by (cases "n < 10") (auto simp: dec_nat.simps[of n])
qed

lemma str_int_inject [simp]: "str_int a = str_int b \<longleftrightarrow> a = b"
proof -
  have "CHR ''-'' # dec_nat m \<noteq> dec_nat n" for m n
    using dec_nat_no_sign[of n] by (metis list.set_intros(1))
  then show ?thesis
    by (auto simp: str_int_def dest: sym)
qed

end
