(* ===== verification/Unique_Id.thy ===== *)
theory Unique_Id
  imports Prelude Complex_Main
begin

text \<open>
  The Snowflake identifier generator (\<^verbatim>\<open>unique-id-generator/src/unique_id\<close>): the bit layout
  and its validation (\<^verbatim>\<open>config.py\<close>), the generator with its sequence and last timestamp
  (\<^verbatim>\<open>snowflake.py\<close>), the clocks (\<^verbatim>\<open>clock.py\<close>), the parser (\<^verbatim>\<open>parser.py\<close>) and the
  timestamp-random strategy (\<^verbatim>\<open>strategies.py\<close>).

  Python integers are \<open>int\<close> and the bit operators are those of \<open>int\<close>.  The clock is an
  environment: an infinite sequence of readings of \<^verbatim>\<open>current_millis()\<close> and one of
  \<^verbatim>\<open>time.monotonic()\<close>, with the position reached in each.  Monotonic time and the overflow
  timeout are rationals (the float sums are taken to be exact).
\<close>

unbundle bit_operations_syntax

section \<open>Configuration\<close>

record SnowflakeConfig =
  timestamp_bits :: int
  datacenter_bits :: int
  machine_bits :: int
  sequence_bits :: int
  datacenter_id :: int
  machine_id :: int
  epoch_ms :: int

definition DEFAULT_EPOCH_MS :: int where
  "DEFAULT_EPOCH_MS = 1704067200000"

definition default_config :: SnowflakeConfig where
  "default_config =
     \<lparr>timestamp_bits = 41, datacenter_bits = 5, machine_bits = 5, sequence_bits = 12,
      datacenter_id = 0, machine_id = 0, epoch_ms = DEFAULT_EPOCH_MS\<rparr>"

definition max_datacenter_id :: "SnowflakeConfig \<Rightarrow> int" where
  "max_datacenter_id c = push_bit (nat (datacenter_bits c)) 1 - 1"

definition max_machine_id :: "SnowflakeConfig \<Rightarrow> int" where
  "max_machine_id c = push_bit (nat (machine_bits c)) 1 - 1"

definition max_sequence :: "SnowflakeConfig \<Rightarrow> int" where
  "max_sequence c = push_bit (nat (sequence_bits c)) 1 - 1"

definition max_timestamp :: "SnowflakeConfig \<Rightarrow> int" where
  "max_timestamp c = push_bit (nat (timestamp_bits c)) 1 - 1"

definition timestamp_shift :: "SnowflakeConfig \<Rightarrow> int" where
  "timestamp_shift c = datacenter_bits c + machine_bits c + sequence_bits c"

definition datacenter_shift :: "SnowflakeConfig \<Rightarrow> int" where
  "datacenter_shift c = machine_bits c + sequence_bits c"

definition machine_shift :: "SnowflakeConfig \<Rightarrow> int" where
  "machine_shift c = sequence_bits c"

text \<open>
  \<^verbatim>\<open>__post_init__\<close>.  Its first loop refuses a field that is not an \<^verbatim>\<open>int\<close>; the record's
  field types do that here.
\<close>

definition post_init :: "SnowflakeConfig \<Rightarrow> SnowflakeConfig result" where
  "post_init c =
     (if timestamp_bits c \<le> 0 then Inl (InvalidConfigError ''timestamp_bits must be positive'')
      else if datacenter_bits c \<le> 0 then Inl (InvalidConfigError ''datacenter_bits must be positive'')
      else if machine_bits c \<le> 0 then Inl (InvalidConfigError ''machine_bits must be positive'')
      else if sequence_bits c \<le> 0 then Inl (InvalidConfigError ''sequence_bits must be positive'')
      else if timestamp_bits c + datacenter_bits c + machine_bits c + sequence_bits c \<noteq> 63
        then Inl (InvalidConfigError ''Bit allocation must sum to 63'')
      else if epoch_ms c \<le> 0 then Inl (InvalidConfigError ''epoch_ms must be positive'')
      else if datacenter_id c < 0 \<or> datacenter_id c > max_datacenter_id c
        then Inl (InvalidConfigError ''datacenter_id out of range'')
      else if machine_id c < 0 \<or> machine_id c > max_machine_id c
        then Inl (InvalidConfigError ''machine_id out of range'')
      else Inr c)"

section \<open>Clocks\<close>

record clocks =
  millis :: "nat \<Rightarrow> int"
  monotonic :: "nat \<Rightarrow> rat"
  millis_pos :: nat
  monotonic_pos :: nat

text \<open>One call of \<^verbatim>\<open>current_millis()\<close>, and one of \<^verbatim>\<open>time.monotonic()\<close>.\<close>

definition current_millis :: "clocks \<Rightarrow> int \<times> clocks" where
  "current_millis w = (millis w (millis_pos w), w\<lparr>millis_pos := Suc (millis_pos w)\<rparr>)"

definition monotonic_now :: "clocks \<Rightarrow> rat \<times> clocks" where
  "monotonic_now w =
     (monotonic w (monotonic_pos w), w\<lparr>monotonic_pos := Suc (monotonic_pos w)\<rparr>)"

text \<open>
  \<^verbatim>\<open>MonotonicClock\<close>: the anchors taken at construction, and a reading from the monotonic
  clock; \<^verbatim>\<open>int(x * 1000)\<close> truncates, and both clocks read non-negative seconds.
\<close>

definition to_millis :: "rat \<Rightarrow> int" where
  "to_millis t = \<lfloor>t * 1000\<rfloor>"

record MonotonicClock =
  anchor_system_ms :: int
  anchor_monotonic_ms :: int

definition monotonic_clock_init :: "rat \<Rightarrow> rat \<Rightarrow> MonotonicClock" where
  "monotonic_clock_init system mono_s =
     \<lparr>anchor_system_ms = to_millis system, anchor_monotonic_ms = to_millis mono_s\<rparr>"

definition monotonic_clock_millis :: "MonotonicClock \<Rightarrow> rat \<Rightarrow> int" where
  "monotonic_clock_millis k mono_s =
     (let elapsed = to_millis mono_s - anchor_monotonic_ms k in anchor_system_ms k + elapsed)"

section \<open>Generator\<close>

record generator =
  gen_config :: SnowflakeConfig
  overflow_timeout :: rat
  gen_max_sequence :: int
  gen_max_timestamp :: int
  gen_timestamp_shift :: int
  node_prefix :: int
  sequence :: int
  last_timestamp :: int

text \<open>
  \<^verbatim>\<open>SnowflakeGenerator.__init__\<close>.  A rational timeout is finite and no bool, so of the
  source's checks on it the sign is left.
\<close>

definition generator_init :: "SnowflakeConfig \<Rightarrow> rat \<Rightarrow> generator result" where
  "generator_init c timeout =
     (if timeout < 0
      then Inl (ValueError ''overflow_timeout_seconds must be finite and nonnegative'')
      else Inr
        \<lparr>gen_config = c, overflow_timeout = timeout,
         gen_max_sequence = max_sequence c, gen_max_timestamp = max_timestamp c,
         gen_timestamp_shift = timestamp_shift c,
         node_prefix = push_bit (nat (datacenter_shift c)) (datacenter_id c)
                       OR push_bit (nat (machine_shift c)) (machine_id c),
         sequence = 0, last_timestamp = -1\<rparr>)"

text \<open>
  The loop of \<^verbatim>\<open>_wait_next_millis\<close>; \<open>None\<close> stands for a wait that never ends.
\<close>

partial_function (option) wait_loop ::
  "int \<Rightarrow> int \<Rightarrow> rat \<Rightarrow> clocks \<Rightarrow> (int result \<times> clocks) option" where
  "wait_loop last_ts max_seq deadline w =
     (let (timestamp, w1) = current_millis w in
      if timestamp < last_ts then Some (Inl (ClockMovedBackwardsError last_ts timestamp), w1)
      else if timestamp > last_ts then Some (Inr timestamp, w1)
      else let (now, w2) = monotonic_now w1 in
        if now \<ge> deadline then Some (Inl (SequenceOverflowError last_ts max_seq), w2)
        else wait_loop last_ts max_seq deadline w2)"

declare wait_loop.simps [code]

definition wait_next_millis ::
  "generator \<Rightarrow> int \<Rightarrow> clocks \<Rightarrow> (int result \<times> clocks) option" where
  "wait_next_millis g last_ts w =
     (let (now, w1) = monotonic_now w
      in wait_loop last_ts (gen_max_sequence g) (now + overflow_timeout g) w1)"

text \<open>
  The end of \<^verbatim>\<open>_generate_locked\<close>: range check, publication of the new state, composition.
\<close>

definition publish_id :: "generator \<Rightarrow> int \<Rightarrow> int \<Rightarrow> int result \<times> generator" where
  "publish_id g timestamp seq =
     (let offset = timestamp - epoch_ms (gen_config g) in
      if \<not> (0 \<le> offset \<and> offset \<le> gen_max_timestamp g)
      then (Inl (ValueError ''timestamp outside configured Snowflake bit range''), g)
      else (Inr ((push_bit (nat (gen_timestamp_shift g)) offset OR node_prefix g) OR seq),
            g\<lparr>last_timestamp := timestamp, sequence := seq\<rparr>))"

definition generate_locked ::
  "generator \<Rightarrow> clocks \<Rightarrow> (int result \<times> generator \<times> clocks) option" where
  "generate_locked g w =
     (let (timestamp, w1) = current_millis w in
      if timestamp < last_timestamp g
      then Some (Inl (ClockMovedBackwardsError (last_timestamp g) timestamp), g, w1)
      else let seq = (if timestamp = last_timestamp g
                      then (sequence g + 1) AND gen_max_sequence g else 0) in
        if timestamp = last_timestamp g \<and> seq = 0
        then (case wait_next_millis g (last_timestamp g) w1 of
                None \<Rightarrow> None
              | Some (Inl e, w2) \<Rightarrow> Some (Inl e, g, w2)
              | Some (Inr later, w2) \<Rightarrow>
                  (let (r, g') = publish_id g later seq in Some (r, g', w2)))
        else (let (r, g') = publish_id g timestamp seq in Some (r, g', w1)))"

text \<open>
  \<^verbatim>\<open>generate_batch\<close>: an exception in the middle of the comprehension keeps the state the
  earlier identifiers left.
\<close>

fun batch_loop ::
  "nat \<Rightarrow> generator \<Rightarrow> clocks \<Rightarrow> (int list result \<times> generator \<times> clocks) option" where
  "batch_loop 0 g w = Some (Inr [], g, w)"
| "batch_loop (Suc n) g w =
     (case generate_locked g w of
        None \<Rightarrow> None
      | Some (Inl e, g', w') \<Rightarrow> Some (Inl e, g', w')
      | Some (Inr i, g', w') \<Rightarrow>
          (case batch_loop n g' w' of
             None \<Rightarrow> None
           | Some (Inl e, g'', w'') \<Rightarrow> Some (Inl e, g'', w'')
           | Some (Inr is, g'', w'') \<Rightarrow> Some (Inr (i # is), g'', w'')))"

definition generate_batch ::
  "generator \<Rightarrow> int \<Rightarrow> clocks \<Rightarrow> (int list result \<times> generator \<times> clocks) option" where
  "generate_batch g count w =
     (if count \<le> 0 then Some (Inl (ValueError ''count must be positive''), g, w)
      else batch_loop (nat count) g w)"

section \<open>Parser\<close>

text \<open>
  \<^verbatim>\<open>datetime_utc\<close> is kept as the milliseconds since the Unix epoch; adding a time delta
  raises \<^verbatim>\<open>OverflowError\<close> past the last millisecond of year 9999 (or before year 1).
\<close>

record ParsedID =
  id_value :: int
  timestamp_ms :: int
  parsed_datacenter_id :: int
  parsed_machine_id :: int
  parsed_sequence :: int
  datetime_utc :: int

definition datetime_min_ms :: int where
  "datetime_min_ms = -62135596800000"

definition datetime_max_ms :: int where
  "datetime_max_ms = 253402300799999"

definition unix_epoch_plus :: "int \<Rightarrow> int option" where
  "unix_epoch_plus ms =
     (if datetime_min_ms \<le> ms \<and> ms \<le> datetime_max_ms then Some ms else None)"

definition parse :: "SnowflakeConfig \<Rightarrow> int \<Rightarrow> ParsedID result" where
  "parse c i =
     (if i < 0 then Inl (ValueError ''ID must be non-negative'')
      else if i \<ge> 2 ^ 63 then Inl (ValueError ''ID exceeds 63 bits'')
      else
        let sequence_mask = push_bit (nat (sequence_bits c)) 1 - 1;
            seq = i AND sequence_mask;
            machine_mask = push_bit (nat (machine_bits c)) 1 - 1;
            machine = drop_bit (nat (machine_shift c)) i AND machine_mask;
            datacenter_mask = push_bit (nat (datacenter_bits c)) 1 - 1;
            datacenter = drop_bit (nat (datacenter_shift c)) i AND datacenter_mask;
            timestamp_mask = push_bit (nat (timestamp_bits c)) 1 - 1;
            ts_offset = drop_bit (nat (timestamp_shift c)) i AND timestamp_mask;
            ts = ts_offset + epoch_ms c
        in case unix_epoch_plus ts of
             None \<Rightarrow> Inl (ValueError ''timestamp outside Python datetime range'')
           | Some d \<Rightarrow> Inr
               \<lparr>id_value = i, timestamp_ms = ts, parsed_datacenter_id = datacenter,
                parsed_machine_id = machine, parsed_sequence = seq, datetime_utc = d\<rparr>)"

section \<open>Timestamp-random strategy\<close>

definition timestamp_random_init :: "int \<Rightarrow> int result" where
  "timestamp_random_init epoch =
     (if epoch \<le> 0 then Inl (ValueError ''epoch_ms must be a positive integer'') else Inr epoch)"

text \<open>\<open>random_bits\<close> is the value of \<^verbatim>\<open>getrandbits(22)\<close>, in \<open>[0, 2^22)\<close>.\<close>

definition timestamp_random_generate :: "int \<Rightarrow> rat \<Rightarrow> int \<Rightarrow> int result" where
  "timestamp_random_generate epoch now random_bits =
     (let ts = to_millis now - epoch in
      if \<not> (0 \<le> ts \<and> ts < push_bit 42 1)
      then Inl (ValueError ''timestamp outside the 42-bit timestamp-random range'')
      else Inr (push_bit 22 ts OR random_bits))"

definition timestamp_random_batch :: "int \<Rightarrow> (nat \<Rightarrow> rat \<times> int) \<Rightarrow> int \<Rightarrow> int list result" where
  "timestamp_random_batch epoch readings count =
     (if count \<le> 0 then Inl (ValueError ''count must be a positive integer'')
      else traverse (\<lambda>k. case readings k of (now, bits) \<Rightarrow> timestamp_random_generate epoch now bits)
             [0 ..< nat count])"

section \<open>Bit composition as arithmetic\<close>

lemma push_bit_or_add:
  fixes a b :: int
  assumes "0 \<le> b" and "b < 2 ^ n"
  shows "push_bit n a OR b = a * 2 ^ n + b"
proof -
  have "push_bit n a AND take_bit n b = 0"
    by (simp add: bit_eq_iff bit_simps)
  moreover have "take_bit n b = b"
    using assms by (simp add: take_bit_int_eq_self)
  ultimately have "push_bit n a OR b = push_bit n a + b"
    by (simp add: disjunctive_add_eq_or)
  then show ?thesis by (simp add: push_bit_eq_mult)
qed

lemma and_low_mask: "(i :: int) AND (push_bit n 1 - 1) = i mod 2 ^ n"
  using take_bit_eq_mask [of n i]
  by (simp add: take_bit_eq_mod mask_eq_exp_minus_1 push_bit_eq_mult)

text \<open>
  The arithmetic reading of an identifier: timestamp offset, datacenter, machine and sequence
  as the digits of a mixed-radix number.
\<close>

definition compose_id :: "SnowflakeConfig \<Rightarrow> int \<Rightarrow> int \<Rightarrow> int" where
  "compose_id c off seq =
     ((off * 2 ^ nat (datacenter_bits c) + datacenter_id c) * 2 ^ nat (machine_bits c)
       + machine_id c) * 2 ^ nat (sequence_bits c) + seq"

abbreviation config_ok :: "SnowflakeConfig \<Rightarrow> bool" where
  "config_ok c \<equiv> post_init c = Inr c"

lemma config_okD:
  assumes "config_ok c"
  shows "0 < timestamp_bits c" "0 < datacenter_bits c" "0 < machine_bits c" "0 < sequence_bits c"
    "timestamp_bits c + datacenter_bits c + machine_bits c + sequence_bits c = 63"
    "0 < epoch_ms c"
    "0 \<le> datacenter_id c" "datacenter_id c < 2 ^ nat (datacenter_bits c)"
    "0 \<le> machine_id c" "machine_id c < 2 ^ nat (machine_bits c)"
  using assms
  by (auto simp: post_init_def max_datacenter_id_def max_machine_id_def push_bit_eq_mult
      split: if_splits)

lemma mixed_radix_less:
  fixes a b :: int
  assumes "a < b" and "0 \<le> n" and "0 \<le> y" and "x < n"
  shows "a * n + x < b * n + y"
proof -
  have "(a + 1) * n \<le> b * n"
    using assms(1,2) by (intro mult_right_mono) auto
  with assms(3,4) show ?thesis by (simp add: algebra_simps)
qed

lemma mixed_radix_nonneg: "0 \<le> a \<Longrightarrow> 0 \<le> x \<Longrightarrow> 0 \<le> a * 2 ^ n + (x :: int)"
  by simp

lemma compose_id_nonneg:
  "config_ok c \<Longrightarrow> 0 \<le> off \<Longrightarrow> 0 \<le> seq \<Longrightarrow> 0 \<le> compose_id c off seq"
  by (auto simp: compose_id_def dest: config_okD intro!: mixed_radix_nonneg)

lemma compose_id_bound:
  assumes c: "config_ok c" and off: "off < 2 ^ nat (timestamp_bits c)"
    and seq: "seq < 2 ^ nat (sequence_bits c)"
  shows "compose_id c off seq < 2 ^ 63"
proof -
  note d = config_okD [OF c]
  have "compose_id c off seq < ((2 ^ nat (timestamp_bits c) * 2 ^ nat (datacenter_bits c))
      * 2 ^ nat (machine_bits c)) * 2 ^ nat (sequence_bits c) + 0"
    unfolding compose_id_def
  proof (rule mixed_radix_less [OF _ _ _ seq])
    have "off * 2 ^ nat (datacenter_bits c) + datacenter_id c
        < 2 ^ nat (timestamp_bits c) * 2 ^ nat (datacenter_bits c) + 0"
      using off d by (intro mixed_radix_less) auto
    then have "(off * 2 ^ nat (datacenter_bits c) + datacenter_id c) * 2 ^ nat (machine_bits c)
        + machine_id c
        < (2 ^ nat (timestamp_bits c) * 2 ^ nat (datacenter_bits c)) * 2 ^ nat (machine_bits c) + 0"
      using d by (intro mixed_radix_less) auto
    then show "(off * 2 ^ nat (datacenter_bits c) + datacenter_id c) * 2 ^ nat (machine_bits c)
        + machine_id c
        < (2 ^ nat (timestamp_bits c) * 2 ^ nat (datacenter_bits c)) * 2 ^ nat (machine_bits c)"
      by simp
  qed auto
  also have "\<dots> = (2 :: int) ^ 63"
    using d by (simp flip: power_add nat_add_distrib)
  finally show ?thesis .
qed

lemma compose_id_mono:
  assumes c: "config_ok c" and "0 \<le> s'" and "s < 2 ^ nat (sequence_bits c)"
    and "off < off' \<or> off = off' \<and> s < s'"
  shows "compose_id c off s < compose_id c off' s'"
  using assms(4)
proof
  assume "off < off'"
  then have "off * 2 ^ nat (datacenter_bits c) + datacenter_id c
      < off' * 2 ^ nat (datacenter_bits c) + datacenter_id c"
    by simp
  then have "(off * 2 ^ nat (datacenter_bits c) + datacenter_id c) * 2 ^ nat (machine_bits c)
        + machine_id c
      < (off' * 2 ^ nat (datacenter_bits c) + datacenter_id c) * 2 ^ nat (machine_bits c)
        + machine_id c"
    by simp
  from mixed_radix_less [OF this _ assms(2,3)] show ?thesis
    by (simp add: compose_id_def)
next
  assume "off = off' \<and> s < s'"
  then show ?thesis by (simp add: compose_id_def)
qed

lemma compose_id_bits:
  assumes c: "config_ok c" and seq: "0 \<le> seq" "seq < 2 ^ nat (sequence_bits c)"
  shows "(push_bit (nat (timestamp_shift c)) off
          OR (push_bit (nat (datacenter_shift c)) (datacenter_id c)
              OR push_bit (nat (machine_shift c)) (machine_id c))) OR seq
         = compose_id c off seq"
proof -
  note d = config_okD [OF c]
  let ?D = "nat (datacenter_bits c)" and ?M = "nat (machine_bits c)" and ?S = "nat (sequence_bits c)"
  have sh: "nat (timestamp_shift c) = ?S + (?M + ?D)" "nat (datacenter_shift c) = ?S + ?M"
    "nat (machine_shift c) = ?S"
    using d by (auto simp: timestamp_shift_def datacenter_shift_def machine_shift_def)
  have "(push_bit (nat (timestamp_shift c)) off
          OR (push_bit (nat (datacenter_shift c)) (datacenter_id c)
              OR push_bit (nat (machine_shift c)) (machine_id c))) OR seq
      = push_bit ?S (push_bit ?M (push_bit ?D off OR datacenter_id c) OR machine_id c) OR seq"
    by (simp add: sh or.assoc add.commute add.left_commute)
  also have "\<dots> = compose_id c off seq"
    using d seq by (simp add: push_bit_or_add compose_id_def del: push_bit_or)
  finally show ?thesis .
qed

section \<open>The wait for the next millisecond\<close>

lemmas clock_defs = current_millis_def monotonic_now_def

lemma current_millis_frame:
  "current_millis w = (t, w') \<Longrightarrow> millis w' = millis w \<and> monotonic w' = monotonic w
     \<and> monotonic_pos w' = monotonic_pos w"
  by (auto simp: current_millis_def)

lemma monotonic_now_frame:
  "monotonic_now w = (t, w') \<Longrightarrow> millis w' = millis w \<and> monotonic w' = monotonic w
     \<and> monotonic_pos w' = Suc (monotonic_pos w)"
  by (auto simp: monotonic_now_def)

text \<open>A wait that returns a time returns one after the exhausted millisecond.\<close>

lemma wait_loop_later:
  assumes "wait_loop last_ts m deadline w = Some r"
  shows "\<forall>t w'. r = (Inr t, w') \<longrightarrow> last_ts < t"
proof (rule wait_loop.raw_induct
    [where P = "\<lambda>last_ts m deadline w r. \<forall>t w'. r = (Inr t, w') \<longrightarrow> last_ts < t", OF _ assms])
  fix wait last_ts m deadline w r
  assume IH: "\<And>last_ts m deadline w r. wait last_ts m deadline w = Some r \<Longrightarrow>
      \<forall>t w'. r = (Inr t, w') \<longrightarrow> last_ts < t"
    and eq: "(let (timestamp, w1) = current_millis w in
      if timestamp < last_ts then Some (Inl (ClockMovedBackwardsError last_ts timestamp), w1)
      else if timestamp > last_ts then Some (Inr timestamp, w1)
      else let (now, w2) = monotonic_now w1 in
        if now \<ge> deadline then Some (Inl (SequenceOverflowError last_ts m), w2)
        else wait last_ts m deadline w2) = Some r"
  then show "\<forall>t w'. r = (Inr t, w') \<longrightarrow> last_ts < t"
    by (auto simp: Let_def split: if_splits prod.splits dest: IH)
qed

text \<open>
  The wait ends as soon as the monotonic clock is seen at or past the deadline: there is a
  reading, at the latest that one, at which the loop leaves.
\<close>

lemma wait_loop_returns:
  assumes "monotonic_pos w \<le> n" and "deadline \<le> monotonic w n"
  shows "\<exists>r w'. wait_loop last_ts m deadline w = Some (r, w')"
  using assms
proof (induction "n - monotonic_pos w" arbitrary: w rule: less_induct)
  case less
  obtain t w1 where t: "current_millis w = (t, w1)" by (cases "current_millis w")
  obtain s w2 where s: "monotonic_now w1 = (s, w2)" by (cases "monotonic_now w1")
  note frame = current_millis_frame [OF t] monotonic_now_frame [OF s]
  show ?case
  proof (cases "t = last_ts \<and> s < deadline")
    case True
    then have "monotonic_pos w \<noteq> n"
      using s less.prems(2) frame by (auto simp: monotonic_now_def)
    with less.prems frame have "\<exists>r w'. wait_loop last_ts m deadline w2 = Some (r, w')"
      by (intro less.hyps) auto
    with True show ?thesis by (subst wait_loop.simps) (simp add: t s Let_def)
  next
    case False
    then show ?thesis
      by (subst wait_loop.simps) (auto simp: t s Let_def)
  qed
qed

section \<open>Sources of increasing identifiers\<close>

text \<open>
  What a caller of a generator relies on: a step that yields an identifier yields one above
  everything handed out before, a step that raises hands out nothing.  \<open>history\<close> collects
  the identifiers of \<open>n\<close> consecutive calls whose exceptions the caller catches.
\<close>

fun history ::
  "('g \<Rightarrow> 'w \<Rightarrow> (int result \<times> 'g \<times> 'w) option) \<Rightarrow> nat \<Rightarrow> 'g \<Rightarrow> 'w \<Rightarrow> (int list \<times> 'g \<times> 'w) option"
where
  "history step 0 g w = Some ([], g, w)"
| "history step (Suc n) g w =
     (case step g w of
        None \<Rightarrow> None
      | Some (r, g', w') \<Rightarrow>
          (case history step n g' w' of
             None \<Rightarrow> None
           | Some (is, rest) \<Rightarrow> Some ((case r of Inl _ \<Rightarrow> is | Inr i \<Rightarrow> i # is), rest)))"

locale id_source =
  fixes step :: "'g \<Rightarrow> 'w \<Rightarrow> (int result \<times> 'g \<times> 'w) option"
    and invar :: "'g \<Rightarrow> bool"
    and high :: "'g \<Rightarrow> int"
  assumes step_invar: "invar g \<Longrightarrow> step g w = Some (r, g', w') \<Longrightarrow> invar g'"
    and step_value: "invar g \<Longrightarrow> step g w = Some (Inr i, g', w') \<Longrightarrow> high g < i \<and> high g' = i"
    and step_error: "invar g \<Longrightarrow> step g w = Some (Inl e, g', w') \<Longrightarrow> high g' = high g"
begin

lemma history_increasing:
  assumes "invar g" and "history step n g w = Some (is, g', w')"
  shows "sorted_wrt (<) is \<and> (\<forall>i \<in> set is. high g < i \<and> i \<le> high g') \<and> high g \<le> high g' \<and> invar g'"
  using assms
proof (induction n arbitrary: g w "is")
  case 0
  then show ?case by auto
next
  case (Suc n)
  from Suc.prems(2) obtain r g1 w1 is1 where st: "step g w = Some (r, g1, w1)"
    and rest: "history step n g1 w1 = Some (is1, g', w')"
    and ids: "is = (case r of Inl _ \<Rightarrow> is1 | Inr i \<Rightarrow> i # is1)"
    by (auto split: option.splits)
  have inv1: "invar g1" using Suc.prems(1) st by (rule step_invar)
  note IH = Suc.IH [OF inv1 rest]
  show ?case
  proof (cases r)
    case (Inl e)
    with IH ids step_error [OF Suc.prems(1)] st show ?thesis by auto
  next
    case (Inr i)
    with IH ids step_value [OF Suc.prems(1)] st show ?thesis by force
  qed
qed

lemma history_unique:
  "invar g \<Longrightarrow> history step n g w = Some (is, g', w') \<Longrightarrow> distinct is"
  using history_increasing sorted_wrt_less_distinct by blast

end

section \<open>The Snowflake generator is such a source\<close>

text \<open>
  The invariant: the cached fields are the ones of a valid configuration, and the state is
  either fresh or holds the timestamp and sequence of an identifier that fits the layout.
\<close>

definition gen_fresh :: "generator \<Rightarrow> bool" where
  "gen_fresh g \<longleftrightarrow> last_timestamp g = -1 \<and> sequence g = 0"

definition gen_inv :: "generator \<Rightarrow> bool" where
  "gen_inv g \<longleftrightarrow>
     config_ok (gen_config g)
     \<and> gen_max_sequence g = max_sequence (gen_config g)
     \<and> gen_max_timestamp g = max_timestamp (gen_config g)
     \<and> gen_timestamp_shift g = timestamp_shift (gen_config g)
     \<and> node_prefix g = push_bit (nat (datacenter_shift (gen_config g))) (datacenter_id (gen_config g))
                       OR push_bit (nat (machine_shift (gen_config g))) (machine_id (gen_config g))
     \<and> (gen_fresh g
        \<or> 0 \<le> sequence g \<and> sequence g \<le> max_sequence (gen_config g)
          \<and> 0 \<le> last_timestamp g - epoch_ms (gen_config g)
          \<and> last_timestamp g - epoch_ms (gen_config g) \<le> max_timestamp (gen_config g))"

definition high_id :: "generator \<Rightarrow> int" where
  "high_id g =
     (if gen_fresh g then -1
      else compose_id (gen_config g) (last_timestamp g - epoch_ms (gen_config g)) (sequence g))"

lemma generator_init_inv:
  "config_ok c \<Longrightarrow> generator_init c t = Inr g \<Longrightarrow> gen_inv g \<and> gen_fresh g \<and> gen_config g = c"
  by (auto simp: generator_init_def gen_inv_def gen_fresh_def split: if_splits)

lemma max_sequence_less: "s \<le> max_sequence c \<longleftrightarrow> s < 2 ^ nat (sequence_bits c)"
  by (auto simp: max_sequence_def push_bit_eq_mult)

lemma max_timestamp_less: "s \<le> max_timestamp c \<longleftrightarrow> s < 2 ^ nat (timestamp_bits c)"
  by (auto simp: max_timestamp_def push_bit_eq_mult)

lemmas layout_bounds = max_sequence_less max_timestamp_less

text \<open>What publication of a timestamp and a sequence inside their fields yields.\<close>

lemma publish_id_cases:
  assumes inv: "gen_inv g" and seq: "0 \<le> seq" "seq \<le> max_sequence (gen_config g)"
    and pub: "publish_id g t seq = (r, g')"
  shows "(\<exists>e. r = Inl e \<and> g' = g)
    \<or> (r = Inr (compose_id (gen_config g) (t - epoch_ms (gen_config g)) seq)
       \<and> 0 \<le> t - epoch_ms (gen_config g) \<and> t - epoch_ms (gen_config g) \<le> max_timestamp (gen_config g)
       \<and> g' = g\<lparr>last_timestamp := t, sequence := seq\<rparr> \<and> \<not> gen_fresh g')"
proof -
  have c: "config_ok (gen_config g)" using inv by (simp add: gen_inv_def)
  let ?off = "t - epoch_ms (gen_config g)"
  have ts: "gen_max_timestamp g = max_timestamp (gen_config g)"
    and bits: "(push_bit (nat (gen_timestamp_shift g)) ?off OR node_prefix g) OR seq
               = compose_id (gen_config g) ?off seq"
    using inv seq compose_id_bits [OF c seq(1), of ?off] by (simp_all add: gen_inv_def layout_bounds)
  show ?thesis
  proof (cases "0 \<le> ?off \<and> ?off \<le> max_timestamp (gen_config g)")
    case True
    with config_okD(6) [OF c] have "t \<noteq> -1" by linarith
    with True pub bits show ?thesis
      by (auto simp: publish_id_def ts gen_fresh_def Let_def)
  next
    case False
    with pub show ?thesis by (auto simp: publish_id_def ts)
  qed
qed

lemma next_sequence:
  assumes "config_ok c" and "0 \<le> s" and "s \<le> max_sequence c"
  shows "(s + 1) AND max_sequence c = (if s = max_sequence c then 0 else s + 1)"
proof -
  have "(s + 1) AND max_sequence c = (s + 1) mod 2 ^ nat (sequence_bits c)"
    by (simp only: max_sequence_def and_low_mask)
  with assms show ?thesis
    by (auto simp: max_sequence_def push_bit_eq_mult)
qed

text \<open>
  One call: it raises and leaves the generator alone, or it publishes a pair (timestamp,
  sequence) above the previous one.
\<close>

lemma generate_locked_cases:
  assumes inv: "gen_inv g" and call: "generate_locked g w = Some (r, g', w')"
  shows "(\<exists>e. r = Inl e \<and> g' = g)
    \<or> (\<exists>t s. publish_id g t s = (r, g') \<and> 0 \<le> s \<and> s \<le> max_sequence (gen_config g)
         \<and> (last_timestamp g < t \<or> last_timestamp g = t \<and> sequence g < s))"
proof -
  have c: "config_ok (gen_config g)" and mx: "gen_max_sequence g = max_sequence (gen_config g)"
    using inv by (simp_all add: gen_inv_def)
  have pos: "0 < max_sequence (gen_config g)"
    using config_okD [OF c] by (simp add: max_sequence_def push_bit_eq_mult)
  have seq: "0 \<le> sequence g" "sequence g \<le> max_sequence (gen_config g)"
    using inv pos by (auto simp: gen_inv_def gen_fresh_def)
  obtain t w1 where t: "current_millis w = (t, w1)" by (cases "current_millis w")
  have later: "last_timestamp g < u" if "wait_next_millis g (last_timestamp g) w1 = Some (Inr u, w2)" for u w2
    using that wait_loop_later by (auto simp: wait_next_millis_def Let_def split: prod.splits)
  note nxt = next_sequence [OF c seq]
  consider (regress) "t < last_timestamp g"
    | (exhausted) "t = last_timestamp g" "sequence g = max_sequence (gen_config g)"
    | (same) "t = last_timestamp g" "sequence g < max_sequence (gen_config g)"
    | (new) "last_timestamp g < t"
    using seq by linarith
  then show ?thesis
  proof cases
    case regress
    with call show ?thesis by (auto simp: generate_locked_def t)
  next
    case exhausted
    then have "(\<exists>e. r = Inl e \<and> g' = g) \<or> (\<exists>u. last_timestamp g < u \<and> publish_id g u 0 = (r, g'))"
      using call nxt
      by (auto simp: generate_locked_def t mx Let_def split: option.splits sum.splits prod.splits
          dest: later)
    with pos show ?thesis by (meson order_refl less_imp_le)
  next
    case same
    with call nxt seq have "publish_id g t (sequence g + 1) = (r, g')"
      by (auto simp: generate_locked_def t mx Let_def split: prod.splits)
    with same seq show ?thesis
      by (intro disjI2 exI [of _ t] exI [of _ "sequence g + 1"]) auto
  next
    case new
    with call have "publish_id g t 0 = (r, g')"
      by (auto simp: generate_locked_def t Let_def split: prod.splits)
    with new pos show ?thesis
      by (intro disjI2 exI [of _ t] exI [of _ 0]) auto
  qed
qed

lemma publish_id_high:
  assumes inv: "gen_inv g" and s: "0 \<le> s" "s \<le> max_sequence (gen_config g)"
    and adv: "last_timestamp g < t \<or> last_timestamp g = t \<and> sequence g < s"
    and pub: "publish_id g t s = (Inr i, g')"
  shows "gen_inv g' \<and> high_id g < i \<and> high_id g' = i \<and> gen_config g' = gen_config g
    \<and> 0 \<le> i \<and> i < 2 ^ 63"
proof -
  let ?c = "gen_config g"
  have c: "config_ok ?c" using inv by (simp add: gen_inv_def)
  from publish_id_cases [OF inv s pub] have i: "i = compose_id ?c (t - epoch_ms ?c) s"
    and off: "0 \<le> t - epoch_ms ?c" "t - epoch_ms ?c \<le> max_timestamp ?c"
    and g': "g' = g\<lparr>last_timestamp := t, sequence := s\<rparr>" and nf: "\<not> gen_fresh g'"
    by auto
  have bounds: "0 \<le> i" "i < 2 ^ 63"
    using compose_id_nonneg [OF c off(1) s(1)] compose_id_bound [OF c] off s
    by (auto simp: i layout_bounds)
  moreover have "high_id g < i"
    using compose_id_mono [OF c s(1)] inv adv bounds
    by (auto simp: high_id_def gen_inv_def i layout_bounds)
  moreover have "gen_inv g'" using inv off s by (auto simp: gen_inv_def g')
  ultimately show ?thesis using nf by (simp add: high_id_def i g')
qed

interpretation snowflake: id_source generate_locked gen_inv high_id
proof (unfold_locales, goal_cases)
  case (1 g w r g' w')
  from generate_locked_cases [OF this] show ?case
    using 1(1) publish_id_cases publish_id_high by (metis sum.exhaust sum.simps(4))
next
  case (2 g w i g' w')
  from generate_locked_cases [OF this] show ?case
    using 2(1) publish_id_high by blast
next
  case (3 g w e g' w')
  from generate_locked_cases [OF this] show ?case
    using 3(1) publish_id_cases by blast
qed

lemma generate_locked_id:
  assumes "gen_inv g" and "generate_locked g w = Some (Inr i, g', w')"
  shows "i = compose_id (gen_config g) (last_timestamp g' - epoch_ms (gen_config g)) (sequence g')
    \<and> 0 \<le> last_timestamp g' - epoch_ms (gen_config g)
    \<and> last_timestamp g' - epoch_ms (gen_config g) \<le> max_timestamp (gen_config g)
    \<and> 0 \<le> sequence g' \<and> sequence g' \<le> max_sequence (gen_config g)
    \<and> gen_config g' = gen_config g"
proof -
  from generate_locked_cases [OF assms] obtain t s
    where pub: "publish_id g t s = (Inr i, g')" and s: "0 \<le> s" "s \<le> max_sequence (gen_config g)"
    by blast
  from publish_id_cases [OF assms(1) s pub] s show ?thesis by auto
qed

lemma generate_locked_range:
  assumes "gen_inv g" and "generate_locked g w = Some (Inr i, g', w')"
  shows "0 \<le> i \<and> i < 2 ^ 63"
  using generate_locked_cases [OF assms] publish_id_high [OF assms(1)] by blast

section \<open>Parsing\<close>

text \<open>The fields of an identifier, read back by division.\<close>

lemma compose_id_digits:
  assumes c: "config_ok c" and seq: "0 \<le> seq" "seq \<le> max_sequence c"
  shows "compose_id c off seq mod 2 ^ nat (sequence_bits c) = seq"
    and "compose_id c off seq div 2 ^ nat (sequence_bits c) mod 2 ^ nat (machine_bits c) = machine_id c"
    and "compose_id c off seq div (2 ^ nat (sequence_bits c) * 2 ^ nat (machine_bits c))
         mod 2 ^ nat (datacenter_bits c) = datacenter_id c"
    and "compose_id c off seq div (2 ^ nat (sequence_bits c) * 2 ^ nat (machine_bits c)
         * 2 ^ nat (datacenter_bits c)) = off"
proof -
  note d = config_okD [OF c]
  let ?D = "2 ^ nat (datacenter_bits c) :: int" and ?M = "2 ^ nat (machine_bits c) :: int"
    and ?S = "2 ^ nat (sequence_bits c) :: int"
  let ?i = "compose_id c off seq"
  have s: "seq < ?S" using seq by (simp add: layout_bounds)
  have digit: "(a * n + x) div n = a" "(a * n + x) mod n = x" if "0 \<le> x" "x < n" for a n x :: int
    using that by simp_all
  have d1: "?i div ?S = (off * ?D + datacenter_id c) * ?M + machine_id c" and m1: "?i mod ?S = seq"
    using seq s unfolding compose_id_def by (simp_all only: digit)
  have d2: "?i div (?S * ?M) = off * ?D + datacenter_id c" and m2: "?i div ?S mod ?M = machine_id c"
    using d by (simp_all add: zdiv_zmult2_eq d1)
  have d3: "?i div (?S * ?M * ?D) = off" and m3: "?i div (?S * ?M) mod ?D = datacenter_id c"
    using d by (simp_all add: zdiv_zmult2_eq [of ?D ?i "?S * ?M"] d2)
  show "?i mod ?S = seq" and "?i div ?S mod ?M = machine_id c"
    and "?i div (?S * ?M) mod ?D = datacenter_id c" and "?i div (?S * ?M * ?D) = off"
    by (fact m1 m2 m3 d3)+
qed

lemma parse_compose:
  assumes c: "config_ok c" and off: "0 \<le> off" "off \<le> max_timestamp c"
    and seq: "0 \<le> seq" "seq \<le> max_sequence c"
    and date: "off + epoch_ms c \<le> datetime_max_ms"
  shows "parse c (compose_id c off seq) = Inr
    \<lparr>id_value = compose_id c off seq, timestamp_ms = off + epoch_ms c,
     parsed_datacenter_id = datacenter_id c, parsed_machine_id = machine_id c,
     parsed_sequence = seq, datetime_utc = off + epoch_ms c\<rparr>"
proof -
  note d = config_okD [OF c]
  have s: "seq < 2 ^ nat (sequence_bits c)" and t: "off < 2 ^ nat (timestamp_bits c)"
    using seq off by (simp_all add: layout_bounds)
  have sh: "nat (machine_shift c) = nat (sequence_bits c)"
    "nat (datacenter_shift c) = nat (sequence_bits c) + nat (machine_bits c)"
    "nat (timestamp_shift c) = nat (sequence_bits c) + nat (machine_bits c) + nat (datacenter_bits c)"
    using d by (simp_all add: machine_shift_def datacenter_shift_def timestamp_shift_def nat_add_distrib)
  have "unix_epoch_plus (off + epoch_ms c) = Some (off + epoch_ms c)"
    using date off d by (simp add: unix_epoch_plus_def datetime_min_ms_def)
  moreover have "0 \<le> compose_id c off seq" "compose_id c off seq < 2 ^ 63"
    using compose_id_nonneg [OF c off(1) seq(1)] compose_id_bound [OF c t s] by simp_all
  ultimately show ?thesis
    using t off unfolding parse_def
    by (simp add: Let_def and_low_mask [simplified] drop_bit_eq_div sh power_add
        compose_id_digits [OF c seq])
qed

section \<open>Runs of the generator\<close>

lemma history_fields:
  assumes "gen_inv g" and "history generate_locked n g w = Some (ids, g', w')"
  shows "gen_config g' = gen_config g
    \<and> (\<forall>i \<in> set ids. \<exists>off seq. i = compose_id (gen_config g) off seq
          \<and> 0 \<le> seq \<and> seq \<le> max_sequence (gen_config g))"
  using assms
proof (induction n arbitrary: g w ids)
  case 0
  then show ?case by simp
next
  case (Suc n)
  from Suc.prems(2) obtain r g1 w1 ids1 where st: "generate_locked g w = Some (r, g1, w1)"
    and rest: "history generate_locked n g1 w1 = Some (ids1, g', w')"
    and ids: "ids = (case r of Inl _ \<Rightarrow> ids1 | Inr i \<Rightarrow> i # ids1)"
    by (auto split: option.splits)
  note IH = Suc.IH [OF snowflake.step_invar [OF Suc.prems(1) st] rest]
  show ?case
  proof (cases r)
    case (Inl e)
    with generate_locked_cases [OF Suc.prems(1) st] publish_id_cases [OF Suc.prems(1)]
    have "g1 = g" by blast
    with IH ids Inl show ?thesis by simp
  next
    case (Inr i)
    with generate_locked_id [OF Suc.prems(1)] st IH ids show ?thesis by fastforce
  qed
qed

lemma clock_frame_wait:
  "wait_loop l m d w = Some r \<Longrightarrow> monotonic (snd r) = monotonic w"
proof (rule wait_loop.raw_induct [where P = "\<lambda>l m d w r. monotonic (snd r) = monotonic w"], goal_cases)
  case (1 wait l m d w r)
  obtain t w1 where t: "current_millis w = (t, w1)" by (cases "current_millis w")
  obtain s w2 where s: "monotonic_now w1 = (s, w2)" by (cases "monotonic_now w1")
  show ?case
    using 1 current_millis_frame [OF t] monotonic_now_frame [OF s]
    by (auto simp: t s split: if_splits)
qed simp

text \<open>A clock whose monotonic readings pass every bound at every later position.\<close>

definition advancing :: "clocks \<Rightarrow> bool" where
  "advancing w \<longleftrightarrow> (\<forall>d p. \<exists>n \<ge> p. d \<le> monotonic w n)"

lemma wait_next_millis_returns:
  assumes "advancing w"
  shows "\<exists>r w'. wait_next_millis g l w = Some (r, w') \<and> advancing w'"
proof -
  obtain now w1 where w1: "monotonic_now w = (now, w1)" by (cases "monotonic_now w")
  have "monotonic w1 = monotonic w" using monotonic_now_frame [OF w1] by simp
  with assms obtain n where "monotonic_pos w1 \<le> n" "now + overflow_timeout g \<le> monotonic w1 n"
    by (auto simp: advancing_def)
  from wait_loop_returns [OF this] obtain r w' where
    r: "wait_loop l (gen_max_sequence g) (now + overflow_timeout g) w1 = Some (r, w')" by blast
  moreover have "monotonic w' = monotonic w"
    using clock_frame_wait [OF r] monotonic_now_frame [OF w1] by simp
  ultimately show ?thesis using assms by (simp add: wait_next_millis_def w1 advancing_def)
qed

lemma generate_locked_returns:
  assumes "advancing w"
  shows "\<exists>r g' w'. generate_locked g w = Some (r, g', w') \<and> advancing w'"
proof -
  obtain t w1 where t: "current_millis w = (t, w1)" by (cases "current_millis w")
  have adv: "advancing w1" using assms current_millis_frame [OF t] by (simp add: advancing_def)
  obtain r w' where "wait_next_millis g (last_timestamp g) w1 = Some (r, w')" "advancing w'"
    using wait_next_millis_returns [OF adv] by blast
  with adv show ?thesis
    by (auto simp: generate_locked_def t Let_def split: sum.splits prod.splits)
qed

lemma batch_loop_returns:
  "advancing w \<Longrightarrow> \<exists>r g' w'. batch_loop n g w = Some (r, g', w')"
proof (induction n arbitrary: g w)
  case 0
  then show ?case by simp
next
  case (Suc n)
  obtain r g1 w1 where st: "generate_locked g w = Some (r, g1, w1)" and "advancing w1"
    using generate_locked_returns [OF Suc.prems] by blast
  with Suc.IH [of w1 g1] show ?case by (fastforce simp: st split: sum.splits)
qed

lemma batch_loop_increasing:
  assumes "gen_inv g" and "batch_loop n g w = Some (Inr ids, g', w')"
  shows "length ids = n \<and> sorted_wrt (<) ids \<and> (\<forall>i \<in> set ids. high_id g < i)"
  using assms
proof (induction n arbitrary: g w ids)
  case 0
  then show ?case by simp
next
  case (Suc n)
  from Suc.prems(2) obtain i g1 w1 is1 where st: "generate_locked g w = Some (Inr i, g1, w1)"
    and rest: "batch_loop n g1 w1 = Some (Inr is1, g', w')" and ids: "ids = i # is1"
    by (auto split: option.splits sum.splits)
  note IH = Suc.IH [OF snowflake.step_invar [OF Suc.prems(1) st] rest]
  with snowflake.step_value [OF Suc.prems(1) st] ids show ?case by force
qed

section \<open>The other clocks and strategies\<close>

text \<open>A monotonic clock never shows an earlier millisecond.\<close>

lemma monotonic_clock_millis_mono:
  "a \<le> b \<Longrightarrow> monotonic_clock_millis k a \<le> monotonic_clock_millis k b"
  by (simp add: monotonic_clock_millis_def to_millis_def floor_mono)

lemma timestamp_random_value:
  assumes "0 \<le> r" and "r < 2 ^ 22" and "timestamp_random_generate epoch now r = Inr i"
  shows "i = (to_millis now - epoch) * 2 ^ 22 + r \<and> 0 \<le> i \<and> i < 2 ^ 64"
proof -
  let ?ts = "to_millis now - epoch"
  have i: "i = ?ts * 2 ^ 22 + r" and ts: "0 \<le> ?ts" "?ts < 2 ^ 42"
    using assms push_bit_or_add [of r 22 ?ts]
    by (auto simp: timestamp_random_generate_def Let_def split: if_splits)
  with assms(1,2) show ?thesis by simp
qed

text \<open>Identifiers of distinct milliseconds sort by time, whatever their random bits.\<close>

lemma timestamp_random_sorts:
  assumes "0 \<le> r1" "r1 < 2 ^ 22" "0 \<le> r2" "r2 < 2 ^ 22"
    and "timestamp_random_generate epoch now1 r1 = Inr i1"
    and "timestamp_random_generate epoch now2 r2 = Inr i2"
    and "to_millis now1 < to_millis now2"
  shows "i1 < i2"
  using mixed_radix_less [of "to_millis now1 - epoch" "to_millis now2 - epoch" "2 ^ 22" r2 r1]
    timestamp_random_value [OF assms(1,2,5)] timestamp_random_value [OF assms(3,4,6)] assms
  by simp

section \<open>Properties\<close>

text \<open>
  A small deployment for the witnesses: sequence numbers of one bit, a clock that shows each
  millisecond three times, and a monotonic clock that ticks once per reading.
\<close>

definition demo_config :: "int \<Rightarrow> SnowflakeConfig" where
  "demo_config m =
     \<lparr>timestamp_bits = 52, datacenter_bits = 5, machine_bits = 5, sequence_bits = 1,
      datacenter_id = 3, machine_id = m, epoch_ms = 1000\<rparr>"

definition demo_clocks :: clocks where
  "demo_clocks = \<lparr>millis = (\<lambda>n. 1007 + int (n div 3)), monotonic = (\<lambda>n. of_nat n),
     millis_pos = 0, monotonic_pos = 0\<rparr>"

definition demo_generator :: "int \<Rightarrow> generator" where
  "demo_generator m = (case generator_init (demo_config m) 10 of Inr g \<Rightarrow> g)"

lemma demo_config_ok: "config_ok (demo_config 4)" "config_ok (demo_config 5)"
  by (simp_all add: post_init_def demo_config_def max_datacenter_id_def max_machine_id_def)

lemma demo_generator_init:
  "generator_init (demo_config m) 10 = Inr (demo_generator m)"
  by (simp add: demo_generator_def generator_init_def)

lemma demo_history:
  "map_option (\<lambda>(ids, g, w). (ids, last_timestamp g, sequence g))
     (history generate_locked 5 (demo_generator 4) demo_clocks)
   = Some ([14536, 14537, 16584, 16585, 18632], 1009, 0)"
  by code_simp

text \<open>
  C34.  The identifiers a generator built from a valid configuration ever hands out, over any
  number of calls and any clock (exceptions in between included), are strictly increasing,
  hence pairwise distinct, and fit 63 bits.
\<close>

theorem snowflake_ids_increasing:
  assumes "config_ok c" and "generator_init c timeout = Inr g"
    and "history generate_locked n g w = Some (ids, g', w')"
  shows "sorted_wrt (<) ids \<and> distinct ids \<and> set ids \<subseteq> {0 ..< 2 ^ 63}"
proof -
  have inv: "gen_inv g" and fresh: "gen_fresh g"
    using generator_init_inv [OF assms(1,2)] by simp_all
  note inc = snowflake.history_increasing [OF inv assms(3)]
  have "high_id g' < 2 ^ 63"
    using inc compose_id_bound [of "gen_config g'"]
    by (auto simp: high_id_def gen_inv_def layout_bounds)
  with inc fresh have "set ids \<subseteq> {0 ..< 2 ^ 63}" by (force simp: high_id_def)
  with inc snowflake.history_unique [OF inv assms(3)] show ?thesis by blast
qed

theorem snowflake_ids_increasing_witness:
  "\<exists>g w. history generate_locked 5 (demo_generator 4) demo_clocks
       = Some ([14536, 14537, 16584, 16585, 18632], g, w)
     \<and> sorted_wrt (<) [14536, 14537, 16584, 16585, 18632 :: int]
     \<and> distinct [14536, 14537, 16584, 16585, 18632 :: int]"
proof -
  obtain g w where "history generate_locked 5 (demo_generator 4) demo_clocks
      = Some ([14536, 14537, 16584, 16585, 18632], g, w)"
    using demo_history by auto
  with snowflake_ids_increasing [OF demo_config_ok(1) demo_generator_init this] show ?thesis by blast
qed

text \<open>
  C35.  Round trip: parsing an identifier produced after any history gives back the timestamp
  the generator recorded for it, its datacenter, machine and sequence number, as long as the
  timestamp is one Python's \<^verbatim>\<open>datetime\<close> can represent.
\<close>

theorem snowflake_parse_roundtrip:
  assumes "config_ok c" and "generator_init c timeout = Inr g0"
    and "history generate_locked n g0 w0 = Some (ids, g, w)"
    and "generate_locked g w = Some (Inr i, g', w')"
    and "last_timestamp g' \<le> datetime_max_ms"
  shows "parse c i = Inr
    \<lparr>id_value = i, timestamp_ms = last_timestamp g', parsed_datacenter_id = datacenter_id c,
     parsed_machine_id = machine_id c, parsed_sequence = sequence g',
     datetime_utc = last_timestamp g'\<rparr>"
proof -
  have inv0: "gen_inv g0" and c0: "gen_config g0 = c"
    using generator_init_inv [OF assms(1,2)] by simp_all
  have inv: "gen_inv g" using snowflake.history_increasing [OF inv0 assms(3)] by simp
  have c: "gen_config g = c" using history_fields [OF inv0 assms(3)] c0 by simp
  from generate_locked_id [OF inv assms(4)] parse_compose [OF assms(1)] assms(5)
  show ?thesis unfolding c by fastforce
qed

theorem snowflake_parse_roundtrip_witness:
  "\<exists>g w g' w'. history generate_locked 3 (demo_generator 4) demo_clocks
       = Some ([14536, 14537, 16584], g, w)
     \<and> generate_locked g w = Some (Inr 16585, g', w')
     \<and> parse (demo_config 4) 16585 = Inr
         \<lparr>id_value = 16585, timestamp_ms = 1008, parsed_datacenter_id = 3, parsed_machine_id = 4,
          parsed_sequence = 1, datetime_utc = 1008\<rparr>"
proof -
  have "map_option (\<lambda>(ids, g, w). (ids,
          map_option (\<lambda>(r, g', w'). (r, last_timestamp g', sequence g')) (generate_locked g w)))
        (history generate_locked 3 (demo_generator 4) demo_clocks)
      = Some ([14536, 14537, 16584], Some (Inr 16585, 1008, 1))"
    by code_simp
  then obtain g w g' w' where h: "history generate_locked 3 (demo_generator 4) demo_clocks
      = Some ([14536, 14537, 16584], g, w)"
    and i: "generate_locked g w = Some (Inr 16585, g', w')"
    and t: "last_timestamp g' = 1008" "sequence g' = 1"
    by auto
  have "last_timestamp g' \<le> datetime_max_ms" by (simp add: t datetime_max_ms_def)
  from snowflake_parse_roundtrip [OF demo_config_ok(1) demo_generator_init h i this] h i t
  show ?thesis by (simp add: demo_config_def)
qed

text \<open>
  Two generators that share a bit layout but not their datacenter and machine pair never
  produce the same identifier, whatever their clocks and epochs.
\<close>

theorem snowflake_nodes_disjoint:
  assumes "config_ok c1" and "config_ok c2"
    and "datacenter_bits c1 = datacenter_bits c2" and "machine_bits c1 = machine_bits c2"
    and "sequence_bits c1 = sequence_bits c2"
    and "(datacenter_id c1, machine_id c1) \<noteq> (datacenter_id c2, machine_id c2)"
    and "generator_init c1 t1 = Inr g1" and "generator_init c2 t2 = Inr g2"
    and "history generate_locked n1 g1 w1 = Some (ids1, g1', w1')"
    and "history generate_locked n2 g2 w2 = Some (ids2, g2', w2')"
  shows "set ids1 \<inter> set ids2 = {}"
proof (rule ccontr)
  assume "set ids1 \<inter> set ids2 \<noteq> {}"
  then obtain i where i: "i \<in> set ids1" "i \<in> set ids2" by blast
  obtain off1 s1 where 1: "i = compose_id c1 off1 s1" "0 \<le> s1" "s1 \<le> max_sequence c1"
    using history_fields [OF _ assms(9)] generator_init_inv [OF assms(1,7)] i(1) by blast
  obtain off2 s2 where 2: "i = compose_id c2 off2 s2" "0 \<le> s2" "s2 \<le> max_sequence c2"
    using history_fields [OF _ assms(10)] generator_init_inv [OF assms(2,8)] i(2) by blast
  have "machine_id c1 = machine_id c2"
    using compose_id_digits(2) [OF assms(1) 1(2,3), of off1] compose_id_digits(2) [OF assms(2) 2(2,3), of off2]
    by (simp add: assms(4,5) flip: 1(1) 2(1))
  moreover have "datacenter_id c1 = datacenter_id c2"
    using compose_id_digits(3) [OF assms(1) 1(2,3), of off1] compose_id_digits(3) [OF assms(2) 2(2,3), of off2]
    by (simp add: assms(3-5) flip: 1(1) 2(1))
  ultimately show False using assms(6) by simp
qed

theorem snowflake_nodes_disjoint_witness:
  "\<exists>ids1 ids2 g1 w1 g2 w2.
      history generate_locked 5 (demo_generator 4) demo_clocks = Some (ids1, g1, w1)
    \<and> history generate_locked 5 (demo_generator 5) demo_clocks = Some (ids2, g2, w2)
    \<and> ids1 \<noteq> [] \<and> ids2 \<noteq> [] \<and> set ids1 \<inter> set ids2 = {}"
proof -
  obtain g1 w1 where h1: "history generate_locked 5 (demo_generator 4) demo_clocks
      = Some ([14536, 14537, 16584, 16585, 18632], g1, w1)"
    using demo_history by auto
  have "map_option fst (history generate_locked 5 (demo_generator 5) demo_clocks)
      = Some [14538, 14539, 16586, 16587, 18634]"
    by code_simp
  then obtain g2 w2 where h2: "history generate_locked 5 (demo_generator 5) demo_clocks
      = Some ([14538, 14539, 16586, 16587, 18634], g2, w2)"
    by auto
  have "datacenter_bits (demo_config 4) = datacenter_bits (demo_config 5)"
    and "machine_bits (demo_config 4) = machine_bits (demo_config 5)"
    and "sequence_bits (demo_config 4) = sequence_bits (demo_config 5)"
    and "(datacenter_id (demo_config 4), machine_id (demo_config 4))
       \<noteq> (datacenter_id (demo_config 5), machine_id (demo_config 5))"
    by (simp_all add: demo_config_def)
  from snowflake_nodes_disjoint [OF demo_config_ok this demo_generator_init demo_generator_init h1 h2] h1 h2
  show ?thesis by blast
qed

text \<open>
  C36.  A batch request on a monotonic clock that keeps advancing returns: a non-positive
  count is refused, and otherwise the call raises or delivers exactly \<open>count\<close> strictly
  increasing identifiers.
\<close>

theorem snowflake_batch_returns:
  assumes "config_ok c" and "generator_init c timeout = Inr g" and "advancing w"
  shows "\<exists>r g' w'. generate_batch g count w = Some (r, g', w')
    \<and> (count \<le> 0 \<longrightarrow> r = Inl (ValueError ''count must be positive'') \<and> g' = g)
    \<and> (\<forall>ids. r = Inr ids \<longrightarrow> length ids = nat count \<and> 0 < count \<and> sorted_wrt (<) ids)"
proof (cases "count \<le> 0")
  case True
  then show ?thesis by (simp add: generate_batch_def)
next
  case False
  obtain r g' w' where r: "batch_loop (nat count) g w = Some (r, g', w')"
    using batch_loop_returns [OF assms(3)] by blast
  with batch_loop_increasing generator_init_inv [OF assms(1,2)] False show ?thesis
    by (auto simp: generate_batch_def)
qed

theorem snowflake_batch_returns_witness:
  "advancing demo_clocks
   \<and> (\<exists>r g' w'. generate_batch (demo_generator 4) 5 demo_clocks = Some (r, g', w')
       \<and> r = Inr [14536, 14537, 16584, 16585, 18632])"
proof -
  have adv: "advancing demo_clocks"
    unfolding advancing_def demo_clocks_def
    by (auto, metis real_arch_simple le_cases of_nat_le_iff order_trans)
  have "map_option fst (generate_batch (demo_generator 4) 5 demo_clocks)
      = Some (Inr [14536, 14537, 16584, 16585, 18632])"
    by code_simp
  with snowflake_batch_returns [OF demo_config_ok(1) demo_generator_init adv, of 5] adv
  show ?thesis by auto
qed

end
