(* ===== verification/Hash_Ring.thy ===== *)
theory Hash_Ring
  imports Prelude "HOL-Library.Char_ord" "HOL-Library.List_Lexorder" "HOL-Library.Product_Lexorder"
    "HOL-Library.Multiset"
begin

text \<open>
  The consistent hashing ring (\<^verbatim>\<open>consistent-hashing/src/consistent_hashing\<close>): topologies and
  their writers (\<^verbatim>\<open>ring.py\<close>), routing on a snapshot, and the migration planner
  (\<^verbatim>\<open>migration.py\<close>) with the redistribution report of \<^verbatim>\<open>stats.py\<close>.

  Entries are the triples (position, node, index) of the source under Python's tuple order,
  which is the lexicographic order of the library.  The hash callable is a parameter that
  may raise or return something that is no integer.  The writer lock and the publication
  lock serialise the operations; each operation below is one critical section.
\<close>

section \<open>Binary search\<close>

text \<open>\<^verbatim>\<open>bisect.bisect_right\<close> on a list, over the index range \<open>lo .. hi\<close>.\<close>

function bisect_loop :: "'a :: linorder list \<Rightarrow> 'a \<Rightarrow> nat \<Rightarrow> nat \<Rightarrow> nat" where
  "bisect_loop xs x lo hi =
     (if lo < hi
      then let mid = (lo + hi) div 2 in
           if x < xs ! mid then bisect_loop xs x lo mid else bisect_loop xs x (Suc mid) hi
      else lo)"
  by pat_completeness auto
termination
  by (relation "measure (\<lambda>(xs, x, lo, hi). hi - lo)") auto

declare bisect_loop.simps [simp del]

definition bisect_right :: "'a :: linorder list \<Rightarrow> 'a \<Rightarrow> nat" where
  "bisect_right xs x = bisect_loop xs x 0 (length xs)"

section \<open>Topologies\<close>

type_synonym entry = "int \<times> string \<times> nat"

abbreviation entry_node :: "entry \<Rightarrow> string" where
  "entry_node e \<equiv> fst (snd e)"

abbreviation entry_index :: "entry \<Rightarrow> nat" where
  "entry_index e \<equiv> snd (snd e)"

record RingState =
  entries :: "entry list"
  positions :: "int list"
  nodes :: "string list"

definition empty_state :: RingState where
  "empty_state = \<lparr>entries = [], positions = [], nodes = []\<rparr>"

definition from_ordered :: "entry list \<Rightarrow> string list \<Rightarrow> RingState" where
  "from_ordered es ns = \<lparr>entries = es, positions = map fst es, nodes = ns\<rparr>"

definition build :: "entry list \<Rightarrow> string list \<Rightarrow> RingState" where
  "build es ns = from_ordered (sort es) ns"

section \<open>Hashing\<close>

text \<open>
  A callable returns an integer or some other object, or raises.  \<open>str_nat\<close> is \<^verbatim>\<open>str\<close> on a
  virtual node index.
\<close>

datatype hash_value = HashInt int | HashOther

type_synonym hash_callable = "string \<Rightarrow> hash_value result"

definition hash_position :: "hash_callable \<Rightarrow> string \<Rightarrow> int result" where
  "hash_position f key =
     and_then (f key) (\<lambda>v. case v of
        HashInt i \<Rightarrow> Inr i
      | HashOther \<Rightarrow> Inl (ValueError ''hash function must return an integer''))"

fun str_nat :: "nat \<Rightarrow> string" where
  "str_nat n = (if n < 10 then [char_of (48 + n)] else str_nat (n div 10) @ [char_of (48 + n mod 10)])"

declare str_nat.simps [simp del]

section \<open>Snapshots and routing\<close>

text \<open>\<open>hash_id\<close> stands for the identity of the callable, which the planner compares.\<close>

record RingSnapshot =
  snap_state :: RingState
  hash_id :: nat
  snap_hash :: hash_callable

definition total_virtual_nodes :: "RingState \<Rightarrow> nat" where
  "total_virtual_nodes st = length (entries st)"

definition start_index :: "hash_callable \<Rightarrow> RingState \<Rightarrow> string \<Rightarrow> nat result" where
  "start_index h st key =
     (if entries st = [] then Inl (RuntimeError ''Hash ring is empty - no nodes available.'')
      else and_then (hash_position h key) (\<lambda>p.
        Inr (bisect_right (positions st) p mod length (entries st))))"

definition get_node :: "RingSnapshot \<Rightarrow> string \<Rightarrow> string result" where
  "get_node v key =
     and_then (start_index (snap_hash v) (snap_state v) key) (\<lambda>i.
       Inr (entry_node (entries (snap_state v) ! i)))"

definition iter_assignments :: "RingSnapshot \<Rightarrow> string list \<Rightarrow> (string \<times> string) list result" where
  "iter_assignments v keys =
     (if entries (snap_state v) = []
      then Inl (RuntimeError ''Hash ring is empty - no nodes available.'')
      else traverse (\<lambda>key. and_then (get_node v key) (\<lambda>n. Inr (key, n))) keys)"

definition get_keys :: "RingSnapshot \<Rightarrow> string \<Rightarrow> string list \<Rightarrow> string list result" where
  "get_keys v node keys =
     (if node \<notin> set (nodes (snap_state v)) then Inl (KeyError ''Node does not exist on the ring.'')
      else and_then (iter_assignments v keys) (\<lambda>ps.
        Inr (map fst (filter (\<lambda>(key, owner). owner = node) ps))))"

text \<open>
  The walk of \<^verbatim>\<open>get_nodes\<close> over the remaining offsets; \<open>result\<close> is also the set \<^verbatim>\<open>seen\<close>.
\<close>

fun walk :: "string list \<Rightarrow> nat \<Rightarrow> string list \<Rightarrow> string list" where
  "walk [] target result = result"
| "walk (n # ns) target result =
     (if n \<in> set result then walk ns target result
      else if length (result @ [n]) = target then result @ [n]
      else walk ns target (result @ [n]))"

definition get_nodes :: "RingSnapshot \<Rightarrow> string \<Rightarrow> int \<Rightarrow> string list result" where
  "get_nodes v key num =
     (if num < 0 then Inl (ValueError ''count must be a non-negative integer'')
      else if num = 0 then Inr []
      else let st = snap_state v; size = length (entries st) in
        and_then (start_index (snap_hash v) st key) (\<lambda>start.
          Inr (walk (map (\<lambda>offset. entry_node (entries st ! ((start + offset) mod size))) [0 ..< size])
                 (min (nat num) (length (nodes st))) [])))"

section \<open>Writers\<close>

record ConsistentHashRing =
  hash_function :: hash_callable
  function_id :: nat
  default_num_virtual_nodes :: int
  max_virtual_nodes :: int
  state :: RingState

definition positive_count :: "int \<Rightarrow> int result" where
  "positive_count value =
     (if value \<le> 0 then Inl (ValueError ''virtual node count must be a positive integer'')
      else Inr value)"

definition validate_node :: "string \<Rightarrow> unit result" where
  "validate_node node = require (node \<noteq> []) (ValueError ''node must be a non-empty string'')"

definition ensure_capacity :: "int \<Rightarrow> int \<Rightarrow> unit result" where
  "ensure_capacity maximum num =
     require (\<not> num > maximum) (ValueError ''maximum virtual node capacity exceeded'')"

definition node_entries :: "hash_callable \<Rightarrow> string \<Rightarrow> nat \<Rightarrow> nat \<Rightarrow> entry list result" where
  "node_entries h node start stop =
     traverse (\<lambda>index. and_then (hash_position h (node @ ''#'' @ str_nat index))
       (\<lambda>p. Inr (p, node, index))) [start ..< stop]"

definition ring_init ::
  "string list \<Rightarrow> int \<Rightarrow> hash_callable \<Rightarrow> nat \<Rightarrow> int \<Rightarrow> ConsistentHashRing result" where
  "ring_init names num_virtual h h_id maximum0 =
     and_then (positive_count num_virtual) (\<lambda>default.
     and_then (positive_count maximum0) (\<lambda>maximum.
     and_then (ensure_capacity maximum default) (\<lambda>_.
     and_then (ensure_capacity maximum (int (length names) * default)) (\<lambda>_.
     and_then (traverse validate_node names) (\<lambda>_.
     and_then (require (distinct names) (ValueError ''duplicate node names'')) (\<lambda>_.
     and_then (traverse (\<lambda>node. node_entries h node 0 (nat default)) names) (\<lambda>es.
       Inr \<lparr>hash_function = h, function_id = h_id, default_num_virtual_nodes = default,
            max_virtual_nodes = maximum, state = build (concat es) names\<rparr>)))))))"

definition publish :: "ConsistentHashRing \<Rightarrow> RingState \<Rightarrow> ConsistentHashRing" where
  "publish r st = r\<lparr>state := st\<rparr>"

definition add_node ::
  "ConsistentHashRing \<Rightarrow> string \<Rightarrow> int option \<Rightarrow> (int list \<times> ConsistentHashRing) result" where
  "add_node r node num_virtual =
     and_then (validate_node node) (\<lambda>_.
     and_then (positive_count (case num_virtual of None \<Rightarrow> default_num_virtual_nodes r | Some k \<Rightarrow> k)) (\<lambda>num.
     let st = state r in
     and_then (require (node \<notin> set (nodes st)) (ValueError ''Node already exists on the ring.'')) (\<lambda>_.
     and_then (ensure_capacity (max_virtual_nodes r) (int (length (entries st)) + num)) (\<lambda>_.
     and_then (node_entries (hash_function r) node 0 (nat num)) (\<lambda>added.
       Inr (map fst added,
            publish r (from_ordered (sort (entries st @ sort added)) (nodes st @ [node]))))))))"

definition remove_node ::
  "ConsistentHashRing \<Rightarrow> string \<Rightarrow> (int list \<times> ConsistentHashRing) result" where
  "remove_node r node =
     and_then (validate_node node) (\<lambda>_.
     let st = state r in
     and_then (require (node \<in> set (nodes st)) (KeyError ''Node does not exist on the ring.'')) (\<lambda>_.
       let removed = sort_key entry_index (filter (\<lambda>e. entry_node e = node) (entries st));
           retained = filter (\<lambda>e. entry_node e \<noteq> node) (entries st);
           ns = filter (\<lambda>n. n \<noteq> node) (nodes st)
       in Inr (map fst removed, publish r (from_ordered retained ns))))"

definition set_virtual_nodes ::
  "ConsistentHashRing \<Rightarrow> string \<Rightarrow> int \<Rightarrow> ConsistentHashRing result" where
  "set_virtual_nodes r node num0 =
     and_then (validate_node node) (\<lambda>_.
     and_then (positive_count num0) (\<lambda>num.
     let st = state r in
     and_then (require (node \<in> set (nodes st)) (KeyError ''Node does not exist on the ring.'')) (\<lambda>_.
     let old_count = int (length (filter (\<lambda>e. entry_node e = node) (entries st))) in
     and_then (ensure_capacity (max_virtual_nodes r) (int (length (entries st)) - old_count + num)) (\<lambda>_.
       if old_count = num then Inr r
       else if num > old_count
       then and_then (node_entries (hash_function r) node (nat old_count) (nat num)) (\<lambda>added.
              Inr (publish r (from_ordered (sort (entries st @ sort added)) (nodes st))))
       else Inr (publish r (from_ordered
              (filter (\<lambda>e. entry_node e \<noteq> node \<or> int (entry_index e) < num) (entries st))
              (nodes st)))))))"

definition snapshot :: "ConsistentHashRing \<Rightarrow> RingSnapshot" where
  "snapshot r = \<lparr>snap_state = state r, hash_id = function_id r, snap_hash = hash_function r\<rparr>"

section \<open>Migration planning\<close>

record AffectedRange =
  range_start :: int
  range_end :: int
  previous_owner :: "string option"
  new_owner :: "string option"

definition range_contains :: "AffectedRange \<Rightarrow> int \<Rightarrow> bool" where
  "range_contains g p =
     (if range_start g < range_end g then range_start g \<le> p \<and> p < range_end g
      else p \<ge> range_start g \<or> p < range_end g)"

text \<open>The sweep of \<^verbatim>\<open>_owners_at_boundaries\<close>: advance past positions up to the boundary.\<close>

function advance :: "int list \<Rightarrow> nat \<Rightarrow> int \<Rightarrow> nat" where
  "advance ps index start =
     (if index < length ps \<and> ps ! index \<le> start then advance ps (Suc index) start else index)"
  by pat_completeness auto
termination
  by (relation "measure (\<lambda>(ps, index, start). length ps - index)") auto

declare advance.simps [simp del]

fun owners_from :: "RingState \<Rightarrow> nat \<Rightarrow> int list \<Rightarrow> string option list" where
  "owners_from st index [] = []"
| "owners_from st index (b # bs) =
     (let i = advance (positions st) index b
      in Some (entry_node (entries st ! (i mod length (entries st)))) # owners_from st i bs)"

definition owners_at_boundaries :: "RingSnapshot \<Rightarrow> int list \<Rightarrow> string option list" where
  "owners_at_boundaries v bs =
     (if entries (snap_state v) = [] then map (\<lambda>_. None) bs else owners_from (snap_state v) 0 bs)"

text \<open>
  \<^verbatim>\<open>affected_ranges\<close>.  The source returns \<open>[]\<close> at once when both views share one state
  object; the test here is equality, and \<open>affected_ranges_same\<close> below shows that the general
  path gives \<open>[]\<close> on equal states too.
\<close>

definition plan_ranges :: "RingSnapshot \<Rightarrow> RingSnapshot \<Rightarrow> AffectedRange list" where
  "plan_ranges before after =
     (let boundaries = remdups_adj (sort (positions (snap_state before) @ positions (snap_state after)));
          owners = zip (owners_at_boundaries before boundaries) (owners_at_boundaries after boundaries);
          row = (\<lambda>(index, old, new).
            \<lparr>range_start = boundaries ! index,
             range_end = boundaries ! ((index + 1) mod length boundaries),
             previous_owner = old, new_owner = new\<rparr>)
      in map row (filter (\<lambda>(index, old, new). old \<noteq> new) (enumerate 0 owners)))"

definition affected_ranges :: "RingSnapshot \<Rightarrow> RingSnapshot \<Rightarrow> AffectedRange list result" where
  "affected_ranges before after =
     (if hash_id before \<noteq> hash_id after
      then Inl (ValueError ''snapshots must use the same hash function instance'')
      else if snap_state before = snap_state after then Inr []
      else Inr (plan_ranges before after))"

record KeyMigration =
  migrated_key :: string
  old_owner :: "string option"
  next_owner :: "string option"

text \<open>
  \<^verbatim>\<open>iter_migrations\<close>: \<open>ranges[bisect_right(starts, p) - 1]\<close> with Python's index \<open>-1\<close> for
  the last range.  The generator is consumed to its end; a key whose hash raises ends it.
\<close>

definition select_range :: "AffectedRange list \<Rightarrow> int \<Rightarrow> AffectedRange" where
  "select_range ranges p =
     (let k = bisect_right (map range_start ranges) p
      in if k = 0 then last ranges else ranges ! (k - 1))"

definition iter_migrations ::
  "RingSnapshot \<Rightarrow> RingSnapshot \<Rightarrow> string list \<Rightarrow> KeyMigration list result" where
  "iter_migrations before after keys =
     and_then (affected_ranges before after) (\<lambda>ranges.
       if ranges = [] then Inr []
       else and_then (traverse (\<lambda>key. and_then (hash_position (snap_hash before) key) (\<lambda>p.
              let interval = select_range ranges p in
              Inr (if range_contains interval p
                   then [\<lparr>migrated_key = key, old_owner = previous_owner interval,
                          next_owner = new_owner interval\<rparr>]
                   else []))) keys) (\<lambda>ms. Inr (concat ms)))"

section \<open>Redistribution report\<close>

text \<open>
  \<^verbatim>\<open>compute_redistribution\<close> over two assignments (a mapping may hold \<open>None\<close>); the check that
  owners are strings is in the type.
\<close>

type_synonym assignment = "(string, string option) dict"

definition record_move ::
  "bool \<Rightarrow> assignment \<Rightarrow> assignment \<Rightarrow> string
   \<Rightarrow> (string, string option \<times> string option) dict \<Rightarrow> (string, string option \<times> string option) dict result"
where
  "record_move strict before after key moved =
     (if strict \<and> (dict_get before key = None \<or> dict_get after key = None)
      then Inl (KeyError ''missing assignment'')
      else let old_server = dict_get_or before key None; new_server = dict_get_or after key None in
        Inr (if old_server \<noteq> new_server \<and> (strict \<or> old_server \<noteq> None \<and> new_server \<noteq> None)
             then dict_set key (old_server, new_server) moved else moved))"

fun redistribute ::
  "bool \<Rightarrow> assignment \<Rightarrow> assignment \<Rightarrow> string list
   \<Rightarrow> (string, string option \<times> string option) dict \<Rightarrow> (string, string option \<times> string option) dict result"
where
  "redistribute strict before after [] moved = Inr moved"
| "redistribute strict before after (key # keys) moved =
     and_then (record_move strict before after key moved) (redistribute strict before after keys)"

definition compute_redistribution ::
  "string list \<Rightarrow> assignment \<Rightarrow> assignment \<Rightarrow> bool
   \<Rightarrow> ((string, string option \<times> string option) dict \<times> nat) result"
where
  "compute_redistribution keys before after strict =
     and_then (redistribute strict before after keys []) (\<lambda>moved. Inr (moved, length moved))"

section \<open>Binary search is a count\<close>

lemma bisect_loop_bounds:
  assumes "lo \<le> hi" and "hi \<le> length xs" and "sorted xs"
    and "\<forall>i < lo. xs ! i \<le> x" and "\<forall>i. hi \<le> i \<and> i < length xs \<longrightarrow> x < xs ! i"
  shows "bisect_loop xs x lo hi \<le> length xs
    \<and> (\<forall>i < bisect_loop xs x lo hi. xs ! i \<le> x)
    \<and> (\<forall>i. bisect_loop xs x lo hi \<le> i \<and> i < length xs \<longrightarrow> x < xs ! i)"
  using assms
proof (induction xs x lo hi rule: bisect_loop.induct)
  case (1 xs x lo hi)
  show ?case
  proof (cases "lo < hi")
    case True
    define mid where "mid = (lo + hi) div 2"
    have mid: "lo \<le> mid" "mid < hi" using True by (auto simp: mid_def)
    show ?thesis
    proof (cases "x < xs ! mid")
      case left: True
      have "\<forall>i. mid \<le> i \<and> i < length xs \<longrightarrow> x < xs ! i"
        using left "1.prems"(3) by (meson less_le_trans sorted_nth_mono)
      with "1.IH"(1) [OF True mid_def left] "1.prems" mid left True show ?thesis
        by (simp add: bisect_loop.simps [of xs x lo hi] flip: mid_def)
    next
      case right: False
      have "\<forall>i < Suc mid. xs ! i \<le> x"
        using right "1.prems"(2,3) mid
        by (metis le_less_trans less_Suc_eq_le not_less order_trans sorted_nth_mono less_le_trans)
      with "1.IH"(2) [OF True mid_def right] "1.prems" mid right True show ?thesis
        by (simp add: bisect_loop.simps [of xs x lo hi] flip: mid_def)
    qed
  next
    case False
    then have "bisect_loop xs x lo hi = lo" by (simp add: bisect_loop.simps)
    with False "1.prems" show ?thesis by simp
  qed
qed

lemma bisect_right_takeWhile:
  assumes "sorted xs"
  shows "bisect_right xs x = length (takeWhile (\<lambda>y. y \<le> x) xs)"
proof -
  let ?r = "bisect_right xs x"
  have b: "?r \<le> length xs" "\<forall>i < ?r. xs ! i \<le> x" "\<forall>i. ?r \<le> i \<and> i < length xs \<longrightarrow> x < xs ! i"
    using bisect_loop_bounds [OF _ order_refl assms, of 0 x]
    unfolding bisect_right_def by (metis (no_types, lifting) le0 leD less_nat_zero_code)+
  have "takeWhile (\<lambda>y. y \<le> x) xs = take ?r xs"
    using b by (intro takeWhile_eq_take_P_nth) (auto simp: not_le)
  with b(1) show ?thesis by simp
qed

section \<open>The clockwise successor\<close>

text \<open>
  The reference definition of ownership: the first entry strictly after the position, else
  the first entry of the ring.
\<close>

definition clockwise :: "entry list \<Rightarrow> int \<Rightarrow> entry" where
  "clockwise es p = (case filter (\<lambda>e. p < fst e) es of [] \<Rightarrow> hd es | e # _ \<Rightarrow> e)"

lemma sorted_map_fst: "sorted es \<Longrightarrow> sorted (map fst (es :: entry list))"
  by (induction es) (auto simp: less_eq_prod_def)

lemma filter_sorted_dropWhile:
  "sorted (map fst es) \<Longrightarrow> filter (\<lambda>e. p < fst e) es = dropWhile (\<lambda>e. fst e \<le> p) es"
  for p :: "'a :: linorder"
proof (induction es)
  case (Cons e es)
  show ?case
  proof (cases "fst e \<le> p")
    case False
    with Cons.prems have "\<forall>x \<in> set es. p < fst x" by force
    with False show ?thesis by (simp add: filter_id_conv)
  qed (use Cons in simp)
qed simp

lemma clockwise_bisect:
  assumes "sorted (es :: entry list)" and "es \<noteq> []"
  shows "es ! (bisect_right (map fst es) p mod length es) = clockwise es p"
proof -
  note so = sorted_map_fst [OF assms(1)]
  let ?r = "length (takeWhile (\<lambda>e. fst e \<le> p) es)"
  have r: "bisect_right (map fst es) p = ?r"
    by (simp add: bisect_right_takeWhile [OF so] takeWhile_map comp_def)
  show ?thesis
  proof (cases "?r < length es")
    case True
    then have "dropWhile (\<lambda>e. fst e \<le> p) es = es ! ?r # tl (dropWhile (\<lambda>e. fst e \<le> p) es)"
      by (metis dropWhile_eq_drop Cons_nth_drop_Suc list.sel(3))
    then have "clockwise es p = es ! ?r"
      unfolding clockwise_def filter_sorted_dropWhile [OF so] by (metis list.simps(5))
    with True show ?thesis by (simp add: r)
  next
    case False
    then have "?r = length es" using length_takeWhile_le by (metis le_neq_implies_less)
    moreover from this have "filter (\<lambda>e. p < fst e) es = []"
      by (simp add: filter_sorted_dropWhile [OF so] dropWhile_eq_drop)
    ultimately show ?thesis using assms(2)
      by (simp add: r clockwise_def hd_conv_nth)
  qed
qed

lemma clockwise_in: "es \<noteq> [] \<Longrightarrow> clockwise es p \<in> set es"
proof (cases "filter (\<lambda>e. p < fst e) es")
  case (Cons e es')
  then have "e \<in> set es" by (metis filter_is_subset list.set_intros(1) subsetD)
  with Cons show ?thesis by (simp add: clockwise_def)
qed (simp add: clockwise_def)

lemma clockwise_least:
  assumes "sorted es" and "es \<noteq> []"
  shows "if \<exists>e' \<in> set es. p < fst e'
    then p < fst (clockwise es p) \<and> (\<forall>e' \<in> set es. p < fst e' \<longrightarrow> clockwise es p \<le> e')
    else \<forall>e' \<in> set es. clockwise es p \<le> e'"
proof (cases "filter (\<lambda>e. p < fst e) es")
  case Nil
  then have "\<not> (\<exists>e' \<in> set es. p < fst e')" by (auto simp: filter_empty_conv)
  moreover have "\<forall>e' \<in> set es. hd es \<le> e'" using assms by (cases es) auto
  ultimately show ?thesis using Nil by (simp add: clockwise_def)
next
  case (Cons e es')
  then have mem: "e \<in> set (filter (\<lambda>e. p < fst e) es)" by simp
  have "sorted (e # es')" using assms(1) sorted_filter [of id es] Cons by (metis id_apply list.map_id)
  then have "\<forall>e' \<in> set (filter (\<lambda>e. p < fst e) es). e \<le> e'" unfolding Cons by simp
  then have "\<forall>e' \<in> set es. p < fst e' \<longrightarrow> e \<le> e'" by (simp only: set_filter) blast
  moreover have "e \<in> set es" "p < fst e" using mem by (simp_all only: set_filter) blast+
  ultimately show ?thesis using Cons by (auto simp: clockwise_def)
qed

text \<open>Dropping entries that do not own a position leaves its owner in place.\<close>

lemma hd_filter: "xs \<noteq> [] \<Longrightarrow> P (hd xs) \<Longrightarrow> filter P xs = hd xs # filter P (tl xs)"
  by (cases xs) simp_all

lemma clockwise_filter:
  assumes "es \<noteq> []" and "Q (clockwise es p)"
  shows "clockwise (filter Q es) p = clockwise es p"
proof (cases "filter (\<lambda>e. p < fst e) es")
  case Nil
  then have "filter (\<lambda>e. p < fst e) (filter Q es) = []"
    by (auto simp: filter_empty_conv)
  with Nil assms hd_filter [of es Q] show ?thesis by (simp add: clockwise_def)
next
  case (Cons e es')
  then have "clockwise es p = e" by (simp add: clockwise_def)
  with assms Cons have "filter Q (filter (\<lambda>e. p < fst e) es) = e # filter Q es'" by simp
  then have "filter (\<lambda>e. p < fst e) (filter Q es) = e # filter Q es'"
    by (simp add: conj_commute)
  with \<open>clockwise es p = e\<close> show ?thesis by (simp add: clockwise_def)
qed

section \<open>Well-formed topologies\<close>

text \<open>
  The entries of a topology are those of its nodes, each with its hashed indices below the
  node's weight, in order and without repetition.
\<close>

definition vnode_key :: "string \<Rightarrow> nat \<Rightarrow> string" where
  "vnode_key node index = node @ ''#'' @ str_nat index"

definition weighted :: "hash_callable \<Rightarrow> (string \<Rightarrow> nat) \<Rightarrow> entry set" where
  "weighted h w = {(p, n, i). i < w n \<and> hash_position h (vnode_key n i) = Inr p}"

definition weights_of :: "hash_callable \<Rightarrow> (string \<Rightarrow> nat) \<Rightarrow> RingState \<Rightarrow> bool" where
  "weights_of h w st \<longleftrightarrow>
     (\<forall>n. 0 < w n \<longleftrightarrow> n \<in> set (nodes st))
     \<and> (\<forall>n. \<forall>i < w n. \<exists>p. hash_position h (vnode_key n i) = Inr p)
     \<and> set (entries st) = weighted h w"

definition state_ok :: "hash_callable \<Rightarrow> RingState \<Rightarrow> bool" where
  "state_ok h st \<longleftrightarrow>
     sorted (entries st) \<and> distinct (entries st) \<and> positions st = map fst (entries st)
     \<and> distinct (nodes st) \<and> [] \<notin> set (nodes st) \<and> (\<exists>w. weights_of h w st)"

definition ring_ok :: "ConsistentHashRing \<Rightarrow> bool" where
  "ring_ok r \<longleftrightarrow> state_ok (hash_function r) (state r)
     \<and> int (length (entries (state r))) \<le> max_virtual_nodes r"

lemma node_entries_Inr:
  assumes "node_entries h node a b = Inr es"
  shows "set es = {(p, n, i). n = node \<and> a \<le> i \<and> i < b \<and> hash_position h (vnode_key n i) = Inr p}"
    and "\<forall>i. a \<le> i \<and> i < b \<longrightarrow> (\<exists>p. hash_position h (vnode_key node i) = Inr p)"
    and "map entry_index es = [a ..< b]" and "distinct es" and "length es = b - a"
proof -
  have all2: "list_all2 (\<lambda>i e. \<exists>p. hash_position h (vnode_key node i) = Inr p \<and> e = (p, node, i))
      [a ..< b] es"
    using assms unfolding node_entries_def vnode_key_def traverse_Inr_iff
    by (rule list_all2_mono) (auto simp: result_simps)
  then have len: "length es = b - a" by (auto dest: list_all2_lengthD)
  have nth: "\<exists>p. hash_position h (vnode_key node (a + k)) = Inr p \<and> es ! k = (p, node, a + k)"
    if "k < b - a" for k
    using list_all2_nthD [OF all2, of k] that by simp
  show "map entry_index es = [a ..< b]"
    using nth len by (intro nth_equalityI) (auto, fastforce)
  then show "distinct es" by (metis distinct_upt distinct_map)
  show "length es = b - a" by (fact len)
  show "\<forall>i. a \<le> i \<and> i < b \<longrightarrow> (\<exists>p. hash_position h (vnode_key node i) = Inr p)"
    using nth by (metis add_diff_inverse_nat diff_less_mono not_less)
  show "set es = {(p, n, i). n = node \<and> a \<le> i \<and> i < b \<and> hash_position h (vnode_key n i) = Inr p}"
    (is "_ = ?E")
  proof
    show "set es \<subseteq> ?E" using nth len by (fastforce simp: in_set_conv_nth)
    show "?E \<subseteq> set es"
    proof clarify
      fix p i assume "a \<le> i" "i < b" "hash_position h (vnode_key node i) = Inr p"
      with nth [of "i - a"] len have "es ! (i - a) = (p, node, i)" "i - a < length es" by auto
      then show "(p, node, i) \<in> set es" by (metis nth_mem)
    qed
  qed
qed

lemma entries_nodes: "weights_of h w st \<Longrightarrow> entry_node ` set (entries st) = set (nodes st)"
  by (auto simp: weights_of_def weighted_def image_iff) fastforce

lemma entries_nonempty_iff: "state_ok h st \<Longrightarrow> entries st = [] \<longleftrightarrow> nodes st = []"
  using entries_nodes by (fastforce simp: state_ok_def)

lemma weights_of_new:
  assumes w: "weights_of h w st" and fresh: "node \<notin> set (nodes st)" and "0 < m"
    and es: "node_entries h node 0 m = Inr es" and "set (entries st') = set (entries st) \<union> set es"
    and "set (nodes st') = insert node (set (nodes st))"
  shows "weights_of h (w(node := m)) st'"
  using assms node_entries_Inr(1,2) [OF es]
  by (auto simp: weights_of_def weighted_def split: if_splits)

lemma weights_of_remove:
  assumes "weights_of h w st" and "set (entries st') = {e \<in> set (entries st). entry_node e \<noteq> node}"
    and "set (nodes st') = set (nodes st) - {node}"
  shows "weights_of h (w(node := 0)) st'"
  using assms by (auto simp: weights_of_def weighted_def split: if_splits)

lemma weight_count:
  assumes "weights_of h w st" and "distinct (entries st)"
  shows "length (filter (\<lambda>e. entry_node e = node) (entries st)) = w node"
proof -
  let ?f = "filter (\<lambda>e. entry_node e = node) (entries st)"
  have "entry_index ` set ?f = {..< w node}"
    using assms(1) by (auto simp: weights_of_def weighted_def image_iff)
  moreover have "inj_on entry_index (set ?f)"
    using assms(1) by (auto simp: weights_of_def weighted_def inj_on_def)
  ultimately have "card (set ?f) = w node"
    by (metis card_image card_lessThan)
  with assms(2) show ?thesis by (metis distinct_card distinct_filter)
qed

lemma from_ordered_sel [simp]:
  "entries (from_ordered es ns) = es" "positions (from_ordered es ns) = map fst es"
  "nodes (from_ordered es ns) = ns"
  by (simp_all add: from_ordered_def)

lemma publish_sel [simp]:
  "state (publish r st) = st" "hash_function (publish r st) = hash_function r"
  "max_virtual_nodes (publish r st) = max_virtual_nodes r"
  by (simp_all add: publish_def)

lemmas writer_defs = validate_node_def positive_count_def ensure_capacity_def

lemma length_filter_bound: "int (length xs) \<le> m \<Longrightarrow> int (length (filter P xs)) \<le> m"
  using length_filter_le [of P xs] by linarith

text \<open>What each writer does to the topology, once its guards have passed.\<close>

lemma add_node_Inr:
  assumes "add_node r node k = Inr (ps, r')"
  obtains m added where "node \<noteq> []" "0 < m" "node \<notin> set (nodes (state r))"
    "int (length (entries (state r))) + int m \<le> max_virtual_nodes r"
    "node_entries (hash_function r) node 0 m = Inr added" "ps = map fst added"
    "r' = publish r (from_ordered (sort (entries (state r) @ sort added)) (nodes (state r) @ [node]))"
proof -
  let ?n = "case k of None \<Rightarrow> default_num_virtual_nodes r | Some j \<Rightarrow> j"
  from assms obtain added where "node \<noteq> []" "0 < ?n" "node \<notin> set (nodes (state r))"
    "int (length (entries (state r))) + ?n \<le> max_virtual_nodes r"
    "node_entries (hash_function r) node 0 (nat ?n) = Inr added" "ps = map fst added"
    "r' = publish r (from_ordered (sort (entries (state r) @ sort added)) (nodes (state r) @ [node]))"
    by (auto simp: add_node_def writer_defs result_simps Let_def split: if_splits)
  then show thesis by (intro that [of "nat ?n" added]) auto
qed

lemma remove_node_Inr:
  "remove_node r node = Inr (ps, r') \<longleftrightarrow>
     node \<noteq> [] \<and> node \<in> set (nodes (state r))
     \<and> ps = map fst (sort_key entry_index (filter (\<lambda>e. entry_node e = node) (entries (state r))))
     \<and> r' = publish r (from_ordered (filter (\<lambda>e. entry_node e \<noteq> node) (entries (state r)))
              (filter (\<lambda>n. n \<noteq> node) (nodes (state r))))"
  by (auto simp: remove_node_def writer_defs result_simps Let_def)

lemma add_node_ok:
  assumes "ring_ok r" and "add_node r node k = Inr (ps, r')"
  shows "ring_ok r'"
  using assms(2)
proof (cases rule: add_node_Inr)
  case (1 m added)
  obtain w where w: "weights_of (hash_function r) w (state r)"
    using assms(1) by (auto simp: ring_ok_def state_ok_def)
  have "weights_of (hash_function r) (w(node := m)) (state r')"
    using 1 by (intro weights_of_new [OF w]) auto
  moreover have "set (entries (state r)) \<inter> set added = {}"
    using node_entries_Inr(1) [OF 1(5)] entries_nodes [OF w] 1(3) by force
  ultimately show ?thesis
    using 1 assms(1) node_entries_Inr(4,5) [OF 1(5)]
    by (auto simp: ring_ok_def state_ok_def)
qed

lemma remove_node_ok:
  assumes "ring_ok r" and "remove_node r node = Inr (ps, r')"
  shows "ring_ok r'"
proof -
  have r': "r' = publish r (from_ordered (filter (\<lambda>e. entry_node e \<noteq> node) (entries (state r)))
      (filter (\<lambda>n. n \<noteq> node) (nodes (state r))))"
    using assms(2) by (simp add: remove_node_Inr)
  obtain w where w: "weights_of (hash_function r) w (state r)"
    using assms(1) by (auto simp: ring_ok_def state_ok_def)
  have "weights_of (hash_function r) (w(node := 0)) (state r')"
    by (rule weights_of_remove [OF w]) (auto simp: r')
  then show ?thesis
    using assms(1) sorted_filter [of id "entries (state r)"]
    by (auto simp: ring_ok_def state_ok_def r' length_filter_bound)
qed

lemma set_virtual_nodes_cases:
  assumes "ring_ok r" and "set_virtual_nodes r node k = Inr r'"
  obtains (same) "r' = r"
    | (grow) old added where "weights_of (hash_function r) old (state r)" "node \<in> set (nodes (state r))"
        "old node < nat k" "node_entries (hash_function r) node (old node) (nat k) = Inr added"
        "int (length (entries (state r))) - int (old node) + k \<le> max_virtual_nodes r"
        "r' = publish r (from_ordered (sort (entries (state r) @ sort added)) (nodes (state r)))"
    | (shrink) old where "weights_of (hash_function r) old (state r)" "node \<in> set (nodes (state r))"
        "nat k < old node" "0 < k"
        "r' = publish r (from_ordered
              (filter (\<lambda>e. entry_node e \<noteq> node \<or> int (entry_index e) < k) (entries (state r)))
              (nodes (state r)))"
proof -
  obtain w where w: "weights_of (hash_function r) w (state r)" and d: "distinct (entries (state r))"
    using assms(1) by (auto simp: ring_ok_def state_ok_def)
  note cnt = weight_count [OF w d, of node]
  from assms(2) have n: "node \<in> set (nodes (state r))" "0 < k"
    and cap: "int (length (entries (state r))) - int (w node) + k \<le> max_virtual_nodes r"
    and r': "(if int (w node) = k then Inr r
       else if k > int (w node)
       then and_then (node_entries (hash_function r) node (nat (int (w node))) (nat k)) (\<lambda>added.
              Inr (publish r (from_ordered (sort (entries (state r) @ sort added)) (nodes (state r)))))
       else Inr (publish r (from_ordered
              (filter (\<lambda>e. entry_node e \<noteq> node \<or> int (entry_index e) < k) (entries (state r)))
              (nodes (state r))))) = Inr r'"
    by (auto simp: set_virtual_nodes_def writer_defs result_simps Let_def cnt split: if_splits)
  consider "int (w node) = k" | "k > int (w node)" | "k < int (w node)" by linarith
  then show thesis
  proof cases
    case 1
    with r' same show thesis by simp
  next
    case 2
    with r' n w cap show thesis by (auto simp: result_simps intro: grow)
  next
    case 3
    with r' n w show thesis by (intro shrink [OF w]) auto
  qed
qed

lemma set_virtual_nodes_ok:
  assumes ok: "ring_ok r" and "set_virtual_nodes r node k = Inr r'"
  shows "ring_ok r' \<and> nodes (state r') = nodes (state r)"
  using assms
proof (cases rule: set_virtual_nodes_cases)
  case same
  with ok show ?thesis by simp
next
  case (grow old added)
  have "set (entries (state r)) \<inter> set added = {}"
    using grow(1) node_entries_Inr(1) [OF grow(4)] by (auto simp: weights_of_def weighted_def)
  moreover have "weights_of (hash_function r) (old(node := nat k)) (state r')"
    using grow node_entries_Inr(1,2) [OF grow(4)]
    by (auto simp: weights_of_def weighted_def not_le split: if_splits) (metis not_le)
  ultimately show ?thesis
    using grow ok node_entries_Inr(4,5) [OF grow(4)]
    by (auto simp: ring_ok_def state_ok_def)
next
  case (shrink old)
  have "weights_of (hash_function r) (old(node := nat k)) (state r')"
    using shrink by (auto simp: weights_of_def weighted_def split: if_splits)
  then show ?thesis
    using shrink ok sorted_filter [of id "entries (state r)"]
    by (auto simp: ring_ok_def state_ok_def length_filter_bound)
qed

lemma traverse_unit: "traverse f xs = Inr us \<Longrightarrow> \<forall>x \<in> set xs. \<exists>u. f x = Inr u"
  by (auto simp: result_simps list_all2_conv_all_nth in_set_conv_nth)

lemma concat_entries:
  assumes "list_all2 (\<lambda>node es. node_entries h node 0 m = Inr es) ns ess"
  shows "set (concat ess) = {(p, n, i). n \<in> set ns \<and> i < m \<and> hash_position h (vnode_key n i) = Inr p}"
    and "\<forall>n \<in> set ns. \<forall>i < m. \<exists>p. hash_position h (vnode_key n i) = Inr p"
    and "length (concat ess) = length ns * m"
    and "distinct ns \<Longrightarrow> distinct (concat ess)"
  using assms
proof (induction rule: list_all2_induct)
  case (Cons n ns es ess)
  note es = node_entries_Inr [OF Cons.hyps(1)]
  { case 1 show ?case using Cons.IH(1) es(1) by auto }
  { case 2 show ?case using Cons.IH(2) es(2) by auto }
  { case 3 show ?case using Cons.IH(3) es(5) by simp }
  { case 4
    then have "set es \<inter> set (concat ess) = {}" unfolding es(1) Cons.IH(1) by auto
    with 4 show ?case using Cons.IH(4) es(4) by simp }
qed auto

lemma ring_init_ok:
  assumes "ring_init names k h hid cap = Inr r"
  shows "ring_ok r \<and> nodes (state r) = names \<and> hash_function r = h"
proof -
  from assms obtain us ess where k: "0 < k" and cap: "int (length names) * k \<le> cap"
    and us: "traverse validate_node names = Inr us" and d: "distinct names"
    and ess: "traverse (\<lambda>node. node_entries h node 0 (nat k)) names = Inr ess"
    and r: "r = \<lparr>hash_function = h, function_id = hid, default_num_virtual_nodes = k,
       max_virtual_nodes = cap, state = build (concat ess) names\<rparr>"
    by (auto simp: ring_init_def writer_defs result_simps split: if_splits)
  have "list_all2 (\<lambda>node es. node_entries h node 0 (nat k) = Inr es) names ess"
    using ess by (simp add: traverse_Inr_iff)
  note es = concat_entries [OF this]
  have "weights_of h (\<lambda>n. if n \<in> set names then nat k else 0) (build (concat ess) names)"
    using es(2) k unfolding weights_of_def weighted_def build_def
    by (auto simp: es(1) simp del: set_concat split: if_splits)
  moreover have "[] \<notin> set names"
    using traverse_unit [OF us] by (auto simp: validate_node_def)
  ultimately show ?thesis
    using d cap k es(3,4) by (auto simp: ring_ok_def state_ok_def r build_def simp del: length_concat)
qed

section \<open>Routing\<close>

lemma start_index_ok:
  assumes "state_ok h st" and "start_index h st key = Inr i"
  shows "i < length (entries st) \<and> (\<exists>p. hash_position h key = Inr p
    \<and> entries st ! i = clockwise (entries st) p)"
  using assms clockwise_bisect [of "entries st"]
  by (auto simp: start_index_def state_ok_def result_simps split: if_splits)

lemma get_node_clockwise:
  assumes "state_ok (snap_hash v) (snap_state v)"
  shows "get_node v key = Inr n \<longleftrightarrow> entries (snap_state v) \<noteq> []
    \<and> (\<exists>p. hash_position (snap_hash v) key = Inr p
          \<and> n = entry_node (clockwise (entries (snap_state v)) p))"
  using assms clockwise_bisect [of "entries (snap_state v)"]
  by (auto simp: get_node_def start_index_def state_ok_def result_simps)

lemma snapshot_sel [simp]:
  "snap_state (snapshot r) = state r" "snap_hash (snapshot r) = hash_function r"
  "hash_id (snapshot r) = function_id r"
  by (simp_all add: snapshot_def)

text \<open>Adding a node only inserts its own entries into the order.\<close>

lemma add_node_entries:
  assumes "ring_ok r" and "add_node r node k = Inr (ps, r')"
  shows "filter (\<lambda>e. entry_node e \<noteq> node) (entries (state r')) = entries (state r)
    \<and> filter (\<lambda>n. n \<noteq> node) (nodes (state r')) = nodes (state r)
    \<and> hash_function r' = hash_function r \<and> function_id r' = function_id r"
  using assms(2)
proof (cases rule: add_node_Inr)
  case (1 m added)
  obtain w where so: "sorted (entries (state r))" and "weights_of (hash_function r) w (state r)"
    using assms(1) by (auto simp: ring_ok_def state_ok_def)
  with 1(3) have keep: "\<forall>e \<in> set (entries (state r)). entry_node e \<noteq> node"
    using entries_nodes by blast
  have drop: "\<forall>e \<in> set added. entry_node e = node"
    using node_entries_Inr(1) [OF 1(5)] by auto
  have "filter (\<lambda>e. entry_node e \<noteq> node) (sort (entries (state r) @ sort added)) = entries (state r)"
    using keep drop so
    by (simp add: filter_sort filter_True filter_False sorted_sort_id)
  moreover have "filter (\<lambda>n. n \<noteq> node) (nodes (state r) @ [node]) = nodes (state r)"
    using 1(3) by (auto intro: filter_True)
  ultimately show ?thesis using 1 by (simp add: publish_def)
qed

text \<open>The walk of \<open>get_nodes\<close>.\<close>

lemma walk_result:
  assumes "distinct res" and "length res < target"
  shows "distinct (walk ns target res) \<and> set (walk ns target res) \<subseteq> set res \<union> set ns
    \<and> length (walk ns target res) = min target (card (set res \<union> set ns))
    \<and> take (length res) (walk ns target res) = res"
  using assms
proof (induction ns arbitrary: res)
  case Nil
  then show ?case by (auto simp: distinct_card)
next
  case (Cons n ns)
  show ?case
  proof (cases "n \<in> set res")
    case True
    with Cons show ?thesis by (auto simp: insert_absorb)
  next
    case new: False
    have ins: "set (res @ [n]) \<union> set ns = set res \<union> set (n # ns)" by auto
    show ?thesis
    proof (cases "length (res @ [n]) = target")
      case True
      have "card (set (res @ [n])) \<le> card (set res \<union> set (n # ns))"
        by (rule card_mono) auto
      with True new Cons.prems(1) show ?thesis by (auto simp: distinct_card)
    next
      case False
      with Cons.prems new have "distinct (res @ [n])" "length (res @ [n]) < target" by auto
      from Cons.IH [OF this] new False ins show ?thesis
        by (auto simp: take_Suc_conv_app_nth dest: arg_cong [where f = "take (length res)"])
    qed
  qed
qed

lemma walk_first: "0 < target \<Longrightarrow> walk (n # ns) target [] ! 0 = n"
proof (cases "target = 1")
  case False
  assume "0 < target"
  with False have "take 1 (walk ns target [n]) = [n]"
    using walk_result [of "[n]" target ns] by simp
  then have "walk ns target [n] ! 0 = n"
    by (metis nth_Cons_0 nth_take zero_less_one)
  with False show ?thesis by simp
qed simp

lemma rotated_entries:
  "map (\<lambda>offset. es ! ((start + offset) mod length es)) [0 ..< length es] = rotate start es"
  by (rule nth_equalityI) (auto simp: nth_rotate)

lemma add_remove_roundtrip:
  assumes ok: "ring_ok r" and add: "add_node r node k = Inr (ps, r')"
  shows "remove_node r' node = Inr (ps, r)"
  using add
proof (cases rule: add_node_Inr)
  case (1 m added)
  note es = add_node_entries [OF ok add]
  obtain w where w: "weights_of (hash_function r) w (state r)"
    and pos: "positions (state r) = map fst (entries (state r))"
    using ok by (auto simp: ring_ok_def state_ok_def)
  have old: "filter (\<lambda>e. entry_node e = node) (entries (state r)) = []"
    using entries_nodes [OF w] 1(3) by (auto simp: filter_empty_conv)
  have new: "filter (\<lambda>e. entry_node e = node) added = added"
    using node_entries_Inr(1) [OF 1(5)] by (auto intro: filter_True)
  have "filter (\<lambda>e. entry_node e = node) (entries (state r')) = sort added"
    using 1(7) old new by (simp add: filter_sort sorted_sort_id)
  moreover have "sort_key entry_index (sort added) = added"
  proof (rule sort_key_inj_key_eq)
    show "inj_on entry_index (set (sort added))"
      using node_entries_Inr(3) [OF 1(5)] distinct_upt [of 0 m] by (metis distinct_map set_sort)
    show "sorted (map entry_index added)" by (simp add: node_entries_Inr(3) [OF 1(5)])
  qed simp
  moreover have "from_ordered (entries (state r)) (nodes (state r)) = state r"
    by (simp add: from_ordered_def flip: pos)
  ultimately show ?thesis
    using 1 es by (simp add: remove_node_Inr publish_def)
qed

lemma remove_node_locality:
  assumes ok: "ring_ok r" and rem: "remove_node r node = Inr (ps, r')"
    and own: "get_node (snapshot r) key = Inr n" and "n \<noteq> node"
  shows "get_node (snapshot r') key = Inr n"
proof -
  have st: "state_ok (hash_function r) (state r)" "state_ok (hash_function r') (state r')"
    using ok remove_node_ok [OF ok rem] by (simp_all add: ring_ok_def)
  have r': "entries (state r') = filter (\<lambda>e. entry_node e \<noteq> node) (entries (state r))"
    "hash_function r' = hash_function r"
    using rem by (auto simp: remove_node_Inr)
  from own obtain p where ne: "entries (state r) \<noteq> []" and p: "hash_position (hash_function r) key = Inr p"
    and n: "n = entry_node (clockwise (entries (state r)) p)"
    using get_node_clockwise [of "snapshot r"] st by auto
  have "clockwise (entries (state r')) p = clockwise (entries (state r)) p"
    unfolding r' using ne n assms(4) by (intro clockwise_filter) auto
  moreover have "entries (state r') \<noteq> []"
    using clockwise_in [OF ne, of p] n assms(4) by (auto simp: r' filter_empty_conv)
  ultimately show ?thesis
    using get_node_clockwise [of "snapshot r'"] st p n r' by auto
qed

lemma add_node_locality:
  assumes ok: "ring_ok r" and add: "add_node r node k = Inr (ps, r')"
    and own: "get_node (snapshot r') key = Inr n" and "n \<noteq> node"
  shows "get_node (snapshot r) key = Inr n"
  using remove_node_locality [OF add_node_ok [OF ok add] add_remove_roundtrip [OF ok add] own assms(4)] .

lemma get_nodes_result:
  assumes "state_ok (snap_hash v) (snap_state v)" and "get_nodes v key num = Inr ns" and "0 < num"
  shows "distinct ns \<and> set ns \<subseteq> set (nodes (snap_state v))
    \<and> length ns = min (nat num) (length (nodes (snap_state v)))
    \<and> (\<exists>n. get_node v key = Inr n \<and> ns ! 0 = n)"
proof -
  let ?st = "snap_state v" and ?es = "entries (snap_state v)"
  from assms obtain start where s: "start_index (snap_hash v) ?st key = Inr start"
    and ns: "ns = walk (map (\<lambda>offset. entry_node (?es ! ((start + offset) mod length ?es))) [0 ..< length ?es])
        (min (nat num) (length (nodes ?st))) []"
    by (auto simp: get_nodes_def result_simps Let_def)
  have start: "start < length ?es" using start_index_ok [OF assms(1) s] by simp
  obtain w where w: "weights_of (snap_hash v) w ?st" and d: "distinct (nodes ?st)"
    using assms(1) by (auto simp: state_ok_def)
  have "map (\<lambda>offset. entry_node (?es ! ((start + offset) mod length ?es))) [0 ..< length ?es]
      = map entry_node (rotate start ?es)"
    by (simp flip: rotated_entries add: comp_def)
  moreover have seq: "set (map entry_node (rotate start ?es)) = set (nodes ?st)"
    using entries_nodes [OF w] by simp
  moreover have target: "0 < min (nat num) (length (nodes ?st))"
    using start assms(3) entries_nonempty_iff [OF assms(1)] by auto
  ultimately have 1: "distinct ns" "set ns \<subseteq> set (nodes ?st)"
    "length ns = min (nat num) (length (nodes ?st))"
    using walk_result [of "[]" "min (nat num) (length (nodes ?st))" "map entry_node (rotate start ?es)"]
      distinct_card [OF d] by (simp_all add: ns)
  have "[0 ..< length ?es] = 0 # [1 ..< length ?es]"
    using start upt_conv_Cons [of 0 "length ?es"] by (metis One_nat_def less_nat_zero_code neq0_conv)
  then have "ns ! 0 = entry_node (?es ! start)"
    using start walk_first [OF target] by (simp add: ns del: walk.simps)
  with 1 s show ?thesis by (simp add: get_node_def)
qed

section \<open>The migration planner\<close>

definition owner_at :: "RingState \<Rightarrow> int \<Rightarrow> string option" where
  "owner_at st p =
     (if entries st = [] then None else Some (entry_node (clockwise (entries st) p)))"

lemma takeWhile_mono_length:
  "sorted xs \<Longrightarrow> a \<le> b \<Longrightarrow>
   length (takeWhile (\<lambda>x. x \<le> a) xs) \<le> length (takeWhile (\<lambda>x. x \<le> b) xs)"
  for a b :: "'a :: linorder"
  by (induction xs) auto

lemma advance_count:
  assumes "sorted ps" and "index \<le> length (takeWhile (\<lambda>x. x \<le> b) ps)"
  shows "advance ps index b = length (takeWhile (\<lambda>x. x \<le> b) ps)"
  using assms(2)
proof (induction "length ps - index" arbitrary: index rule: less_induct)
  case less
  let ?c = "length (takeWhile (\<lambda>x. x \<le> b) ps)"
  have c: "?c \<le> length ps" by (rule length_takeWhile_le)
  show ?case
  proof (cases "index = ?c")
    case True
    then have "\<not> (index < length ps \<and> ps ! index \<le> b)"
      using nth_length_takeWhile [of "\<lambda>x. x \<le> b" ps] by auto
    then have "advance ps index b = index" by (subst advance.simps) (rule if_not_P)
    then show ?thesis using True by simp
  next
    case False
    with less.prems have lt: "index < ?c" by simp
    then have "ps ! index \<le> b"
      using set_takeWhileD nth_mem takeWhile_nth by metis
    with lt c less.hyps [of "Suc index"] show ?thesis
      by (subst advance.simps) auto
  qed
qed

lemma owners_from_map:
  assumes "sorted (entries st)" and "entries st \<noteq> []" and "positions st = map fst (entries st)"
    and "sorted bs" and "\<forall>b \<in> set bs. index \<le> length (takeWhile (\<lambda>x. x \<le> b) (positions st))"
  shows "owners_from st index bs = map (owner_at st) bs"
  using assms(4,5)
proof (induction bs arbitrary: index)
  case (Cons b bs)
  have so: "sorted (positions st)" using assms(1,3) sorted_map_fst by simp
  have adv: "advance (positions st) index b = length (takeWhile (\<lambda>x. x \<le> b) (positions st))"
    using Cons.prems so by (simp add: advance_count)
  have "entries st ! (length (takeWhile (\<lambda>x. x \<le> b) (positions st)) mod length (entries st))
      = clockwise (entries st) b"
    using clockwise_bisect [OF assms(1,2), of b] so bisect_right_takeWhile [OF so, of b]
    by (simp add: assms(3))
  moreover have "owners_from st (length (takeWhile (\<lambda>x. x \<le> b) (positions st))) bs = map (owner_at st) bs"
    using Cons.prems so by (intro Cons.IH) (auto intro: takeWhile_mono_length)
  ultimately show ?case using assms(2) by (simp add: adv owner_at_def Let_def)
qed simp

lemma owners_at_boundaries_map:
  assumes "state_ok h (snap_state v)" and "sorted bs"
  shows "owners_at_boundaries v bs = map (owner_at (snap_state v)) bs"
  using assms owners_from_map [of "snap_state v" bs 0]
  by (auto simp: owners_at_boundaries_def state_ok_def owner_at_def)

text \<open>Between two consecutive boundaries the owner does not change.\<close>

lemma owner_at_between:
  assumes "a \<le> p" and "\<forall>q \<in> fst ` set (entries st). q \<le> a \<or> p < q"
  shows "owner_at st p = owner_at st a"
proof -
  have "filter (\<lambda>e. p < fst e) (entries st) = filter (\<lambda>e. a < fst e) (entries st)"
    using assms by (intro filter_cong) fastforce+
  then show ?thesis by (simp add: owner_at_def clockwise_def)
qed

lemma owner_at_wrap:
  assumes "\<forall>q \<in> fst ` set (entries st). p < q \<and> q \<le> a"
  shows "owner_at st p = owner_at st a"
proof -
  have "filter (\<lambda>e. p < fst e) (entries st) = entries st" "filter (\<lambda>e. a < fst e) (entries st) = []"
    using assms by (auto simp: filter_id_conv filter_empty_conv)
  then show ?thesis by (simp add: owner_at_def clockwise_def split: list.split)
qed

text \<open>The index of the cyclic interval that holds a position.\<close>

definition interval_of :: "int list \<Rightarrow> int \<Rightarrow> nat" where
  "interval_of bs p =
     (let k = length (takeWhile (\<lambda>x. x \<le> p) bs) in if k = 0 then length bs - 1 else k - 1)"

lemma takeWhile_le_nth:
  assumes "sorted_wrt (<) bs" and "i < length bs"
  shows "bs ! i \<le> p \<longleftrightarrow> i < length (takeWhile (\<lambda>x. x \<le> p) (bs :: int list))"
proof -
  let ?k = "length (takeWhile (\<lambda>x. x \<le> p) bs)"
  show ?thesis
  proof
    assume "bs ! i \<le> p"
    show "i < ?k"
    proof (rule ccontr)
      assume "\<not> i < ?k"
      then have k: "?k < length bs" "?k \<le> i" using assms(2) by auto
      then have "p < bs ! ?k" using nth_length_takeWhile [OF k(1)] by simp
      also have "bs ! ?k \<le> bs ! i"
        using assms k by (metis le_neq_implies_less order_less_imp_le order_refl sorted_wrt_nth_less)
      finally show False using \<open>bs ! i \<le> p\<close> by simp
    qed
  next
    assume "i < ?k"
    then show "bs ! i \<le> p" by (metis nth_mem set_takeWhileD takeWhile_nth)
  qed
qed

lemma interval_of_less: "bs \<noteq> [] \<Longrightarrow> interval_of bs p < length bs"
  using length_takeWhile_le [of "\<lambda>x. x \<le> p" bs]
  by (simp add: interval_of_def Let_def) (metis Suc_pred length_greater_0_conv less_eq_Suc_le)

lemma interval_of_owner:
  assumes "sorted_wrt (<) bs" and "bs \<noteq> []" and "fst ` set (entries st) \<subseteq> set bs"
  shows "owner_at st p = owner_at st (bs ! interval_of bs p)"
proof -
  let ?k = "length (takeWhile (\<lambda>x. x \<le> p) bs)"
  note at = takeWhile_le_nth [OF assms(1)]
  have lt: "bs ! i < bs ! j" if "i < j" "j < length bs" for i j
    using assms(1) that by (simp add: sorted_wrt_nth_less)
  have pos: "\<exists>i < length bs. q = bs ! i" if "q \<in> fst ` set (entries st)" for q
    using assms(3) that by (metis in_set_conv_nth subsetD)
  show ?thesis
  proof (cases "?k = 0")
    case True
    have "p < q \<and> q \<le> bs ! (length bs - 1)" if q: "q \<in> fst ` set (entries st)" for q
    proof -
      obtain i where i: "i < length bs" "q = bs ! i" using pos [OF q] by blast
      have "\<not> bs ! i \<le> p" using at [OF i(1), of p] True by simp
      moreover have "bs ! i \<le> bs ! (length bs - 1)"
      proof (cases "i < length bs - 1")
        case False
        with i(1) have "i = length bs - 1" by linarith
        then show ?thesis by simp
      qed (use lt [of i "length bs - 1"] i(1) assms(2) in \<open>simp add: less_imp_le\<close>)
      ultimately show ?thesis using i(2) by simp
    qed
    then show ?thesis using True by (simp add: interval_of_def owner_at_wrap)
  next
    case False
    have k: "?k - 1 < length bs" using False length_takeWhile_le [of "\<lambda>x. x \<le> p" bs] by linarith
    have "q \<le> bs ! (?k - 1) \<or> p < q" if q: "q \<in> fst ` set (entries st)" for q
    proof -
      obtain i where i: "i < length bs" "q = bs ! i" using pos [OF q] by blast
      show ?thesis
      proof (cases "i < ?k")
        case True
        then have "i < ?k - 1 \<or> i = ?k - 1" by linarith
        then show ?thesis using i(2) k lt [of i "?k - 1"] by auto
      next
        case False
        then show ?thesis using at [OF i(1), of p] i(2) by auto
      qed
    qed
    moreover have "bs ! (?k - 1) \<le> p" using at [OF k, of p] False by simp
    ultimately show ?thesis using False by (simp add: interval_of_def owner_at_between)
  qed
qed

text \<open>The planner's rows, one per changed boundary, in boundary order.\<close>

definition boundaries_of :: "RingSnapshot \<Rightarrow> RingSnapshot \<Rightarrow> int list" where
  "boundaries_of before after =
     remdups_adj (sort (positions (snap_state before) @ positions (snap_state after)))"

definition changed_at :: "RingSnapshot \<Rightarrow> RingSnapshot \<Rightarrow> int \<Rightarrow> bool" where
  "changed_at before after p \<longleftrightarrow> owner_at (snap_state before) p \<noteq> owner_at (snap_state after) p"

definition row_at :: "RingSnapshot \<Rightarrow> RingSnapshot \<Rightarrow> nat \<Rightarrow> AffectedRange" where
  "row_at before after i =
     (let bs = boundaries_of before after in
      \<lparr>range_start = bs ! i, range_end = bs ! ((i + 1) mod length bs),
       previous_owner = owner_at (snap_state before) (bs ! i),
       new_owner = owner_at (snap_state after) (bs ! i)\<rparr>)"

lemma sorted_remdups_adj_less: "sorted xs \<Longrightarrow> sorted_wrt (<) (remdups_adj xs)"
  for xs :: "'a :: linorder list"
  by (induction xs rule: remdups_adj.induct) auto

lemma enumerate_zip_map:
  "enumerate 0 (zip (map f bs) (map g bs)) = map (\<lambda>i. (i, f (bs ! i), g (bs ! i))) [0 ..< length bs]"
  by (rule nth_equalityI) (auto simp: nth_enumerate_eq)

lemma plan_ranges_rows:
  assumes "state_ok h (snap_state before)" and "state_ok h (snap_state after)"
  shows "plan_ranges before after
    = map (row_at before after)
        (filter (\<lambda>i. changed_at before after (boundaries_of before after ! i))
          [0 ..< length (boundaries_of before after)])"
proof -
  let ?bs = "boundaries_of before after"
  have "sorted ?bs" by (simp add: boundaries_of_def)
  note owners = owners_at_boundaries_map [OF assms(1) this] owners_at_boundaries_map [OF assms(2) this]
  show ?thesis
    unfolding plan_ranges_def Let_def
    by (simp add: owners enumerate_zip_map filter_map comp_def changed_at_def row_at_def Let_def
        flip: boundaries_of_def)
qed

lemma boundaries_of_facts:
  assumes "state_ok h (snap_state before)" and "state_ok h (snap_state after)"
  shows "sorted_wrt (<) (boundaries_of before after)"
    and "fst ` set (entries (snap_state before)) \<subseteq> set (boundaries_of before after)"
    and "fst ` set (entries (snap_state after)) \<subseteq> set (boundaries_of before after)"
    and "boundaries_of before after = [] \<longleftrightarrow>
         entries (snap_state before) = [] \<and> entries (snap_state after) = []"
proof -
  let ?ps = "sort (positions (snap_state before) @ positions (snap_state after))"
  have pos: "positions (snap_state before) = map fst (entries (snap_state before))"
    "positions (snap_state after) = map fst (entries (snap_state after))"
    using assms by (auto simp: state_ok_def)
  show "sorted_wrt (<) (boundaries_of before after)"
    by (simp add: boundaries_of_def sorted_remdups_adj_less)
  have "?ps = [] \<longleftrightarrow> set ?ps = {}" by (simp only: set_empty)
  then show "boundaries_of before after = [] \<longleftrightarrow>
      entries (snap_state before) = [] \<and> entries (snap_state after) = []"
    by (simp add: boundaries_of_def pos)
qed (use assms in \<open>auto simp: boundaries_of_def state_ok_def\<close>)

text \<open>A row contains a position exactly when it is the row of the position's interval.\<close>

lemma row_contains_iff:
  assumes "sorted_wrt (<) (boundaries_of before after)" and "i < length (boundaries_of before after)"
  shows "range_contains (row_at before after i) p \<longleftrightarrow> i = interval_of (boundaries_of before after) p"
proof -
  let ?bs = "boundaries_of before after"
  let ?k = "length (takeWhile (\<lambda>x. x \<le> p) ?bs)"
  have k: "?k \<le> length ?bs" by (rule length_takeWhile_le)
  note at = takeWhile_le_nth [OF assms(1)]
  show ?thesis
  proof (cases "Suc i < length ?bs")
    case True
    have "?bs ! i < ?bs ! Suc i" using assms(1) True by (simp add: sorted_wrt_nth_less)
    then have "range_contains (row_at before after i) p \<longleftrightarrow> i < ?k \<and> \<not> Suc i < ?k"
      using True at [OF assms(2), of p] at [OF True, of p]
      by (auto simp: range_contains_def row_at_def Let_def)
    with True show ?thesis by (auto simp: interval_of_def Let_def)
  next
    case False
    with assms(2) have last: "Suc i = length ?bs" by linarith
    have "?bs ! 0 \<le> ?bs ! i"
      using assms by (cases "i = 0") (auto simp: sorted_wrt_nth_less intro: less_imp_le)
    then have "range_contains (row_at before after i) p \<longleftrightarrow> i < ?k \<or> \<not> 0 < ?k"
      using at [OF assms(2), of p] at [OF le_less_trans [OF le0 assms(2)], of p] assms(2)
      by (auto simp: range_contains_def row_at_def Let_def last)
    with last k show ?thesis by (auto simp: interval_of_def Let_def)
  qed
qed

lemma nth_takeWhile_member:
  fixes j :: nat
  assumes "sorted_wrt (<) is" and "j \<in> set is" and "\<forall>i \<in> set is. P i \<longleftrightarrow> i \<le> j"
  shows "is ! (length (takeWhile P is) - 1) = j \<and> takeWhile P is \<noteq> []"
proof -
  obtain as cs where "is": "is = as @ j # cs" using assms(2) by (meson split_list)
  then have "\<forall>a \<in> set as. P a" "P j" "\<forall>c \<in> set cs. \<not> P c"
    using assms(1,3) by (auto simp: sorted_wrt_append not_le)
  then have "takeWhile P is = as @ [j]"
    by (cases cs) (auto simp: "is" takeWhile_append)
  then show ?thesis by (simp add: "is" nth_append)
qed

lemma sorted_wrt_less_last: "sorted_wrt (<) xs \<Longrightarrow> x \<in> set xs \<Longrightarrow> x \<le> last (xs :: nat list)"
  by (induction xs) (auto simp: less_imp_le)

lemma select_range_row:
  assumes bs: "sorted_wrt (<) (boundaries_of before after)" and ne: "boundaries_of before after \<noteq> []"
    and rows: "ranges = map (row_at before after) is" and "ranges \<noteq> []"
    and sis: "sorted_wrt (<) is" "set is \<subseteq> {..< length (boundaries_of before after)}"
  shows "\<exists>i \<in> set is. select_range ranges p = row_at before after i
    \<and> (interval_of (boundaries_of before after) p \<in> set is \<longrightarrow>
         i = interval_of (boundaries_of before after) p)"
proof -
  let ?bs = "boundaries_of before after"
  let ?k = "length (takeWhile (\<lambda>x. x \<le> p) ?bs)" and ?j = "interval_of ?bs p"
  let ?t = "takeWhile (\<lambda>i. ?bs ! i \<le> p) is"
  have ne': "is \<noteq> []" using assms(4) rows by simp
  have starts: "map range_start ranges = map ((!) ?bs) is"
    by (simp add: rows row_at_def Let_def comp_def)
  have "sorted (map ((!) ?bs) is)"
    unfolding sorted_wrt_map
  proof (rule sorted_wrt_mono_rel [OF _ sis(1)])
    fix i j assume "i \<in> set is" "j \<in> set is" "i < j"
    then show "?bs ! i \<le> ?bs ! j"
      using sorted_wrt_nth_less [OF bs, of i j] sis(2) by auto
  qed
  then have bis: "bisect_right (map range_start ranges) p = length ?t"
    unfolding starts by (simp add: bisect_right_takeWhile takeWhile_map comp_def)
  have at: "?bs ! i \<le> p \<longleftrightarrow> i < ?k" if "i \<in> set is" for i
    using takeWhile_le_nth [OF bs] sis(2) that by auto
  have below: "\<forall>i \<in> set is. ?bs ! i \<le> p \<longleftrightarrow> i \<le> ?j" if "?k \<noteq> 0"
  proof
    fix i assume i: "i \<in> set is"
    have "?j = ?k - 1" using that by (simp add: interval_of_def)
    moreover have "i < ?k \<longleftrightarrow> i \<le> ?k - 1" using that by arith
    ultimately show "?bs ! i \<le> p \<longleftrightarrow> i \<le> ?j" using at [OF i] by simp
  qed
  show ?thesis
  proof (cases "length ?t = 0")
    case True
    have "last is = ?j" if j: "?j \<in> set is"
    proof -
      have "?k = 0"
      proof (rule ccontr)
        assume "?k \<noteq> 0"
        from nth_takeWhile_member [OF sis(1) j below [OF this]] True show False by simp
      qed
      then have "?j = length ?bs - 1" by (simp add: interval_of_def)
      moreover have "last is \<le> length ?bs - 1"
        using sis(2) last_in_set [OF ne'] by fastforce
      ultimately show ?thesis using sorted_wrt_less_last [OF sis(1) j] by simp
    qed
    with True bis ne' show ?thesis
      by (intro bexI [of _ "last is"]) (auto simp: select_range_def rows last_map)
  next
    case False
    have "length ?t - 1 < length is"
      using False length_takeWhile_le [of "\<lambda>i. ?bs ! i \<le> p" "is"] by linarith
    moreover have "is ! (length ?t - 1) = ?j" if j: "?j \<in> set is"
    proof -
      have "?k \<noteq> 0" using False at by (cases "is") (auto split: if_splits)
      from nth_takeWhile_member [OF sis(1) j below [OF this]] show ?thesis by simp
    qed
    ultimately show ?thesis using False bis
      by (intro bexI [of _ "is ! (length ?t - 1)"]) (auto simp: select_range_def rows)
  qed
qed

lemma changed_interval:
  assumes "state_ok h (snap_state before)" and "state_ok h (snap_state after)"
    and "boundaries_of before after \<noteq> []" and "v = before \<or> v = after"
  shows "owner_at (snap_state v) p
       = owner_at (snap_state v) (boundaries_of before after ! interval_of (boundaries_of before after) p)"
  using assms(4) interval_of_owner boundaries_of_facts(1-3) [OF assms(1,2)] assms(3) by metis

text \<open>The range the planner selects for a position reports exactly a change of its owner.\<close>

lemma plan_selects:
  assumes ok: "state_ok h (snap_state before)" "state_ok h (snap_state after)"
    and ne: "plan_ranges before after \<noteq> []"
  shows "if changed_at before after p
    then range_contains (select_range (plan_ranges before after) p) p
       \<and> previous_owner (select_range (plan_ranges before after) p) = owner_at (snap_state before) p
       \<and> new_owner (select_range (plan_ranges before after) p) = owner_at (snap_state after) p
    else \<not> range_contains (select_range (plan_ranges before after) p) p"
proof -
  let ?bs = "boundaries_of before after" and ?j = "interval_of (boundaries_of before after) p"
  let ?is = "filter (\<lambda>i. changed_at before after (?bs ! i)) [0 ..< length ?bs]"
  note rows = plan_ranges_rows [OF ok] and bs = boundaries_of_facts [OF ok]
  have bne: "?bs \<noteq> []" using ne rows by auto
  have "sorted_wrt (<) ?is" by (simp add: sorted_wrt_filter)
  moreover have "set ?is \<subseteq> {..< length ?bs}" by auto
  ultimately obtain i where i: "i \<in> set ?is"
    and sel: "select_range (plan_ranges before after) p = row_at before after i"
    and eq: "?j \<in> set ?is \<longrightarrow> i = ?j"
    using select_range_row [OF bs(1) bne rows ne] by blast
  have own: "owner_at (snap_state before) p = owner_at (snap_state before) (?bs ! ?j)"
    "owner_at (snap_state after) p = owner_at (snap_state after) (?bs ! ?j)"
    using changed_interval [OF ok bne] by blast+
  have con: "range_contains (row_at before after i) p \<longleftrightarrow> i = ?j"
    using row_contains_iff [OF bs(1)] i by auto
  show ?thesis
  proof (cases "changed_at before after p")
    case True
    then have "?j \<in> set ?is" using own interval_of_less [OF bne] by (simp add: changed_at_def)
    with eq con own True sel show ?thesis by (auto simp: row_at_def Let_def)
  next
    case False
    then have "?j \<notin> set ?is" using own by (simp add: changed_at_def)
    with i con False sel show ?thesis by auto
  qed
qed

lemma plan_empty:
  assumes ok: "state_ok h (snap_state before)" "state_ok h (snap_state after)"
    and "plan_ranges before after = []"
  shows "\<not> changed_at before after p"
proof (cases "boundaries_of before after = []")
  case True
  with boundaries_of_facts(4) [OF ok] show ?thesis by (simp add: changed_at_def owner_at_def)
next
  case False
  with assms(3) interval_of_less [OF False, of p]
  have "\<not> changed_at before after (boundaries_of before after ! interval_of (boundaries_of before after) p)"
    by (simp add: plan_ranges_rows [OF ok] filter_empty_conv)
  then show ?thesis
    unfolding changed_at_def
    using changed_interval [OF ok False, of before p] changed_interval [OF ok False, of after p] by metis
qed

lemma affected_ranges_same:
  assumes "state_ok h (snap_state before)" and "snap_state after = snap_state before"
  shows "plan_ranges before after = []"
proof -
  have "state_ok h (snap_state after)" using assms by simp
  from plan_ranges_rows [OF assms(1) this] show ?thesis by (simp add: changed_at_def assms(2))
qed

text \<open>The owner a view routes a key to, if any.\<close>

definition routed :: "RingSnapshot \<Rightarrow> string \<Rightarrow> string option" where
  "routed v key = (case get_node v key of Inl _ \<Rightarrow> None | Inr n \<Rightarrow> Some n)"

lemma routed_owner_at:
  assumes "state_ok (snap_hash v) (snap_state v)" and "hash_position (snap_hash v) key = Inr p"
  shows "routed v key = owner_at (snap_state v) p"
proof (cases "entries (snap_state v) = []")
  case True
  then show ?thesis by (simp add: routed_def owner_at_def get_node_def start_index_def)
next
  case False
  then have "get_node v key = Inr (entry_node (clockwise (entries (snap_state v)) p))"
    using get_node_clockwise [OF assms(1)] assms(2) by blast
  with False show ?thesis by (simp add: routed_def owner_at_def)
qed

lemma iter_migrations_exact:
  assumes ok: "state_ok h (snap_state before)" "state_ok h (snap_state after)"
    and hash: "snap_hash before = h" "snap_hash after = h" "hash_id before = hash_id after"
    and keys: "\<forall>key \<in> set keys. \<exists>p. hash_position h key = Inr p"
  shows "iter_migrations before after keys = Inr
    (map (\<lambda>key. \<lparr>migrated_key = key, old_owner = routed before key, next_owner = routed after key\<rparr>)
      (filter (\<lambda>key. routed before key \<noteq> routed after key) keys))"
proof (cases "snap_state before = snap_state after \<or> plan_ranges before after = []")
  case True
  have "routed before key = routed after key" if "key \<in> set keys" for key
  proof -
    obtain p where p: "hash_position h key = Inr p" using keys \<open>key \<in> set keys\<close> by blast
    have "routed before key = owner_at (snap_state before) p"
      "routed after key = owner_at (snap_state after) p"
      using routed_owner_at [of before key p] routed_owner_at [of after key p] ok hash p by simp_all
    then show ?thesis using True plan_empty [OF ok, of p] by (auto simp: changed_at_def)
  qed
  moreover have "iter_migrations before after keys = Inr []"
    using True hash by (auto simp: iter_migrations_def affected_ranges_def)
  ultimately show ?thesis by (simp add: filter_empty_conv)
next
  case False
  then have plan: "affected_ranges before after = Inr (plan_ranges before after)"
    "plan_ranges before after \<noteq> []"
    using hash by (auto simp: affected_ranges_def)
  let ?row = "\<lambda>key. \<lparr>migrated_key = key, old_owner = routed before key, next_owner = routed after key\<rparr>"
  have "traverse (\<lambda>key. and_then (hash_position (snap_hash before) key) (\<lambda>p.
              let interval = select_range (plan_ranges before after) p in
              Inr (if range_contains interval p
                   then [\<lparr>migrated_key = key, old_owner = previous_owner interval,
                          next_owner = new_owner interval\<rparr>]
                   else []))) keys
      = Inr (map (\<lambda>key. if routed before key \<noteq> routed after key then [?row key] else []) keys)"
    using keys
  proof (induction keys)
    case (Cons key keys)
    then obtain p where p: "hash_position h key = Inr p" by auto
    then have "routed before key = owner_at (snap_state before) p"
      "routed after key = owner_at (snap_state after) p"
      using routed_owner_at [of before key p] routed_owner_at [of after key p] ok hash by simp_all
    with Cons plan_selects [OF ok plan(2), of p] p hash(1) show ?case
      by (simp add: Let_def changed_at_def split: if_splits)
  qed simp
  moreover have "concat (map (\<lambda>key. if routed before key \<noteq> routed after key then [?row key] else []) keys)
      = map ?row (filter (\<lambda>key. routed before key \<noteq> routed after key) keys)"
    by (induction keys) auto
  ultimately show ?thesis by (simp add: iter_migrations_def plan)
qed

text \<open>What the redistribution report lists, and that it counts each key once.\<close>

definition moves :: "bool \<Rightarrow> assignment \<Rightarrow> assignment \<Rightarrow> string \<Rightarrow> bool" where
  "moves strict before after key \<longleftrightarrow>
     dict_get_or before key None \<noteq> dict_get_or after key None
     \<and> (strict \<or> dict_get_or before key None \<noteq> None \<and> dict_get_or after key None \<noteq> None)"

lemma record_move_result:
  "record_move strict before after key moved = Inr m \<Longrightarrow>
   m = (if moves strict before after key
        then dict_set key (dict_get_or before key None, dict_get_or after key None) moved else moved)"
  unfolding record_move_def moves_def [symmetric] Let_def
  by (cases "moves strict before after key") (simp_all split: if_split_asm)

lemma redistribute_result:
  assumes "redistribute strict before after keys moved = Inr moved'"
  shows "dict_get moved' key =
    (if key \<in> set keys \<and> moves strict before after key
     then Some (dict_get_or before key None, dict_get_or after key None) else dict_get moved key)"
    and "dict_ok moved \<Longrightarrow> dict_ok moved'"
  using assms
proof (induction keys arbitrary: moved)
  case (Cons k ks)
  { case 1
    then obtain m where m: "record_move strict before after k moved = Inr m"
      and rest: "redistribute strict before after ks m = Inr moved'"
      by (auto simp: result_simps)
    from Cons.IH(1) [OF rest] record_move_result [OF m] show ?case by (simp add: dict_simps) }
  { case 2
    then obtain m where m: "record_move strict before after k moved = Inr m"
      and rest: "redistribute strict before after ks m = Inr moved'"
      by (auto simp: result_simps)
    from Cons.IH(2) [OF _ rest] record_move_result [OF m] 2(1) show ?case by simp }
qed simp_all

section \<open>Reachable rings\<close>

text \<open>Rings an application can hold: a constructed one, changed by any sequence of writers.\<close>

inductive reachable_ring :: "ConsistentHashRing \<Rightarrow> bool" where
  constructed: "ring_init names k h hid cap = Inr r \<Longrightarrow> reachable_ring r"
| added: "reachable_ring r \<Longrightarrow> add_node r node k = Inr (ps, r') \<Longrightarrow> reachable_ring r'"
| removed: "reachable_ring r \<Longrightarrow> remove_node r node = Inr (ps, r') \<Longrightarrow> reachable_ring r'"
| reweighted: "reachable_ring r \<Longrightarrow> set_virtual_nodes r node m = Inr r' \<Longrightarrow> reachable_ring r'"

lemma reachable_ring_ok: "reachable_ring r \<Longrightarrow> ring_ok r"
proof (induction rule: reachable_ring.induct)
  case (constructed names k h hid cap r)
  then show ?case using ring_init_ok by blast
next
  case (added r node k ps r')
  then show ?case by (blast intro: add_node_ok)
next
  case (removed r node ps r')
  then show ?case by (blast intro: remove_node_ok)
next
  case (reweighted r node m r')
  then show ?case using set_virtual_nodes_ok by blast
qed

section \<open>Properties\<close>

text \<open>
  A hash for the witnesses, and the ring of two nodes with two virtual nodes each that it
  builds.
\<close>

definition demo_hash :: hash_callable where
  "demo_hash key = Inr (HashInt (foldl (\<lambda>a c. (a * 31 + of_char c) mod 97) 7 key))"

definition demo_ring :: ConsistentHashRing where
  "demo_ring = (case ring_init [''a'', ''b''] 2 demo_hash 0 100 of Inr r \<Rightarrow> r)"

definition demo_grown :: ConsistentHashRing where
  "demo_grown = (case add_node demo_ring ''c'' (Some 2) of Inr (_, r) \<Rightarrow> r)"

lemma demo_ring_init: "ring_init [''a'', ''b''] 2 demo_hash 0 100 = Inr demo_ring"
proof -
  have "\<not> isl (ring_init [''a'', ''b''] 2 demo_hash 0 100)" by code_simp
  then show ?thesis by (auto simp: demo_ring_def split: sum.splits)
qed

lemma demo_reachable: "reachable_ring demo_ring"
  using demo_ring_init by (rule reachable_ring.constructed)

lemma demo_grown_add: "add_node demo_ring ''c'' (Some 2) = Inr ([35, 36], demo_grown)"
proof -
  have "(case add_node demo_ring ''c'' (Some 2) of Inl _ \<Rightarrow> [] | Inr (ps, _) \<Rightarrow> ps) = [35, 36]"
    by code_simp
  then show ?thesis by (auto simp: demo_grown_def split: sum.splits)
qed

text \<open>
  C37.  In every ring an application can reach, the entries are sorted and repetition-free,
  the position index mirrors them, the node names are distinct and non-empty, every node owns
  exactly the hashed virtual nodes below its weight, and the capacity bound holds.
\<close>

theorem ring_invariant:
  assumes "reachable_ring r"
  shows "sorted (entries (state r)) \<and> distinct (entries (state r))
    \<and> positions (state r) = map fst (entries (state r))
    \<and> distinct (nodes (state r)) \<and> [] \<notin> set (nodes (state r))
    \<and> (\<exists>w. (\<forall>n. 0 < w n \<longleftrightarrow> n \<in> set (nodes (state r)))
         \<and> set (entries (state r))
           = {(p, n, i). i < w n \<and> hash_position (hash_function r) (n @ ''#'' @ str_nat i) = Inr p})
    \<and> int (length (entries (state r))) \<le> max_virtual_nodes r"
  using reachable_ring_ok [OF assms]
  by (auto simp: ring_ok_def state_ok_def weights_of_def weighted_def vnode_key_def)

theorem ring_invariant_witness:
  "reachable_ring demo_grown \<and> sorted (entries (state demo_grown))
   \<and> int (length (entries (state demo_grown))) \<le> max_virtual_nodes demo_grown"
proof -
  have "reachable_ring demo_grown"
    using demo_reachable demo_grown_add by (rule reachable_ring.added)
  with ring_invariant [OF this] show ?thesis by blast
qed

text \<open>
  C38.  Routing is the strict clockwise rule: the owner of a key is the node of the least
  entry whose position is greater than the key's hash, and of the least entry of the whole
  ring when there is none.
\<close>

theorem ring_routes_clockwise:
  assumes "reachable_ring r" and "get_node (snapshot r) key = Inr n"
  shows "\<exists>p e. hash_position (hash_function r) key = Inr p \<and> e \<in> set (entries (state r))
    \<and> n = entry_node e
    \<and> (if \<exists>e' \<in> set (entries (state r)). p < fst e'
       then p < fst e \<and> (\<forall>e' \<in> set (entries (state r)). p < fst e' \<longrightarrow> e \<le> e')
       else \<forall>e' \<in> set (entries (state r)). e \<le> e')"
proof -
  let ?es = "entries (state r)"
  have ok: "state_ok (hash_function r) (state r)" and so: "sorted ?es"
    using reachable_ring_ok [OF assms(1)] by (auto simp: ring_ok_def state_ok_def)
  obtain p where ne: "?es \<noteq> []" and p: "hash_position (hash_function r) key = Inr p"
    and n: "n = entry_node (clockwise ?es p)"
    using get_node_clockwise [of "snapshot r"] ok assms(2) by auto
  have "if \<exists>e' \<in> set ?es. p < fst e'
       then p < fst (clockwise ?es p) \<and> (\<forall>e' \<in> set ?es. p < fst e' \<longrightarrow> clockwise ?es p \<le> e')
       else \<forall>e' \<in> set ?es. clockwise ?es p \<le> e'"
    by (rule clockwise_least [OF so ne])
  with clockwise_in [OF ne] p n show ?thesis by blast
qed

theorem ring_routes_clockwise_witness:
  "get_node (snapshot demo_grown) ''k'' = Inr ''c''
   \<and> (\<exists>p e. hash_position demo_hash ''k'' = Inr p \<and> e \<in> set (entries (state demo_grown))
        \<and> ''c'' = entry_node e)"
proof -
  have r: "reachable_ring demo_grown"
    using demo_reachable demo_grown_add by (rule reachable_ring.added)
  have g: "get_node (snapshot demo_grown) ''k'' = Inr ''c''" by code_simp
  have "hash_function demo_grown = demo_hash"
    using add_node_entries [OF reachable_ring_ok [OF demo_reachable] demo_grown_add]
      ring_init_ok [OF demo_ring_init] by simp
  with ring_routes_clockwise [OF r g] g show ?thesis by metis
qed

text \<open>
  C39.  Minimal disruption.  After a node joins, a key is routed where it was or to the new
  node; after a node leaves, only the keys it owned are routed elsewhere; and removing a node
  just added restores the ring and reports the positions the addition had reported.
\<close>

theorem ring_minimal_disruption:
  assumes "reachable_ring r" and "add_node r node k = Inr (ps, r')"
  shows "(\<forall>key n. get_node (snapshot r') key = Inr n \<longrightarrow> n = node \<or> get_node (snapshot r) key = Inr n)
    \<and> (\<forall>key n. get_node (snapshot r) key = Inr n \<and> get_node (snapshot r') key \<noteq> Inr n
          \<longrightarrow> get_node (snapshot r') key = Inr node)
    \<and> remove_node r' node = Inr (ps, r)"
proof -
  note ok = reachable_ring_ok [OF assms(1)]
  note es = add_node_entries [OF ok assms(2)]
  have "\<exists>n'. get_node (snapshot r') key = Inr n'" if "get_node (snapshot r) key = Inr n" for key n
  proof -
    have "entries (state r) \<noteq> []" "\<exists>p. hash_position (hash_function r) key = Inr p"
      using get_node_clockwise [of "snapshot r" key n] ok that by (auto simp: ring_ok_def)
    then show ?thesis
      using get_node_clockwise [of "snapshot r'" key] add_node_ok [OF ok assms(2)] es
      by (auto simp: ring_ok_def)
  qed
  then show ?thesis
    using add_node_locality [OF ok assms(2)] add_remove_roundtrip [OF ok assms(2)] by metis
qed

theorem ring_minimal_disruption_witness:
  "get_node (snapshot demo_ring) ''k'' = Inr ''b'' \<and> get_node (snapshot demo_grown) ''k'' = Inr ''c''
   \<and> get_node (snapshot demo_grown) ''q'' = Inr ''b'' \<and> get_node (snapshot demo_ring) ''q'' = Inr ''b''
   \<and> remove_node demo_grown ''c'' = Inr ([35, 36], demo_ring)"
proof -
  have g: "get_node (snapshot demo_ring) ''k'' = Inr ''b''"
    "get_node (snapshot demo_grown) ''k'' = Inr ''c''"
    "get_node (snapshot demo_grown) ''q'' = Inr ''b''"
    by code_simp+
  note min = ring_minimal_disruption [OF demo_reachable demo_grown_add]
  have "get_node (snapshot demo_ring) ''q'' = Inr ''b''"
    using min g(3) by auto
  with g min show ?thesis by blast
qed

text \<open>
  A replica list has as many entries as asked for, or as there are nodes, no node
  twice, only nodes of the ring, and the key's owner first.
\<close>

theorem ring_replicas:
  assumes "reachable_ring r" and "get_nodes (snapshot r) key num = Inr ns" and "0 < num"
  shows "distinct ns \<and> set ns \<subseteq> set (nodes (state r))
    \<and> length ns = min (nat num) (length (nodes (state r)))
    \<and> get_node (snapshot r) key = Inr (ns ! 0)"
  using get_nodes_result [of "snapshot r"] reachable_ring_ok [OF assms(1)] assms(2,3)
  by (auto simp: ring_ok_def)

theorem ring_replicas_witness:
  "get_nodes (snapshot demo_ring) ''x'' 2 = Inr [''a'', ''b'']
   \<and> get_node (snapshot demo_ring) ''x'' = Inr ''a''"
proof -
  have g: "get_nodes (snapshot demo_ring) ''x'' 2 = Inr [''a'', ''b'']" by code_simp
  have "(0 :: int) < 2" by simp
  from ring_replicas [OF demo_reachable g this] g show ?thesis by simp
qed

text \<open>
  C40.  The migration plan is exact: between two topologies with the same hash, the planned
  migrations are those of the candidate keys whose owner differs, in candidate order, with the
  old and the new owner.
\<close>

theorem ring_migration_exact:
  assumes "reachable_ring r" and "reachable_ring r'"
    and "hash_function r' = hash_function r" and "function_id r' = function_id r"
    and "\<forall>key \<in> set keys. \<exists>p. hash_position (hash_function r) key = Inr p"
  shows "iter_migrations (snapshot r) (snapshot r') keys = Inr
    (map (\<lambda>key. \<lparr>migrated_key = key, old_owner = routed (snapshot r) key,
                  next_owner = routed (snapshot r') key\<rparr>)
      (filter (\<lambda>key. routed (snapshot r) key \<noteq> routed (snapshot r') key) keys))"
  using reachable_ring_ok [OF assms(1)] reachable_ring_ok [OF assms(2)] assms(3-5)
  by (intro iter_migrations_exact [of "hash_function r"]) (auto simp: ring_ok_def)

theorem ring_migration_exact_witness:
  "iter_migrations (snapshot demo_ring) (snapshot demo_grown) [''q'', ''k'', ''x'']
   = Inr [\<lparr>migrated_key = ''k'', old_owner = Some ''b'', next_owner = Some ''c''\<rparr>]"
proof -
  have r: "reachable_ring demo_grown"
    using demo_reachable demo_grown_add by (rule reachable_ring.added)
  have h: "hash_function demo_grown = hash_function demo_ring" "function_id demo_grown = function_id demo_ring"
    using add_node_entries [OF reachable_ring_ok [OF demo_reachable] demo_grown_add] by simp_all
  have "\<forall>key \<in> set [''q'', ''k'', ''x'']. \<exists>p. hash_position (hash_function demo_ring) key = Inr p"
    using ring_init_ok [OF demo_ring_init] by (simp add: hash_position_def demo_hash_def)
  note exact = ring_migration_exact [OF demo_reachable r h this]
  have "filter (\<lambda>key. routed (snapshot demo_ring) key \<noteq> routed (snapshot demo_grown) key)
      [''q'', ''k'', ''x''] = [''k'']"
    and "routed (snapshot demo_ring) ''k'' = Some ''b''" "routed (snapshot demo_grown) ''k'' = Some ''c''"
    by code_simp+
  with exact show ?thesis by simp
qed

end
