(* ===== verification/Wire.thy ===== *)
theory Wire
  imports Prelude "HOL-Library.List_Lexorder" "HOL-Library.Char_ord"
begin

text \<open>
  Wire values of the stock exchange (\<^verbatim>\<open>stock_exchange/common.py\<close>, \<^verbatim>\<open>contracts.py\<close>): JSON documents,
  the field, identifier and integer checks every handler starts with, and the validation of an
  order body and of the opening settings.  A validated document is returned as a typed value; the
  order of the checks and the exception each raises are those of the code.
\<close>

section \<open>JSON documents\<close>

text \<open>A float is opaque: no modelled check accepts one.\<close>

datatype json =
    JNull
  | JBool bool
  | JInt int
  | JFloat string
  | JStr string
  | JList "json list"
  | JDict "(string \<times> json) list"

text \<open>
  \<^verbatim>\<open>freeze\<close> encodes with sorted keys and decodes again: a deep copy whose dictionaries are in key
  order.
\<close>

fun freeze :: "json \<Rightarrow> json" where
  "freeze (JList vs) = JList (map freeze vs)"
| "freeze (JDict d) = JDict (sort_key fst (map (\<lambda>(k, v). (k, freeze v)) d))"
| "freeze v = v"

text \<open>Subscription \<^verbatim>\<open>value[key]\<close> of a dictionary.\<close>

fun item :: "json \<Rightarrow> string \<Rightarrow> json result" where
  "item (JDict d) key = (case dict_get d key of None \<Rightarrow> Inl (KeyError key) | Some v \<Rightarrow> Inr v)"
| "item v key = Inl (TypeError ''not subscriptable'')"

section \<open>Field checks\<close>

fun exact_fields :: "json \<Rightarrow> string list \<Rightarrow> json result" where
  "exact_fields (JDict d) expected =
     (if fst ` set d = set expected then Inr (JDict d)
      else Inl (ValueError ''exact fields required''))"
| "exact_fields v expected = Inl (ValueError ''exact fields required'')"

definition identifier_char :: "char \<Rightarrow> bool" where
  "identifier_char c \<longleftrightarrow>
     (CHR ''A'' \<le> c \<and> c \<le> CHR ''Z'') \<or> (CHR ''a'' \<le> c \<and> c \<le> CHR ''z'') \<or>
     (CHR ''0'' \<le> c \<and> c \<le> CHR ''9'') \<or> c = CHR ''_'' \<or> c = CHR ''-''"

definition is_identifier :: "string \<Rightarrow> bool" where
  "is_identifier s \<longleftrightarrow> 1 \<le> length s \<and> length s \<le> 80 \<and> list_all identifier_char s"

fun check_identifier :: "json \<Rightarrow> string result" where
  "check_identifier (JStr s) =
     (if is_identifier s then Inr s else Inl (ValueError ''identifier must be 1..80 characters''))"
| "check_identifier v = Inl (ValueError ''identifier must be 1..80 characters'')"

fun check_integer :: "json \<Rightarrow> int \<Rightarrow> int \<Rightarrow> int result" where
  "check_integer (JInt n) minimum maximum =
     (if minimum \<le> n \<and> n \<le> maximum then Inr n
      else Inl (ValueError ''integer cents/sequence outside reference limits''))"
| "check_integer v minimum maximum = Inl (ValueError ''integer cents/sequence outside reference limits'')"

definition MAX_TIMESTAMP :: int where
  "MAX_TIMESTAMP = 253402300799"

section \<open>Order bodies\<close>

datatype side = BUY | SELL

record order_terms =
  t_symbol :: string
  t_side :: side
  t_price :: int
  t_quantity :: int

text \<open>A validated body: a cancellation has no terms.\<close>

record body =
  request_id :: string
  order_id :: string
  terms :: "order_terms option"

fun parse_side :: "json \<Rightarrow> side result" where
  "parse_side (JStr s) =
     (if s = ''BUY'' then Inr BUY else if s = ''SELL'' then Inr SELL
      else Inl (ValueError ''side must be BUY or SELL''))"
| "parse_side v = Inl (ValueError ''side must be BUY or SELL'')"

definition check_field :: "json \<Rightarrow> string \<Rightarrow> (json \<Rightarrow> 'a result) \<Rightarrow> 'a result" where
  "check_field v key check = and_then (item v key) check"

text \<open>
  The kind is compared with a set of strings: a list or dictionary there is unhashable.
\<close>

fun order_kind :: "json \<Rightarrow> bool result" where
  "order_kind (JStr s) =
     (if s = ''new'' then Inr True else if s = ''cancel'' then Inr False
      else Inl (ValueError ''limit order or cancel required''))"
| "order_kind (JList vs) = Inl (TypeError ''unhashable'')"
| "order_kind (JDict d) = Inl (TypeError ''unhashable'')"
| "order_kind v = Inl (ValueError ''limit order or cancel required'')"

definition validate :: "json \<Rightarrow> json \<Rightarrow> body result" where
  "validate body0 kind =
     (let body = freeze body0 in
      and_then (order_kind kind) (\<lambda>is_new.
      and_then (exact_fields body ([''request_id'', ''order_id''] @
                  (if is_new then [''symbol'', ''side'', ''price'', ''quantity''] else []))) (\<lambda>body.
      and_then (check_field body ''request_id'' check_identifier) (\<lambda>request.
      and_then (check_field body ''order_id'' check_identifier) (\<lambda>oid.
      if is_new then
        and_then (check_field body ''symbol'' check_identifier) (\<lambda>symbol.
        and_then (check_field body ''price'' (\<lambda>v. check_integer v 1 100000000)) (\<lambda>price.
        and_then (check_field body ''quantity'' (\<lambda>v. check_integer v 1 1000000)) (\<lambda>quantity.
        and_then (check_field body ''side'' parse_side) (\<lambda>sd.
          Inr \<lparr>request_id = request, order_id = oid,
               terms = Some \<lparr>t_symbol = symbol, t_side = sd, t_price = price,
                             t_quantity = quantity\<rparr>\<rparr>))))
      else Inr \<lparr>request_id = request, order_id = oid, terms = None\<rparr>)))))"

section \<open>Opening settings\<close>

record session =
  weekdays :: "int list"
  start_minute :: int
  end_minute :: int

record opening_account =
  op_cash :: int
  op_positions :: "(string, int) dict"

record settings =
  s_symbols :: "string list"
  s_accounts :: "(string, opening_account) dict"
  s_session :: session
  s_daily_limit :: int

fun as_list :: "json \<Rightarrow> string \<Rightarrow> json list result" where
  "as_list (JList vs) message = Inr vs"
| "as_list v message = Inl (ValueError message)"

fun as_dict :: "json \<Rightarrow> string \<Rightarrow> (string, json) dict result" where
  "as_dict (JDict d) message = Inr d"
| "as_dict v message = Inl (ValueError message)"

definition check_symbols :: "json \<Rightarrow> string list result" where
  "check_symbols v =
     and_then (as_list v ''1..100 symbols required'') (\<lambda>vs.
     and_then (require (1 \<le> length vs \<and> length vs \<le> 100) (ValueError ''1..100 symbols required'')) (\<lambda>_.
     and_then (traverse check_identifier vs) (\<lambda>symbols.
     and_then (require (distinct symbols) (ValueError ''duplicate symbol'')) (\<lambda>_.
     Inr symbols))))"

definition check_position :: "string \<times> json \<Rightarrow> (string \<times> int) result" where
  "check_position = (\<lambda>(symbol, q). and_then (check_integer q 0 1000000000000) (\<lambda>n. Inr (symbol, n)))"

definition check_opening :: "string list \<Rightarrow> string \<times> json \<Rightarrow> (string \<times> opening_account) result" where
  "check_opening symbols = (\<lambda>(owner, account).
     and_then (check_identifier (JStr owner)) (\<lambda>owner.
     and_then (exact_fields account [''cash'', ''positions'']) (\<lambda>account.
     and_then (check_field account ''cash'' (\<lambda>v. check_integer v 0 1000000000000)) (\<lambda>cash.
     and_then (check_field account ''positions'' (\<lambda>v. as_dict v ''unknown opening position'')) (\<lambda>ps.
     and_then (require (fst ` set ps \<subseteq> set symbols) (ValueError ''unknown opening position'')) (\<lambda>_.
     and_then (traverse check_position ps) (\<lambda>positions.
     Inr (owner, \<lparr>op_cash = cash, op_positions = positions\<rparr>))))))))"

definition check_accounts :: "string list \<Rightarrow> json \<Rightarrow> (string, opening_account) dict result" where
  "check_accounts symbols v =
     and_then (as_dict v ''1..100 accounts required'') (\<lambda>d.
     and_then (require (1 \<le> length d \<and> length d \<le> 100) (ValueError ''1..100 accounts required'')) (\<lambda>_.
     traverse (check_opening symbols) d))"

definition check_session :: "json \<Rightarrow> session result" where
  "check_session v =
     and_then (exact_fields v [''weekdays'', ''start_minute'', ''end_minute'']) (\<lambda>v.
     and_then (check_field v ''start_minute'' (\<lambda>n. check_integer n 0 1439)) (\<lambda>start.
     and_then (check_field v ''end_minute'' (\<lambda>n. check_integer n (start + 1) 1440)) (\<lambda>finish.
     and_then (check_field v ''weekdays'' (\<lambda>l. as_list l ''UTC weekday list required'')) (\<lambda>days.
     and_then (require (days \<noteq> []) (ValueError ''UTC weekday list required'')) (\<lambda>_.
     and_then (traverse (\<lambda>d. check_integer d 0 6) days) (\<lambda>days.
     and_then (require (distinct days) (ValueError ''duplicate weekday'')) (\<lambda>_.
     Inr \<lparr>weekdays = days, start_minute = start, end_minute = finish\<rparr>)))))))"

definition validate_settings :: "json \<Rightarrow> settings result" where
  "validate_settings value0 =
     and_then (exact_fields (freeze value0) [''symbols'', ''accounts'', ''session'', ''daily_limit'']) (\<lambda>value.
     and_then (check_field value ''symbols'' check_symbols) (\<lambda>symbols.
     and_then (check_field value ''accounts'' (check_accounts symbols)) (\<lambda>accounts.
     and_then (check_field value ''session'' check_session) (\<lambda>session.
     and_then (check_field value ''daily_limit'' (\<lambda>v. check_integer v 1 1000000)) (\<lambda>limit.
     Inr \<lparr>s_symbols = symbols, s_accounts = accounts, s_session = session,
          s_daily_limit = limit\<rparr>)))))"

section \<open>What validation guarantees\<close>

text \<open>Keys of a Python dictionary are distinct, at every depth.\<close>

fun json_ok :: "json \<Rightarrow> bool" where
  "json_ok (JList vs) \<longleftrightarrow> (\<forall>v \<in> set vs. json_ok v)"
| "json_ok (JDict d) \<longleftrightarrow> dict_ok d \<and> (\<forall>(k, v) \<in> set d. json_ok v)"
| "json_ok v \<longleftrightarrow> True"

definition terms_ok :: "order_terms \<Rightarrow> bool" where
  "terms_ok t \<longleftrightarrow> is_identifier (t_symbol t) \<and> 1 \<le> t_price t \<and> t_price t \<le> 100000000 \<and>
     1 \<le> t_quantity t \<and> t_quantity t \<le> 1000000"

definition body_ok :: "body \<Rightarrow> bool" where
  "body_ok b \<longleftrightarrow> is_identifier (request_id b) \<and> is_identifier (order_id b) \<and>
     (case terms b of None \<Rightarrow> True | Some t \<Rightarrow> terms_ok t)"

definition opening_ok :: "string list \<Rightarrow> opening_account \<Rightarrow> bool" where
  "opening_ok symbols a \<longleftrightarrow> 0 \<le> op_cash a \<and> op_cash a \<le> 1000000000000 \<and> dict_ok (op_positions a) \<and>
     (\<forall>(x, n) \<in> set (op_positions a). x \<in> set symbols \<and> 0 \<le> n \<and> n \<le> 1000000000000)"

definition settings_ok :: "settings \<Rightarrow> bool" where
  "settings_ok s \<longleftrightarrow>
     s_symbols s \<noteq> [] \<and> distinct (s_symbols s) \<and> list_all is_identifier (s_symbols s) \<and>
     s_accounts s \<noteq> [] \<and> dict_ok (s_accounts s) \<and>
     (\<forall>(owner, a) \<in> set (s_accounts s). is_identifier owner \<and> opening_ok (s_symbols s) a) \<and>
     0 \<le> start_minute (s_session s) \<and> start_minute (s_session s) < end_minute (s_session s) \<and>
     end_minute (s_session s) \<le> 1440 \<and> weekdays (s_session s) \<noteq> [] \<and>
     distinct (weekdays (s_session s)) \<and> (\<forall>d \<in> set (weekdays (s_session s)). 0 \<le> d \<and> d \<le> 6) \<and>
     1 \<le> s_daily_limit s \<and> s_daily_limit s \<le> 1000000"

lemma check_identifier_Inr [result_simps]:
  "check_identifier v = Inr s \<longleftrightarrow> v = JStr s \<and> is_identifier s"
  by (cases v) auto

lemma check_integer_Inr [result_simps]:
  "check_integer v lo hi = Inr n \<longleftrightarrow> v = JInt n \<and> lo \<le> n \<and> n \<le> hi"
  by (cases v) auto

lemma exact_fields_Inr [result_simps]:
  "exact_fields v names = Inr w \<longleftrightarrow> (\<exists>d. v = JDict d \<and> w = v \<and> fst ` set d = set names)"
  by (cases v) auto

lemma as_list_Inr [result_simps]: "as_list v e = Inr l \<longleftrightarrow> v = JList l"
  by (cases v) auto

lemma as_dict_Inr [result_simps]: "as_dict v e = Inr d \<longleftrightarrow> v = JDict d"
  by (cases v) auto

lemma item_Inr [result_simps]: "item v k = Inr w \<longleftrightarrow> (\<exists>d. v = JDict d \<and> dict_get d k = Some w)"
  by (cases v) (auto split: option.splits)

lemma parse_side_Inr [result_simps]:
  "parse_side v = Inr sd \<longleftrightarrow> v = JStr (case sd of BUY \<Rightarrow> ''BUY'' | SELL \<Rightarrow> ''SELL'')"
  by (cases v; cases sd) auto

lemma order_kind_Inr [result_simps]:
  "order_kind v = Inr b \<longleftrightarrow> v = JStr (if b then ''new'' else ''cancel'')"
  by (cases v) auto

lemma fst_keep [simp]: "fst \<circ> (\<lambda>(k, v). (k, f v)) = fst"
  by auto

lemma dict_ok_sort [simp]: "dict_ok (sort_key f d) \<longleftrightarrow> dict_ok d"
  by (simp add: dict_ok_def distinct_map)

lemma json_ok_freeze: "json_ok v \<Longrightarrow> json_ok (freeze v)"
proof (induction v rule: freeze.induct)
  case (2 d)
  have "dict_ok (sort_key fst (map (\<lambda>(k, v). (k, freeze v)) d))"
    using 2(2) by simp (simp add: dict_ok_def)
  then show ?case using 2 by auto
qed auto

lemma validate_sound:
  "validate v kind = Inr b \<Longrightarrow>
   body_ok b \<and> kind = JStr (if terms b = None then ''cancel'' else ''new'')"
  unfolding validate_def Let_def and_then_Inr_iff
  apply (elim exE conjE)
  subgoal for is_new body request oid
    by (cases is_new) (auto simp only: if_True if_False and_then_Inr_iff order_kind_Inr check_field_def
      check_identifier_Inr check_integer_Inr body_ok_def terms_ok_def body.simps order_terms.simps
      sum.inject option.simps refl)
  done

lemma json_ok_item: "json_ok (JDict d) \<Longrightarrow> dict_get d k = Some v \<Longrightarrow> json_ok v"
  using map_of_SomeD[of d k v] by auto

lemma check_symbols_sound:
  "check_symbols v = Inr symbols \<Longrightarrow>
   symbols \<noteq> [] \<and> distinct symbols \<and> list_all is_identifier symbols"
  by (auto simp: check_symbols_def result_simps list_all_iff in_set_conv_nth list_all2_conv_all_nth)

lemma check_positions_sound:
  assumes "list_all2 (\<lambda>x y. check_position x = Inr y) ps positions"
  shows "map fst positions = map fst ps"
    "\<forall>(x, n) \<in> set positions. x \<in> fst ` set ps \<and> 0 \<le> n \<and> n \<le> 1000000000000"
  using assms by (induction rule: list_all2_induct) (auto simp: check_position_def result_simps)

lemma check_opening_sound:
  assumes "check_opening symbols (k, v) = Inr (owner, a)" "json_ok v"
  shows "owner = k" "is_identifier owner" "opening_ok symbols a"
proof -
  have "owner = k \<and> is_identifier k \<and> (\<exists>d. v = JDict d \<and>
      (\<exists>ps. dict_get d ''positions'' = Some (JDict ps) \<and> fst ` set ps \<subseteq> set symbols \<and>
        list_all2 (\<lambda>x y. check_position x = Inr y) ps (op_positions a))) \<and>
      0 \<le> op_cash a \<and> op_cash a \<le> 1000000000000"
    using assms(1)
    by (simp only: check_opening_def prod.case and_then_Inr_iff require_Inr_iff check_field_def
        check_identifier_Inr check_integer_Inr traverse_Inr_iff item_Inr as_dict_Inr exact_fields_Inr)
      clarsimp
  then obtain d ps where k: "owner = k" "is_identifier k" and v: "v = JDict d"
    and ps: "dict_get d ''positions'' = Some (JDict ps)" "fst ` set ps \<subseteq> set symbols"
    and a: "list_all2 (\<lambda>x y. check_position x = Inr y) ps (op_positions a)"
    and c: "0 \<le> op_cash a" "op_cash a \<le> 1000000000000"
    by blast
  show "owner = k" "is_identifier owner" using k by simp_all
  have "dict_ok ps" using json_ok_item[OF assms(2)[unfolded v] ps(1)] by simp
  then show "opening_ok symbols a"
    using check_positions_sound[OF a] ps(2) c by (auto simp: opening_ok_def dict_ok_def)
qed

lemma check_accounts_sound:
  assumes "check_accounts symbols v = Inr accounts" "json_ok v"
  shows "accounts \<noteq> []" "dict_ok accounts"
    "\<forall>(owner, a) \<in> set accounts. is_identifier owner \<and> opening_ok symbols a"
proof -
  have "\<exists>d. v = JDict d \<and> d \<noteq> [] \<and> list_all2 (\<lambda>x y. check_opening symbols x = Inr y) d accounts"
    using assms(1)
    by (simp only: check_accounts_def and_then_Inr_iff require_Inr_iff traverse_Inr_iff as_dict_Inr)
      clarsimp
  then obtain d where d: "v = JDict d" "d \<noteq> []"
    and acc: "list_all2 (\<lambda>x y. check_opening symbols x = Inr y) d accounts"
    by blast
  show "accounts \<noteq> []" using d acc by auto
  have ok: "\<forall>(k, w) \<in> set d. json_ok w" "dict_ok d" using assms(2) by (simp_all add: d)
  have "map fst accounts = map fst d"
    using acc ok(1) by (induction rule: list_all2_induct) (auto dest: check_opening_sound)
  then show "dict_ok accounts" using ok by (simp add: dict_ok_def)
  show "\<forall>(owner, a) \<in> set accounts. is_identifier owner \<and> opening_ok symbols a"
    using acc ok(1) by (induction rule: list_all2_induct) (auto dest: check_opening_sound)
qed

lemma check_session_sound:
  assumes "check_session v = Inr s"
  shows "0 \<le> start_minute s \<and> start_minute s < end_minute s \<and> end_minute s \<le> 1440 \<and>
    weekdays s \<noteq> [] \<and> distinct (weekdays s) \<and> (\<forall>d \<in> set (weekdays s). 0 \<le> d \<and> d \<le> 6)"
proof -
  have "(\<exists>days. days \<noteq> [] \<and> list_all2 (\<lambda>x y. check_integer x 0 6 = Inr y) days (weekdays s)) \<and>
      distinct (weekdays s) \<and> 0 \<le> start_minute s \<and> start_minute s < end_minute s \<and> end_minute s \<le> 1440"
    using assms
    by (simp only: check_session_def check_field_def and_then_Inr_iff require_Inr_iff
        check_integer_Inr[of _ 0 1439] check_integer_Inr[of _ _ 1440] traverse_Inr_iff item_Inr
        as_list_Inr exact_fields_Inr)
      (clarsimp, blast)
  then obtain days where days: "days \<noteq> []" "list_all2 (\<lambda>x y. check_integer x 0 6 = Inr y) days (weekdays s)"
    "distinct (weekdays s)" and m: "0 \<le> start_minute s" "start_minute s < end_minute s" "end_minute s \<le> 1440"
    by blast
  have "\<forall>d \<in> set (weekdays s). 0 \<le> d \<and> d \<le> 6"
    using days(2) by (induction rule: list_all2_induct) (auto simp: result_simps)
  then show ?thesis using days m by auto
qed

lemma validate_settings_sound:
  assumes "validate_settings v = Inr s" "json_ok v"
  shows "settings_ok s"
proof -
  have "\<exists>d. freeze v = JDict d \<and> (\<exists>va. dict_get d ''accounts'' = Some va \<and>
      check_accounts (s_symbols s) va = Inr (s_accounts s)) \<and>
      (\<exists>v. check_symbols v = Inr (s_symbols s)) \<and> (\<exists>v. check_session v = Inr (s_session s)) \<and>
      1 \<le> s_daily_limit s \<and> s_daily_limit s \<le> 1000000"
    using assms(1)
    by (simp only: validate_settings_def and_then_Inr_iff check_field_def item_Inr exact_fields_Inr
        check_integer_Inr)
      (clarsimp, blast)
  then obtain d vs va vss where d: "freeze v = JDict d"
    and sy: "check_symbols vs = Inr (s_symbols s)"
    and ac: "dict_get d ''accounts'' = Some va" "check_accounts (s_symbols s) va = Inr (s_accounts s)"
    and se: "check_session vss = Inr (s_session s)"
    and lim: "1 \<le> s_daily_limit s" "s_daily_limit s \<le> 1000000"
    by blast
  have "json_ok va"
    using json_ok_freeze[OF assms(2)] json_ok_item[OF _ ac(1)] by (simp only: d)
  then show ?thesis
    using check_symbols_sound[OF sy] check_accounts_sound[OF ac(2)] check_session_sound[OF se] lim
    by (simp add: settings_ok_def)
qed

end
