(* ===== verification/Order_Book.thy ===== *)
theory Order_Book
  imports Wire
begin

text \<open>
  The order-book index of the stock exchange (\<^verbatim>\<open>stock_exchange/order_book.py\<close>): per symbol and
  side a dictionary of price levels, a heap of signed prices and a dictionary of doubly linked
  FIFO nodes.

  The levels and nodes are insertion-ordered dictionaries as in the code; a level is keyed by
  the integer price where the code uses its decimal text.  The heap follows the contract
  \<^verbatim>\<open>heapq\<close> documents (the first element is the smallest): it is kept as the sorted list of its
  elements.

  The abstract book side is the list of resting entries in arrival order.  \<open>side_repr\<close> relates the
  index to that list and every operation is shown to refine the obvious list operation:
  \<^verbatim>\<open>add\<close> appends, \<^verbatim>\<open>remove\<close> deletes, \<^verbatim>\<open>consume\<close> lowers one quantity and \<^verbatim>\<open>best\<close> is price-time
  priority.
\<close>

section \<open>Data\<close>

datatype status = OPEN | PARTIAL | FILLED | CANCELED

record order =
  o_request_id :: string
  o_order_id :: string
  o_symbol :: string
  o_side :: side
  o_price :: int
  o_quantity :: int
  o_owner :: string
  o_seq :: int
  o_timestamp :: int
  o_day :: string
  o_remaining :: int
  o_filled :: int
  o_status :: status
  o_reason :: string

record level =
  l_head :: "string option"
  l_tail :: "string option"
  l_quantity :: int

record node =
  n_previous :: "string option"
  n_next :: "string option"
  n_price :: int
  n_quantity :: int

record book_side =
  b_levels :: "(int, level) dict"
  b_heap :: "int list"
  b_nodes :: "(string, node) dict"

record sides =
  buys :: book_side
  sells :: book_side

type_synonym book_index = "(string, sides) dict"

fun sign :: "side \<Rightarrow> int" where
  "sign BUY = -1"
| "sign SELL = 1"

fun opposite :: "side \<Rightarrow> side" where
  "opposite BUY = SELL"
| "opposite SELL = BUY"

fun get_side :: "side \<Rightarrow> sides \<Rightarrow> book_side" where
  "get_side BUY v = buys v"
| "get_side SELL v = sells v"

fun set_side :: "side \<Rightarrow> book_side \<Rightarrow> sides \<Rightarrow> sides" where
  "set_side BUY s v = v\<lparr>buys := s\<rparr>"
| "set_side SELL s v = v\<lparr>sells := s\<rparr>"

section \<open>Operations on one side\<close>

definition empty_side :: book_side where
  "empty_side = \<lparr>b_levels = [], b_heap = [], b_nodes = []\<rparr>"

text \<open>\<^verbatim>\<open>heapq\<close> on the sorted presentation of a heap.\<close>

definition heappush :: "int \<Rightarrow> int list \<Rightarrow> int list" where
  "heappush x h = insort x h"

definition heapify :: "int list \<Rightarrow> int list" where
  "heapify h = sort h"

text \<open>The level an order joins, created when its price is new.\<close>

definition open_level :: "side \<Rightarrow> int \<Rightarrow> book_side \<Rightarrow> book_side" where
  "open_level sd key s =
     (if dict_get (b_levels s) key = None
      then s\<lparr>b_levels := dict_set key \<lparr>l_head = None, l_tail = None, l_quantity = 0\<rparr> (b_levels s),
             b_heap := heappush (sign sd * key) (b_heap s)\<rparr>
      else s)"

definition add_side :: "order \<Rightarrow> book_side \<Rightarrow> book_side result" where
  "add_side order s0 =
     (let key = o_price order; i = o_order_id order in
      if dict_get (b_nodes s0) i \<noteq> None then Inl (ValueError ''order already indexed'')
      else let s = open_level (o_side order) key s0 in
        case dict_get (b_levels s) key of
          None \<Rightarrow> Inl (KeyError ''level'')
        | Some level \<Rightarrow>
            let previous = l_tail level;
                nodes = dict_set i \<lparr>n_previous = previous, n_next = None, n_price = key,
                                    n_quantity = o_remaining order\<rparr> (b_nodes s)
            in case previous of
                 None \<Rightarrow>
                   Inr (s\<lparr>b_nodes := nodes,
                          b_levels := dict_set key
                            \<lparr>l_head = Some i, l_tail = Some i,
                             l_quantity = l_quantity level + o_remaining order\<rparr> (b_levels s)\<rparr>)
               | Some t \<Rightarrow>
                   (case dict_get nodes t of
                      None \<Rightarrow> Inl (KeyError ''node'')
                    | Some n \<Rightarrow>
                        Inr (s\<lparr>b_nodes := dict_set t (n\<lparr>n_next := Some i\<rparr>) nodes,
                               b_levels := dict_set key
                                 \<lparr>l_head = l_head level, l_tail = Some i,
                                  l_quantity = l_quantity level + o_remaining order\<rparr>
                                 (b_levels s)\<rparr>)))"

text \<open>
  Unlinking: the neighbour in one direction, or the end of the level when there is none.
\<close>

definition relink_next ::
  "string option \<Rightarrow> string option \<Rightarrow> level \<Rightarrow> (string, node) dict
   \<Rightarrow> (level \<times> (string, node) dict) result" where
  "relink_next previous following level nodes =
     (case previous of
        None \<Rightarrow> Inr (level\<lparr>l_head := following\<rparr>, nodes)
      | Some a \<Rightarrow>
          (case dict_get nodes a of
             None \<Rightarrow> Inl (KeyError ''node'')
           | Some n \<Rightarrow> Inr (level, dict_set a (n\<lparr>n_next := following\<rparr>) nodes)))"

definition relink_previous ::
  "string option \<Rightarrow> string option \<Rightarrow> level \<Rightarrow> (string, node) dict
   \<Rightarrow> (level \<times> (string, node) dict) result" where
  "relink_previous previous following level nodes =
     (case following of
        None \<Rightarrow> Inr (level\<lparr>l_tail := previous\<rparr>, nodes)
      | Some b \<Rightarrow>
          (case dict_get nodes b of
             None \<Rightarrow> Inl (KeyError ''node'')
           | Some n \<Rightarrow> Inr (level, dict_set b (n\<lparr>n_previous := previous\<rparr>) nodes)))"

text \<open>Stale prices stay in the heap until they outnumber the live levels.\<close>

definition compact :: "side \<Rightarrow> book_side \<Rightarrow> book_side" where
  "compact sd s =
     (if length (b_heap s) > 2 * length (b_levels s) + 8
      then s\<lparr>b_heap := heapify (map (\<lambda>price. price * sign sd) (sort (map fst (b_levels s))))\<rparr>
      else s)"

definition remove_side :: "order \<Rightarrow> book_side \<Rightarrow> book_side result" where
  "remove_side order s =
     (let i = o_order_id order in
      case dict_get (b_nodes s) i of
        None \<Rightarrow> Inr s
      | Some node \<Rightarrow>
          let nodes = dict_del i (b_nodes s); key = n_price node in
          (case dict_get (b_levels s) key of
             None \<Rightarrow> Inl (KeyError ''level'')
           | Some level \<Rightarrow>
               and_then (relink_next (n_previous node) (n_next node) level nodes)
                 (\<lambda>(level, nodes).
               and_then (relink_previous (n_previous node) (n_next node) level nodes)
                 (\<lambda>(level, nodes).
               let level = level\<lparr>l_quantity := l_quantity level - n_quantity node\<rparr>;
                   levels = (if l_head level = None then dict_del key (b_levels s)
                             else dict_set key level (b_levels s))
               in Inr (compact (o_side order) (s\<lparr>b_levels := levels, b_nodes := nodes\<rparr>))))))"

definition consume_side :: "order \<Rightarrow> int \<Rightarrow> book_side \<Rightarrow> book_side result" where
  "consume_side order quantity s =
     (let i = o_order_id order in
      case dict_get (b_nodes s) i of
        None \<Rightarrow> Inl (KeyError ''node'')
      | Some node \<Rightarrow>
          if quantity = n_quantity node then remove_side order s
          else if 0 < quantity \<and> quantity < n_quantity node then
            (case dict_get (b_levels s) (n_price node) of
               None \<Rightarrow> Inl (KeyError ''level'')
             | Some level \<Rightarrow>
                 Inr (s\<lparr>b_nodes := dict_set i (node\<lparr>n_quantity := n_quantity node - quantity\<rparr>)
                                    (b_nodes s),
                        b_levels := dict_set (n_price node)
                          (level\<lparr>l_quantity := l_quantity level - quantity\<rparr>) (b_levels s)\<rparr>))
          else Inl (ValueError ''invalid indexed execution quantity''))"

text \<open>The loop of \<^verbatim>\<open>best\<close>: stale heads are popped, the first live level answers.\<close>

fun best_loop :: "side \<Rightarrow> (int, level) dict \<Rightarrow> int list \<Rightarrow> string option \<times> int list" where
  "best_loop sd levels [] = (None, [])"
| "best_loop sd levels (x # heap) =
     (case dict_get levels (x * sign sd) of
        Some level \<Rightarrow> (l_head level, x # heap)
      | None \<Rightarrow> best_loop sd levels heap)"

definition best_side :: "side \<Rightarrow> book_side \<Rightarrow> string option \<times> book_side" where
  "best_side sd s =
     (case best_loop sd (b_levels s) (b_heap s) of (r, heap) \<Rightarrow> (r, s\<lparr>b_heap := heap\<rparr>))"

definition side_levels :: "book_side \<Rightarrow> (int, int) dict" where
  "side_levels s = map (\<lambda>(price, level). (price, l_quantity level)) (b_levels s)"

section \<open>The book of all symbols\<close>

definition empty_book :: "string list \<Rightarrow> book_index" where
  "empty_book symbols =
     fold (\<lambda>symbol. dict_set symbol \<lparr>buys = empty_side, sells = empty_side\<rparr>) symbols []"

text \<open>Running an operation on the side \<^verbatim>\<open>self.value[symbol][side]\<close>.\<close>

definition on_side ::
  "string \<Rightarrow> side \<Rightarrow> (book_side \<Rightarrow> book_side result) \<Rightarrow> book_index \<Rightarrow> book_index result" where
  "on_side symbol sd f value =
     (case dict_get value symbol of
        None \<Rightarrow> Inl (KeyError symbol)
      | Some v \<Rightarrow> and_then (f (get_side sd v)) (\<lambda>s. Inr (dict_set symbol (set_side sd s v) value)))"

definition book_add :: "order \<Rightarrow> book_index \<Rightarrow> book_index result" where
  "book_add order value = on_side (o_symbol order) (o_side order) (add_side order) value"

definition book_remove :: "order \<Rightarrow> book_index \<Rightarrow> book_index result" where
  "book_remove order value = on_side (o_symbol order) (o_side order) (remove_side order) value"

definition book_consume :: "order \<Rightarrow> int \<Rightarrow> book_index \<Rightarrow> book_index result" where
  "book_consume order quantity value =
     on_side (o_symbol order) (o_side order) (consume_side order quantity) value"

definition book_best :: "string \<Rightarrow> side \<Rightarrow> book_index \<Rightarrow> (string option \<times> book_index) result" where
  "book_best symbol taker_side value =
     (let sd = opposite taker_side in
      case dict_get value symbol of
        None \<Rightarrow> Inl (KeyError symbol)
      | Some v \<Rightarrow>
          (case best_side sd (get_side sd v) of
             (r, s) \<Rightarrow> Inr (r, dict_set symbol (set_side sd s v) value)))"

definition book_levels :: "string \<Rightarrow> book_index \<Rightarrow> ((int, int) dict \<times> (int, int) dict) result" where
  "book_levels symbol value =
     (case dict_get value symbol of
        None \<Rightarrow> Inl (KeyError symbol)
      | Some v \<Rightarrow> Inr (side_levels (buys v), side_levels (sells v)))"

lemma map_of_map_snd: "map_of (map (\<lambda>(k, v). (k, f v)) d) k = map_option f (map_of d k)"
  by (induction d) auto

section \<open>The abstract side: entries in arrival order\<close>

type_synonym entry = "string \<times> int \<times> int"

fun first_id :: "int \<Rightarrow> entry list \<Rightarrow> string option" where
  "first_id p [] = None"
| "first_id p ((i, p', q) # es) = (if p' = p then Some i else first_id p es)"

fun last_id :: "int \<Rightarrow> entry list \<Rightarrow> string option" where
  "last_id p [] = None"
| "last_id p ((i, p', q) # es) =
     (case last_id p es of Some j \<Rightarrow> Some j | None \<Rightarrow> if p' = p then Some i else None)"

fun depth_at :: "int \<Rightarrow> entry list \<Rightarrow> int" where
  "depth_at p [] = 0"
| "depth_at p ((i, p', q) # es) = (if p' = p then q else 0) + depth_at p es"

definition level_at :: "entry list \<Rightarrow> int \<Rightarrow> level option" where
  "level_at es p =
     (case first_id p es of
        None \<Rightarrow> None
      | Some h \<Rightarrow> Some \<lparr>l_head = Some h, l_tail = last_id p es, l_quantity = depth_at p es\<rparr>)"

definition nodes_at :: "entry list \<Rightarrow> (string \<Rightarrow> node option) \<Rightarrow> bool" where
  "nodes_at es f \<longleftrightarrow>
     (\<forall>pre i p q post. es = pre @ (i, p, q) # post \<longrightarrow>
        f i = Some \<lparr>n_previous = last_id p pre, n_next = first_id p post,
                    n_price = p, n_quantity = q\<rparr>) \<and>
     (\<forall>i. i \<notin> fst ` set es \<longrightarrow> f i = None)"

definition side_repr :: "side \<Rightarrow> entry list \<Rightarrow> book_side \<Rightarrow> bool" where
  "side_repr sd es s \<longleftrightarrow>
     distinct (map fst es) \<and> (\<forall>(i, p, q) \<in> set es. 0 < q) \<and>
     dict_ok (b_levels s) \<and> dict_ok (b_nodes s) \<and>
     dict_get (b_levels s) = level_at es \<and> nodes_at es (dict_get (b_nodes s)) \<and>
     sorted (b_heap s) \<and> (\<forall>(i, p, q) \<in> set es. sign sd * p \<in> set (b_heap s))"

lemma first_id_append [simp]:
  "first_id p (xs @ ys) = (case first_id p xs of None \<Rightarrow> first_id p ys | Some a \<Rightarrow> Some a)"
  by (induction xs rule: first_id.induct) auto

lemma last_id_append [simp]:
  "last_id p (xs @ ys) = (case last_id p ys of None \<Rightarrow> last_id p xs | Some a \<Rightarrow> Some a)"
  by (induction xs rule: last_id.induct) (auto split: option.splits)

lemma depth_at_append [simp]: "depth_at p (xs @ ys) = depth_at p xs + depth_at p ys"
  by (induction p xs rule: depth_at.induct) auto

lemma first_id_None: "first_id p es = None \<longleftrightarrow> (\<forall>(i, p', q) \<in> set es. p' \<noteq> p)"
  by (induction es rule: first_id.induct) auto

lemma last_id_None: "last_id p es = None \<longleftrightarrow> first_id p es = None"
  by (induction es rule: last_id.induct) (auto split: option.splits)

lemma first_id_Some:
  "first_id p es = Some i \<Longrightarrow> \<exists>pre q post. es = pre @ (i, p, q) # post \<and> first_id p pre = None"
proof (induction p es rule: first_id.induct)
  case (2 p j p' q es)
  show ?case
  proof (cases "p' = p")
    case True
    then show ?thesis using 2 by force
  next
    case False
    then obtain pre q0 post where "es = pre @ (i, p, q0) # post" "first_id p pre = None"
      using 2 by auto
    then show ?thesis
      using False by (intro exI[of _ "(j, p', q) # pre"] exI[of _ q0] exI[of _ post]) simp
  qed
qed simp

lemma last_id_Some:
  "last_id p es = Some i \<Longrightarrow> \<exists>pre q post. es = pre @ (i, p, q) # post \<and> first_id p post = None"
proof (induction p es rule: last_id.induct)
  case (2 p j p' q es)
  show ?case
  proof (cases "last_id p es")
    case None
    then have "p' = p" "j = i"
      using 2(2) by (simp_all split: if_splits)
    moreover have "first_id p es = None"
      using None by (simp add: last_id_None)
    ultimately show ?thesis by (intro exI[of _ "[]"]) auto
  next
    case (Some k)
    then obtain pre q0 post where "es = pre @ (i, p, q0) # post" "first_id p post = None"
      using 2 by auto
    then show ?thesis
      by (intro exI[of _ "(j, p', q) # pre"] exI[of _ q0] exI[of _ post]) simp
  qed
qed simp

lemma first_id_mem: "first_id p es = Some i \<Longrightarrow> \<exists>q. (i, p, q) \<in> set es"
  using first_id_Some by fastforce

lemma last_id_mem: "last_id p es = Some i \<Longrightarrow> \<exists>q. (i, p, q) \<in> set es"
  using last_id_Some by fastforce

lemma first_id_in: "first_id p es = Some i \<Longrightarrow> i \<in> fst ` set es"
  using first_id_mem by force

lemma last_id_in: "last_id p es = Some i \<Longrightarrow> i \<in> fst ` set es"
  using last_id_mem by force

lemma level_at_None: "level_at es p = None \<longleftrightarrow> first_id p es = None"
  by (simp add: level_at_def split: option.split)

lemma nodes_atD:
  "nodes_at (pre @ (i, p, q) # post) f \<Longrightarrow>
   f i = Some \<lparr>n_previous = last_id p pre, n_next = first_id p post, n_price = p, n_quantity = q\<rparr>"
  by (simp add: nodes_at_def)

lemma nodes_at_absent: "nodes_at es f \<Longrightarrow> i \<notin> fst ` set es \<Longrightarrow> f i = None"
  by (simp add: nodes_at_def)

lemma nodes_at_dom: "nodes_at es f \<Longrightarrow> f i \<noteq> None \<longleftrightarrow> i \<in> fst ` set es"
proof
  assume "nodes_at es f" "i \<in> fst ` set es"
  then show "f i \<noteq> None"
    by (metis (no_types, lifting) imageE in_set_conv_decomp nodes_atD option.discI prod.collapse)
qed (auto dest: nodes_at_absent)

section \<open>Refinement of the link operations\<close>

lemma last_id_split:
  assumes "distinct (map fst (pre @ (j, p', q) # post))"
  shows "last_id p (pre @ (j, p', q) # post) = Some j \<longleftrightarrow> p' = p \<and> first_id p post = None"
proof -
  have "last_id p pre \<noteq> Some j" "last_id p post \<noteq> Some j"
    using assms last_id_in[of p pre j] last_id_in[of p post j] by auto
  then show ?thesis
    using last_id_None[of p post] by (auto split: option.split)
qed

lemma first_id_split:
  assumes "distinct (map fst (pre @ (j, p', q) # post))"
  shows "first_id p (pre @ (j, p', q) # post) = Some j \<longleftrightarrow> p' = p \<and> first_id p pre = None"
proof -
  have "first_id p pre \<noteq> Some j" "first_id p post \<noteq> Some j"
    using assms first_id_in[of p pre j] first_id_in[of p post j] by auto
  then show ?thesis by (auto split: option.split)
qed

lemma nodes_at_add:
  assumes nodes: "nodes_at es f" and fresh: "i \<notin> fst ` set es" and dist: "distinct (map fst es)"
    and f': "f' = f(i \<mapsto> \<lparr>n_previous = last_id p es, n_next = None, n_price = p, n_quantity = q\<rparr>)"
  shows "nodes_at (es @ [(i, p, q)])
           (case last_id p es of None \<Rightarrow> f' | Some t \<Rightarrow> f'(t := map_option (n_next_update (\<lambda>_. Some i)) (f t)))"
    (is "nodes_at _ ?g")
proof -
  have other: "last_id p es = Some t \<Longrightarrow> t \<noteq> i" for t
    using fresh last_id_mem by force
  have "?g j = Some \<lparr>n_previous = last_id p' pre, n_next = first_id p' post, n_price = p', n_quantity = q'\<rparr>"
    if eq: "es @ [(i, p, q)] = pre @ (j, p', q') # post" for pre j p' q' post
  proof (cases post rule: rev_cases)
    case Nil
    then show ?thesis
      using eq other by (auto simp: f' split: option.split)
  next
    case (snoc post' e)
    then have e: "e = (i, p, q)" and es: "es = pre @ (j, p', q') # post'"
      using eq by auto
    have fj: "f j = Some \<lparr>n_previous = last_id p' pre, n_next = first_id p' post',
                          n_price = p', n_quantity = q'\<rparr>"
      using nodes nodes_atD unfolding es by blast
    have "j \<noteq> i" using fresh es by force
    have last: "last_id p es = Some j \<longleftrightarrow> p' = p \<and> first_id p post' = None"
      using last_id_split dist unfolding es by blast
    show ?thesis
    proof (cases "last_id p es = Some j")
      case True
      then show ?thesis using last fj by (simp add: snoc e)
    next
      case False
      then have "?g j = f j" using \<open>j \<noteq> i\<close> by (simp add: f' split: option.split)
      then show ?thesis using last False fj by (auto simp: snoc e split: option.split)
    qed
  qed
  moreover have "?g j = None" if "j \<notin> fst ` set (es @ [(i, p, q)])" for j
  proof -
    have "f j = None" "j \<noteq> i" using that nodes by (auto dest: nodes_at_absent)
    then show ?thesis by (auto simp: f' split: option.split)
  qed
  ultimately show ?thesis by (simp add: nodes_at_def)
qed

lemma nodes_at_remove:
  assumes nodes: "nodes_at (A @ (i, p, q) # B) f" and dist: "distinct (map fst (A @ (i, p, q) # B))"
    and g: "g = f(i := None)"
    and h: "h = (case last_id p A of None \<Rightarrow> g
                 | Some a \<Rightarrow> g(a := map_option (n_next_update (\<lambda>_. first_id p B)) (g a)))"
  shows "nodes_at (A @ B)
           (case first_id p B of None \<Rightarrow> h
            | Some b \<Rightarrow> h(b := map_option (n_previous_update (\<lambda>_. last_id p A)) (h b)))"
    (is "nodes_at _ ?k")
proof -
  have dAB: "distinct (map fst A)" "distinct (map fst B)"
    using dist by simp_all
  have "?k j = Some \<lparr>n_previous = last_id p' pre, n_next = first_id p' post, n_price = p', n_quantity = q'\<rparr>"
    if eq: "A @ B = pre @ (j, p', q') # post" for pre j p' q' post
  proof -
    from eq consider (left) A2 where "A = pre @ (j, p', q') # A2" "post = A2 @ B"
      | (right) B1 where "B = B1 @ (j, p', q') # post" "pre = A @ B1"
      by (auto simp: append_eq_append_conv2 append_eq_Cons_conv Cons_eq_append_conv)
    then show ?thesis
    proof cases
      case left
      have fj: "f j = Some \<lparr>n_previous = last_id p' pre, n_next = first_id p' (A2 @ (i, p, q) # B),
                            n_price = p', n_quantity = q'\<rparr>"
        using nodes nodes_atD[of pre j p' q' "A2 @ (i, p, q) # B" f] by (simp add: left)
      have j: "j \<noteq> i" "first_id p B \<noteq> Some j" using dist first_id_in[of p B j] by (auto simp: left)
      have "last_id p A = Some j \<longleftrightarrow> p' = p \<and> first_id p A2 = None"
        using dAB(1) unfolding left(1) by (rule last_id_split)
      then show ?thesis
        using j fj by (cases "last_id p A = Some j") (auto simp: h g left split: option.split)
    next
      case right
      have fj: "f j = Some \<lparr>n_previous = last_id p' (A @ (i, p, q) # B1), n_next = first_id p' post,
                            n_price = p', n_quantity = q'\<rparr>"
        using nodes nodes_atD[of "A @ (i, p, q) # B1" j p' q' post f] by (simp add: right)
      have j: "j \<noteq> i" "last_id p A \<noteq> Some j" using dist last_id_in[of p A j] by (auto simp: right)
      have "first_id p B = Some j \<longleftrightarrow> p' = p \<and> first_id p B1 = None"
        using dAB(2) unfolding right(1) by (rule first_id_split)
      then show ?thesis
        using j fj last_id_None[of p B1]
        by (cases "first_id p B = Some j") (auto simp: h g right split: option.split)
    qed
  qed
  moreover have "?k j = None" if "j \<notin> fst ` set (A @ B)" for j
  proof -
    have "g j = None" using that nodes_at_absent[OF nodes, of j] by (auto simp: g)
    then show ?thesis by (auto simp: h split: option.split)
  qed
  ultimately show ?thesis by (simp add: nodes_at_def)
qed

lemma nodes_at_consume:
  assumes nodes: "nodes_at (A @ (i, p, q) # B) f" and dist: "distinct (map fst (A @ (i, p, q) # B))"
  shows "nodes_at (A @ (i, p, q') # B) (f(i := map_option (n_quantity_update (\<lambda>_. q')) (f i)))"
proof -
  have "(f(i := map_option (n_quantity_update (\<lambda>_. q')) (f i))) j
        = Some \<lparr>n_previous = last_id p1 pre, n_next = first_id p1 post, n_price = p1, n_quantity = q1\<rparr>"
    if eq: "A @ (i, p, q') # B = pre @ (j, p1, q1) # post" for pre j p1 q1 post
  proof -
    from eq consider "pre = A" "(j, p1, q1) = (i, p, q')" "post = B"
      | A2 where "A = pre @ (j, p1, q1) # A2" "post = A2 @ (i, p, q') # B"
      | B1 where "B = B1 @ (j, p1, q1) # post" "pre = A @ (i, p, q') # B1"
      by (auto simp: append_eq_append_conv2 append_eq_Cons_conv Cons_eq_append_conv)
    then show ?thesis
    proof cases
      case 1
      then show ?thesis using nodes_atD[OF nodes] by simp
    next
      case (2 A2)
      then show ?thesis
        using nodes nodes_atD[of pre j p1 q1 "A2 @ (i, p, q) # B" f] dist
        by (auto split: option.split)
    next
      case (3 B1)
      then show ?thesis
        using nodes nodes_atD[of "A @ (i, p, q) # B1" j p1 q1 post f] dist
        by (auto split: option.split)
    qed
  qed
  moreover have "(f(i := map_option (n_quantity_update (\<lambda>_. q')) (f i))) j = None"
    if "j \<notin> fst ` set (A @ (i, p, q') # B)" for j
    using that nodes by (simp add: nodes_at_absent)
  ultimately show ?thesis by (simp only: nodes_at_def) blast
qed

section \<open>Refinement of the operations\<close>

definition remove_entry :: "string \<Rightarrow> entry list \<Rightarrow> entry list" where
  "remove_entry i es = filter (\<lambda>e. fst e \<noteq> i) es"

definition set_quantity :: "string \<Rightarrow> int \<Rightarrow> entry list \<Rightarrow> entry list" where
  "set_quantity i q es = map (\<lambda>(j, p, r). if j = i then (j, p, q) else (j, p, r)) es"

lemma sign_sq [simp]: "x * sign sd * sign sd = x" "sign sd * (sign sd * x) = x"
  by (cases sd; simp)+

lemma side_repr_empty: "side_repr sd [] empty_side"
  by (auto simp: side_repr_def empty_side_def level_at_def nodes_at_def)

lemma set_heappush [simp]: "set (heappush x h) = insert x (set h)"
  by (simp add: heappush_def set_insort_key)

lemma sorted_heappush [simp]: "sorted (heappush x h) \<longleftrightarrow> sorted h"
  by (simp add: heappush_def sorted_insort)

lemma add_side_indexed:
  "side_repr sd es s \<Longrightarrow> o_order_id order \<in> fst ` set es \<Longrightarrow>
   add_side order s = Inl (ValueError ''order already indexed'')"
  using nodes_at_dom[of es "dict_get (b_nodes s)" "o_order_id order"]
  by (auto simp: side_repr_def add_side_def)

lemma level_at_snoc:
  "level_at (es @ [(i, p, q)]) =
   (level_at es)(p \<mapsto> \<lparr>l_head = (case first_id p es of None \<Rightarrow> Some i | Some h \<Rightarrow> Some h),
                       l_tail = Some i, l_quantity = depth_at p es + q\<rparr>)"
  by (rule ext) (auto simp: level_at_def split: option.split)

text \<open>
  \<^verbatim>\<open>add\<close> on an order that is not indexed yet appends its entry.
\<close>

lemma add_side_refines:
  assumes repr: "side_repr (o_side order) es s" and fresh: "o_order_id order \<notin> fst ` set es"
    and pos: "0 < o_remaining order"
  shows "\<exists>s'. add_side order s = Inr s' \<and>
           side_repr (o_side order) (es @ [(o_order_id order, o_price order, o_remaining order)]) s'"
proof -
  let ?i = "o_order_id order" and ?p = "o_price order" and ?q = "o_remaining order"
  let ?new = "\<lparr>n_previous = last_id ?p es, n_next = None, n_price = ?p, n_quantity = ?q\<rparr>"
  note r = repr[unfolded side_repr_def]
  have nodes: "nodes_at es (dict_get (b_nodes s))" and dist: "distinct (map fst es)"
    and lv: "dict_get (b_levels s) = level_at es"
    using r by auto
  have absent: "dict_get (b_nodes s) ?i = None"
    using nodes fresh by (rule nodes_at_absent)
  note step = nodes_at_add[OF nodes fresh dist refl, of ?p ?q]
  show ?thesis
  proof (cases "first_id ?p es")
    case None
    then have l: "last_id ?p es = None" by (simp add: last_id_None)
    have d: "depth_at ?p es = 0"
      using None by (induction ?p es rule: depth_at.induct) (auto split: if_splits)
    have "\<forall>(i, p, q) \<in> set es. p \<noteq> ?p" using None by (simp add: first_id_None)
    then show ?thesis
      using r step absent None l d pos fresh
      by (auto simp: add_side_def Let_def open_level_def side_repr_def lv level_at_def dict_simps
          level_at_snoc)
  next
    case (Some h)
    then obtain t where t: "last_id ?p es = Some t"
      using last_id_None[of ?p es] by (cases "last_id ?p es") auto
    then have "t \<in> fst ` set es" by (rule last_id_in)
    then obtain n where n: "dict_get (b_nodes s) t = Some n" and "t \<noteq> ?i"
      using nodes_at_dom[OF nodes, of t] fresh by (cases "t = ?i") auto
    moreover have "\<exists>q. (h, ?p, q) \<in> set es" using Some by (rule first_id_mem)
    ultimately show ?thesis
      using r step absent Some t pos fresh
      by (auto simp: add_side_def Let_def open_level_def side_repr_def lv level_at_def dict_simps
          level_at_snoc)
  qed
qed

lemma first_id_depth: "first_id p es = None \<Longrightarrow> depth_at p es = 0"
  by (induction p es rule: depth_at.induct) (auto split: if_splits)

lemma remove_entry_absent: "i \<notin> fst ` set es \<Longrightarrow> remove_entry i es = es"
  unfolding remove_entry_def by (rule filter_True) force

lemma set_quantity_absent: "i \<notin> fst ` set es \<Longrightarrow> set_quantity i q es = es"
  unfolding set_quantity_def by (rule map_idI) force

lemma remove_entry_append [simp]: "remove_entry i (xs @ ys) = remove_entry i xs @ remove_entry i ys"
  by (simp add: remove_entry_def)

lemma set_quantity_append [simp]:
  "set_quantity i q (xs @ ys) = set_quantity i q xs @ set_quantity i q ys"
  by (simp add: set_quantity_def)

lemma remove_entry_split:
  "distinct (map fst (A @ (i, p, q) # B)) \<Longrightarrow> remove_entry i (A @ (i, p, q) # B) = A @ B"
  using remove_entry_absent[of i A] remove_entry_absent[of i B] by (simp add: remove_entry_def)

lemma set_quantity_split:
  "distinct (map fst (A @ (i, p, q) # B)) \<Longrightarrow>
   set_quantity i q' (A @ (i, p, q) # B) = A @ (i, p, q') # B"
  using set_quantity_absent[of i A] set_quantity_absent[of i B] by (simp add: set_quantity_def)

lemma level_at_drop:
  "level_at (A @ B) =
   (level_at (A @ (i, p, q) # B))
     (p := (if first_id p A = None \<and> first_id p B = None then None
            else Some \<lparr>l_head = (case first_id p A of None \<Rightarrow> first_id p B | Some h \<Rightarrow> Some h),
                       l_tail = (case last_id p B of None \<Rightarrow> last_id p A | Some t \<Rightarrow> Some t),
                       l_quantity = depth_at p A + depth_at p B\<rparr>))"
  by (rule ext) (auto simp: level_at_def split: option.split)

lemma side_repr_compact [simp]: "side_repr sd es (compact sd s) \<longleftrightarrow> side_repr sd es s"
  if "dict_get (b_levels s) = level_at es"
     "sorted (b_heap s)" "\<forall>(i, p, q) \<in> set es. sign sd * p \<in> set (b_heap s)"
proof -
  have "sign sd * p \<in> (\<lambda>price. price * sign sd) ` fst ` set (b_levels s)" if "(i, p, q) \<in> set es" for i p q
  proof -
    have "level_at es p \<noteq> None"
      using \<open>(i, p, q) \<in> set es\<close> unfolding level_at_None first_id_None by blast
    then have "p \<in> fst ` set (b_levels s)"
      by (metis that(1) dict_get_dom \<open>dict_get (b_levels s) = level_at es\<close>)
    then show ?thesis by (auto simp: image_iff)
  qed
  then show ?thesis
    using that by (auto simp: side_repr_def compact_def heapify_def)
qed

text \<open>\<^verbatim>\<open>remove\<close> deletes the entry; an order that is not indexed leaves the side as it is.\<close>

lemma remove_side_absent:
  "side_repr sd es s \<Longrightarrow> o_order_id order \<notin> fst ` set es \<Longrightarrow> remove_side order s = Inr s"
  using nodes_at_absent[of es "dict_get (b_nodes s)" "o_order_id order"]
  by (simp add: side_repr_def remove_side_def)

lemma relink_next_nodes:
  assumes "dict_ok nodes" "\<forall>a. previous = Some a \<longrightarrow> dict_get nodes a \<noteq> None"
  shows "\<exists>nodes'. relink_next previous following level nodes
           = Inr (if previous = None then level\<lparr>l_head := following\<rparr> else level, nodes') \<and>
         dict_ok nodes' \<and>
         dict_get nodes' = (case previous of None \<Rightarrow> dict_get nodes
            | Some a \<Rightarrow> (dict_get nodes)(a := map_option (n_next_update (\<lambda>_. following)) (dict_get nodes a)))"
  using assms by (cases previous) (auto simp: relink_next_def dict_simps)

lemma relink_previous_nodes:
  assumes "dict_ok nodes" "\<forall>b. following = Some b \<longrightarrow> dict_get nodes b \<noteq> None"
  shows "\<exists>nodes'. relink_previous previous following level nodes
           = Inr (if following = None then level\<lparr>l_tail := previous\<rparr> else level, nodes') \<and>
         dict_ok nodes' \<and>
         dict_get nodes' = (case following of None \<Rightarrow> dict_get nodes
            | Some b \<Rightarrow> (dict_get nodes)(b := map_option (n_previous_update (\<lambda>_. previous)) (dict_get nodes b)))"
  using assms by (cases following) (auto simp: relink_previous_def dict_simps)

lemma remove_side_split:
  assumes repr: "side_repr (o_side order) (A @ (i, p, q) # B) s" and i: "o_order_id order = i"
  shows "\<exists>s'. remove_side order s = Inr s' \<and> side_repr (o_side order) (A @ B) s'"
proof -
  let ?es = "A @ (i, p, q) # B"
  note r = repr[unfolded side_repr_def]
  have nodes: "nodes_at ?es (dict_get (b_nodes s))" and dist: "distinct (map fst ?es)"
    and lv: "dict_get (b_levels s) = level_at ?es"
    using r by auto
  have node: "dict_get (b_nodes s) i = Some \<lparr>n_previous = last_id p A, n_next = first_id p B,
                                             n_price = p, n_quantity = q\<rparr>"
    by (rule nodes_atD[OF nodes])
  define nodes0 where "nodes0 = dict_del i (b_nodes s)"
  have n0: "dict_ok nodes0" "dict_get nodes0 = (dict_get (b_nodes s))(i := None)"
    using r by (simp_all add: nodes0_def dict_simps)
  have known: "dict_get nodes0 j \<noteq> None" if "j \<in> fst ` set A \<union> fst ` set B" for j
  proof -
    have "j \<in> fst ` set ?es" "j \<noteq> i" using that dist by auto
    then show ?thesis using nodes_at_dom[OF nodes, of j] by (simp add: n0)
  qed
  define lev where "lev = \<lparr>l_head = first_id p ?es, l_tail = last_id p ?es, l_quantity = depth_at p ?es\<rparr>"
  have level: "level_at ?es p = Some lev"
    by (simp add: level_at_def lev_def split: option.split)
  have "dict_get nodes0 a \<noteq> None" if "last_id p A = Some a" for a
    using known[of a] last_id_in[OF that] by blast
  then obtain nodes1 where n1:
    "relink_next (last_id p A) (first_id p B) lev nodes0
       = Inr (if last_id p A = None then lev\<lparr>l_head := first_id p B\<rparr> else lev, nodes1)"
    "dict_ok nodes1"
    "dict_get nodes1 = (case last_id p A of None \<Rightarrow> dict_get nodes0
       | Some a \<Rightarrow> (dict_get nodes0)(a := map_option (n_next_update (\<lambda>_. first_id p B)) (dict_get nodes0 a)))"
    using relink_next_nodes[OF n0(1), of "last_id p A" "first_id p B" lev] by auto
  define lev1 where "lev1 = (if last_id p A = None then lev\<lparr>l_head := first_id p B\<rparr> else lev)"
  have "dict_get nodes1 b \<noteq> None" if "first_id p B = Some b" for b
  proof -
    have "dict_get nodes0 b \<noteq> None" using known[of b] first_id_in[OF that] by blast
    then show ?thesis by (simp add: n1(3) split: option.split)
  qed
  then obtain nodes2 where n2:
    "relink_previous (last_id p A) (first_id p B) lev1 nodes1
       = Inr (if first_id p B = None then lev1\<lparr>l_tail := last_id p A\<rparr> else lev1, nodes2)"
    "dict_ok nodes2"
    "dict_get nodes2 = (case first_id p B of None \<Rightarrow> dict_get nodes1
       | Some b \<Rightarrow> (dict_get nodes1)(b := map_option (n_previous_update (\<lambda>_. last_id p A)) (dict_get nodes1 b)))"
    using relink_previous_nodes[OF n1(2), of "first_id p B" "last_id p A" lev1] by auto
  define lev2 where "lev2 = (if first_id p B = None then lev1\<lparr>l_tail := last_id p A\<rparr> else lev1)"
  define lev3 where "lev3 = lev2\<lparr>l_quantity := l_quantity lev2 - q\<rparr>"
  define levels where "levels = (if l_head lev3 = None then dict_del p (b_levels s)
                                 else dict_set p lev3 (b_levels s))"
  define s1 where "s1 = s\<lparr>b_levels := levels, b_nodes := nodes2\<rparr>"
  have run: "remove_side order s = Inr (compact (o_side order) s1)"
    using node level n1(1) n2(1)
    by (simp add: remove_side_def i lv Let_def nodes0_def[symmetric] lev1_def[symmetric]
        lev2_def[symmetric] lev3_def levels_def s1_def)
  have nodes2: "nodes_at (A @ B) (dict_get nodes2)"
    unfolding n2(3) by (rule nodes_at_remove[OF nodes dist n0(2) n1(3)])
  have levels2: "dict_get levels = level_at (A @ B)"
    unfolding level_at_drop[of A B i p q] levels_def
    by (auto simp: dict_simps lv lev3_def lev2_def lev1_def lev_def first_id_depth last_id_None
        last_id_None[THEN iffD2] split: option.split)
  have "side_repr (o_side order) (A @ B) s1"
    using r nodes2 levels2 n2(2) by (auto simp: side_repr_def s1_def levels_def)
  then show ?thesis
    using run by (simp add: side_repr_def[of _ _ s1])
qed

lemma entry_split:
  assumes "i \<in> fst ` set es"
  obtains A p q B where "es = A @ (i, p, q) # B"
  using assms by (metis imageE in_set_conv_decomp prod.collapse)

lemma remove_side_refines:
  assumes "side_repr (o_side order) es s"
  shows "\<exists>s'. remove_side order s = Inr s' \<and>
           side_repr (o_side order) (remove_entry (o_order_id order) es) s'"
proof (cases "o_order_id order \<in> fst ` set es")
  case True
  then obtain A p q B where es: "es = A @ (o_order_id order, p, q) # B"
    by (rule entry_split)
  then have "remove_entry (o_order_id order) es = A @ B"
    using assms unfolding es by (intro remove_entry_split) (simp add: side_repr_def)
  then show ?thesis
    using remove_side_split[OF assms[unfolded es] refl] by (simp add: es)
next
  case False
  then show ?thesis
    using assms by (simp add: remove_side_absent remove_entry_absent)
qed

text \<open>\<^verbatim>\<open>consume\<close> lowers a quantity, removes a fully executed entry and refuses any other amount.\<close>

lemma level_at_set_quantity:
  "level_at (A @ (i, p, q - k) # B) =
   (level_at (A @ (i, p, q) # B))
     (p := map_option (\<lambda>l. l\<lparr>l_quantity := l_quantity l - k\<rparr>) (level_at (A @ (i, p, q) # B) p))"
  by (rule ext) (auto simp: level_at_def split: option.split)

lemma consume_side_refines:
  assumes repr: "side_repr (o_side order) es s" and mem: "(o_order_id order, p, q) \<in> set es"
    and k: "0 < k" "k \<le> q"
  shows "\<exists>s'. consume_side order k s = Inr s' \<and>
           side_repr (o_side order)
             (if k = q then remove_entry (o_order_id order) es
              else set_quantity (o_order_id order) (q - k) es) s'"
proof -
  let ?i = "o_order_id order"
  obtain A B where es: "es = A @ (?i, p, q) # B"
    using mem by (auto dest: split_list)
  note r = repr[unfolded side_repr_def]
  have nodes: "nodes_at (A @ (?i, p, q) # B) (dict_get (b_nodes s))"
    and dist: "distinct (map fst (A @ (?i, p, q) # B))"
    and lv: "dict_get (b_levels s) = level_at (A @ (?i, p, q) # B)"
    using r by (auto simp: es)
  have node: "dict_get (b_nodes s) ?i = Some \<lparr>n_previous = last_id p A, n_next = first_id p B,
                                             n_price = p, n_quantity = q\<rparr>"
    by (rule nodes_atD[OF nodes])
  show ?thesis
  proof (cases "k = q")
    case True
    then show ?thesis
      using remove_side_refines[OF repr] node by (simp add: consume_side_def)
  next
    case False
    have "first_id p (A @ (?i, p, q) # B) \<noteq> None" by (simp split: option.split)
    then obtain lev where lev: "level_at (A @ (?i, p, q) # B) p = Some lev"
      using level_at_None[of "A @ (?i, p, q) # B" p] by (metis not_None_eq)
    define s' where "s' = s\<lparr>b_nodes := dict_set ?i \<lparr>n_previous = last_id p A, n_next = first_id p B,
                                             n_price = p, n_quantity = q - k\<rparr> (b_nodes s),
                            b_levels := dict_set p (lev\<lparr>l_quantity := l_quantity lev - k\<rparr>) (b_levels s)\<rparr>"
    have run: "consume_side order k s = Inr s'"
      using node False k lev by (simp add: consume_side_def Let_def lv s'_def)
    have "side_repr (o_side order) (A @ (?i, p, q - k) # B) s'"
      using r nodes_at_consume[OF nodes dist, of "q - k"] node k False lev
      by (auto simp: side_repr_def s'_def es level_at_set_quantity[of A ?i p q k B] dict_simps)
    then show ?thesis
      using run False set_quantity_split[OF dist, of "q - k"] by (simp add: es)
  qed
qed

lemma consume_side_refuses:
  assumes repr: "side_repr (o_side order) es s" and mem: "(o_order_id order, p, q) \<in> set es"
    and k: "k \<le> 0 \<or> q < k"
  shows "consume_side order k s = Inl (ValueError ''invalid indexed execution quantity'')"
proof -
  obtain A B where es: "es = A @ (o_order_id order, p, q) # B"
    using mem by (auto dest: split_list)
  have "nodes_at (A @ (o_order_id order, p, q) # B) (dict_get (b_nodes s))" and "0 < q"
    using repr mem by (auto simp: side_repr_def es)
  then show ?thesis
    using nodes_atD[of A "o_order_id order" p q B "dict_get (b_nodes s)"] k
    by (auto simp: consume_side_def)
qed

text \<open>
  Price-time priority: the best price of a side (highest bid, lowest ask) and the first entry
  that arrived there.
\<close>

fun best_price :: "side \<Rightarrow> entry list \<Rightarrow> int option" where
  "best_price sd [] = None"
| "best_price sd ((i, p, q) # es) =
     (case best_price sd es of
        None \<Rightarrow> Some p
      | Some p' \<Rightarrow> Some (if sign sd * p \<le> sign sd * p' then p else p'))"

definition best_entry :: "side \<Rightarrow> entry list \<Rightarrow> string option" where
  "best_entry sd es =
     (case best_price sd es of None \<Rightarrow> None | Some p \<Rightarrow> first_id p es)"

lemma best_price_None [simp]: "best_price sd es = None \<longleftrightarrow> es = []"
  by (cases "(sd, es)" rule: best_price.cases) (auto split: option.split)

lemma best_price_Some:
  "best_price sd es = Some p \<Longrightarrow>
   (\<exists>i q. (i, p, q) \<in> set es) \<and> (\<forall>(i, p', q) \<in> set es. sign sd * p \<le> sign sd * p')"
proof (induction sd es arbitrary: p rule: best_price.induct)
  case (2 sd i p0 q es)
  show ?case
  proof (cases "best_price sd es")
    case None
    then show ?thesis using 2(2) by auto
  next
    case (Some p')
    then show ?thesis using 2 by (fastforce split: if_splits)
  qed
qed simp

lemma best_price_eqI:
  assumes "(i, p, q) \<in> set es" "\<And>i p' q. (i, p', q) \<in> set es \<Longrightarrow> sign sd * p \<le> sign sd * p'"
  shows "best_price sd es = Some p"
proof -
  obtain p1 where p1: "best_price sd es = Some p1"
    using assms(1) by (cases "best_price sd es") auto
  note b = best_price_Some[OF p1]
  obtain i1 q1 where "(i1, p1, q1) \<in> set es" using b by blast
  then have "sign sd * p \<le> sign sd * p1" by (rule assms(2))
  moreover have "sign sd * p1 \<le> sign sd * p" using b assms(1) by blast
  ultimately show ?thesis using p1 by (cases sd) simp_all
qed

lemma best_entry_Some:
  assumes "best_entry sd es = Some i"
  shows "\<exists>A p q B. es = A @ (i, p, q) # B \<and> (\<forall>(j, p', q') \<in> set A. p' \<noteq> p) \<and>
    (\<forall>(j, p', q') \<in> set es. sign sd * p \<le> sign sd * p')"
proof -
  obtain p where p: "best_price sd es = Some p" "first_id p es = Some i"
    using assms by (auto simp: best_entry_def split: option.splits)
  obtain A q B where "es = A @ (i, p, q) # B" "first_id p A = None"
    using first_id_Some[OF p(2)] by blast
  then show ?thesis
    using best_price_Some[OF p(1)] by (intro exI[of _ A] exI[of _ p] exI[of _ q] exI[of _ B]) (simp add: first_id_None)
qed

lemma best_entry_None: "best_entry sd es = None \<longleftrightarrow> es = []"
proof
  assume n: "best_entry sd es = None"
  show "es = []"
  proof (cases "best_price sd es")
    case (Some p)
    then have "first_id p es = None" using n by (simp add: best_entry_def)
    then show ?thesis using best_price_Some[OF Some] unfolding first_id_None by blast
  qed simp
qed (simp add: best_entry_def)

lemma best_loop_refines:
  assumes "sorted heap" "\<forall>(i, p, q) \<in> set es. sign sd * p \<in> set heap"
    "dict_get levels = level_at es"
  shows "\<exists>heap'. best_loop sd levels heap = (best_entry sd es, heap') \<and> sorted heap' \<and>
           set heap' \<subseteq> set heap \<and> (\<forall>(i, p, q) \<in> set es. sign sd * p \<in> set heap')"
  using assms
proof (induction heap)
  case Nil
  then show ?case by (cases es) (auto simp: best_entry_def)
next
  case (Cons x heap)
  show ?case
  proof (cases "level_at es (x * sign sd)")
    case None
    then have stale: "\<forall>(i, p, q) \<in> set es. p \<noteq> x * sign sd"
      by (simp add: level_at_None first_id_None)
    have "sign sd * p \<in> set heap" if "(i, p, q) \<in> set es" for i p q
    proof -
      have "sign sd * p \<noteq> x" using stale that by (cases sd) auto
      then show ?thesis using Cons.prems(2) that by auto
    qed
    then show ?thesis using Cons None by fastforce
  next
    case (Some l)
    then obtain h where h: "first_id (x * sign sd) es = Some h" "l_head l = Some h"
      by (auto simp: level_at_def split: option.splits)
    then obtain q where mem: "(h, x * sign sd, q) \<in> set es" using first_id_mem by blast
    have "best_price sd es = Some (x * sign sd)"
    proof (rule best_price_eqI[OF mem])
      fix i p' q assume "(i, p', q) \<in> set es"
      then have "sign sd * p' \<in> set (x # heap)" using Cons.prems(2) by auto
      then show "sign sd * (x * sign sd) \<le> sign sd * p'"
        using Cons.prems(1) by (cases sd) auto
    qed
    then show ?thesis using Cons.prems Some h by (simp add: best_entry_def)
  qed
qed

lemma best_side_refines:
  assumes "side_repr sd es s"
  shows "\<exists>s'. best_side sd s = (best_entry sd es, s') \<and> side_repr sd es s'"
proof -
  obtain heap' where "best_loop sd (b_levels s) (b_heap s) = (best_entry sd es, heap')"
    "sorted heap'" "\<forall>(i, p, q) \<in> set es. sign sd * p \<in> set heap'"
    using best_loop_refines[of "b_heap s" es sd "b_levels s"] assms
    by (auto simp: side_repr_def)
  then show ?thesis using assms by (simp add: best_side_def side_repr_def)
qed

lemma side_levels_refines:
  assumes "side_repr sd es s"
  shows "dict_ok (side_levels s)"
    "dict_get (side_levels s) p = (if first_id p es = None then None else Some (depth_at p es))"
proof -
  show "dict_ok (side_levels s)"
    using assms by (simp add: side_repr_def dict_ok_def side_levels_def comp_def case_prod_beta)
  have "dict_get (side_levels s) p = map_option l_quantity (dict_get (b_levels s) p)"
    by (simp add: side_levels_def map_of_map_snd)
  then show "dict_get (side_levels s) p = (if first_id p es = None then None else Some (depth_at p es))"
    using assms by (auto simp: side_repr_def level_at_def split: option.split)
qed

section \<open>The interface the matching engine relies on\<close>

text \<open>
  What a client of the index may assume: the index of the resting entries \<open>E symbol side\<close> is kept
  by every operation, on the symbols it was created for.
\<close>

type_synonym entries = "string \<Rightarrow> side \<Rightarrow> entry list"

definition with_entries :: "entries \<Rightarrow> string \<Rightarrow> side \<Rightarrow> entry list \<Rightarrow> entries" where
  "with_entries E x sd es = E(x := (E x)(sd := es))"

lemma with_entries_simps [simp]:
  "with_entries E x sd es x sd = es"
  "(y, sd') \<noteq> (x, sd) \<Longrightarrow> with_entries E x sd es y sd' = E y sd'"
  "with_entries E x sd (E x sd) = E"
  by (auto simp: with_entries_def)

locale order_index =
  fixes symbols :: "'b \<Rightarrow> string set"
    and indexes :: "entries \<Rightarrow> 'b \<Rightarrow> bool"
    and add :: "order \<Rightarrow> 'b \<Rightarrow> 'b result"
    and remove :: "order \<Rightarrow> 'b \<Rightarrow> 'b result"
    and consume :: "order \<Rightarrow> int \<Rightarrow> 'b \<Rightarrow> 'b result"
    and best :: "string \<Rightarrow> side \<Rightarrow> 'b \<Rightarrow> (string option \<times> 'b) result"
  assumes distinct_entries: "indexes E b \<Longrightarrow> x \<in> symbols b \<Longrightarrow> distinct (map fst (E x sd))"
    and add: "\<lbrakk>indexes E b; o_symbol r \<in> symbols b; 0 < o_remaining r;
          o_order_id r \<notin> fst ` set (E (o_symbol r) (o_side r))\<rbrakk> \<Longrightarrow>
        \<exists>b'. add r b = Inr b' \<and> symbols b' = symbols b \<and>
          indexes (with_entries E (o_symbol r) (o_side r)
            (E (o_symbol r) (o_side r) @ [(o_order_id r, o_price r, o_remaining r)])) b'"
    and remove: "\<lbrakk>indexes E b; o_symbol r \<in> symbols b\<rbrakk> \<Longrightarrow>
        \<exists>b'. remove r b = Inr b' \<and> symbols b' = symbols b \<and>
          indexes (with_entries E (o_symbol r) (o_side r)
            (remove_entry (o_order_id r) (E (o_symbol r) (o_side r)))) b'"
    and consume: "\<lbrakk>indexes E b; o_symbol r \<in> symbols b;
          (o_order_id r, p, q) \<in> set (E (o_symbol r) (o_side r)); 0 < k; k \<le> q\<rbrakk> \<Longrightarrow>
        \<exists>b'. consume r k b = Inr b' \<and> symbols b' = symbols b \<and>
          indexes (with_entries E (o_symbol r) (o_side r)
            (if k = q then remove_entry (o_order_id r) (E (o_symbol r) (o_side r))
             else set_quantity (o_order_id r) (q - k) (E (o_symbol r) (o_side r)))) b'"
    and best: "\<lbrakk>indexes E b; x \<in> symbols b\<rbrakk> \<Longrightarrow>
        \<exists>b'. best x sd b = Inr (best_entry (opposite sd) (E x (opposite sd)), b') \<and>
          symbols b' = symbols b \<and> indexes E b'"
begin

text \<open>A newcomer never overtakes an order whose price is as good.\<close>

lemma add_keeps_best:
  assumes "indexes E b" "o_symbol r \<in> symbols b" "0 < o_remaining r"
    "o_order_id r \<notin> fst ` set (E (o_symbol r) (o_side r))"
    "best_price (o_side r) (E (o_symbol r) (o_side r)) = Some p"
    "sign (o_side r) * p \<le> sign (o_side r) * o_price r"
  shows "\<exists>b' b''. add r b = Inr b' \<and> best (o_symbol r) (opposite (o_side r)) b'
            = Inr (best_entry (o_side r) (E (o_symbol r) (o_side r)), b'')"
proof -
  let ?es = "E (o_symbol r) (o_side r)"
  let ?es' = "?es @ [(o_order_id r, o_price r, o_remaining r)]"
  obtain b' where b': "add r b = Inr b'" "symbols b' = symbols b"
    "indexes (with_entries E (o_symbol r) (o_side r) ?es') b'"
    using add[OF assms(1-4)] by blast
  have "best_price (o_side r) ?es' = Some p"
    using assms(6) best_price_Some[OF assms(5)] by (force intro: best_price_eqI)
  moreover have "first_id p ?es \<noteq> None"
    using best_price_Some[OF assms(5)] unfolding first_id_None by blast
  ultimately have "best_entry (o_side r) ?es' = best_entry (o_side r) ?es"
    using assms(5) by (auto simp: best_entry_def)
  moreover have "opposite (opposite (o_side r)) = o_side r" by (cases "o_side r") simp_all
  ultimately show ?thesis
    using b' best[OF b'(3), of "o_symbol r" "opposite (o_side r)"] assms(2) by auto
qed

text \<open>Removing an order that was just added restores the index of the book before it.\<close>

lemma add_remove:
  assumes "indexes E b" "o_symbol r \<in> symbols b" "0 < o_remaining r"
    "o_order_id r \<notin> fst ` set (E (o_symbol r) (o_side r))"
  shows "\<exists>b' b''. add r b = Inr b' \<and> remove r b' = Inr b'' \<and> indexes E b'' \<and> symbols b'' = symbols b"
proof -
  let ?es = "E (o_symbol r) (o_side r)"
  let ?E = "with_entries E (o_symbol r) (o_side r) (?es @ [(o_order_id r, o_price r, o_remaining r)])"
  obtain b' where b': "add r b = Inr b'" "symbols b' = symbols b" "indexes ?E b'"
    using add[OF assms] by blast
  have "remove_entry (o_order_id r) (?es @ [(o_order_id r, o_price r, o_remaining r)]) = ?es"
    using assms(4) by (simp add: remove_entry_absent) (simp add: remove_entry_def)
  moreover have "with_entries ?E (o_symbol r) (o_side r) ?es = E"
    by (auto simp: with_entries_def)
  ultimately show ?thesis
    using b' remove[OF b'(3), of r] assms(2) by auto
qed

end

definition book_symbols :: "book_index \<Rightarrow> string set" where
  "book_symbols b = fst ` set b"

definition book_repr :: "entries \<Rightarrow> book_index \<Rightarrow> bool" where
  "book_repr E b \<longleftrightarrow> dict_ok b \<and>
     (\<forall>(x, v) \<in> set b. \<forall>sd. side_repr sd (E x sd) (get_side sd v))"

lemma get_set_side [simp]:
  "get_side sd (set_side sd s v) = s"
  "sd' \<noteq> sd \<Longrightarrow> get_side sd' (set_side sd s v) = get_side sd' v"
  by (cases sd; simp) (cases sd; cases sd'; simp)

lemma book_symbols_set [simp]:
  "x \<in> book_symbols b \<Longrightarrow> book_symbols (dict_set x v b) = book_symbols b"
  unfolding book_symbols_def by (induction b) auto

lemma book_repr_get:
  "book_repr E b \<Longrightarrow> dict_get b x = Some v \<Longrightarrow> side_repr sd (E x sd) (get_side sd v)"
  using map_of_SomeD[of b x v] by (auto simp: book_repr_def)

lemma book_symbols_get: "x \<in> book_symbols b \<Longrightarrow> \<exists>v. dict_get b x = Some v"
  using dict_get_dom[of b x] by (auto simp: book_symbols_def)

lemma book_repr_set_side:
  assumes "book_repr E b" "dict_get b x = Some v" "side_repr sd es s"
  shows "book_repr (with_entries E x sd es) (dict_set x (set_side sd s v) b)"
proof -
  have "side_repr sd' (with_entries E x sd es y sd') (get_side sd' w)"
    if mem: "(y, w) \<in> set (dict_set x (set_side sd s v) b)" for y w sd'
  proof -
    have "dict_get (dict_set x (set_side sd s v) b) y = Some w"
      using mem assms(1) by (simp add: dict_get_mem[symmetric] book_repr_def)
    then show ?thesis
      using book_repr_get[OF assms(1)] assms(2,3)
      by (cases "y = x"; cases "sd' = sd") (auto simp: dict_simps)
  qed
  then show ?thesis using assms(1) by (auto simp: book_repr_def)
qed

lemma on_side_refines:
  assumes "book_repr E b" "x \<in> book_symbols b"
    "\<And>s. side_repr sd (E x sd) s \<Longrightarrow> \<exists>s'. f s = Inr s' \<and> side_repr sd es s'"
  shows "\<exists>b'. on_side x sd f b = Inr b' \<and> book_symbols b' = book_symbols b \<and>
           book_repr (with_entries E x sd es) b'"
proof -
  obtain v where v: "dict_get b x = Some v" using assms(2) book_symbols_get by blast
  then obtain s' where "f (get_side sd v) = Inr s'" "side_repr sd es s'"
    using assms(3) book_repr_get[OF assms(1) v] by blast
  then show ?thesis
    using assms(1,2) v book_repr_set_side by (auto simp: on_side_def)
qed

interpretation book: order_index book_symbols book_repr book_add book_remove book_consume book_best
proof (unfold_locales, goal_cases)
  case (1 E b x sd)
  then show ?case
    using book_symbols_get[of x b] book_repr_get[of E b x] by (auto simp: side_repr_def)
next
  case (2 E b r)
  then show ?case
    unfolding book_add_def by (intro on_side_refines add_side_refines) auto
next
  case (3 E b r)
  then show ?case
    unfolding book_remove_def by (intro on_side_refines remove_side_refines) auto
next
  case (4 E b r p q k)
  then show ?case
    unfolding book_consume_def by (intro on_side_refines consume_side_refines) auto
next
  case (5 E b x sd)
  then obtain v where v: "dict_get b x = Some v" using book_symbols_get by blast
  let ?sd = "opposite sd"
  obtain s' where "best_side ?sd (get_side ?sd v) = (best_entry ?sd (E x ?sd), s')"
    "side_repr ?sd (E x ?sd) s'"
    using best_side_refines[OF book_repr_get[OF 5(1) v]] by blast
  then show ?case
    using 5 v book_repr_set_side[OF 5(1) v, of ?sd "E x ?sd" s']
    by (auto simp: book_best_def Let_def)
qed

lemma book_repr_empty:
  "book_repr (\<lambda>_ _. []) (empty_book symbols)" "book_symbols (empty_book symbols) = set symbols"
proof -
  have "dict_ok b \<Longrightarrow> \<forall>(x, v) \<in> set b. v = \<lparr>buys = empty_side, sells = empty_side\<rparr> \<Longrightarrow>
    (let b' = fold (\<lambda>symbol. dict_set symbol \<lparr>buys = empty_side, sells = empty_side\<rparr>) symbols b
     in dict_ok b' \<and> (\<forall>(x, v) \<in> set b'. v = \<lparr>buys = empty_side, sells = empty_side\<rparr>) \<and>
        fst ` set b' = fst ` set b \<union> set symbols)" for b
  proof (induction symbols arbitrary: b)
    case (Cons x symbols)
    let ?v = "\<lparr>buys = empty_side, sells = empty_side\<rparr>"
    have "fst ` set (dict_set x ?v b) = insert x (fst ` set b)" by (induction b) auto
    moreover have "\<forall>(y, v) \<in> set (dict_set x ?v b). v = ?v"
      using Cons.prems(2) by (induction b) auto
    ultimately show ?case
      using Cons.IH[of "dict_set x ?v b"] Cons.prems(1) by (simp add: Let_def)
  qed simp
  from this[of "[]"] have *: "dict_ok (empty_book symbols)"
    "\<forall>(x, v) \<in> set (empty_book symbols). v = \<lparr>buys = empty_side, sells = empty_side\<rparr>"
    "fst ` set (empty_book symbols) = set symbols"
    by (simp_all add: empty_book_def Let_def)
  have "side_repr sd [] (get_side sd \<lparr>buys = empty_side, sells = empty_side\<rparr>)" for sd
    by (cases sd) (simp_all add: side_repr_empty)
  then show "book_repr (\<lambda>_ _. []) (empty_book symbols)"
    using * by (auto simp: book_repr_def)
  show "book_symbols (empty_book symbols) = set symbols"
    using * by (simp add: book_symbols_def)
qed

section \<open>Properties\<close>

lemma on_side_error:
  assumes "book_repr E b" "x \<in> book_symbols b" "\<And>s. side_repr sd (E x sd) s \<Longrightarrow> f s = Inl e"
  shows "on_side x sd f b = Inl e"
proof -
  obtain v where v: "dict_get b x = Some v" using assms(2) book_symbols_get by blast
  then show ?thesis using assms(3) book_repr_get[OF assms(1) v] by (simp add: on_side_def)
qed

text \<open>
  C33.  The linked index refines the list of resting entries in arrival order: adding appends,
  removing deletes, consuming lowers or deletes one entry, and an order that is already indexed or an
  execution of more than what rests is refused.
\<close>

theorem order_book_refines:
  fixes E x sd i
  defines "es \<equiv> E x sd"
  assumes "book_repr E b" "x \<in> book_symbols b" "o_symbol r = x" "o_side r = sd" "o_order_id r = i"
  shows "(i \<notin> fst ` set es \<and> 0 < o_remaining r \<longrightarrow>
      (\<exists>b'. book_add r b = Inr b' \<and> book_repr (with_entries E x sd (es @ [(i, o_price r, o_remaining r)])) b')) \<and>
    (i \<in> fst ` set es \<longrightarrow> book_add r b = Inl (ValueError ''order already indexed'')) \<and>
    (\<exists>b'. book_remove r b = Inr b' \<and> book_repr (with_entries E x sd (remove_entry i es)) b') \<and>
    (\<forall>p q k. (i, p, q) \<in> set es \<longrightarrow>
      (if 0 < k \<and> k \<le> q
       then \<exists>b'. book_consume r k b = Inr b' \<and>
         book_repr (with_entries E x sd (if k = q then remove_entry i es else set_quantity i (q - k) es)) b'
       else book_consume r k b = Inl (ValueError ''invalid indexed execution quantity'')))"
proof (intro conjI impI allI)
  show "\<exists>b'. book_add r b = Inr b' \<and> book_repr (with_entries E x sd (es @ [(i, o_price r, o_remaining r)])) b'"
    if "i \<notin> fst ` set es \<and> 0 < o_remaining r"
    using book.add[of E b r] assms that by auto
  show "book_add r b = Inl (ValueError ''order already indexed'')" if "i \<in> fst ` set es"
    unfolding book_add_def using assms that by (intro on_side_error[of E] add_side_indexed) auto
  show "\<exists>b'. book_remove r b = Inr b' \<and> book_repr (with_entries E x sd (remove_entry i es)) b'"
    using book.remove[of E b r] assms by auto
  fix p q k
  assume mem: "(i, p, q) \<in> set es"
  show "if 0 < k \<and> k \<le> q
       then \<exists>b'. book_consume r k b = Inr b' \<and>
         book_repr (with_entries E x sd (if k = q then remove_entry i es else set_quantity i (q - k) es)) b'
       else book_consume r k b = Inl (ValueError ''invalid indexed execution quantity'')"
  proof (cases "0 < k \<and> k \<le> q")
    case True
    then show ?thesis using book.consume[of E b r p q k] assms mem by auto
  next
    case False
    have "book_consume r k b = Inl (ValueError ''invalid indexed execution quantity'')"
      unfolding book_consume_def
      by (rule on_side_error[of E]) (use assms mem False in \<open>auto intro!: consume_side_refuses\<close>)
    then show ?thesis using False by auto
  qed
qed

definition demo_order :: "string \<Rightarrow> int \<Rightarrow> order" where
  "demo_order i p = \<lparr>o_request_id = i, o_order_id = i, o_symbol = ''A'', o_side = SELL, o_price = p,
     o_quantity = 2, o_owner = ''u'', o_seq = 1, o_timestamp = 0, o_day = [], o_remaining = 2,
     o_filled = 0, o_status = OPEN, o_reason = []\<rparr>"

theorem order_book_refines_witness:
  "\<exists>b'. book_add (demo_order ''a'' 7) (empty_book [''A'']) = Inr b' \<and>
     book_repr (with_entries (\<lambda>_ _. []) ''A'' SELL [(''a'', 7, 2)]) b'"
  using order_book_refines[of "\<lambda>_ _. []" "empty_book [''A'']" "''A''" "demo_order ''a'' 7" SELL "''a''"] book_repr_empty[of "[''A'']"]
  by (simp add: demo_order_def)

text \<open>
  A newcomer never overtakes: after adding an order whose price is not better than the best
  resting price of its side, the index still offers the same maker.
\<close>

theorem order_book_no_overtake:
  assumes "book_repr E b" "o_symbol r \<in> book_symbols b" "0 < o_remaining r"
    "o_order_id r \<notin> fst ` set (E (o_symbol r) (o_side r))"
    "best_price (o_side r) (E (o_symbol r) (o_side r)) = Some p"
    "sign (o_side r) * p \<le> sign (o_side r) * o_price r"
  shows "\<exists>b' b''. book_add r b = Inr b' \<and> book_best (o_symbol r) (opposite (o_side r)) b'
            = Inr (best_entry (o_side r) (E (o_symbol r) (o_side r)), b'')"
  by (rule book.add_keeps_best[OF assms])

theorem order_book_no_overtake_witness:
  "\<exists>b b' b''. book_add (demo_order ''a'' 7) (empty_book [''A'']) = Inr b \<and>
     book_add (demo_order ''b'' 7) b = Inr b' \<and> book_best ''A'' BUY b' = Inr (Some ''a'', b'')"
proof -
  let ?E = "with_entries (\<lambda>_ _. []) ''A'' SELL [(''a'', 7, 2)]"
  have "''A'' \<in> book_symbols (empty_book [''A''])" using book_repr_empty[of "[''A'']"] by simp
  then obtain b where b: "book_add (demo_order ''a'' 7) (empty_book [''A'']) = Inr b" "book_repr ?E b"
    "book_symbols b = {''A''}"
    using book.add[OF book_repr_empty(1), of "demo_order ''a'' 7" "[''A'']"] book_repr_empty[of "[''A'']"]
    by (auto simp: demo_order_def)
  have "best_entry SELL [(''a'', 7, 2)] = Some ''a''" by (simp add: best_entry_def)
  then show ?thesis
    using b order_book_no_overtake[OF b(2), of "demo_order ''b'' 7" 7] by (simp add: demo_order_def)
qed

end
