(* ===== verification/Matching.thy ===== *)
theory Matching
  imports Order_Book
begin

text \<open>
  The matching engine of the stock exchange (\<^verbatim>\<open>stock_exchange/matching.py\<close>, \<^verbatim>\<open>policies.py\<close>): the
  sequenced reducer that turns one command and a state into the next state.  A state is a record
  of the dictionaries the code keeps; the empty dictionary the code starts from is \<open>None\<close>.
  \<^verbatim>\<open>reduce_command\<close> deep-copies its argument before it changes anything, so a raised exception
  leaves the caller's state alone: it is the \<open>Inl\<close> branch of the result.
\<close>

section \<open>State\<close>

record balance =
  available :: int
  held :: int

record account =
  cash :: balance
  positions :: "(string, balance) dict"

record trade =
  tr_id :: string
  tr_execution_seq :: int
  tr_seq :: int
  tr_symbol :: string
  tr_price :: int
  tr_quantity :: int
  tr_timestamp :: int
  tr_buy_order :: string
  tr_sell_order :: string
  tr_buyer :: string
  tr_seller :: string

record outcome =
  r_seq :: int
  r_request_id :: string
  r_order_id :: string
  r_accepted :: bool
  r_status :: "status option"
  r_reason :: "string option"

record exchange =
  accounts :: "(string, account) dict"
  orders :: "(string, order) dict"
  trades :: "trade list"
  results :: "(string, outcome) dict"
  daily :: "(string, int) dict"
  st_settings :: settings
  book_index :: book_index
  execution_seq :: int
  last_seq :: int
  last_timestamp :: int

definition active :: "order \<Rightarrow> bool" where
  "active r \<longleftrightarrow> o_status r = OPEN \<or> o_status r = PARTIAL"

section \<open>UTC calendar and policies\<close>

text \<open>
  \<^verbatim>\<open>datetime.fromtimestamp(stamp, timezone.utc)\<close> in the proleptic Gregorian calendar: days since
  1970-01-01, split into 400-year eras that start on the first of March.
\<close>

definition utc_day :: "int \<Rightarrow> int" where
  "utc_day stamp = stamp div 86400"

definition civil_from_days :: "int \<Rightarrow> int \<times> int \<times> int" where
  "civil_from_days day =
     (let z = day + 719468; era = z div 146097; doe = z mod 146097;
          yoe = (doe - doe div 1460 + doe div 36524 - doe div 146096) div 365;
          doy = doe - (365 * yoe + yoe div 4 - yoe div 100);
          mp = (5 * doy + 2) div 153;
          d = doy - (153 * mp + 2) div 5 + 1;
          m = (if mp < 10 then mp + 3 else mp - 9);
          y = yoe + era * 400 + (if m \<le> 2 then 1 else 0)
      in (y, m, d))"

definition pad :: "nat \<Rightarrow> string \<Rightarrow> string" where
  "pad n s = replicate (n - length s) (CHR ''0'') @ s"

definition isoformat :: "int \<Rightarrow> string" where
  "isoformat day =
     (case civil_from_days day of
        (y, m, d) \<Rightarrow> pad 4 (str_int y) @ ''-'' @ pad 2 (str_int m) @ ''-'' @ pad 2 (str_int d))"

definition utc_weekday :: "int \<Rightarrow> int" where
  "utc_weekday stamp = (utc_day stamp + 3) mod 7"

definition minute_of_day :: "int \<Rightarrow> int" where
  "minute_of_day stamp = (stamp mod 86400) div 60"

definition session_permits :: "int \<Rightarrow> session \<Rightarrow> bool" where
  "session_permits stamp s \<longleftrightarrow>
     utc_weekday stamp \<in> set (weekdays s) \<and>
     start_minute s \<le> minute_of_day stamp \<and> minute_of_day stamp < end_minute s"

definition risk_permits :: "int \<Rightarrow> int \<Rightarrow> int \<Rightarrow> bool" where
  "risk_permits used quantity maximum \<longleftrightarrow> used + quantity \<le> maximum"

section \<open>Account updates\<close>

definition adjust :: "int \<Rightarrow> int \<Rightarrow> balance \<Rightarrow> balance" where
  "adjust da dh b = b\<lparr>available := available b + da, held := held b + dh\<rparr>"

definition on_account :: "string \<Rightarrow> (account \<Rightarrow> account result) \<Rightarrow> exchange \<Rightarrow> exchange result" where
  "on_account owner f st =
     (case dict_get (accounts st) owner of
        None \<Rightarrow> Inl (KeyError owner)
      | Some a \<Rightarrow> and_then (f a) (\<lambda>a. Inr (st\<lparr>accounts := dict_set owner a (accounts st)\<rparr>)))"

definition adjust_cash :: "int \<Rightarrow> int \<Rightarrow> account \<Rightarrow> account result" where
  "adjust_cash da dh a = Inr (a\<lparr>cash := adjust da dh (cash a)\<rparr>)"

definition adjust_position :: "string \<Rightarrow> int \<Rightarrow> int \<Rightarrow> account \<Rightarrow> account result" where
  "adjust_position symbol da dh a =
     (case dict_get (positions a) symbol of
        None \<Rightarrow> Inl (KeyError symbol)
      | Some b \<Rightarrow> Inr (a\<lparr>positions := dict_set symbol (adjust da dh b) (positions a)\<rparr>))"

text \<open>The balance an order reserves: cash for a bid, shares for an offer.\<close>

definition adjust_reserve :: "side \<Rightarrow> string \<Rightarrow> int \<Rightarrow> int \<Rightarrow> account \<Rightarrow> account result" where
  "adjust_reserve sd symbol da dh =
     (case sd of BUY \<Rightarrow> adjust_cash da dh | SELL \<Rightarrow> adjust_position symbol da dh)"

definition reserved :: "order \<Rightarrow> int \<Rightarrow> int" where
  "reserved r n = (case o_side r of BUY \<Rightarrow> n * o_price r | SELL \<Rightarrow> n)"

section \<open>Release\<close>

definition put_order :: "order \<Rightarrow> exchange \<Rightarrow> exchange" where
  "put_order r st = st\<lparr>orders := dict_set (o_order_id r) r (orders st)\<rparr>"

definition release :: "exchange \<Rightarrow> order \<Rightarrow> string \<Rightarrow> exchange result" where
  "release st order reason =
     and_then (book_remove order (book_index st)) (\<lambda>index.
     and_then (on_account (o_owner order)
         (adjust_reserve (o_side order) (o_symbol order)
            (reserved order (o_remaining order)) (- reserved order (o_remaining order)))
         (st\<lparr>book_index := index\<rparr>)) (\<lambda>st.
     Inr (put_order (order\<lparr>o_status := CANCELED, o_reason := reason\<rparr>) st)))"

text \<open>The loop over \<^verbatim>\<open>state["orders"].values()\<close> that expires orders of an earlier day.\<close>

fun expire_loop :: "string \<Rightarrow> string list \<Rightarrow> exchange \<Rightarrow> exchange result" where
  "expire_loop day [] st = Inr st"
| "expire_loop day (i # ids) st =
     (case dict_get (orders st) i of
        None \<Rightarrow> Inl (KeyError i)
      | Some old \<Rightarrow>
          if active old \<and> o_day old \<noteq> day
          then and_then (release st old ''DAY_EXPIRED'') (expire_loop day ids)
          else expire_loop day ids st)"

definition expire :: "string \<Rightarrow> exchange \<Rightarrow> exchange result" where
  "expire day st = expire_loop day (map fst (orders st)) st"

section \<open>Executions\<close>

definition fill :: "int \<Rightarrow> order \<Rightarrow> order" where
  "fill n r = r\<lparr>o_remaining := o_remaining r - n, o_filled := o_filled r + n,
                o_status := if o_remaining r - n = 0 then FILLED else PARTIAL\<rparr>"

definition crosses :: "order \<Rightarrow> order \<Rightarrow> bool" where
  "crosses order maker \<longleftrightarrow>
     (case o_side order of BUY \<Rightarrow> o_price maker \<le> o_price order
                         | SELL \<Rightarrow> o_price order \<le> o_price maker)"

text \<open>The four balance changes of an execution, in the order the code makes them.\<close>

definition settle :: "order \<Rightarrow> order \<Rightarrow> string \<Rightarrow> int \<Rightarrow> int \<Rightarrow> exchange \<Rightarrow> exchange result" where
  "settle bid ask symbol price n st =
     and_then (on_account (o_owner bid)
                 (adjust_cash ((o_price bid - price) * n) (- (o_price bid * n))) st) (\<lambda>st.
     and_then (on_account (o_owner ask) (adjust_cash (price * n) 0) st) (\<lambda>st.
     and_then (on_account (o_owner ask) (adjust_position symbol 0 (- n)) st) (\<lambda>st.
     on_account (o_owner bid) (adjust_position symbol n 0) st)))"

definition trade_row :: "int \<Rightarrow> int \<Rightarrow> nat \<Rightarrow> int \<Rightarrow> order \<Rightarrow> order \<Rightarrow> string \<Rightarrow> int \<Rightarrow> int \<Rightarrow> trade" where
  "trade_row seq stamp trade_index ex bid ask symbol price n =
     \<lparr>tr_id = ''trade_'' @ str_int seq @ ''_'' @ dec_nat trade_index,
      tr_execution_seq = ex, tr_seq = seq, tr_symbol = symbol,
      tr_price = price, tr_quantity = n, tr_timestamp = stamp,
      tr_buy_order = o_order_id bid, tr_sell_order = o_order_id ask,
      tr_buyer = o_owner bid, tr_seller = o_owner ask\<rparr>"

definition execute :: "int \<Rightarrow> int \<Rightarrow> nat \<Rightarrow> order \<Rightarrow> order \<Rightarrow> exchange \<Rightarrow> exchange result" where
  "execute seq stamp trade_index order maker st =
     (let n = min (o_remaining order) (o_remaining maker);
          price = o_price maker;
          symbol = o_symbol order;
          (bid, ask) = (case o_side order of BUY \<Rightarrow> (order, maker) | SELL \<Rightarrow> (maker, order)) in
      and_then (settle bid ask symbol price n st) (\<lambda>st.
      let st = st\<lparr>execution_seq := execution_seq st + 1\<rparr> in
      and_then (book_consume maker n (book_index st)) (\<lambda>index.
      let st = st\<lparr>book_index := index,
                  trades := trades st @
                    [trade_row seq stamp trade_index (execution_seq st) bid ask symbol price n]\<rparr>
      in Inr (put_order (fill n maker) (put_order (fill n order) st)))))"

text \<open>
  The matching loop.  Every pass fills at least one share of the incoming order, so its quantity
  bounds the number of passes; the bound is shown to be enough on the states the reducer reaches.
\<close>

fun match_loop :: "nat \<Rightarrow> int \<Rightarrow> int \<Rightarrow> string \<Rightarrow> nat \<Rightarrow> exchange \<Rightarrow> exchange result" where
  "match_loop 0 seq stamp oid trade_index st = Inl (RuntimeError ''pass bound'')"
| "match_loop (Suc fuel) seq stamp oid trade_index st =
     (case dict_get (orders st) oid of
        None \<Rightarrow> Inl (KeyError oid)
      | Some order \<Rightarrow>
          if o_remaining order = 0 then Inr st
          else and_then (book_best (o_symbol order) (o_side order) (book_index st)) (\<lambda>(best, index).
            let st = st\<lparr>book_index := index\<rparr> in
            case best of
              None \<Rightarrow> Inr st
            | Some maker_id \<Rightarrow>
                (case dict_get (orders st) maker_id of
                   None \<Rightarrow> Inl (KeyError maker_id)
                 | Some maker \<Rightarrow>
                     if \<not> crosses order maker then Inr st
                     else if o_owner maker = o_owner order
                     then release st order ''SELF_TRADE_PREVENTION''
                     else and_then (execute seq stamp (Suc trade_index) order maker st)
                            (match_loop fuel seq stamp oid (Suc trade_index)))))"

section \<open>The reducer\<close>

definition genesis :: "settings \<Rightarrow> exchange" where
  "genesis data =
     \<lparr>accounts = map (\<lambda>(owner, value).
        (owner, \<lparr>cash = \<lparr>available = op_cash value, held = 0\<rparr>,
                 positions = map (\<lambda>symbol. (symbol,
                    \<lparr>available = dict_get_or (op_positions value) symbol 0, held = 0\<rparr>)) (s_symbols data)\<rparr>))
        (s_accounts data),
      orders = [], trades = [], results = [], daily = [], st_settings = data,
      book_index = empty_book (s_symbols data), execution_seq = 0, last_seq = 1,
      last_timestamp = 0\<rparr>"

definition put_result :: "outcome \<Rightarrow> exchange \<Rightarrow> exchange" where
  "put_result r st = st\<lparr>results := dict_set (str_int (r_seq r)) r (results st)\<rparr>"

definition new_outcome :: "int \<Rightarrow> body \<Rightarrow> outcome" where
  "new_outcome seq b =
     \<lparr>r_seq = seq, r_request_id = request_id b, r_order_id = order_id b, r_accepted = False,
      r_status = None, r_reason = None\<rparr>"

definition reject :: "int \<Rightarrow> body \<Rightarrow> string \<Rightarrow> exchange \<Rightarrow> exchange" where
  "reject seq b reason st = put_result ((new_outcome seq b)\<lparr>r_reason := Some reason\<rparr>) st"

definition accept :: "int \<Rightarrow> body \<Rightarrow> status \<Rightarrow> exchange \<Rightarrow> exchange" where
  "accept seq b status st =
     put_result ((new_outcome seq b)\<lparr>r_accepted := True, r_status := Some status\<rparr>) st"

definition reduce_cancel :: "int \<Rightarrow> string \<Rightarrow> body \<Rightarrow> exchange \<Rightarrow> exchange result" where
  "reduce_cancel seq owner b st =
     (case dict_get (orders st) (order_id b) of
        None \<Rightarrow> Inr (reject seq b ''OWNED_ORDER_NOT_FOUND'' st)
      | Some old \<Rightarrow>
          if o_owner old \<noteq> owner then Inr (reject seq b ''OWNED_ORDER_NOT_FOUND'' st)
          else if active old then
            and_then (release st old ''USER_CANCEL'') (\<lambda>st. Inr (accept seq b CANCELED st))
          else if o_status old \<noteq> CANCELED then Inr (reject seq b ''ORDER_ALREADY_FILLED'' st)
          else Inr (accept seq b (o_status old) st))"

definition daily_key :: "string \<Rightarrow> string \<Rightarrow> string \<Rightarrow> string" where
  "daily_key owner symbol day = owner @ '':'' @ symbol @ '':'' @ day"

text \<open>\<^verbatim>\<open>funds["available"]\<close>: the balance the reservation is taken from.\<close>

definition funds :: "side \<Rightarrow> string \<Rightarrow> account \<Rightarrow> balance result" where
  "funds sd symbol a =
     (case sd of
        BUY \<Rightarrow> Inr (cash a)
      | SELL \<Rightarrow> (case dict_get (positions a) symbol of None \<Rightarrow> Inl (KeyError symbol) | Some b \<Rightarrow> Inr b))"

definition new_order :: "int \<Rightarrow> int \<Rightarrow> string \<Rightarrow> string \<Rightarrow> body \<Rightarrow> order_terms \<Rightarrow> order" where
  "new_order seq stamp day owner b t =
     \<lparr>o_request_id = request_id b, o_order_id = order_id b, o_symbol = t_symbol t,
      o_side = t_side t, o_price = t_price t, o_quantity = t_quantity t, o_owner = owner,
      o_seq = seq, o_timestamp = stamp, o_day = day, o_remaining = t_quantity t, o_filled = 0,
      o_status = OPEN, o_reason = []\<rparr>"

text \<open>Reservation, daily volume and the row of an admitted order.\<close>

definition admit :: "order \<Rightarrow> exchange \<Rightarrow> exchange result" where
  "admit r st =
     (let key = daily_key (o_owner r) (o_symbol r) (o_day r); amount = reserved r (o_quantity r) in
      and_then (on_account (o_owner r)
         (adjust_reserve (o_side r) (o_symbol r) (- amount) amount) st) (\<lambda>st.
      Inr (put_order r
        (st\<lparr>daily := dict_set key (dict_get_or (daily st) key 0 + o_quantity r) (daily st)\<rparr>))))"

text \<open>The end of the handler: rest what is left, then record the outcome.\<close>

definition rest :: "int \<Rightarrow> body \<Rightarrow> exchange \<Rightarrow> exchange result" where
  "rest seq b st =
     (case dict_get (orders st) (order_id b) of
        None \<Rightarrow> Inl (KeyError (order_id b))
      | Some order \<Rightarrow>
          and_then (if active order then book_add order (book_index st) else Inr (book_index st))
            (\<lambda>index. Inr (accept seq b (o_status order) (st\<lparr>book_index := index\<rparr>))))"

definition reduce_new ::
  "int \<Rightarrow> int \<Rightarrow> string \<Rightarrow> string \<Rightarrow> body \<Rightarrow> order_terms \<Rightarrow> exchange \<Rightarrow> exchange result" where
  "reduce_new seq stamp day owner b t st =
     (let r = new_order seq stamp day owner b t in
      if dict_get (orders st) (order_id b) \<noteq> None then Inr (reject seq b ''ORDER_ID_EXISTS'' st)
      else if t_symbol t \<notin> set (s_symbols (st_settings st))
      then Inr (reject seq b ''UNKNOWN_SYMBOL'' st)
      else if \<not> session_permits stamp (s_session (st_settings st))
      then Inr (reject seq b ''SESSION_CLOSED'' st)
      else if \<not> risk_permits (dict_get_or (daily st) (daily_key owner (t_symbol t) day) 0)
                 (t_quantity t) (s_daily_limit (st_settings st))
      then Inr (reject seq b ''DAILY_SUBMITTED_VOLUME_LIMIT'' st)
      else case dict_get (accounts st) owner of
        None \<Rightarrow> Inl (KeyError owner)
      | Some a \<Rightarrow>
          and_then (funds (t_side t) (t_symbol t) a) (\<lambda>f.
          if available f < reserved r (t_quantity t)
          then Inr (reject seq b (case t_side t of BUY \<Rightarrow> ''INSUFFICIENT_CASH''
                                                 | SELL \<Rightarrow> ''INSUFFICIENT_SHARES'') st)
          else and_then (admit r st) (\<lambda>st.
               and_then (match_loop (Suc (nat (t_quantity t))) seq stamp (order_id b) 0 st) (\<lambda>st.
               rest seq b st))))"

text \<open>A sequenced command after genesis, with its header checked.\<close>

definition reduce_sequenced :: "exchange \<Rightarrow> json \<Rightarrow> exchange result" where
  "reduce_sequenced st command =
     and_then (check_field command ''seq'' (\<lambda>v. check_integer v 2 1001)) (\<lambda>seq.
     and_then (check_field command ''timestamp'' (\<lambda>v. check_integer v 1 MAX_TIMESTAMP)) (\<lambda>stamp.
     and_then (check_field command ''owner'' check_identifier) (\<lambda>owner.
     and_then (require (seq = last_seq st + 1 \<and> last_timestamp st \<le> stamp)
         (ValueError ''command sequence or timestamp regressed/gapped'')) (\<lambda>_.
     and_then (require (dict_get (accounts st) owner \<noteq> None)
         (ValueError ''unknown command owner'')) (\<lambda>_.
     and_then (item command ''body'') (\<lambda>body0.
     and_then (item command ''kind'') (\<lambda>kind.
     and_then (validate body0 kind) (\<lambda>b.
     let day = isoformat (utc_day stamp) in
     and_then (expire day (st\<lparr>last_seq := seq, last_timestamp := stamp\<rparr>)) (\<lambda>st.
     case terms b of
       None \<Rightarrow> reduce_cancel seq owner b st
     | Some t \<Rightarrow> reduce_new seq stamp day owner b t st)))))))))"

definition reduce_command :: "exchange option \<Rightarrow> json \<Rightarrow> exchange result" where
  "reduce_command state command =
     (case command of
        JDict d \<Rightarrow>
          if dict_get d ''kind'' = Some (JStr ''genesis'') then
            and_then (exact_fields command [''kind'', ''settings'']) (\<lambda>_.
            and_then (require (state = None) (ValueError ''duplicate genesis'')) (\<lambda>_.
            and_then (check_field command ''settings'' validate_settings) (\<lambda>data.
            Inr (genesis data))))
          else
            and_then (exact_fields command [''seq'', ''timestamp'', ''owner'', ''kind'', ''body'']) (\<lambda>_.
            (case state of
               None \<Rightarrow> Inl (ValueError ''genesis required'')
             | Some st \<Rightarrow> reduce_sequenced st command))
      | _ \<Rightarrow> Inl (ValueError ''command object required''))"

text \<open>Replay of a journal from the empty state.\<close>

fun replay :: "exchange option \<Rightarrow> json list \<Rightarrow> exchange option result" where
  "replay st [] = Inr st"
| "replay st (c # cs) = and_then (reduce_command st c) (\<lambda>st'. replay (Some st') cs)"

text \<open>The public depth of a symbol, from the index and, for a state without one, from the orders.\<close>

definition book :: "exchange \<Rightarrow> string \<Rightarrow> ((int, int) dict \<times> (int, int) dict) result" where
  "book st symbol = book_levels symbol (book_index st)"

fun book_scan :: "string \<Rightarrow> order list \<Rightarrow> (int, int) dict \<times> (int, int) dict
                  \<Rightarrow> (int, int) dict \<times> (int, int) dict" where
  "book_scan symbol [] levels = levels"
| "book_scan symbol (r # rs) levels =
     book_scan symbol rs
       (if o_symbol r = symbol \<and> active r then
          (case levels of (bids, asks) \<Rightarrow>
             (case o_side r of
                BUY \<Rightarrow> (dict_set (o_price r) (dict_get_or bids (o_price r) 0 + o_remaining r) bids, asks)
              | SELL \<Rightarrow> (bids, dict_set (o_price r) (dict_get_or asks (o_price r) 0 + o_remaining r) asks)))
        else levels)"

definition book_unindexed :: "exchange \<Rightarrow> string \<Rightarrow> (int, int) dict \<times> (int, int) dict" where
  "book_unindexed st symbol = book_scan symbol (map snd (orders st)) ([], [])"

end
