(* ===== verification/Exchange_Invariant.thy ===== *)
theory Exchange_Invariant
  imports Matching
begin

text \<open>
  The invariant of the matching engine and its preservation by every step of the reducer.

  Balances are read through four observations (available and held cash of an owner, available and
  held shares of an owner in a symbol), so that an account update is a function update.  The
  invariant has four parts: \<open>shape_ok\<close> (which keys exist), \<open>orders_ok\<close> (each order row by itself),
  \<open>ledger_ok\<close> (holds are the reservations of the open orders, balances are the opening balances plus
  the flow of the trades, nothing is negative) and \<open>index_ok\<close> (the book index lists exactly the open
  orders, each price level in sequence order).  While an incoming order is matched it is open but
  not indexed yet: \<open>index_ok\<close> takes the set of such orders.
\<close>

section \<open>Observations\<close>

definition avail_cash :: "exchange \<Rightarrow> string \<Rightarrow> int" where
  "avail_cash st w = (case dict_get (accounts st) w of None \<Rightarrow> 0 | Some a \<Rightarrow> available (cash a))"

definition hold_cash :: "exchange \<Rightarrow> string \<Rightarrow> int" where
  "hold_cash st w = (case dict_get (accounts st) w of None \<Rightarrow> 0 | Some a \<Rightarrow> held (cash a))"

definition avail_pos :: "exchange \<Rightarrow> string \<Rightarrow> string \<Rightarrow> int" where
  "avail_pos st w x =
     (case dict_get (accounts st) w of
        None \<Rightarrow> 0
      | Some a \<Rightarrow> (case dict_get (positions a) x of None \<Rightarrow> 0 | Some b \<Rightarrow> available b))"

definition hold_pos :: "exchange \<Rightarrow> string \<Rightarrow> string \<Rightarrow> int" where
  "hold_pos st w x =
     (case dict_get (accounts st) w of
        None \<Rightarrow> 0
      | Some a \<Rightarrow> (case dict_get (positions a) x of None \<Rightarrow> 0 | Some b \<Rightarrow> held b))"

lemmas observation_defs = avail_cash_def hold_cash_def avail_pos_def hold_pos_def

definition symbols_of :: "exchange \<Rightarrow> string set" where
  "symbols_of st = set (s_symbols (st_settings st))"

definition owners_of :: "exchange \<Rightarrow> string set" where
  "owners_of st = fst ` set (s_accounts (st_settings st))"

definition account_ok :: "string set \<Rightarrow> account \<Rightarrow> bool" where
  "account_ok X a \<longleftrightarrow> dict_ok (positions a) \<and> fst ` set (positions a) = X"

definition shape_ok :: "exchange \<Rightarrow> bool" where
  "shape_ok st \<longleftrightarrow> dict_ok (accounts st) \<and> fst ` set (accounts st) = owners_of st \<and>
     (\<forall>(w, a) \<in> set (accounts st). account_ok (symbols_of st) a)"

lemma dict_keys_set: "fst ` set (dict_set k v d) = insert k (fst ` set d)"
  by (induction d) auto

lemma dict_set_mem: "(x, y) \<in> set (dict_set k v d) \<Longrightarrow> (x, y) = (k, v) \<or> (x, y) \<in> set d"
  by (induction d) (auto split: if_splits)

lemma shape_ok_get:
  assumes "shape_ok st" "w \<in> owners_of st"
  obtains a where "dict_get (accounts st) w = Some a" "account_ok (symbols_of st) a"
proof -
  obtain a where a: "dict_get (accounts st) w = Some a"
    using assms dict_get_dom[of "accounts st" w] by (auto simp: shape_ok_def)
  then have "(w, a) \<in> set (accounts st)" by (rule map_of_SomeD)
  then show ?thesis using that a assms(1) by (auto simp: shape_ok_def)
qed

lemma shape_ok_set:
  assumes "shape_ok st" "w \<in> owners_of st" "account_ok (symbols_of st) a"
  shows "shape_ok (st\<lparr>accounts := dict_set w a (accounts st)\<rparr>)"
  using assms insert_absorb[of w "owners_of st"]
  by (simp add: shape_ok_def dict_keys_set owners_of_def symbols_of_def)
    (blast dest: dict_set_mem)

text \<open>
  A step of the accounts alone, with the change it makes to each observation.  Changes compose by
  addition.
\<close>

definition moves :: "exchange \<Rightarrow> exchange \<Rightarrow> (string \<Rightarrow> int) \<Rightarrow> (string \<Rightarrow> int) \<Rightarrow>
    (string \<Rightarrow> string \<Rightarrow> int) \<Rightarrow> (string \<Rightarrow> string \<Rightarrow> int) \<Rightarrow> bool" where
  "moves st st' ac hc ap hp \<longleftrightarrow> (\<exists>acc. st' = st\<lparr>accounts := acc\<rparr>) \<and> shape_ok st' \<and>
     (\<forall>v. avail_cash st' v = avail_cash st v + ac v) \<and> (\<forall>v. hold_cash st' v = hold_cash st v + hc v) \<and>
     (\<forall>v y. avail_pos st' v y = avail_pos st v y + ap v y) \<and>
     (\<forall>v y. hold_pos st' v y = hold_pos st v y + hp v y)"

lemma moves_trans:
  "moves s s' ac hc ap hp \<Longrightarrow> moves s' s'' ac' hc' ap' hp' \<Longrightarrow>
   moves s s'' (\<lambda>v. ac v + ac' v) (\<lambda>v. hc v + hc' v) (\<lambda>v y. ap v y + ap' v y) (\<lambda>v y. hp v y + hp' v y)"
  by (auto simp: moves_def)

lemma moves_keys:
  "moves s s' ac hc ap hp \<Longrightarrow> shape_ok s' \<and> owners_of s' = owners_of s \<and> symbols_of s' = symbols_of s"
  by (auto simp: moves_def owners_of_def symbols_of_def)

lemma adjust_cash_effect:
  assumes "shape_ok st" "w \<in> owners_of st"
  shows "\<exists>st'. on_account w (adjust_cash da dh) st = Inr st' \<and>
    moves st st' (\<lambda>v. if v = w then da else 0) (\<lambda>v. if v = w then dh else 0) (\<lambda>_ _. 0) (\<lambda>_ _. 0)"
proof -
  obtain a where a: "dict_get (accounts st) w = Some a" "account_ok (symbols_of st) a"
    using shape_ok_get[OF assms] .
  have "account_ok (symbols_of st) (a\<lparr>cash := adjust da dh (cash a)\<rparr>)"
    using a(2) by (simp add: account_ok_def)
  note shape_ok_set[OF assms this]
  then show ?thesis
    using a
    by (auto simp: moves_def on_account_def adjust_cash_def adjust_def observation_defs dict_simps)
qed

lemma adjust_position_effect:
  assumes "shape_ok st" "w \<in> owners_of st" "x \<in> symbols_of st"
  shows "\<exists>st'. on_account w (adjust_position x da dh) st = Inr st' \<and>
    moves st st' (\<lambda>_. 0) (\<lambda>_. 0) (\<lambda>v y. if v = w \<and> y = x then da else 0)
      (\<lambda>v y. if v = w \<and> y = x then dh else 0)"
proof -
  obtain a where a: "dict_get (accounts st) w = Some a" "account_ok (symbols_of st) a"
    using shape_ok_get[OF assms(1,2)] .
  then obtain b where b: "dict_get (positions a) x = Some b"
    using assms(3) dict_get_dom[of "positions a" x] by (auto simp: account_ok_def)
  let ?a = "a\<lparr>positions := dict_set x (adjust da dh b) (positions a)\<rparr>"
  have "shape_ok (st\<lparr>accounts := dict_set w ?a (accounts st)\<rparr>)"
    using a(2) assms insert_absorb[OF assms(3)]
    by (intro shape_ok_set) (simp_all add: account_ok_def dict_keys_set)
  then show ?thesis
    using a b
    by (auto simp: moves_def on_account_def adjust_position_def adjust_def observation_defs dict_simps)
qed

lemma adjust_reserve_effect:
  assumes "shape_ok st" "w \<in> owners_of st" "x \<in> symbols_of st"
  shows "\<exists>st'. on_account w (adjust_reserve sd x da dh) st = Inr st' \<and>
    moves st st' (\<lambda>v. if sd = BUY \<and> v = w then da else 0) (\<lambda>v. if sd = BUY \<and> v = w then dh else 0)
      (\<lambda>v y. if sd = SELL \<and> v = w \<and> y = x then da else 0)
      (\<lambda>v y. if sd = SELL \<and> v = w \<and> y = x then dh else 0)"
  using adjust_cash_effect[OF assms(1,2), of da dh] adjust_position_effect[OF assms, of da dh]
  by (cases sd) (simp_all add: adjust_reserve_def)

section \<open>The invariant\<close>

definition order_ok :: "exchange \<Rightarrow> order \<Rightarrow> bool" where
  "order_ok st r \<longleftrightarrow> o_owner r \<in> owners_of st \<and> o_symbol r \<in> symbols_of st \<and> 0 < o_price r \<and>
     0 \<le> o_filled r \<and> 0 \<le> o_remaining r \<and> o_filled r + o_remaining r = o_quantity r \<and>
     0 < o_seq r \<and> (o_status r = FILLED \<longleftrightarrow> o_remaining r = 0) \<and>
     (o_status r = OPEN \<longrightarrow> o_filled r = 0) \<and> (o_status r = PARTIAL \<longrightarrow> 0 < o_filled r)"

definition orders_ok :: "exchange \<Rightarrow> bool" where
  "orders_ok st \<longleftrightarrow> dict_ok (orders st) \<and>
     (\<forall>i r. dict_get (orders st) i = Some r \<longrightarrow> o_order_id r = i \<and> order_ok st r)"

definition bid_hold :: "string \<Rightarrow> order \<Rightarrow> int" where
  "bid_hold w r = (if active r \<and> o_owner r = w \<and> o_side r = BUY then o_remaining r * o_price r else 0)"

definition ask_hold :: "string \<Rightarrow> string \<Rightarrow> order \<Rightarrow> int" where
  "ask_hold w x r =
     (if active r \<and> o_owner r = w \<and> o_side r = SELL \<and> o_symbol r = x then o_remaining r else 0)"

definition cash_flow :: "string \<Rightarrow> trade \<Rightarrow> int" where
  "cash_flow w t = (if tr_seller t = w then tr_quantity t * tr_price t else 0)
     - (if tr_buyer t = w then tr_quantity t * tr_price t else 0)"

definition share_flow :: "string \<Rightarrow> string \<Rightarrow> trade \<Rightarrow> int" where
  "share_flow w x t =
     (if tr_symbol t = x
      then (if tr_buyer t = w then tr_quantity t else 0) - (if tr_seller t = w then tr_quantity t else 0)
      else 0)"

definition order_fill :: "string \<Rightarrow> trade \<Rightarrow> int" where
  "order_fill i t = (if tr_buy_order t = i then tr_quantity t else 0)
     + (if tr_sell_order t = i then tr_quantity t else 0)"

definition opening_cash :: "settings \<Rightarrow> string \<Rightarrow> int" where
  "opening_cash s w = (case dict_get (s_accounts s) w of None \<Rightarrow> 0 | Some v \<Rightarrow> op_cash v)"

definition opening_pos :: "settings \<Rightarrow> string \<Rightarrow> string \<Rightarrow> int" where
  "opening_pos s w x =
     (case dict_get (s_accounts s) w of None \<Rightarrow> 0 | Some v \<Rightarrow> dict_get_or (op_positions v) x 0)"

definition cash_ok :: "exchange \<Rightarrow> string \<Rightarrow> bool" where
  "cash_ok st w \<longleftrightarrow> hold_cash st w = dict_sum (bid_hold w) (orders st) \<and> 0 \<le> avail_cash st w \<and>
     avail_cash st w + hold_cash st w
       = opening_cash (st_settings st) w + sum_list (map (cash_flow w) (trades st))"

definition shares_ok :: "exchange \<Rightarrow> string \<Rightarrow> string \<Rightarrow> bool" where
  "shares_ok st w x \<longleftrightarrow> hold_pos st w x = dict_sum (ask_hold w x) (orders st) \<and> 0 \<le> avail_pos st w x \<and>
     avail_pos st w x + hold_pos st w x
       = opening_pos (st_settings st) w x + sum_list (map (share_flow w x) (trades st))"

definition ledger_ok :: "exchange \<Rightarrow> bool" where
  "ledger_ok st \<longleftrightarrow>
     (\<forall>w \<in> owners_of st. cash_ok st w \<and> (\<forall>x \<in> symbols_of st. shares_ok st w x))"

definition trade_ok :: "exchange \<Rightarrow> trade \<Rightarrow> bool" where
  "trade_ok st t \<longleftrightarrow>
     (\<exists>bid ask. dict_get (orders st) (tr_buy_order t) = Some bid \<and>
        dict_get (orders st) (tr_sell_order t) = Some ask \<and>
        o_owner bid = tr_buyer t \<and> o_owner ask = tr_seller t \<and> tr_buyer t \<noteq> tr_seller t \<and>
        o_side bid = BUY \<and> o_side ask = SELL \<and> o_symbol bid = tr_symbol t \<and>
        o_symbol ask = tr_symbol t \<and> o_price ask \<le> tr_price t \<and> tr_price t \<le> o_price bid) \<and>
     0 < tr_quantity t"

definition trades_ok :: "exchange \<Rightarrow> bool" where
  "trades_ok st \<longleftrightarrow>
     execution_seq st = int (length (trades st)) \<and>
     map tr_execution_seq (trades st) = map int [1..<Suc (length (trades st))] \<and>
     (\<forall>t \<in> set (trades st). trade_ok st t) \<and>
     (\<forall>i r. dict_get (orders st) i = Some r \<longrightarrow> o_filled r = sum_list (map (order_fill i) (trades st)))"

definition seq_of :: "exchange \<Rightarrow> string \<Rightarrow> int" where
  "seq_of st i = (case dict_get (orders st) i of None \<Rightarrow> 0 | Some r \<Rightarrow> o_seq r)"

definition rests :: "string set \<Rightarrow> exchange \<Rightarrow> string \<Rightarrow> side \<Rightarrow> entry \<Rightarrow> bool" where
  "rests T st x sd e \<longleftrightarrow> (case e of (i, p, q) \<Rightarrow> i \<notin> T \<and>
     (\<exists>r. dict_get (orders st) i = Some r \<and> active r \<and> o_symbol r = x \<and> o_side r = sd \<and>
        o_price r = p \<and> o_remaining r = q))"

definition entries_ok :: "string set \<Rightarrow> exchange \<Rightarrow> entries \<Rightarrow> bool" where
  "entries_ok T st E \<longleftrightarrow>
     (\<forall>x sd. set (E x sd) = Collect (rests T st x sd) \<and>
        sorted_wrt (\<lambda>a b. seq_of st (fst a) < seq_of st (fst b)) (E x sd))"

definition index_ok :: "string set \<Rightarrow> exchange \<Rightarrow> bool" where
  "index_ok T st \<longleftrightarrow> book_symbols (book_index st) = symbols_of st \<and>
     (\<exists>E. book_repr E (book_index st) \<and> entries_ok T st E)"

definition engine_inv :: "string set \<Rightarrow> exchange \<Rightarrow> bool" where
  "engine_inv T st \<longleftrightarrow> shape_ok st \<and> orders_ok st \<and> ledger_ok st \<and> trades_ok st \<and> index_ok T st"

section \<open>Order rows\<close>

text \<open>The fields of an order that no step changes.\<close>

definition same_terms :: "order \<Rightarrow> order \<Rightarrow> bool" where
  "same_terms r r' \<longleftrightarrow> o_order_id r' = o_order_id r \<and> o_symbol r' = o_symbol r \<and> o_side r' = o_side r \<and>
     o_price r' = o_price r \<and> o_quantity r' = o_quantity r \<and> o_owner r' = o_owner r \<and>
     o_seq r' = o_seq r \<and> o_day r' = o_day r \<and> o_timestamp r' = o_timestamp r \<and>
     o_request_id r' = o_request_id r"

lemma orders_okD:
  "orders_ok st \<Longrightarrow> dict_get (orders st) i = Some r \<Longrightarrow> o_order_id r = i \<and> order_ok st r"
  by (simp add: orders_ok_def)

lemma put_order_simps [simp]:
  "accounts (put_order r st) = accounts st" "trades (put_order r st) = trades st"
  "st_settings (put_order r st) = st_settings st" "book_index (put_order r st) = book_index st"
  "execution_seq (put_order r st) = execution_seq st" "last_seq (put_order r st) = last_seq st"
  "orders (put_order r st) = dict_set (o_order_id r) r (orders st)"
  "last_timestamp (put_order r st) = last_timestamp st"
  by (simp_all add: put_order_def)

text \<open>The parts of the invariant read only some fields of the state.\<close>

lemma observation_cong:
  "accounts st' = accounts st \<Longrightarrow> avail_cash st' = avail_cash st \<and> hold_cash st' = hold_cash st \<and>
     avail_pos st' = avail_pos st \<and> hold_pos st' = hold_pos st"
  by (simp add: observation_defs fun_eq_iff)

lemma keys_cong:
  "st_settings st' = st_settings st \<Longrightarrow> owners_of st' = owners_of st \<and> symbols_of st' = symbols_of st"
  by (simp add: owners_of_def symbols_of_def)

lemma shape_ok_cong:
  "accounts st' = accounts st \<Longrightarrow> st_settings st' = st_settings st \<Longrightarrow> shape_ok st' \<longleftrightarrow> shape_ok st"
  by (simp add: shape_ok_def owners_of_def symbols_of_def)

lemma order_ok_cong:
  "st_settings st' = st_settings st \<Longrightarrow> order_ok st' r \<longleftrightarrow> order_ok st r"
  by (simp add: order_ok_def owners_of_def symbols_of_def)

lemma orders_ok_cong:
  "orders st' = orders st \<Longrightarrow> st_settings st' = st_settings st \<Longrightarrow> orders_ok st' \<longleftrightarrow> orders_ok st"
  by (simp add: orders_ok_def order_ok_cong[of st' st])

lemma trades_ok_cong:
  "orders st' = orders st \<Longrightarrow> trades st' = trades st \<Longrightarrow> execution_seq st' = execution_seq st \<Longrightarrow>
   trades_ok st' \<longleftrightarrow> trades_ok st"
  by (simp add: trades_ok_def trade_ok_def)

lemma entries_ok_cong:
  "orders st' = orders st \<Longrightarrow> entries_ok T st' E \<longleftrightarrow> entries_ok T st E"
  by (simp add: entries_ok_def rests_def[abs_def] seq_of_def)

lemma index_ok_cong:
  "orders st' = orders st \<Longrightarrow> book_index st' = book_index st \<Longrightarrow> st_settings st' = st_settings st \<Longrightarrow>
   index_ok T st' \<longleftrightarrow> index_ok T st"
  by (simp add: index_ok_def entries_ok_cong[of st' st] keys_cong[of st' st])

lemma ledger_ok_cong:
  "accounts st' = accounts st \<Longrightarrow> orders st' = orders st \<Longrightarrow> trades st' = trades st \<Longrightarrow>
   st_settings st' = st_settings st \<Longrightarrow> ledger_ok st' \<longleftrightarrow> ledger_ok st"
  by (simp add: ledger_ok_def cash_ok_def shares_ok_def observation_cong[of st' st] keys_cong[of st' st])

lemma engine_inv_cong:
  assumes "accounts st' = accounts st" "orders st' = orders st" "trades st' = trades st"
    "st_settings st' = st_settings st" "book_index st' = book_index st"
    "execution_seq st' = execution_seq st"
  shows "engine_inv T st' \<longleftrightarrow> engine_inv T st"
  unfolding engine_inv_def
  using shape_ok_cong[OF assms(1,4)] orders_ok_cong[OF assms(2,4)] ledger_ok_cong[OF assms(1-4)]
    trades_ok_cong[OF assms(2,3,6)] index_ok_cong[OF assms(2,5,4)] by simp

text \<open>Replacing one row by one with the same terms.\<close>

lemma orders_ok_put:
  assumes "orders_ok st" "order_ok st r"
  shows "orders_ok (put_order r st)"
  using assms by (auto simp: orders_ok_def dict_simps order_ok_cong[of "put_order r st" st])

lemma trade_ok_put:
  assumes "trade_ok st t" "dict_get (orders st) (o_order_id r') = Some r" "same_terms r r'"
  shows "trade_ok (put_order r' st) t"
  using assms unfolding trade_ok_def by (auto simp: dict_simps same_terms_def)

lemma seq_of_put:
  assumes "dict_get (orders st) (o_order_id r') = Some r" "same_terms r r'"
  shows "seq_of (put_order r' st) = seq_of st"
  using assms by (auto simp: seq_of_def dict_simps same_terms_def fun_eq_iff)

section \<open>Entries of the index\<close>

lemma entries_ok_mem:
  "entries_ok T st E \<Longrightarrow> e \<in> set (E x sd) \<longleftrightarrow> rests T st x sd e"
  by (auto simp: entries_ok_def)

lemma entries_ok_sorted:
  "entries_ok T st E \<Longrightarrow> sorted_wrt (\<lambda>a b. seq_of st (fst a) < seq_of st (fst b)) (E x sd)"
  by (simp add: entries_ok_def)

lemma entries_okI:
  assumes "\<And>x sd i p q. (i, p, q) \<in> set (E x sd) \<longleftrightarrow> rests T st x sd (i, p, q)"
    "\<And>x sd. sorted_wrt (\<lambda>a b. seq_of st (fst a) < seq_of st (fst b)) (E x sd)"
  shows "entries_ok T st E"
  using assms by (auto simp: entries_ok_def)

lemma with_entries_apply:
  "with_entries E x sd es y sd' = (if y = x \<and> sd' = sd then es else E y sd')"
  by (simp add: with_entries_def)

lemma mem_remove_entry: "e \<in> set (remove_entry i es) \<longleftrightarrow> e \<in> set es \<and> fst e \<noteq> i"
  by (auto simp: remove_entry_def)

lemma mem_set_quantity:
  "(j, p, q) \<in> set (set_quantity i n es) \<longleftrightarrow>
   (if j = i then q = n \<and> (\<exists>q0. (i, p, q0) \<in> set es) else (j, p, q) \<in> set es)"
  by (auto simp: set_quantity_def image_iff split: if_splits) force+

lemma map_fst_set_quantity [simp]: "map fst (set_quantity i n es) = map fst es"
  by (auto simp: set_quantity_def)

lemma rests_put:
  assumes "dict_get (orders st) (o_order_id r') = Some r" "same_terms r r'" "j \<noteq> o_order_id r'"
  shows "rests T (put_order r' st) x sd (j, p, q) \<longleftrightarrow> rests T st x sd (j, p, q)"
  using assms by (simp add: rests_def dict_simps)

lemma entries_ok_drop:
  assumes ok: "entries_ok T st E" and r: "dict_get (orders st) (o_order_id r') = Some r" "same_terms r r'"
    and "\<not> active r'"
  shows "entries_ok T (put_order r' st)
           (with_entries E (o_symbol r) (o_side r) (remove_entry (o_order_id r') (E (o_symbol r) (o_side r))))"
    (is "entries_ok T ?st ?E")
proof (rule entries_okI)
  fix x sd i p q
  show "(i, p, q) \<in> set (?E x sd) \<longleftrightarrow> rests T ?st x sd (i, p, q)"
  proof (cases "i = o_order_id r'")
    case True
    then have "\<not> rests T ?st x sd (i, p, q)" using assms(4) by (simp add: rests_def dict_simps)
    moreover have "(x, sd) \<noteq> (o_symbol r, o_side r) \<Longrightarrow> (i, p, q) \<notin> set (E x sd)"
      using r True by (auto simp: entries_ok_mem[OF ok] rests_def)
    ultimately show ?thesis using True by (auto simp: with_entries_apply mem_remove_entry)
  next
    case False
    then show ?thesis
      using rests_put[OF r False] by (simp add: with_entries_apply mem_remove_entry entries_ok_mem[OF ok])
  qed
next
  fix x sd
  show "sorted_wrt (\<lambda>a b. seq_of ?st (fst a) < seq_of ?st (fst b)) (?E x sd)"
    using entries_ok_sorted[OF ok]
    by (simp add: seq_of_put[OF r] with_entries_apply remove_entry_def sorted_wrt_filter)
qed

lemma entries_ok_lower:
  assumes ok: "entries_ok T st E" and r: "dict_get (orders st) (o_order_id r') = Some r" "same_terms r r'"
    and act: "active r" "active r'"
  shows "entries_ok T (put_order r' st)
           (with_entries E (o_symbol r) (o_side r)
              (set_quantity (o_order_id r') (o_remaining r') (E (o_symbol r) (o_side r))))"
    (is "entries_ok T ?st ?E")
proof (rule entries_okI)
  fix x sd i p q
  show "(i, p, q) \<in> set (?E x sd) \<longleftrightarrow> rests T ?st x sd (i, p, q)"
  proof (cases "i = o_order_id r'")
    case True
    have old: "(i, p, q) \<in> set (E x sd) \<longleftrightarrow> i \<notin> T \<and> (x, sd) = (o_symbol r, o_side r) \<and>
        p = o_price r \<and> q = o_remaining r" for x sd p q
      using r act(1) True by (auto simp: entries_ok_mem[OF ok] rests_def)
    have "rests T ?st x sd (i, p, q) \<longleftrightarrow> i \<notin> T \<and> (x, sd) = (o_symbol r, o_side r) \<and>
        p = o_price r \<and> q = o_remaining r'"
      using r act(2) True by (auto simp: rests_def dict_simps same_terms_def)
    then show ?thesis
      using True old by (auto simp: with_entries_apply mem_set_quantity)
  next
    case False
    then show ?thesis
      using rests_put[OF r False]
      by (simp add: with_entries_apply mem_set_quantity entries_ok_mem[OF ok])
  qed
next
  fix x sd
  have "sorted_wrt (\<lambda>a b. seq_of st a < seq_of st b) (map fst (E x sd))" for x sd
    using entries_ok_sorted[OF ok] by (simp add: sorted_wrt_map)
  then have "sorted_wrt (\<lambda>a b. seq_of ?st a < seq_of ?st b) (map fst (?E x sd))"
    unfolding seq_of_put[OF r] with_entries_apply by (cases "x = o_symbol r \<and> sd = o_side r") simp_all
  then show "sorted_wrt (\<lambda>a b. seq_of ?st (fst a) < seq_of ?st (fst b)) (?E x sd)"
    by (simp add: sorted_wrt_map)
qed

lemma sorted_wrt_cong_mem:
  assumes "\<And>a. a \<in> set xs \<Longrightarrow> f a = g a" "sorted_wrt (\<lambda>a b. g a < g b) xs"
  shows "sorted_wrt (\<lambda>a b. f a < f b) xs"
  using assms by (induction xs) auto

lemma entries_ok_admit:
  assumes ok: "entries_ok {} st E" and fresh: "dict_get (orders st) (o_order_id r) = None"
  shows "entries_ok {o_order_id r} (put_order r st) E"
proof (rule entries_okI)
  fix x sd i p q
  show "(i, p, q) \<in> set (E x sd) \<longleftrightarrow> rests {o_order_id r} (put_order r st) x sd (i, p, q)"
    using fresh by (auto simp: entries_ok_mem[OF ok] rests_def dict_simps)
next
  fix x sd
  have "seq_of (put_order r st) (fst e) = seq_of st (fst e)" if "e \<in> set (E x sd)" for e
    using that fresh by (auto simp: entries_ok_mem[OF ok] rests_def seq_of_def dict_simps)
  then show "sorted_wrt (\<lambda>a b. seq_of (put_order r st) (fst a) < seq_of (put_order r st) (fst b)) (E x sd)"
    using entries_ok_sorted[OF ok] by (rule sorted_wrt_cong_mem)
qed

lemma entries_ok_rest:
  assumes ok: "entries_ok {i} st E" and r: "dict_get (orders st) i = Some r" "o_order_id r = i" "active r"
    and last: "\<And>j r'. dict_get (orders st) j = Some r' \<Longrightarrow> j \<noteq> i \<Longrightarrow> o_seq r' < o_seq r"
  shows "entries_ok {} st (with_entries E (o_symbol r) (o_side r)
           (E (o_symbol r) (o_side r) @ [(i, o_price r, o_remaining r)]))"
    (is "entries_ok {} st ?E")
proof (rule entries_okI)
  fix x sd j p q
  show "(j, p, q) \<in> set (?E x sd) \<longleftrightarrow> rests {} st x sd (j, p, q)"
    using r by (auto simp: with_entries_apply entries_ok_mem[OF ok] rests_def)
next
  fix x sd
  have "seq_of st (fst e) < seq_of st i" if "e \<in> set (E x sd)" for e
    using that r(1) last by (auto simp: entries_ok_mem[OF ok] rests_def seq_of_def)
  then show "sorted_wrt (\<lambda>a b. seq_of st (fst a) < seq_of st (fst b)) (?E x sd)"
    using entries_ok_sorted[OF ok] by (auto simp: with_entries_apply sorted_wrt_append)
qed

lemma entries_ok_settled:
  assumes "entries_ok {i} st E" "dict_get (orders st) i = Some r" "\<not> active r"
  shows "entries_ok {} st E"
  using assms by (force simp: entries_ok_def rests_def)

section \<open>Steps of the ledger\<close>

text \<open>
  A step keeps the ledger when every hold moves with the reservations of the open orders and every
  total moves with the flow of the new trades.
\<close>

lemma ledger_ok_step:
  assumes ok: "ledger_ok st" and same: "st_settings st' = st_settings st"
    and cash: "\<And>w. w \<in> owners_of st \<Longrightarrow> 0 \<le> avail_cash st w \<Longrightarrow>
      hold_cash st' w - hold_cash st w
        = dict_sum (bid_hold w) (orders st') - dict_sum (bid_hold w) (orders st) \<and>
      0 \<le> avail_cash st' w \<and>
      avail_cash st' w + hold_cash st' w - (avail_cash st w + hold_cash st w)
        = sum_list (map (cash_flow w) (trades st')) - sum_list (map (cash_flow w) (trades st))"
    and shares: "\<And>w x. w \<in> owners_of st \<Longrightarrow> x \<in> symbols_of st \<Longrightarrow> 0 \<le> avail_pos st w x \<Longrightarrow>
      hold_pos st' w x - hold_pos st w x
        = dict_sum (ask_hold w x) (orders st') - dict_sum (ask_hold w x) (orders st) \<and>
      0 \<le> avail_pos st' w x \<and>
      avail_pos st' w x + hold_pos st' w x - (avail_pos st w x + hold_pos st w x)
        = sum_list (map (share_flow w x) (trades st')) - sum_list (map (share_flow w x) (trades st))"
  shows "ledger_ok st'"
proof -
  have "cash_ok st' w" if "w \<in> owners_of st" for w
  proof -
    have "cash_ok st w" using ok that by (simp add: ledger_ok_def)
    then show ?thesis using cash[OF that] same by (simp add: cash_ok_def)
  qed
  moreover have "shares_ok st' w x" if "w \<in> owners_of st" "x \<in> symbols_of st" for w x
  proof -
    have "shares_ok st w x" using ok that by (simp add: ledger_ok_def)
    then show ?thesis using shares[OF that] same by (simp add: shares_ok_def)
  qed
  ultimately show ?thesis
    using keys_cong[OF same] by (simp add: ledger_ok_def)
qed

section \<open>Release\<close>

lemma order_sums_put:
  assumes "dict_get (orders st) (o_order_id r') = Some r"
  shows "dict_sum f (orders (put_order r' st)) = dict_sum f (orders st) + f r' - f r"
  using assms by (simp add: dict_simps)

lemma trades_ok_put:
  assumes ok: "trades_ok st" and r: "dict_get (orders st) (o_order_id r') = Some r" "same_terms r r'"
    and "o_filled r' = o_filled r"
  shows "trades_ok (put_order r' st)"
  using assms by (auto simp: trades_ok_def dict_simps intro: trade_ok_put[OF _ r])

text \<open>
  Releasing an open order succeeds, cancels it and keeps the invariant, whether or not it is
  indexed.
\<close>

lemma release_inv:
  assumes inv: "engine_inv T st" and r: "dict_get (orders st) i = Some r" "active r"
  shows "\<exists>st'. release st r reason = Inr st' \<and> engine_inv T st' \<and>
    orders st' = dict_set i (r\<lparr>o_status := CANCELED, o_reason := reason\<rparr>) (orders st) \<and>
    st_settings st' = st_settings st \<and> trades st' = trades st \<and>
    last_seq st' = last_seq st \<and> last_timestamp st' = last_timestamp st"
proof -
  note I = inv[unfolded engine_inv_def]
  define r' where "r' = r\<lparr>o_status := CANCELED, o_reason := reason\<rparr>"
  have id: "o_order_id r = i" and rok: "order_ok st r"
    using I orders_okD[OF _ r(1)] by auto
  have r'i: "o_order_id r' = i" and same: "same_terms r r'" and inact: "\<not> active r'"
    and fil: "o_filled r' = o_filled r"
    by (simp_all add: r'_def id same_terms_def active_def)
  have known: "dict_get (orders st) (o_order_id r') = Some r" by (simp add: r'i r(1))
  have dom: "o_owner r \<in> owners_of st" "o_symbol r \<in> symbols_of st"
    using rok by (simp_all add: order_ok_def)
  obtain E where E: "book_repr E (book_index st)" "entries_ok T st E"
    and sy: "book_symbols (book_index st) = symbols_of st"
    using I by (auto simp: index_ok_def)
  let ?E' = "with_entries E (o_symbol r) (o_side r) (remove_entry i (E (o_symbol r) (o_side r)))"
  obtain idx where idx: "book_remove r (book_index st) = Inr idx" "book_symbols idx = symbols_of st"
    "book_repr ?E' idx"
    using book.remove[OF E(1), of r] dom sy id by auto
  define s1 where "s1 = st\<lparr>book_index := idx\<rparr>"
  have s1: "shape_ok s1" "owners_of s1 = owners_of st" "symbols_of s1 = symbols_of st"
    using I shape_ok_cong[of s1 st] keys_cong[of s1 st] by (simp_all add: s1_def)
  have obs1: "avail_cash s1 = avail_cash st" "hold_cash s1 = hold_cash st"
    "avail_pos s1 = avail_pos st" "hold_pos s1 = hold_pos st"
    using observation_cong[of s1 st] by (simp_all add: s1_def)
  let ?m = "reserved r (o_remaining r)"
  obtain s2 where acc: "on_account (o_owner r) (adjust_reserve (o_side r) (o_symbol r) ?m (- ?m)) s1 = Inr s2"
    and mv: "moves s1 s2 (\<lambda>v. if o_side r = BUY \<and> v = o_owner r then ?m else 0)
      (\<lambda>v. if o_side r = BUY \<and> v = o_owner r then - ?m else 0)
      (\<lambda>v y. if o_side r = SELL \<and> v = o_owner r \<and> y = o_symbol r then ?m else 0)
      (\<lambda>v y. if o_side r = SELL \<and> v = o_owner r \<and> y = o_symbol r then - ?m else 0)"
    using adjust_reserve_effect[OF s1(1)] dom unfolding s1(2,3) by blast
  obtain acc2 where s2_def: "s2 = s1\<lparr>accounts := acc2\<rparr>" using mv by (auto simp: moves_def)
  define s3 where "s3 = put_order r' s2"
  have s2: "orders s2 = orders st" "trades s2 = trades st" "st_settings s2 = st_settings st"
    "execution_seq s2 = execution_seq st" "book_index s2 = idx"
    by (simp_all add: s2_def s1_def)
  have run: "release st r reason = Inr s3"
    using idx(1) acc by (simp add: release_def s1_def[symmetric] s3_def r'_def)
  have s3: "orders s3 = dict_set i r' (orders st)" "trades s3 = trades st"
    "st_settings s3 = st_settings st" "book_index s3 = idx"
    by (simp_all add: s3_def s2 r'i)
  have "orders_ok s2" "trades_ok s2" "entries_ok T s2 E"
    using I E(2) orders_ok_cong[of s2 st] trades_ok_cong[of s2 st] entries_ok_cong[of s2 st]
    by (simp_all add: s2)
  moreover have "order_ok s2 r'"
    using rok r(2) by (auto simp: order_ok_def r'_def active_def keys_cong[OF s2(3)])
  ultimately have parts: "orders_ok s3" "trades_ok s3" "entries_ok T s3 ?E'"
    using orders_ok_put trades_ok_put[OF _ _ same fil] entries_ok_drop[OF _ _ same inact] known
    by (auto simp: s3_def s2 r'i)
  have "shape_ok s3" using moves_keys[OF mv] shape_ok_cong[of s3 s2] by (simp add: s3_def)
  moreover have "index_ok T s3"
    using idx parts(3) keys_cong[of s3 st] unfolding index_ok_def s3(4) by (auto simp: s3)
  moreover have "ledger_ok s3"
  proof -
    have o3: "avail_cash s3 = avail_cash s2" "hold_cash s3 = hold_cash s2"
      "avail_pos s3 = avail_pos s2" "hold_pos s3 = hold_pos s2"
      using observation_cong[of s3 s2] by (simp_all add: s3_def)
    have sums: "dict_sum f (orders s3) = dict_sum f (orders st) + f r' - f r" for f
      using known by (simp add: s3 r'i dict_simps)
    have zero: "bid_hold w r' = 0" "ask_hold w x r' = 0" for w x
      using inact by (simp_all add: bid_hold_def ask_hold_def)
    have rem: "0 \<le> o_remaining r" "0 \<le> o_remaining r * o_price r"
      using rok by (simp_all add: order_ok_def)
    show ?thesis
    proof (rule ledger_ok_step[of st])
      show "ledger_ok st" "st_settings s3 = st_settings st" using I s3 by auto
    qed (use rem in \<open>simp_all add: o3 mv[unfolded moves_def] obs1 sums zero s3(2) reserved_def
        bid_hold_def[of _ r] ask_hold_def[of _ _ r] r(2) split: side.split\<close>)
  qed
  ultimately have "engine_inv T s3" using parts by (simp add: engine_inv_def)
  then show ?thesis
    using run s3 by (auto simp: r'_def s3_def s2_def s1_def)
qed

section \<open>Executions\<close>

text \<open>How a state may evolve: rows keep their terms and only fill, settled rows never change again.\<close>

definition evolves :: "exchange \<Rightarrow> exchange \<Rightarrow> bool" where
  "evolves st st' \<longleftrightarrow> st_settings st' = st_settings st \<and> last_seq st' = last_seq st \<and>
     last_timestamp st' = last_timestamp st \<and>
     (\<exists>ts. trades st' = trades st @ ts) \<and>
     (\<forall>i. case dict_get (orders st) i of
            None \<Rightarrow> dict_get (orders st') i = None
          | Some r \<Rightarrow> (\<exists>r'. dict_get (orders st') i = Some r' \<and> same_terms r r' \<and>
              o_filled r \<le> o_filled r' \<and> (\<not> active r \<longrightarrow> r' = r)))"

lemma same_terms_refl [simp]: "same_terms r r"
  by (simp add: same_terms_def)

lemma same_terms_trans: "same_terms r r' \<Longrightarrow> same_terms r' r'' \<Longrightarrow> same_terms r r''"
  by (simp add: same_terms_def)

lemma evolves_refl: "evolves st st"
  by (simp add: evolves_def split: option.split)

lemma evolves_trans: "evolves a b \<Longrightarrow> evolves b c \<Longrightarrow> evolves a c"
  unfolding evolves_def
  apply (elim conjE, intro conjI)
      apply simp_all[3]
   apply fastforce
  apply (intro allI)
  subgoal for i
    by (drule_tac x = i in spec, drule_tac x = i in spec)
      (auto split: option.splits intro: same_terms_trans dest: order_trans)
  done

lemma release_evolves:
  assumes "orders st' = dict_set i (r\<lparr>o_status := CANCELED, o_reason := reason\<rparr>) (orders st)"
    "dict_get (orders st) i = Some r" "active r" "st_settings st' = st_settings st"
    "trades st' = trades st" "last_seq st' = last_seq st" "last_timestamp st' = last_timestamp st"
  shows "evolves st st'"
  using assms by (auto simp: evolves_def dict_simps same_terms_def split: option.split)

lemma settle_effect:
  assumes "shape_ok st" "o_owner bid \<in> owners_of st" "o_owner ask \<in> owners_of st" "x \<in> symbols_of st"
  shows "\<exists>st'. settle bid ask x p n st = Inr st' \<and> moves st st'
     (\<lambda>v. (if v = o_owner bid then (o_price bid - p) * n else 0) + (if v = o_owner ask then p * n else 0))
     (\<lambda>v. if v = o_owner bid then - (o_price bid * n) else 0)
     (\<lambda>v y. if v = o_owner bid \<and> y = x then n else 0)
     (\<lambda>v y. if v = o_owner ask \<and> y = x then - n else 0)"
proof -
  obtain s1 where 1: "on_account (o_owner bid) (adjust_cash ((o_price bid - p) * n) (- (o_price bid * n))) st = Inr s1"
    "moves st s1 (\<lambda>v. if v = o_owner bid then (o_price bid - p) * n else 0)
       (\<lambda>v. if v = o_owner bid then - (o_price bid * n) else 0) (\<lambda>_ _. 0) (\<lambda>_ _. 0)"
    using adjust_cash_effect[OF assms(1,2)] by blast
  obtain s2 where 2: "on_account (o_owner ask) (adjust_cash (p * n) 0) s1 = Inr s2"
    "moves s1 s2 (\<lambda>v. if v = o_owner ask then p * n else 0)
       (\<lambda>v. if v = o_owner ask then 0 else 0) (\<lambda>_ _. 0) (\<lambda>_ _. 0)"
    using adjust_cash_effect[of s1 "o_owner ask"] moves_keys[OF 1(2)] assms(3) by blast
  have k2: "shape_ok s2" "owners_of s2 = owners_of st" "symbols_of s2 = symbols_of st"
    using moves_keys[OF 1(2)] moves_keys[OF 2(2)] by simp_all
  obtain s3 where 3: "on_account (o_owner ask) (adjust_position x 0 (- n)) s2 = Inr s3"
    "moves s2 s3 (\<lambda>_. 0) (\<lambda>_. 0) (\<lambda>v y. if v = o_owner ask \<and> y = x then 0 else 0)
       (\<lambda>v y. if v = o_owner ask \<and> y = x then - n else 0)"
    using adjust_position_effect[of s2 "o_owner ask" x 0 "- n"] k2 assms(3,4) by auto
  have k3: "shape_ok s3" "owners_of s3 = owners_of st" "symbols_of s3 = symbols_of st"
    using moves_keys[OF 3(2)] k2 by simp_all
  obtain s4 where 4: "on_account (o_owner bid) (adjust_position x n 0) s3 = Inr s4"
    "moves s3 s4 (\<lambda>_. 0) (\<lambda>_. 0) (\<lambda>v y. if v = o_owner bid \<and> y = x then n else 0)
       (\<lambda>v y. if v = o_owner bid \<and> y = x then 0 else 0)"
    using adjust_position_effect[of s3 "o_owner bid" x n 0] k3 assms(2,4) by auto
  show ?thesis
    using moves_trans[OF moves_trans[OF moves_trans[OF 1(2) 2(2)] 3(2)] 4(2)]
    by (simp add: settle_def 1(1) 2(1) 3(1) 4(1))
qed

lemma fill_simps [simp]:
  "o_order_id (fill n r) = o_order_id r" "o_symbol (fill n r) = o_symbol r" "o_side (fill n r) = o_side r"
  "o_price (fill n r) = o_price r" "o_owner (fill n r) = o_owner r" "o_seq (fill n r) = o_seq r"
  "o_remaining (fill n r) = o_remaining r - n" "o_filled (fill n r) = o_filled r + n"
  "o_quantity (fill n r) = o_quantity r" "same_terms r (fill n r)"
  "active (fill n r) \<longleftrightarrow> o_remaining r \<noteq> n"
  by (simp_all add: fill_def same_terms_def active_def)

lemma order_ok_active: "order_ok st r \<Longrightarrow> active r \<Longrightarrow> 0 < o_remaining r"
  by (auto simp: order_ok_def active_def)

lemma order_ok_fill:
  "order_ok st r \<Longrightarrow> active r \<Longrightarrow> 0 < n \<Longrightarrow> n \<le> o_remaining r \<Longrightarrow> order_ok st (fill n r)"
  by (auto simp: order_ok_def fill_def split: if_splits)

lemma hold_fill:
  assumes "active r" "n \<le> o_remaining r"
  shows "bid_hold w (fill n r) = bid_hold w r - (if o_owner r = w \<and> o_side r = BUY then n * o_price r else 0)"
    "ask_hold w x (fill n r) = ask_hold w x r
       - (if o_owner r = w \<and> o_side r = SELL \<and> o_symbol r = x then n else 0)"
  using assms by (auto simp: bid_hold_def ask_hold_def left_diff_distrib)

lemma trade_ok_same_terms:
  assumes "trade_ok st t"
    "\<And>k r. dict_get (orders st) k = Some r \<Longrightarrow> \<exists>r'. dict_get (orders st') k = Some r' \<and> same_terms r r'"
  shows "trade_ok st' t"
proof -
  obtain bid ask where b: "dict_get (orders st) (tr_buy_order t) = Some bid"
    "dict_get (orders st) (tr_sell_order t) = Some ask"
    "o_owner bid = tr_buyer t" "o_owner ask = tr_seller t" "tr_buyer t \<noteq> tr_seller t"
    "o_side bid = BUY" "o_side ask = SELL" "o_symbol bid = tr_symbol t"
    "o_symbol ask = tr_symbol t" "o_price ask \<le> tr_price t" "tr_price t \<le> o_price bid" "0 < tr_quantity t"
    using assms(1) by (auto simp: trade_ok_def)
  obtain bid' ask' where "dict_get (orders st') (tr_buy_order t) = Some bid'" "same_terms bid bid'"
    "dict_get (orders st') (tr_sell_order t) = Some ask'" "same_terms ask ask'"
    using assms(2) b(1,2) by blast
  then show ?thesis using b by (auto simp: trade_ok_def same_terms_def)
qed

lemma trades_ok_fill:
  assumes ok: "trades_ok st" and r: "dict_get (orders st) i = Some r" and m: "dict_get (orders st) j = Some m"
    and ij: "i \<noteq> j" and t: "{tr_buy_order t, tr_sell_order t} = {i, j}" "tr_quantity t = n"
      "tr_execution_seq t = execution_seq st + 1" "trade_ok st t"
    and st': "orders st' = dict_set j (fill n m) (dict_set i (fill n r) (orders st))"
      "trades st' = trades st @ [t]" "execution_seq st' = execution_seq st + 1"
  shows "trades_ok st'"
proof -
  have "\<exists>row'. dict_get (orders st') k = Some row' \<and> same_terms row row'"
    if "dict_get (orders st) k = Some row" for k row
    using that r m by (auto simp: st' dict_simps)
  then have "\<forall>u \<in> set (trades st'). trade_ok st' u"
    using ok t(4) trade_ok_same_terms[of st _ st'] by (auto simp: st' trades_ok_def)
  moreover have "map tr_execution_seq (trades st') = map int [1..<Suc (length (trades st'))]"
    using ok t(3) by (simp add: trades_ok_def st')
  moreover have "o_filled row = sum_list (map (order_fill k) (trades st'))"
    if "dict_get (orders st') k = Some row" for k row
  proof -
    have "order_fill k t = (if k = i \<or> k = j then n else 0)"
      using t(1,2) ij by (auto simp: order_fill_def doubleton_eq_iff)
    then show ?thesis
      using that ok r m ij by (auto simp: st' dict_simps trades_ok_def split: if_splits)
  qed
  ultimately show ?thesis using ok by (simp add: trades_ok_def st')
qed

lemma entries_ok_excluded:
  assumes ok: "entries_ok {o_order_id r'} st E"
    and r: "dict_get (orders st) (o_order_id r') = Some r" "same_terms r r'"
  shows "entries_ok {o_order_id r'} (put_order r' st) E"
proof (rule entries_okI)
  show "(i, p, q) \<in> set (E x sd) \<longleftrightarrow> rests {o_order_id r'} (put_order r' st) x sd (i, p, q)" for x sd i p q
    by (cases "i = o_order_id r'") (simp_all add: entries_ok_mem[OF ok] rests_def dict_simps)
qed (use entries_ok_sorted[OF ok] in \<open>simp add: seq_of_put[OF r]\<close>)

lemma entries_ok_fill:
  assumes ok: "entries_ok {i} st E" and r: "dict_get (orders st) i = Some r" "o_order_id r = i"
    and m: "dict_get (orders st) j = Some m" "o_order_id m = j" "active m" and ij: "i \<noteq> j"
  shows "entries_ok {i} (put_order (fill n m) (put_order (fill n r) st))
     (with_entries E (o_symbol m) (o_side m)
        (if n = o_remaining m then remove_entry j (E (o_symbol m) (o_side m))
         else set_quantity j (o_remaining m - n) (E (o_symbol m) (o_side m))))"
proof -
  define s1 where "s1 = put_order (fill n r) st"
  have ok1: "entries_ok {i} s1 E"
    using entries_ok_excluded[of "fill n r" st E r] ok r by (simp add: s1_def)
  have m1: "dict_get (orders s1) (o_order_id (fill n m)) = Some m"
    using m ij r by (simp add: s1_def dict_simps)
  show ?thesis
    using entries_ok_drop[OF ok1 m1] entries_ok_lower[OF ok1 m1 _ m(3)]
    by (auto simp: s1_def m(2))
qed

lemma put_order_frame [simp]:
  "owners_of (put_order r st) = owners_of st" "symbols_of (put_order r st) = symbols_of st"
  "avail_cash (put_order r st) = avail_cash st" "hold_cash (put_order r st) = hold_cash st"
  "avail_pos (put_order r st) = avail_pos st" "hold_pos (put_order r st) = hold_pos st"
  "shape_ok (put_order r st) = shape_ok st" "order_ok (put_order r st) = order_ok st"
  using keys_cong[of "put_order r st" st] observation_cong[of "put_order r st" st]
    shape_ok_cong[of "put_order r st" st] order_ok_cong[of "put_order r st" st]
  by (auto simp: fun_eq_iff)

text \<open>The ledger after the balances moved and both rows were filled.\<close>

lemma ledger_ok_fill:
  assumes ok: "ledger_ok st" and bid: "dict_get (orders st) (o_order_id bid) = Some bid" "active bid"
    and ask: "dict_get (orders st) (o_order_id ask) = Some ask" "active ask"
    and ne: "o_order_id bid \<noteq> o_order_id ask" "o_owner bid \<noteq> o_owner ask"
    and sides: "o_side bid = BUY" "o_side ask = SELL" "o_symbol bid = x" "o_symbol ask = x"
    and n: "0 \<le> n" "n \<le> o_remaining bid" "n \<le> o_remaining ask" and p: "0 \<le> p" "p \<le> o_price bid"
    and mv: "moves st s1
     (\<lambda>v. (if v = o_owner bid then (o_price bid - p) * n else 0) + (if v = o_owner ask then p * n else 0))
     (\<lambda>v. if v = o_owner bid then - (o_price bid * n) else 0)
     (\<lambda>v y. if v = o_owner bid \<and> y = x then n else 0)
     (\<lambda>v y. if v = o_owner ask \<and> y = x then - n else 0)"
    and t: "tr_quantity t = n" "tr_price t = p" "tr_symbol t = x" "tr_buyer t = o_owner bid"
      "tr_seller t = o_owner ask"
    and st': "accounts st' = accounts s1" "st_settings st' = st_settings st" "trades st' = trades st @ [t]"
      "\<And>f. dict_sum f (orders st') = dict_sum f (orders st) + (f (fill n bid) - f bid) + (f (fill n ask) - f ask)"
  shows "ledger_ok st'"
proof (rule ledger_ok_step[OF ok st'(2)])
  note o = observation_cong[OF st'(1)] mv[unfolded moves_def]
  have nn: "0 \<le> (o_price bid - p) * n" "0 \<le> p * n" using n(1) p by simp_all
  {
    fix w
    assume "0 \<le> avail_cash st w"
    then show "hold_cash st' w - hold_cash st w
        = dict_sum (bid_hold w) (orders st') - dict_sum (bid_hold w) (orders st) \<and>
      0 \<le> avail_cash st' w \<and>
      avail_cash st' w + hold_cash st' w - (avail_cash st w + hold_cash st w)
        = sum_list (map (cash_flow w) (trades st')) - sum_list (map (cash_flow w) (trades st))"
      using ne nn n sides
      by (auto simp: o st'(3,4) hold_fill[OF bid(2)] hold_fill[OF ask(2)] cash_flow_def t algebra_simps)
  next
    fix w y
    assume "0 \<le> avail_pos st w y"
    then show "hold_pos st' w y - hold_pos st w y
        = dict_sum (ask_hold w y) (orders st') - dict_sum (ask_hold w y) (orders st) \<and>
      0 \<le> avail_pos st' w y \<and>
      avail_pos st' w y + hold_pos st' w y - (avail_pos st w y + hold_pos st w y)
        = sum_list (map (share_flow w y) (trades st')) - sum_list (map (share_flow w y) (trades st))"
      using ne n sides
      by (auto simp: o st'(3,4) hold_fill[OF bid(2)] hold_fill[OF ask(2)] share_flow_def t)
  }
qed

text \<open>Two open orders that may trade with each other: the incoming one and a resting one.\<close>

definition tradable :: "exchange \<Rightarrow> order \<Rightarrow> order \<Rightarrow> bool" where
  "tradable st r m \<longleftrightarrow>
     dict_get (orders st) (o_order_id r) = Some r \<and> active r \<and>
     dict_get (orders st) (o_order_id m) = Some m \<and> active m \<and>
     o_order_id m \<noteq> o_order_id r \<and> o_symbol m = o_symbol r \<and> o_side m = opposite (o_side r) \<and>
     crosses r m \<and> o_owner m \<noteq> o_owner r"

lemma execute_inv:
  assumes inv: "engine_inv {o_order_id r} st" and tr: "tradable st r m"
    and n: "n = min (o_remaining r) (o_remaining m)"
  shows "\<exists>st' t. execute seq stamp k r m st = Inr st' \<and> engine_inv {o_order_id r} st' \<and> 0 < n \<and>
    orders st' = dict_set (o_order_id m) (fill n m) (dict_set (o_order_id r) (fill n r) (orders st)) \<and>
    st_settings st' = st_settings st \<and> last_seq st' = last_seq st \<and>
    last_timestamp st' = last_timestamp st \<and> trades st' = trades st @ [t]"
proof -
  note I = inv[unfolded engine_inv_def] and T = tr[unfolded tradable_def]
  define bid where "bid = (case o_side r of BUY \<Rightarrow> r | SELL \<Rightarrow> m)"
  define ask where "ask = (case o_side r of BUY \<Rightarrow> m | SELL \<Rightarrow> r)"
  define x where "x = o_symbol r"
  define p where "p = o_price m"
  have rok: "order_ok st r" "order_ok st m"
    using I T orders_okD[of st] by blast+
  have npos: "0 < n" and nle: "n \<le> o_remaining r" "n \<le> o_remaining m"
    using T order_ok_active[OF rok(1)] order_ok_active[OF rok(2)] by (auto simp: n)
  have dom: "o_owner bid \<in> owners_of st" "o_owner ask \<in> owners_of st" "x \<in> symbols_of st"
    using rok by (auto simp: order_ok_def bid_def ask_def x_def split: side.split)
  have ba: "dict_get (orders st) (o_order_id bid) = Some bid" "active bid"
    "dict_get (orders st) (o_order_id ask) = Some ask" "active ask"
    "o_order_id bid \<noteq> o_order_id ask" "o_owner bid \<noteq> o_owner ask"
    "o_side bid = BUY" "o_side ask = SELL" "o_symbol bid = x" "o_symbol ask = x"
    "0 \<le> p" "p \<le> o_price bid" "o_price ask \<le> p" "n \<le> o_remaining bid" "n \<le> o_remaining ask"
    "{o_order_id bid, o_order_id ask} = {o_order_id r, o_order_id m}"
    using T nle rok by (cases "o_side r"; auto simp: bid_def ask_def x_def p_def crosses_def order_ok_def)+
  obtain s1 where s1: "settle bid ask x p n st = Inr s1" and mv: "moves st s1
     (\<lambda>v. (if v = o_owner bid then (o_price bid - p) * n else 0) + (if v = o_owner ask then p * n else 0))
     (\<lambda>v. if v = o_owner bid then - (o_price bid * n) else 0)
     (\<lambda>v y. if v = o_owner bid \<and> y = x then n else 0)
     (\<lambda>v y. if v = o_owner ask \<and> y = x then - n else 0)"
    using settle_effect[of st bid ask x p n] I dom by blast
  obtain a1 where s1a: "s1 = st\<lparr>accounts := a1\<rparr>" using mv by (auto simp: moves_def)
  obtain E where E: "book_repr E (book_index st)" "entries_ok {o_order_id r} st E"
    and sy: "book_symbols (book_index st) = symbols_of st"
    using I by (auto simp: index_ok_def)
  have "(o_order_id m, o_price m, o_remaining m) \<in> set (E (o_symbol m) (o_side m))"
    using T by (simp add: entries_ok_mem[OF E(2)] rests_def)
  then obtain idx where idx: "book_consume m n (book_index st) = Inr idx" "book_symbols idx = symbols_of st"
    "book_repr (with_entries E (o_symbol m) (o_side m)
       (if n = o_remaining m then remove_entry (o_order_id m) (E (o_symbol m) (o_side m))
        else set_quantity (o_order_id m) (o_remaining m - n) (E (o_symbol m) (o_side m)))) idx"
    using book.consume[OF E(1), of m "o_price m" "o_remaining m" n] npos nle sy T dom x_def by auto
  define t where "t = trade_row seq stamp k (execution_seq st + 1) bid ask x p n"
  have tt: "tr_quantity t = n" "tr_price t = p" "tr_symbol t = x" "tr_buyer t = o_owner bid"
    "tr_seller t = o_owner ask" "tr_buy_order t = o_order_id bid" "tr_sell_order t = o_order_id ask"
    "tr_execution_seq t = execution_seq st + 1"
    by (simp_all add: t_def trade_row_def)
  define s2 where "s2 = s1\<lparr>execution_seq := execution_seq st + 1, book_index := idx, trades := trades st @ [t]\<rparr>"
  define st' where "st' = put_order (fill n m) (put_order (fill n r) s2)"
  have run: "execute seq stamp k r m st = Inr st'"
    using s1 idx(1) by (cases "o_side r")
      (auto simp: execute_def Let_def n[symmetric] bid_def ask_def x_def p_def st'_def s2_def t_def s1a)
  have f: "orders st' = dict_set (o_order_id m) (fill n m) (dict_set (o_order_id r) (fill n r) (orders st))"
    "trades st' = trades st @ [t]" "execution_seq st' = execution_seq st + 1"
    "st_settings st' = st_settings st" "book_index st' = idx" "accounts st' = accounts s1"
    "last_seq st' = last_seq st" "last_timestamp st' = last_timestamp st"
    by (simp_all add: st'_def s2_def s1a)
  have s2c: "st_settings s2 = st_settings st" "orders s2 = orders st" by (simp_all add: s2_def s1a)
  have "shape_ok st'" using moves_keys[OF mv] shape_ok_cong[OF f(6)] by (simp add: f(4) s1a)
  moreover have "orders_ok st'"
    using orders_ok_cong[OF s2c(2,1)] I rok order_ok_cong[OF s2c(1)] npos nle T
    by (simp add: st'_def orders_ok_put order_ok_fill)
  moreover have "trades_ok st'"
  proof (rule trades_ok_fill[OF _ _ _ _ _ tt(1,8) _ f(1-3)])
    show "trade_ok st t" using ba npos by (auto simp: trade_ok_def tt)
  qed (use I T ba tt in auto)
  moreover have "ledger_ok st'"
  proof (rule ledger_ok_fill[OF _ ba(1-10) _ ba(14,15,11,12) mv tt(1-5) f(6,4,2)])
    show "dict_sum g (orders st') = dict_sum g (orders st) + (g (fill n bid) - g bid) + (g (fill n ask) - g ask)" for g
      using T by (cases "o_side r") (simp_all add: f(1) dict_simps bid_def ask_def)
  qed (use I npos in auto)
  moreover have "index_ok {o_order_id r} st'"
  proof -
    have "entries_ok {o_order_id r} st' (with_entries E (o_symbol m) (o_side m)
       (if n = o_remaining m then remove_entry (o_order_id m) (E (o_symbol m) (o_side m))
        else set_quantity (o_order_id m) (o_remaining m - n) (E (o_symbol m) (o_side m))))"
      unfolding st'_def using E(2) entries_ok_cong[OF s2c(2)] T s2c by (intro entries_ok_fill) auto
    then show ?thesis using idx keys_cong[OF f(4)] unfolding index_ok_def f(5) by auto
  qed
  ultimately have "engine_inv {o_order_id r} st'" by (simp add: engine_inv_def)
  then show ?thesis using run f npos by blast
qed

section \<open>The matching loop\<close>

text \<open>The maker the loop looks at: the oldest order at the best price of the other side.\<close>

lemma best_maker:
  assumes inv: "engine_inv T st" and x: "x \<in> symbols_of st"
  shows "\<exists>idx best. book_best x sd (book_index st) = Inr (best, idx) \<and> engine_inv T (st\<lparr>book_index := idx\<rparr>) \<and>
    (case best of
       None \<Rightarrow> \<forall>j m. dict_get (orders st) j = Some m \<longrightarrow> active m \<longrightarrow> j \<notin> T \<longrightarrow> o_symbol m = x \<longrightarrow> o_side m \<noteq> opposite sd
     | Some j \<Rightarrow> j \<notin> T \<and> (\<exists>m. dict_get (orders st) j = Some m \<and> active m \<and> o_symbol m = x \<and>
         o_side m = opposite sd \<and> o_order_id m = j \<and>
         (\<forall>j' m'. dict_get (orders st) j' = Some m' \<longrightarrow> active m' \<longrightarrow> j' \<notin> T \<longrightarrow> o_symbol m' = x \<longrightarrow>
            o_side m' = opposite sd \<longrightarrow>
            sign (opposite sd) * o_price m < sign (opposite sd) * o_price m' \<or>
            o_price m = o_price m' \<and> o_seq m \<le> o_seq m')))"
proof -
  note I = inv[unfolded engine_inv_def]
  let ?sd = "opposite sd"
  obtain E where E: "book_repr E (book_index st)" "entries_ok T st E"
    and sy: "book_symbols (book_index st) = symbols_of st"
    using I by (auto simp: index_ok_def)
  obtain idx where idx: "book_best x sd (book_index st) = Inr (best_entry ?sd (E x ?sd), idx)"
    "book_symbols idx = symbols_of st" "book_repr E idx"
    using book.best[OF E(1), of x sd] x sy by auto
  have "index_ok T (st\<lparr>book_index := idx\<rparr>)"
    using idx E(2) entries_ok_cong[of "st\<lparr>book_index := idx\<rparr>" st] keys_cong[of "st\<lparr>book_index := idx\<rparr>" st]
    by (auto simp: index_ok_def)
  then have inv': "engine_inv T (st\<lparr>book_index := idx\<rparr>)"
    using I shape_ok_cong[of "st\<lparr>book_index := idx\<rparr>" st] orders_ok_cong[of "st\<lparr>book_index := idx\<rparr>" st]
      ledger_ok_cong[of "st\<lparr>book_index := idx\<rparr>" st] trades_ok_cong[of "st\<lparr>book_index := idx\<rparr>" st]
    by (simp add: engine_inv_def)
  show ?thesis
  proof (cases "best_entry ?sd (E x ?sd)")
    case None
    then have "E x ?sd = []" by (simp add: best_entry_None)
    then have "\<not> rests T st x ?sd e" for e using entries_ok_mem[OF E(2), of e x ?sd] by simp
    then show ?thesis
      using idx(1) inv' None by (intro exI[of _ idx] exI[of _ None]) (auto simp: rests_def)
  next
    case (Some j)
    obtain A p q B where es: "E x ?sd = A @ (j, p, q) # B" "\<forall>(j, p', q') \<in> set A. p' \<noteq> p"
      "\<forall>(j, p', q') \<in> set (E x ?sd). sign ?sd * p \<le> sign ?sd * p'"
      using best_entry_Some[OF Some] by blast
    have "rests T st x ?sd (j, p, q)" using entries_ok_mem[OF E(2), of "(j, p, q)" x ?sd] es(1) by simp
    then obtain m where m: "dict_get (orders st) j = Some m" "active m" "o_symbol m = x" "o_side m = ?sd"
      "o_price m = p" "j \<notin> T" by (auto simp: rests_def)
    have "sign ?sd * p < sign ?sd * o_price m' \<or> p = o_price m' \<and> o_seq m \<le> o_seq m'"
      if "dict_get (orders st) j' = Some m'" "active m'" "j' \<notin> T" "o_symbol m' = x" "o_side m' = ?sd" for j' m'
    proof -
      have mem: "(j', o_price m', o_remaining m') \<in> set (E x ?sd)"
        using that by (simp add: entries_ok_mem[OF E(2)] rests_def)
      then have le: "sign ?sd * p \<le> sign ?sd * o_price m'" using es(3) by auto
      have "o_seq m \<le> o_seq m'" if eq: "p = o_price m'"
      proof -
        have "(j', o_price m', o_remaining m') \<notin> set A" using es(2) eq by auto
        then have "j' = j \<or> (j', o_price m', o_remaining m') \<in> set B"
          using mem unfolding es(1) by auto
        moreover have "sorted_wrt (\<lambda>a b. seq_of st (fst a) < seq_of st (fst b)) (A @ (j, p, q) # B)"
          using entries_ok_sorted[OF E(2), of x ?sd] by (simp add: es(1))
        ultimately show ?thesis
          using m(1) \<open>dict_get (orders st) j' = Some m'\<close>
          by (auto simp: sorted_wrt_append seq_of_def)
      qed
      then show ?thesis using le by (cases ?sd) auto
    qed
    then show ?thesis
      using idx(1) inv' Some m orders_okD[of st j m] I
      by (intro exI[of _ idx] exI[of _ "Some j"]) auto
  qed
qed

lemma execute_evolves:
  assumes "tradable st r m" "0 \<le> n"
    "orders st' = dict_set (o_order_id m) (fill n m) (dict_set (o_order_id r) (fill n r) (orders st))"
    "st_settings st' = st_settings st" "last_seq st' = last_seq st"
    "last_timestamp st' = last_timestamp st" "trades st' = trades st @ [t]"
  shows "evolves st st'"
  using assms by (auto simp: evolves_def tradable_def dict_simps split: option.split)

text \<open>
  The loop returns, keeps the invariant, and leaves the incoming order closed or with nothing left
  to trade against.
\<close>

definition unmatched :: "exchange \<Rightarrow> string \<Rightarrow> bool" where
  "unmatched st i \<longleftrightarrow> (\<forall>r j m. dict_get (orders st) i = Some r \<longrightarrow> active r \<longrightarrow>
     dict_get (orders st) j = Some m \<longrightarrow> active m \<longrightarrow> j \<noteq> i \<longrightarrow> o_symbol m = o_symbol r \<longrightarrow>
     o_side m = opposite (o_side r) \<longrightarrow> \<not> crosses r m)"

lemma crosses_mono:
  assumes "\<not> crosses r m" "o_side m = opposite (o_side r)"
    "sign (o_side m) * o_price m \<le> sign (o_side m) * o_price m'"
  shows "\<not> crosses r m'"
  using assms by (cases "o_side r") (auto simp: crosses_def)

lemma match_loop_inv:
  assumes "engine_inv {i} st" "dict_get (orders st) i = Some r" "active r \<or> o_remaining r = 0"
    "nat (o_remaining r) < fuel"
  shows "\<exists>st'. match_loop fuel seq stamp i k st = Inr st' \<and> engine_inv {i} st' \<and> evolves st st' \<and> unmatched st' i"
  using assms
proof (induction fuel arbitrary: st r k)
  case (Suc fuel)
  note I = Suc.prems(1)[unfolded engine_inv_def]
  have id: "o_order_id r = i" and rok: "order_ok st r"
    using I orders_okD[OF _ Suc.prems(2)] by auto
  show ?case
  proof (cases "o_remaining r = 0")
    case True
    then have "\<not> active r" using order_ok_active[OF rok] by auto
    then show ?thesis
      using Suc.prems True by (auto simp: evolves_refl unmatched_def)
  next
    case False
    then have act: "active r" using Suc.prems(3) by simp
    have x: "o_symbol r \<in> symbols_of st" using rok by (simp add: order_ok_def)
    obtain idx best where b: "book_best (o_symbol r) (o_side r) (book_index st) = Inr (best, idx)"
      "engine_inv {i} (st\<lparr>book_index := idx\<rparr>)" and
      none: "best = None \<Longrightarrow> \<forall>j m. dict_get (orders st) j = Some m \<longrightarrow> active m \<longrightarrow> j \<notin> {i} \<longrightarrow>
         o_symbol m = o_symbol r \<longrightarrow> o_side m \<noteq> opposite (o_side r)" and
      some: "\<And>j. best = Some j \<Longrightarrow> j \<notin> {i} \<and> (\<exists>m. dict_get (orders st) j = Some m \<and> active m \<and>
         o_symbol m = o_symbol r \<and> o_side m = opposite (o_side r) \<and> o_order_id m = j \<and>
         (\<forall>j' m'. dict_get (orders st) j' = Some m' \<longrightarrow> active m' \<longrightarrow> j' \<notin> {i} \<longrightarrow> o_symbol m' = o_symbol r \<longrightarrow>
            o_side m' = opposite (o_side r) \<longrightarrow>
            sign (opposite (o_side r)) * o_price m \<le> sign (opposite (o_side r)) * o_price m'))"
      using best_maker[OF Suc.prems(1) x, of "o_side r"]
      by (elim exE conjE) (fastforce split: option.splits)
    let ?st = "st\<lparr>book_index := idx\<rparr>"
    have ev: "evolves st ?st" by (simp add: evolves_def split: option.split)
    show ?thesis
    proof (cases best)
      case None
      then show ?thesis
        using Suc.prems(2) False b ev none[OF None] by (auto simp: unmatched_def)
    next
      case (Some j)
      obtain m where m: "j \<noteq> i" "dict_get (orders st) j = Some m" "active m" "o_symbol m = o_symbol r"
        "o_side m = opposite (o_side r)" "o_order_id m = j"
        and bst: "\<And>j' m'. dict_get (orders st) j' = Some m' \<Longrightarrow> active m' \<Longrightarrow> j' \<noteq> i \<Longrightarrow>
          o_symbol m' = o_symbol r \<Longrightarrow> o_side m' = opposite (o_side r) \<Longrightarrow>
          sign (o_side m) * o_price m \<le> sign (o_side m) * o_price m'"
        using some[OF Some] by auto
      consider (apart) "\<not> crosses r m" | (self) "crosses r m" "o_owner m = o_owner r"
        | (trade) "crosses r m" "o_owner m \<noteq> o_owner r" by blast
      then show ?thesis
      proof cases
        case apart
        then have "unmatched ?st i"
          using crosses_mono[OF apart m(5) bst] Suc.prems(2) by (auto simp: unmatched_def)
        then show ?thesis using Suc.prems(2) False b ev m apart by (simp add: Some)
      next
        case self
        obtain s' where s': "release ?st r ''SELF_TRADE_PREVENTION'' = Inr s'" "engine_inv {i} s'"
          "orders s' = dict_set i (r\<lparr>o_status := CANCELED, o_reason := ''SELF_TRADE_PREVENTION''\<rparr>) (orders st)"
          "st_settings s' = st_settings st" "trades s' = trades st" "last_seq s' = last_seq st"
          "last_timestamp s' = last_timestamp st"
          using release_inv[OF b(2), of i r] Suc.prems(2) act by auto
        have "evolves st s'" using release_evolves[OF s'(3) Suc.prems(2) act s'(4-7)] .
        moreover have "unmatched s' i" by (auto simp: unmatched_def s'(3) dict_simps active_def)
        ultimately show ?thesis using Suc.prems(2) False b m self s'(1,2) by (simp add: Some)
      next
        case trade
        have tr: "tradable ?st r m" using Suc.prems(2) act m trade id by (simp add: tradable_def)
        define n where "n = min (o_remaining r) (o_remaining m)"
        obtain s' t where s': "execute seq stamp (Suc k) r m ?st = Inr s'" "engine_inv {i} s'" "0 < n"
          "orders s' = dict_set (o_order_id m) (fill n m) (dict_set (o_order_id r) (fill n r) (orders ?st))"
          "st_settings s' = st_settings ?st" "last_seq s' = last_seq ?st"
          "last_timestamp s' = last_timestamp ?st" "trades s' = trades ?st @ [t]"
          using execute_inv[of r ?st m n seq stamp "Suc k"] b(2) tr id n_def by auto
        have ev': "evolves st s'"
          using execute_evolves[OF tr _ s'(4-8)] s'(3) ev by (auto intro: evolves_trans)
        have row: "dict_get (orders s') i = Some (fill n r)"
          using m(1) m(6) id by (simp add: s'(4) dict_simps)
        have "n \<le> o_remaining r" by (simp add: n_def)
        then have "nat (o_remaining (fill n r)) < fuel"
          using Suc.prems(4) s'(3) by simp
        then obtain s'' where "match_loop fuel seq stamp i (Suc k) s' = Inr s''" "engine_inv {i} s''"
          "evolves s' s''" "unmatched s'' i"
          using Suc.IH[OF s'(2) row, of "Suc k"] by auto
        then show ?thesis
          using Suc.prems(2) False b m trade s'(1) evolves_trans[OF ev'] by (auto simp: Some)
      qed
    qed
  qed
qed simp

section \<open>Whole commands\<close>

definition uncrossed :: "string set \<Rightarrow> exchange \<Rightarrow> bool" where
  "uncrossed T st \<longleftrightarrow> (\<forall>i j b a. dict_get (orders st) i = Some b \<longrightarrow> dict_get (orders st) j = Some a \<longrightarrow>
     i \<notin> T \<longrightarrow> j \<notin> T \<longrightarrow> active b \<longrightarrow> active a \<longrightarrow> o_side b = BUY \<longrightarrow> o_side a = SELL \<longrightarrow>
     o_symbol b = o_symbol a \<longrightarrow> o_price b < o_price a)"

definition seqs_below :: "int \<Rightarrow> exchange \<Rightarrow> bool" where
  "seqs_below n st \<longleftrightarrow> (\<forall>i r. dict_get (orders st) i = Some r \<longrightarrow> o_seq r < n)"

lemma evolves_back:
  assumes "evolves st st'" "dict_get (orders st') i = Some r'"
  shows "\<exists>r. dict_get (orders st) i = Some r \<and> same_terms r r' \<and> (active r' \<longrightarrow> active r)"
proof -
  have "case dict_get (orders st) i of
            None \<Rightarrow> dict_get (orders st') i = None
          | Some r \<Rightarrow> (\<exists>r'. dict_get (orders st') i = Some r' \<and> same_terms r r' \<and>
              o_filled r \<le> o_filled r' \<and> (\<not> active r \<longrightarrow> r' = r))"
    using assms(1) unfolding evolves_def by blast
  then show ?thesis using assms(2) by (auto split: option.splits)
qed

lemma evolves_uncrossed: "evolves st st' \<Longrightarrow> uncrossed T st \<Longrightarrow> uncrossed T st'"
  unfolding uncrossed_def
proof (intro allI impI)
  fix i j b a
  assume ev: "evolves st st'" and un: "\<forall>i j b a. dict_get (orders st) i = Some b \<longrightarrow> dict_get (orders st) j = Some a \<longrightarrow>
     i \<notin> T \<longrightarrow> j \<notin> T \<longrightarrow> active b \<longrightarrow> active a \<longrightarrow> o_side b = BUY \<longrightarrow> o_side a = SELL \<longrightarrow>
     o_symbol b = o_symbol a \<longrightarrow> o_price b < o_price a"
    and rows: "dict_get (orders st') i = Some b" "dict_get (orders st') j = Some a" "i \<notin> T" "j \<notin> T"
      "active b" "active a" "o_side b = BUY" "o_side a = SELL" "o_symbol b = o_symbol a"
  obtain b0 a0 where "dict_get (orders st) i = Some b0" "same_terms b0 b" "active b0"
    "dict_get (orders st) j = Some a0" "same_terms a0 a" "active a0"
    using evolves_back[OF ev rows(1)] evolves_back[OF ev rows(2)] rows by blast
  then show "o_price b < o_price a" using un rows by (simp add: same_terms_def)
qed

lemma evolves_seqs_below: "evolves st st' \<Longrightarrow> seqs_below n st \<Longrightarrow> seqs_below n st'"
  unfolding seqs_below_def using evolves_back[of st st'] by (fastforce simp: same_terms_def)

lemma uncrossed_unmatched:
  assumes "uncrossed {i} st" "unmatched st i"
  shows "uncrossed {} st"
  unfolding uncrossed_def
proof (intro allI impI)
  fix k j b a
  assume ba: "dict_get (orders st) k = Some b" "dict_get (orders st) j = Some a" "active b" "active a"
    "o_side b = BUY" "o_side a = SELL" "o_symbol b = o_symbol a"
  consider "k = i" | "j = i" "k \<noteq> i" | "k \<noteq> i" "j \<noteq> i" by blast
  then show "o_price b < o_price a"
  proof cases
    case 1
    then have "j \<noteq> i" using ba by auto
    then have "\<not> crosses b a" using assms(2) ba 1 unfolding unmatched_def by simp
    then show ?thesis using ba by (simp add: crosses_def)
  next
    case 2
    then have "\<not> crosses a b" using assms(2) ba unfolding unmatched_def by simp
    then show ?thesis using ba by (simp add: crosses_def)
  next
    case 3
    then show ?thesis using assms(1) ba unfolding uncrossed_def by auto
  qed
qed

lemma expire_loop_inv:
  assumes "engine_inv {} st" "\<forall>i \<in> set ids. dict_get (orders st) i \<noteq> None"
  shows "\<exists>st'. expire_loop day ids st = Inr st' \<and> engine_inv {} st' \<and> evolves st st' \<and>
    (\<forall>i r. i \<in> set ids \<longrightarrow> dict_get (orders st') i = Some r \<longrightarrow> active r \<longrightarrow> o_day r = day)"
  using assms
proof (induction ids arbitrary: st)
  case Nil
  then show ?case by (simp add: evolves_refl)
next
  case (Cons i ids)
  obtain old where old: "dict_get (orders st) i = Some old" using Cons.prems(2) by auto
  obtain s1 where s1: "engine_inv {} s1" "evolves st s1"
    and run: "expire_loop day (i # ids) st = expire_loop day ids s1"
    and fin: "\<And>r. dict_get (orders s1) i = Some r \<Longrightarrow> active r \<Longrightarrow> o_day r = day"
  proof (cases "active old \<and> o_day old \<noteq> day")
    case True
    then obtain s1 where s1: "release st old ''DAY_EXPIRED'' = Inr s1" "engine_inv {} s1"
      "orders s1 = dict_set i (old\<lparr>o_status := CANCELED, o_reason := ''DAY_EXPIRED''\<rparr>) (orders st)"
      "st_settings s1 = st_settings st" "trades s1 = trades st"
      "last_seq s1 = last_seq st" "last_timestamp s1 = last_timestamp st"
      using release_inv[OF Cons.prems(1) old] by blast
    show ?thesis
      by (rule that[of s1])
        (use s1 old True release_evolves[OF s1(3) old _ s1(4-7)] in \<open>auto simp: dict_simps active_def\<close>)
  next
    case False
    then show ?thesis using that[of st] Cons.prems(1) old by (auto simp: evolves_refl)
  qed
  have "\<forall>i \<in> set ids. dict_get (orders s1) i \<noteq> None"
  proof
    fix j
    assume "j \<in> set ids"
    then obtain r where "dict_get (orders st) j = Some r" using Cons.prems(2) by auto
    then show "dict_get (orders s1) j \<noteq> None"
      using s1(2) unfolding evolves_def by (force split: option.splits)
  qed
  then obtain s2 where s2: "expire_loop day ids s1 = Inr s2" "engine_inv {} s2" "evolves s1 s2"
    "\<And>i r. i \<in> set ids \<Longrightarrow> dict_get (orders s2) i = Some r \<Longrightarrow> active r \<Longrightarrow> o_day r = day"
    using Cons.IH[OF s1(1)] by blast
  have "o_day r = day" if "dict_get (orders s2) i = Some r" "active r" for r
    using evolves_back[OF s2(3) that(1)] fin that(2) by (auto simp: same_terms_def)
  then show ?case
    using run s2 evolves_trans[OF s1(2) s2(3)] by (intro exI[of _ s2]) auto
qed

lemma expire_inv:
  assumes "engine_inv {} st"
  shows "\<exists>st'. expire day st = Inr st' \<and> engine_inv {} st' \<and> evolves st st' \<and>
    (\<forall>i r. dict_get (orders st') i = Some r \<longrightarrow> active r \<longrightarrow> o_day r = day)"
proof -
  have "\<forall>i \<in> set (map fst (orders st)). dict_get (orders st) i \<noteq> None"
    unfolding dict_get_dom by auto
  then obtain st' where st': "expire day st = Inr st'" "engine_inv {} st'" "evolves st st'"
    "\<And>i r. i \<in> set (map fst (orders st)) \<Longrightarrow> dict_get (orders st') i = Some r \<Longrightarrow> active r \<Longrightarrow> o_day r = day"
    using expire_loop_inv[OF assms] unfolding expire_def by blast
  have "i \<in> set (map fst (orders st))" if "dict_get (orders st') i = Some r" for i r
    using evolves_back[OF st'(3) that] dict_get_dom[of "orders st" i] by auto
  then show ?thesis using st' by blast
qed

end
