(* ===== verification/Exchange.thy ===== *)
theory Exchange
  imports Exchange_Invariant
begin

text \<open>
  The reducer as a whole: every command of a journal keeps the invariant of the matching engine,
  and the properties of the exchange that follow from it.
\<close>

section \<open>Admission and the outcome of a command\<close>

lemma put_result_frame [simp]:
  "accounts (put_result w st) = accounts st" "orders (put_result w st) = orders st"
  "trades (put_result w st) = trades st" "st_settings (put_result w st) = st_settings st"
  "book_index (put_result w st) = book_index st" "execution_seq (put_result w st) = execution_seq st"
  "last_seq (put_result w st) = last_seq st" "last_timestamp (put_result w st) = last_timestamp st"
  by (simp_all add: put_result_def)

lemma inv_put_result [simp]: "engine_inv T (put_result w st) \<longleftrightarrow> engine_inv T st"
  by (rule engine_inv_cong) simp_all

lemma rows_cong:
  assumes "orders st' = orders st"
  shows "uncrossed T st' \<longleftrightarrow> uncrossed T st" "seqs_below n st' \<longleftrightarrow> seqs_below n st"
  by (simp_all add: uncrossed_def seqs_below_def assms)

text \<open>
  Admitting an order with sufficient funds reserves them and adds the row; the order is open but
  not indexed.
\<close>

lemma admit_inv:
  assumes inv: "engine_inv {} st" and fresh: "dict_get (orders st) (o_order_id r) = None"
    and rok: "order_ok st r" and new: "o_filled r = 0" "o_status r = OPEN"
    and acc: "dict_get (accounts st) (o_owner r) = Some a" "funds (o_side r) (o_symbol r) a = Inr f"
    and enough: "reserved r (o_quantity r) \<le> available f"
  shows "\<exists>st'. admit r st = Inr st' \<and> engine_inv {o_order_id r} st' \<and>
    orders st' = dict_set (o_order_id r) r (orders st) \<and> trades st' = trades st \<and>
    st_settings st' = st_settings st \<and> last_seq st' = last_seq st \<and> last_timestamp st' = last_timestamp st"
proof -
  note I = inv[unfolded engine_inv_def]
  let ?m = "reserved r (o_quantity r)"
  have dom: "o_owner r \<in> owners_of st" "o_symbol r \<in> symbols_of st"
    using rok by (simp_all add: order_ok_def)
  have q: "o_remaining r = o_quantity r" using rok new by (simp add: order_ok_def)
  have act: "active r" using new by (simp add: active_def)
  obtain s1 where s1: "on_account (o_owner r) (adjust_reserve (o_side r) (o_symbol r) (- ?m) ?m) st = Inr s1"
    and mv: "moves st s1 (\<lambda>v. if o_side r = BUY \<and> v = o_owner r then - ?m else 0)
      (\<lambda>v. if o_side r = BUY \<and> v = o_owner r then ?m else 0)
      (\<lambda>v y. if o_side r = SELL \<and> v = o_owner r \<and> y = o_symbol r then - ?m else 0)
      (\<lambda>v y. if o_side r = SELL \<and> v = o_owner r \<and> y = o_symbol r then ?m else 0)"
    using adjust_reserve_effect[of st "o_owner r" "o_symbol r"] I dom by blast
  obtain a1 where s1a: "s1 = st\<lparr>accounts := a1\<rparr>" using mv by (auto simp: moves_def)
  define key where "key = daily_key (o_owner r) (o_symbol r) (o_day r)"
  define s2 where "s2 = s1\<lparr>daily := dict_set key (dict_get_or (daily s1) key 0 + o_quantity r) (daily s1)\<rparr>"
  define st' where "st' = put_order r s2"
  have run: "admit r st = Inr st'" using s1 by (simp add: admit_def Let_def st'_def s2_def key_def)
  have f: "orders st' = dict_set (o_order_id r) r (orders st)" "trades st' = trades st"
    "st_settings st' = st_settings st" "book_index st' = book_index st" "accounts st' = accounts s1"
    "execution_seq st' = execution_seq st" "last_seq st' = last_seq st" "last_timestamp st' = last_timestamp st"
    by (simp_all add: st'_def s2_def s1a)
  have s2c: "st_settings s2 = st_settings st" "orders s2 = orders st" "trades s2 = trades st"
    by (simp_all add: s2_def s1a)
  have "shape_ok st'" using moves_keys[OF mv] shape_ok_cong[OF f(5)] by (simp add: f(3) s1a)
  moreover have "orders_ok st'"
    using orders_ok_cong[OF s2c(2,1)] order_ok_cong[OF s2c(1)] I rok by (simp add: st'_def orders_ok_put)
  moreover have "index_ok {o_order_id r} st'"
  proof -
    obtain E where E: "book_repr E (book_index st)" "entries_ok {} st E"
      and sy: "book_symbols (book_index st) = symbols_of st"
      using I by (auto simp: index_ok_def)
    have "entries_ok {o_order_id r} st' E"
      unfolding st'_def using E(2) entries_ok_cong[OF s2c(2)] fresh s2c(2) by (intro entries_ok_admit) simp_all
    then show ?thesis using E(1) sy keys_cong[OF f(3)] by (auto simp: index_ok_def f(4))
  qed
  moreover have "trades_ok st'"
  proof -
    have old: "trade_ok st' t" if "t \<in> set (trades st)" for t
      using I that fresh trade_ok_same_terms[of st t st'] by (fastforce simp: trades_ok_def f(1) dict_simps)
    have "order_fill (o_order_id r) t = 0" if "t \<in> set (trades st)" for t
      using I that fresh by (fastforce simp: trades_ok_def trade_ok_def order_fill_def)
    then have "map (order_fill (o_order_id r)) (trades st) = map (\<lambda>_. 0) (trades st)" by simp
    then have "sum_list (map (order_fill (o_order_id r)) (trades st)) = 0"
      by (simp only: sum_list_0)
    then show ?thesis
      using I old new by (auto simp: trades_ok_def f dict_simps)
  qed
  moreover have "ledger_ok st'"
  proof (rule ledger_ok_step[of st])
    show "ledger_ok st" "st_settings st' = st_settings st" using I f by auto
    note o = observation_cong[OF f(5)] mv[unfolded moves_def]
    have sums: "dict_sum g (orders st') = dict_sum g (orders st) + g r" for g
      using fresh by (simp add: f(1) dict_simps)
    have fu: "o_side r = BUY \<Longrightarrow> available f = avail_cash st (o_owner r)"
      "o_side r = SELL \<Longrightarrow> available f = avail_pos st (o_owner r) (o_symbol r)"
      using acc by (auto simp: funds_def avail_cash_def avail_pos_def split: option.splits)
    show "hold_cash st' w - hold_cash st w
        = dict_sum (bid_hold w) (orders st') - dict_sum (bid_hold w) (orders st) \<and>
      0 \<le> avail_cash st' w \<and>
      avail_cash st' w + hold_cash st' w - (avail_cash st w + hold_cash st w)
        = sum_list (map (cash_flow w) (trades st')) - sum_list (map (cash_flow w) (trades st))"
      if "0 \<le> avail_cash st w" for w
      using that fu enough act q by (auto simp: o sums f(2) bid_hold_def reserved_def split: side.splits)
    show "hold_pos st' w y - hold_pos st w y
        = dict_sum (ask_hold w y) (orders st') - dict_sum (ask_hold w y) (orders st) \<and>
      0 \<le> avail_pos st' w y \<and>
      avail_pos st' w y + hold_pos st' w y - (avail_pos st w y + hold_pos st w y)
        = sum_list (map (share_flow w y) (trades st')) - sum_list (map (share_flow w y) (trades st))"
      if "0 \<le> avail_pos st w y" for w y
      using that fu enough act q by (auto simp: o sums f(2) ask_hold_def reserved_def split: side.splits)
  qed
  ultimately have "engine_inv {o_order_id r} st'" by (simp add: engine_inv_def)
  then show ?thesis using run f by blast
qed

lemma rest_inv:
  assumes inv: "engine_inv {i} st" and r: "dict_get (orders st) i = Some r" and b: "order_id b = i"
    and last: "\<And>j r'. dict_get (orders st) j = Some r' \<Longrightarrow> j \<noteq> i \<Longrightarrow> o_seq r' < o_seq r"
  shows "\<exists>idx. rest seq b st = Inr (accept seq b (o_status r) (st\<lparr>book_index := idx\<rparr>)) \<and>
    engine_inv {} (st\<lparr>book_index := idx\<rparr>)"
proof -
  note I = inv[unfolded engine_inv_def]
  have id: "o_order_id r = i" and rok: "order_ok st r" using I orders_okD[OF _ r] by auto
  obtain E where E: "book_repr E (book_index st)" "entries_ok {i} st E"
    and sy: "book_symbols (book_index st) = symbols_of st"
    using I by (auto simp: index_ok_def)
  have frame: "engine_inv {} (st\<lparr>book_index := idx\<rparr>)" if "index_ok {} (st\<lparr>book_index := idx\<rparr>)" for idx
    using that I shape_ok_cong[of "st\<lparr>book_index := idx\<rparr>" st] orders_ok_cong[of "st\<lparr>book_index := idx\<rparr>" st]
      ledger_ok_cong[of "st\<lparr>book_index := idx\<rparr>" st] trades_ok_cong[of "st\<lparr>book_index := idx\<rparr>" st]
    by (simp add: engine_inv_def)
  have idxI: "index_ok {} (st\<lparr>book_index := idx\<rparr>)"
    if "book_repr E' idx" "entries_ok {} st E'" "book_symbols idx = symbols_of st" for E' idx
    using that entries_ok_cong[of "st\<lparr>book_index := idx\<rparr>" st] keys_cong[of "st\<lparr>book_index := idx\<rparr>" st]
    by (auto simp: index_ok_def)
  show ?thesis
  proof (cases "active r")
    case True
    have "i \<notin> fst ` set (E (o_symbol r) (o_side r))"
      by (auto simp: entries_ok_mem[OF E(2)] rests_def)
    then obtain idx where idx: "book_add r (book_index st) = Inr idx" "book_symbols idx = symbols_of st"
      "book_repr (with_entries E (o_symbol r) (o_side r)
         (E (o_symbol r) (o_side r) @ [(i, o_price r, o_remaining r)])) idx"
      using book.add[OF E(1), of r] order_ok_active[OF rok True] rok sy id by (auto simp: order_ok_def)
    have "engine_inv {} (st\<lparr>book_index := idx\<rparr>)"
      by (intro frame idxI[OF idx(3)] entries_ok_rest[OF E(2) r id True last] idx(2))
    then show ?thesis using True r b idx(1) by (auto simp: rest_def)
  next
    case False
    have "engine_inv {} (st\<lparr>book_index := book_index st\<rparr>)"
      by (intro frame idxI[OF E(1) entries_ok_settled[OF E(2) r False] sy])
    then show ?thesis using False r b by (intro exI[of _ "book_index st"]) (auto simp: rest_def)
  qed
qed

section \<open>Commands\<close>

text \<open>Rows and trades a state had are still there later, with the same terms.\<close>

definition extends :: "exchange \<Rightarrow> exchange \<Rightarrow> bool" where
  "extends st st' \<longleftrightarrow> st_settings st' = st_settings st \<and> (\<exists>ts. trades st' = trades st @ ts) \<and>
     (\<forall>i r. dict_get (orders st) i = Some r \<longrightarrow>
        (\<exists>r'. dict_get (orders st') i = Some r' \<and> same_terms r r' \<and> o_filled r \<le> o_filled r' \<and>
           (\<not> active r \<longrightarrow> r' = r)))"

lemma extends_refl: "extends st st"
  by (simp add: extends_def)

lemma extends_cong:
  "orders st' = orders st \<Longrightarrow> trades st' = trades st \<Longrightarrow> st_settings st' = st_settings st \<Longrightarrow> extends st st'"
  by (simp add: extends_def)

lemma evolves_extends: "evolves st st' \<Longrightarrow> extends st st'"
  unfolding evolves_def extends_def by (force split: option.splits)

lemma extends_trans:
  assumes "extends a b" "extends b c"
  shows "extends a c"
proof -
  have "\<exists>r''. dict_get (orders c) i = Some r'' \<and> same_terms r r'' \<and> o_filled r \<le> o_filled r'' \<and>
      (\<not> active r \<longrightarrow> r'' = r)" if row: "dict_get (orders a) i = Some r" for i r
  proof -
    obtain r' where r': "dict_get (orders b) i = Some r'" "same_terms r r'" "o_filled r \<le> o_filled r'"
      "\<not> active r \<longrightarrow> r' = r" using assms(1) row unfolding extends_def by blast
    then obtain r'' where "dict_get (orders c) i = Some r''" "same_terms r' r''" "o_filled r' \<le> o_filled r''"
      "\<not> active r' \<longrightarrow> r'' = r'" using assms(2) unfolding extends_def by blast
    then show ?thesis using r' same_terms_trans[of r r' r''] by auto
  qed
  moreover have "\<exists>ts. trades c = trades a @ ts"
    using assms unfolding extends_def by force
  ultimately show ?thesis using assms by (simp add: extends_def)
qed

lemma reduce_cancel_inv:
  assumes inv: "engine_inv {} st" and un: "uncrossed {} st" and sq: "seqs_below n st"
  shows "\<exists>st'. reduce_cancel seq owner b st = Inr st' \<and> engine_inv {} st' \<and> uncrossed {} st' \<and>
    seqs_below n st' \<and> extends st st' \<and> last_seq st' = last_seq st \<and> last_timestamp st' = last_timestamp st"
proof -
  have keep: "engine_inv {} (put_result w st) \<and> uncrossed {} (put_result w st) \<and>
      seqs_below n (put_result w st) \<and> extends st (put_result w st)" for w
    using inv un sq rows_cong[of "put_result w st" st] by (simp add: extends_cong)
  consider (none) "dict_get (orders st) (order_id b) = None"
    | (kept) old where "dict_get (orders st) (order_id b) = Some old" "\<not> (o_owner old = owner \<and> active old)"
    | (live) old where "dict_get (orders st) (order_id b) = Some old" "o_owner old = owner" "active old"
    by blast
  then show ?thesis
  proof cases
    case none
    then show ?thesis using keep by (simp add: reduce_cancel_def reject_def)
  next
    case kept
    then show ?thesis using keep by (auto simp: reduce_cancel_def reject_def accept_def)
  next
    case live
    obtain s1 where s1: "release st old ''USER_CANCEL'' = Inr s1" "engine_inv {} s1"
      "orders s1 = dict_set (order_id b) (old\<lparr>o_status := CANCELED, o_reason := ''USER_CANCEL''\<rparr>) (orders st)"
      "st_settings s1 = st_settings st" "trades s1 = trades st"
      "last_seq s1 = last_seq st" "last_timestamp s1 = last_timestamp st"
      using release_inv[OF inv live(1,3)] by blast
    have ev: "evolves st s1" by (rule release_evolves[OF s1(3) live(1,3) s1(4-7)])
    have "extends s1 (accept seq b CANCELED s1)" by (simp add: accept_def extends_cong)
    then show ?thesis
      using s1 live evolves_uncrossed[OF ev un] evolves_seqs_below[OF ev sq]
        extends_trans[OF evolves_extends[OF ev]] rows_cong[of "accept seq b CANCELED s1" s1]
      by (simp add: reduce_cancel_def accept_def)
  qed
qed

lemma funds_available:
  assumes "shape_ok st" "dict_get (accounts st) w = Some a" "x \<in> symbols_of st"
  shows "\<exists>f. funds sd x a = Inr f"
proof (cases sd)
  case SELL
  have "(w, a) \<in> set (accounts st)" using assms(2) by (rule map_of_SomeD)
  then have "x \<in> fst ` set (positions a)" using assms by (auto simp: shape_ok_def account_ok_def)
  then show ?thesis using SELL dict_get_dom[of "positions a" x] by (auto simp: funds_def)
qed (simp add: funds_def)

lemma new_order_ok:
  assumes "owner \<in> owners_of st" "t_symbol t \<in> symbols_of st" "terms_ok t" "0 < seq"
  shows "order_ok st (new_order seq stamp day owner b t)"
  using assms by (auto simp: order_ok_def new_order_def terms_ok_def)

lemma reduce_new_inv:
  assumes inv: "engine_inv {} st" and un: "uncrossed {} st" and sq: "seqs_below seq st" and pos: "0 < seq"
    and t: "terms_ok t" and w: "owner \<in> owners_of st"
  shows "\<exists>st'. reduce_new seq stamp day owner b t st = Inr st' \<and> engine_inv {} st' \<and> uncrossed {} st' \<and>
    seqs_below (seq + 1) st' \<and> extends st st' \<and> last_seq st' = last_seq st \<and> last_timestamp st' = last_timestamp st"
proof -
  let ?r = "new_order seq stamp day owner b t"
  have ids: "o_order_id ?r = order_id b" "o_owner ?r = owner" "o_symbol ?r = t_symbol t" "o_side ?r = t_side t"
    "o_quantity ?r = t_quantity t" "o_remaining ?r = t_quantity t" "o_seq ?r = seq" "o_filled ?r = 0"
    "o_status ?r = OPEN" "active ?r"
    by (simp_all add: new_order_def active_def)
  have rej: "engine_inv {} (reject seq b m st) \<and> uncrossed {} (reject seq b m st) \<and>
      seqs_below (seq + 1) (reject seq b m st) \<and> extends st (reject seq b m st) \<and>
      last_seq (reject seq b m st) = last_seq st \<and> last_timestamp (reject seq b m st) = last_timestamp st" for m
    using inv un sq rows_cong[of "reject seq b m st" st]
    by (fastforce simp: reject_def extends_cong seqs_below_def)
  have sh: "shape_ok st" using inv by (simp add: engine_inv_def)
  obtain a where a: "dict_get (accounts st) owner = Some a" using shape_ok_get[OF sh w] by blast
  show ?thesis
  proof (cases "dict_get (orders st) (order_id b) = None \<and> t_symbol t \<in> set (s_symbols (st_settings st)) \<and>
      session_permits stamp (s_session (st_settings st)) \<and>
      risk_permits (dict_get_or (daily st) (daily_key owner (t_symbol t) day) 0) (t_quantity t)
        (s_daily_limit (st_settings st)) \<and>
      (\<exists>f. funds (t_side t) (t_symbol t) a = Inr f \<and> reserved ?r (t_quantity t) \<le> available f)")
    case False
    then show ?thesis
      using rej a funds_available[OF sh a, of "t_symbol t" "t_side t"]
      by (auto simp: reduce_new_def Let_def symbols_of_def)
  next
    case True
    then obtain f where f: "funds (t_side t) (t_symbol t) a = Inr f" "reserved ?r (t_quantity t) \<le> available f"
      by blast
    have sym: "t_symbol t \<in> symbols_of st" using True by (simp add: symbols_of_def)
    obtain s1 where s1: "admit ?r st = Inr s1" "engine_inv {order_id b} s1"
      "orders s1 = dict_set (order_id b) ?r (orders st)" "trades s1 = trades st" "st_settings s1 = st_settings st"
      "last_seq s1 = last_seq st" "last_timestamp s1 = last_timestamp st"
      using admit_inv[OF inv, of ?r a f] True a f new_order_ok[OF w sym t pos] by (auto simp: ids)
    have row: "dict_get (orders s1) (order_id b) = Some ?r" by (simp add: s1(3) dict_simps)
    obtain s2 where s2: "match_loop (Suc (nat (t_quantity t))) seq stamp (order_id b) 0 s1 = Inr s2"
      "engine_inv {order_id b} s2" "evolves s1 s2" "unmatched s2 (order_id b)"
      using match_loop_inv[OF s1(2) row, of "Suc (nat (t_quantity t))" seq stamp 0] ids by auto
    obtain r2 where r2: "dict_get (orders s2) (order_id b) = Some r2" "same_terms ?r r2"
      using s2(3) row unfolding evolves_def by (fastforce split: option.splits)
    have below: "o_seq r' < seq" if "dict_get (orders s2) j = Some r'" "j \<noteq> order_id b" for j r'
      using evolves_back[OF s2(3) that(1)] that(2) sq by (auto simp: s1(3) dict_simps seqs_below_def same_terms_def)
    obtain idx where idx: "rest seq b s2 = Inr (accept seq b (o_status r2) (s2\<lparr>book_index := idx\<rparr>))"
      "engine_inv {} (s2\<lparr>book_index := idx\<rparr>)"
      using rest_inv[OF s2(2) r2(1) refl, of seq] below r2(2) ids(7) by (auto simp: same_terms_def)
    define s3 where "s3 = accept seq b (o_status r2) (s2\<lparr>book_index := idx\<rparr>)"
    have o3: "orders s3 = orders s2" "trades s3 = trades s2" "st_settings s3 = st_settings s2"
      "last_seq s3 = last_seq st" "last_timestamp s3 = last_timestamp st"
      using s2(3) s1 by (simp_all add: s3_def accept_def evolves_def)
    have "uncrossed {order_id b} s1"
      using un by (auto simp: uncrossed_def s1(3) dict_simps)
    then have "uncrossed {} s2"
      by (intro uncrossed_unmatched[OF evolves_uncrossed[OF s2(3)] s2(4)])
    moreover have "seqs_below (seq + 1) s2"
      using below r2 ids(7) by (fastforce simp: seqs_below_def same_terms_def)
    moreover have "extends st s1"
      using True by (auto simp: extends_def s1 dict_simps)
    ultimately have "uncrossed {} s3" "seqs_below (seq + 1) s3" "extends st s3"
      using rows_cong[OF o3(1)] extends_trans[OF extends_trans[OF _ evolves_extends[OF s2(3)]] extends_cong[OF o3(1-3)]]
      by auto
    then show ?thesis
      using True a f s1(1) s2(1) idx o3 by (auto simp: reduce_new_def Let_def s3_def accept_def)
  qed
qed

section \<open>Journals\<close>

definition engine_ok :: "exchange \<Rightarrow> bool" where
  "engine_ok st \<longleftrightarrow> settings_ok (st_settings st) \<and> engine_inv {} st \<and> uncrossed {} st \<and>
     seqs_below (last_seq st + 1) st \<and> 1 \<le> last_seq st"

lemma genesis_accounts:
  "dict_get (accounts (genesis data)) w =
   map_option (\<lambda>v. \<lparr>cash = \<lparr>available = op_cash v, held = 0\<rparr>,
     positions = map (\<lambda>symbol. (symbol, \<lparr>available = dict_get_or (op_positions v) symbol 0, held = 0\<rparr>))
       (s_symbols data)\<rparr>) (dict_get (s_accounts data) w)"
  unfolding genesis_def exchange.simps by (rule map_of_map_snd)

lemma map_of_const_keys: "map_of (map (\<lambda>x. (x, f x)) xs) x = (if x \<in> set xs then Some (f x) else None)"
  by (induction xs) auto

lemma genesis_ok:
  assumes "settings_ok data"
  shows "engine_ok (genesis data)"
proof -
  let ?g = "genesis data"
  have g: "orders ?g = []" "trades ?g = []" "st_settings ?g = data" "execution_seq ?g = 0" "last_seq ?g = 1"
    "book_index ?g = empty_book (s_symbols data)"
    by (simp_all add: genesis_def)
  have keys: "owners_of ?g = fst ` set (s_accounts data)" "symbols_of ?g = set (s_symbols data)"
    by (simp_all add: owners_of_def symbols_of_def g)
  have "shape_ok ?g"
  proof -
    have fsts: "map fst (accounts ?g) = map fst (s_accounts data)" by (simp add: genesis_def)
    have "account_ok (symbols_of ?g) a" if "(w, a) \<in> set (accounts ?g)" for w a
      using that assms
      by (auto simp: genesis_def account_ok_def dict_ok_def keys[unfolded genesis_def] settings_ok_def comp_def image_image)
    moreover have "fst ` set (accounts ?g) = owners_of ?g" unfolding keys using fsts by (metis set_map)
    ultimately show ?thesis
      using assms fsts by (auto simp: shape_ok_def dict_ok_def settings_ok_def)
  qed
  moreover have "ledger_ok ?g"
  proof -
    have "cash_ok ?g w \<and> shares_ok ?g w x" if w: "w \<in> owners_of ?g" and x: "x \<in> symbols_of ?g" for w x
    proof -
      obtain v where v: "dict_get (s_accounts data) w = Some v"
        using w dict_get_dom[of "s_accounts data" w] by (auto simp: keys)
      then have "opening_ok (s_symbols data) v"
        using assms map_of_SomeD[OF v] by (auto simp: settings_ok_def)
      then have "0 \<le> op_cash v" "0 \<le> dict_get_or (op_positions v) x 0"
        by (auto simp: opening_ok_def dict_get_or_def split: option.split dest!: map_of_SomeD)
      then show ?thesis
        using v x by (simp add: cash_ok_def shares_ok_def observation_defs genesis_accounts g
            opening_cash_def opening_pos_def map_of_const_keys keys)
    qed
    moreover have "\<exists>x. x \<in> symbols_of ?g" using assms by (auto simp: settings_ok_def keys intro: hd_in_set)
    ultimately show ?thesis by (auto simp: ledger_ok_def)
  qed
  moreover have "index_ok {} ?g"
    using book_repr_empty[of "s_symbols data"] by (auto simp: index_ok_def g keys entries_ok_def rests_def)
  ultimately have "engine_inv {} ?g"
    by (simp add: engine_inv_def orders_ok_def trades_ok_def trade_ok_def g)
  then show ?thesis
    using assms by (simp add: engine_ok_def g uncrossed_def seqs_below_def)
qed

lemma reduce_sequenced_inv:
  assumes ok: "engine_ok st" and run: "reduce_sequenced st command = Inr st'"
  shows "engine_ok st' \<and> extends st st' \<and> last_seq st' = last_seq st + 1"
proof -
  obtain seq stamp owner b where seq: "seq = last_seq st + 1" and w: "dict_get (accounts st) owner \<noteq> None"
    and b: "body_ok b"
    and r: "and_then (expire (isoformat (utc_day stamp)) (st\<lparr>last_seq := seq, last_timestamp := stamp\<rparr>)) (\<lambda>st.
     case terms b of
       None \<Rightarrow> reduce_cancel seq owner b st
     | Some t \<Rightarrow> reduce_new seq stamp (isoformat (utc_day stamp)) owner b t st) = Inr st'"
    using run unfolding reduce_sequenced_def and_then_Inr_iff require_Inr_iff Let_def
    by (elim exE conjE) (blast dest: validate_sound)
  let ?s0 = "st\<lparr>last_seq := seq, last_timestamp := stamp\<rparr>" and ?day = "isoformat (utc_day stamp)"
  have o: "settings_ok (st_settings st)" "engine_inv {} st" "uncrossed {} st" "seqs_below seq st" "0 < seq"
    using ok seq by (simp_all add: engine_ok_def)
  have inv0: "engine_inv {} ?s0" using o(2) engine_inv_cong[of ?s0 st] by simp
  obtain s1 where s1: "expire ?day ?s0 = Inr s1" "engine_inv {} s1" "evolves ?s0 s1"
    using expire_inv[OF inv0, of ?day] by blast
  have c: "st_settings s1 = st_settings st" "last_seq s1 = seq" "extends st s1"
    using s1(3) evolves_extends[OF s1(3)] extends_trans[OF extends_cong[of ?s0 st]] by (simp_all add: evolves_def)
  have un: "uncrossed {} s1" and sq: "seqs_below seq s1"
    using evolves_uncrossed[OF s1(3)] evolves_seqs_below[OF s1(3)] rows_cong[of ?s0 st] o by auto
  have "owner \<in> owners_of st"
    using w o(2) dict_get_dom[of "accounts st" owner] by (auto simp: engine_inv_def shape_ok_def)
  then have w1: "owner \<in> owners_of s1" using keys_cong[OF c(1)] by simp
  have "engine_inv {} st' \<and> uncrossed {} st' \<and> seqs_below (seq + 1) st' \<and> extends s1 st' \<and> last_seq st' = seq"
  proof (cases "terms b")
    case None
    have "seqs_below (seq + 1) s1" using sq by (fastforce simp: seqs_below_def)
    then show ?thesis
      using reduce_cancel_inv[OF s1(2) un, of "seq + 1" seq owner b] r s1(1) None c(2) by auto
  next
    case (Some t)
    then have "terms_ok t" using b by (simp add: body_ok_def)
    then show ?thesis
      using reduce_new_inv[OF s1(2) un sq o(5) _ w1, of t stamp ?day b] r s1(1) Some c(2) by auto
  qed
  then show ?thesis
    using o(1,5) seq extends_trans[OF c(3)] c(1) by (auto simp: engine_ok_def extends_def)
qed

lemma reduce_command_inv:
  assumes "\<And>s. st = Some s \<Longrightarrow> engine_ok s" "reduce_command st command = Inr st'" "json_ok command"
  shows "engine_ok st'" "\<And>s. st = Some s \<Longrightarrow> extends s st'"
    "last_seq st' = (case st of None \<Rightarrow> 1 | Some s \<Rightarrow> last_seq s + 1)"
proof -
  obtain d where d: "command = JDict d" using assms(2) by (auto simp: reduce_command_def split: json.splits)
  have "engine_ok st' \<and> (\<forall>s. st = Some s \<longrightarrow> extends s st') \<and>
    last_seq st' = (case st of None \<Rightarrow> 1 | Some s \<Rightarrow> last_seq s + 1)"
  proof (cases "dict_get d ''kind'' = Some (JStr ''genesis'')")
    case True
    have "\<exists>v data. st = None \<and> dict_get d ''settings'' = Some v \<and> validate_settings v = Inr data \<and>
        genesis data = st'"
      using assms(2) unfolding reduce_command_def d json.case if_P[OF True] and_then_Inr_iff
        require_Inr_iff check_field_def item_Inr sum.inject json.inject by blast
    then obtain v data where none: "st = None" and v: "dict_get d ''settings'' = Some v"
      and data: "validate_settings v = Inr data" "st' = genesis data" by blast
    have "json_ok v" using assms(3) v json_ok_item unfolding d by blast
    then show ?thesis
      using genesis_ok[OF validate_settings_sound[OF data(1)]] data(2) none by (simp add: genesis_def)
  next
    case False
    have "\<exists>s. st = Some s \<and> reduce_sequenced s command = Inr st'"
      using assms(2) unfolding reduce_command_def d json.case if_not_P[OF False] and_then_Inr_iff
      by (cases st) auto
    then obtain s where s: "st = Some s" "reduce_sequenced s command = Inr st'" by blast
    then show ?thesis using reduce_sequenced_inv[OF assms(1)[OF s(1)] s(2)] by simp
  qed
  then show "engine_ok st'" "\<And>s. st = Some s \<Longrightarrow> extends s st'"
    "last_seq st' = (case st of None \<Rightarrow> 1 | Some s \<Rightarrow> last_seq s + 1)" by auto
qed

text \<open>The states a journal can reach, as a transition system.\<close>

inductive reachable :: "exchange option \<Rightarrow> bool" where
  reach_empty: "reachable None"
| reach_step: "reachable st \<Longrightarrow> json_ok command \<Longrightarrow> reduce_command st command = Inr st' \<Longrightarrow> reachable (Some st')"

inductive_cases reachable_SomeE: "reachable (Some st)"

lemma reachable_ok: "reachable st \<Longrightarrow> st = Some s \<Longrightarrow> engine_ok s"
proof (induction arbitrary: s rule: reachable.induct)
  case (reach_step st command st')
  then show ?case using reduce_command_inv(1)[of st command st'] by blast
qed simp

lemma replay_reachable:
  "replay st cs = Inr st' \<Longrightarrow> reachable st \<Longrightarrow> \<forall>c \<in> set cs. json_ok c \<Longrightarrow> reachable st'"
  by (induction cs arbitrary: st) (auto simp: result_simps intro: reach_step)

lemma dict_sum_nonneg: "(\<And>k v. (k, v) \<in> set d \<Longrightarrow> 0 \<le> f v) \<Longrightarrow> 0 \<le> dict_sum f d"
  unfolding dict_sum_def by (induction d) fastforce+

lemma dict_sum_keys:
  assumes "dict_ok d"
  shows "dict_sum f d = (\<Sum>k \<in> fst ` set d. f (the (dict_get d k)))"
  using assms
proof (induction d)
  case (Cons p d)
  obtain k v where p: "p = (k, v)" by force
  have "k \<notin> fst ` set d" "dict_ok d" using Cons.prems by (auto simp: dict_ok_def p)
  moreover from this have "(\<Sum>j \<in> fst ` set d. f (the (dict_get ((k, v) # d) j))) = (\<Sum>j \<in> fst ` set d. f (the (dict_get d j)))"
    by (intro sum.cong) auto
  ultimately show ?case using Cons.IH by (simp add: p)
qed simp

end
