(* ===== verification/Exchange_Audit.thy ===== *)
theory Exchange_Audit
  imports Exchange
begin

text \<open>
  The independent audit of the exchange (\<^verbatim>\<open>stock_exchange/audit.py\<close>): supplies, reservations, the
  outbound execution sequence, the order-book index link by link, and the reconciliation of trades
  with accounts and orders.  The check that every number is a Python \<^verbatim>\<open>int\<close> has no counterpart: the
  fields are integers by type.  The main result is that a state reached by the reducer has no audit
  error, so the audit can only fire on a damaged projection.
\<close>

section \<open>The audit\<close>

definition balance_total :: "balance \<Rightarrow> int" where
  "balance_total b = available b + held b"

definition position_total :: "string \<Rightarrow> account \<Rightarrow> int result" where
  "position_total x a =
     (case dict_get (positions a) x of None \<Rightarrow> Inl (KeyError x) | Some b \<Rightarrow> Inr (balance_total b))"

definition supply_error :: "bool \<Rightarrow> string \<Rightarrow> string list" where
  "supply_error bad message = (if bad then [message] else [])"

definition audit_symbol :: "exchange \<Rightarrow> string \<Rightarrow> (int \<times> string list) result" where
  "audit_symbol st x =
     and_then (traverse (position_total x) (map snd (accounts st))) (\<lambda>ns.
     Inr (sum_list ns, supply_error
       (sum_list ns \<noteq> sum_list (map (\<lambda>(w, v). dict_get_or (op_positions v) x 0) (s_accounts (st_settings st))))
       (''share supply mismatch: '' @ x)))"

definition open_orders :: "exchange \<Rightarrow> string \<Rightarrow> order list" where
  "open_orders st owner = filter (\<lambda>r. o_owner r = owner \<and> active r) (map snd (orders st))"

definition audit_owner :: "exchange \<Rightarrow> string \<times> account \<Rightarrow> string list" where
  "audit_owner st = (\<lambda>(owner, a).
     supply_error (held (cash a) \<noteq> sum_list (map (\<lambda>r. o_remaining r * o_price r)
         (filter (\<lambda>r. o_side r = BUY) (open_orders st owner))))
       (''cash reservation mismatch: '' @ owner) @
     concat (map (\<lambda>(symbol, b).
       supply_error (min (available b) (held b) < 0 \<or>
           held b \<noteq> sum_list (map o_remaining
             (filter (\<lambda>r. o_side r = SELL \<and> o_symbol r = symbol) (open_orders st owner))))
         (''share reservation mismatch: '' @ owner)) (positions a)) @
     supply_error (min (available (cash a)) (held (cash a)) < 0) (''negative cash: '' @ owner))"

definition audit_sequence :: "exchange \<Rightarrow> string list" where
  "audit_sequence st =
     supply_error (execution_seq st \<noteq> int (length (trades st)) \<or>
         map tr_execution_seq (trades st) \<noteq> map int [1..<Suc (length (trades st))])
       ''outbound execution sequence mismatch''"

subsection \<open>The index\<close>

definition heap_ok :: "side \<Rightarrow> book_side \<Rightarrow> bool" where
  "heap_ok sd s \<longleftrightarrow>
     (\<forall>i \<in> set [1..<length (b_heap s)]. b_heap s ! ((i - 1) div 2) \<le> b_heap s ! i) \<and>
     (\<forall>p \<in> fst ` set (b_levels s). p * sign sd \<in> set (b_heap s))"

text \<open>
  The chain of one level: the cursor must be a new active order at every step, so the number of
  active orders not visited yet falls.
\<close>

function walk_level ::
  "(string, order) dict \<Rightarrow> string \<Rightarrow> side \<Rightarrow> int \<Rightarrow> (string, node) dict \<Rightarrow> string option \<Rightarrow>
   string list \<Rightarrow> string option \<Rightarrow> int \<Rightarrow> int \<Rightarrow> (string list \<times> string option \<times> int) result" where
  "walk_level act x sd p nodes None visited previous quantity lastq = Inr (visited, previous, quantity)"
| "walk_level act x sd p nodes (Some c) visited previous quantity lastq =
     (if c \<in> set visited then Inl (ValueError ''cycle or inactive node'')
      else case dict_get act c of
        None \<Rightarrow> Inl (ValueError ''cycle or inactive node'')
      | Some r \<Rightarrow>
         (case dict_get nodes c of
            None \<Rightarrow> Inl (KeyError c)
          | Some n \<Rightarrow>
              if n_previous n \<noteq> previous \<or> o_symbol r \<noteq> x \<or> o_side r \<noteq> sd \<or> o_price r \<noteq> p \<or>
                 n_price n \<noteq> p \<or> n_quantity n \<noteq> o_remaining r \<or> o_seq r \<le> lastq
              then Inl (ValueError ''book link/priority mismatch'')
              else walk_level act x sd p nodes (n_next n) (c # visited) (Some c)
                     (quantity + n_quantity n) (o_seq r)))"
  by pat_completeness auto

termination
proof (relation "measure (\<lambda>(act, x, sd, p, nodes, c, visited, previous, quantity, lastq).
    card (fst ` set act - set visited))", goal_cases)
  case (2 act x sd p nodes c visited previous quantity lastq r n)
  then have "c \<in> fst ` set act" using dict_get_dom[of act c] by simp
  then have "fst ` set act - set (c # visited) \<subset> fst ` set act - set visited" using 2(1) by auto
  then show ?case by (auto intro!: psubset_card_mono)
qed simp

fun walk_levels ::
  "(string, order) dict \<Rightarrow> string \<Rightarrow> side \<Rightarrow> (string, node) dict \<Rightarrow> (int, level) dict \<Rightarrow> string list
   \<Rightarrow> string list result" where
  "walk_levels act x sd nodes [] visited = Inr visited"
| "walk_levels act x sd nodes ((p, level) # levels) visited =
     and_then (walk_level act x sd p nodes (l_head level) visited None 0 0) (\<lambda>(visited, previous, quantity).
     and_then (require (previous = l_tail level \<and> quantity = l_quantity level \<and> 0 < quantity)
         (ValueError ''book level quantity mismatch'')) (\<lambda>_.
     walk_levels act x sd nodes levels visited))"

definition audit_side :: "(string, order) dict \<Rightarrow> string \<Rightarrow> side \<Rightarrow> book_side \<Rightarrow> string list result" where
  "audit_side act x sd s =
     and_then (require (heap_ok sd s) (ValueError ''book best-price heap mismatch'')) (\<lambda>_.
     and_then (walk_levels act x sd (b_nodes s) (b_levels s) []) (\<lambda>visited.
     and_then (require (set visited = fst ` set (b_nodes s)) (ValueError ''unreachable book node'')) (\<lambda>_.
     Inr visited)))"

definition active_orders :: "exchange \<Rightarrow> (string, order) dict" where
  "active_orders st = filter (\<lambda>(i, r). active r) (orders st)"

definition audit_index :: "exchange \<Rightarrow> unit result" where
  "audit_index st =
     and_then (traverse (\<lambda>(x, v).
        and_then (audit_side (active_orders st) x BUY (buys v)) (\<lambda>bs.
        and_then (audit_side (active_orders st) x SELL (sells v)) (\<lambda>ss. Inr (bs @ ss)))) (book_index st)) (\<lambda>ids.
     require (set (concat ids) = fst ` set (active_orders st)) (ValueError ''missing active order''))"

subsection \<open>Reconciliation\<close>

definition bump :: "'k \<Rightarrow> int \<Rightarrow> ('k, int) dict \<Rightarrow> ('k, int) dict result" where
  "bump k n d = (case dict_get d k of None \<Rightarrow> Inl (KeyError []) | Some m \<Rightarrow> Inr (dict_set k (m + n) d))"

record flows =
  fl_filled :: "(string, int) dict"
  fl_cash :: "(string, int) dict"
  fl_share :: "(string \<times> string, int) dict"

definition audit_trade :: "exchange \<Rightarrow> trade \<Rightarrow> flows \<Rightarrow> flows result" where
  "audit_trade st t f =
     (case (dict_get (orders st) (tr_buy_order t), dict_get (orders st) (tr_sell_order t)) of
        (Some bid, Some ask) \<Rightarrow>
          and_then (require (tr_buyer t \<noteq> tr_seller t \<and> o_owner bid = tr_buyer t \<and>
              o_owner ask = tr_seller t \<and> o_side bid = BUY \<and> o_side ask = SELL \<and>
              o_symbol bid = tr_symbol t \<and> o_symbol ask = tr_symbol t \<and>
              o_price ask \<le> tr_price t \<and> tr_price t \<le> o_price bid)
            (ValueError ''trade parties/limits mismatch'')) (\<lambda>_.
          let q = tr_quantity t; amount = tr_quantity t * tr_price t in
          and_then (bump (tr_buy_order t) q (fl_filled f)) (\<lambda>filled.
          and_then (bump (tr_sell_order t) q filled) (\<lambda>filled.
          and_then (bump (tr_buyer t) (- amount) (fl_cash f)) (\<lambda>cash.
          and_then (bump (tr_seller t) amount cash) (\<lambda>cash.
          and_then (bump (tr_buyer t, tr_symbol t) q (fl_share f)) (\<lambda>share.
          and_then (bump (tr_seller t, tr_symbol t) (- q) share) (\<lambda>share.
          Inr \<lparr>fl_filled = filled, fl_cash = cash, fl_share = share\<rparr>)))))))
      | _ \<Rightarrow> Inl (KeyError ''order''))"

fun audit_trades :: "exchange \<Rightarrow> trade list \<Rightarrow> flows \<Rightarrow> flows result" where
  "audit_trades st [] f = Inr f"
| "audit_trades st (t # ts) f = and_then (audit_trade st t f) (audit_trades st ts)"

definition flows_init :: "exchange \<Rightarrow> flows" where
  "flows_init st =
     \<lparr>fl_filled = map (\<lambda>(i, r). (i, 0)) (orders st),
      fl_cash = map (\<lambda>(w, a). (w, 0)) (accounts st),
      fl_share = concat (map (\<lambda>(w, a). map (\<lambda>x. ((w, x), 0)) (s_symbols (st_settings st))) (accounts st))\<rparr>"

definition flow_of :: "('k, int) dict \<Rightarrow> 'k \<Rightarrow> int result" where
  "flow_of d k = (case dict_get d k of None \<Rightarrow> Inl (KeyError []) | Some n \<Rightarrow> Inr n)"

definition audit_flow :: "exchange \<Rightarrow> flows \<Rightarrow> string \<times> account \<Rightarrow> unit result" where
  "audit_flow st f = (\<lambda>(w, a).
     case dict_get (s_accounts (st_settings st)) w of
       None \<Rightarrow> Inl (KeyError w)
     | Some v \<Rightarrow>
         and_then (flow_of (fl_cash f) w) (\<lambda>flow.
         and_then (require (balance_total (cash a) = op_cash v + flow) (ValueError ''owner cash flow mismatch'')) (\<lambda>_.
         and_then (traverse (\<lambda>(x, b).
            and_then (flow_of (fl_share f) (w, x)) (\<lambda>flow.
            require (balance_total b = dict_get_or (op_positions v) x 0 + flow) (ValueError ''owner share flow mismatch'')))
           (positions a)) (\<lambda>_. Inr ()))))"

definition audit_reconcile :: "exchange \<Rightarrow> unit result" where
  "audit_reconcile st =
     and_then (audit_trades st (trades st) (flows_init st)) (\<lambda>f.
     and_then (traverse (audit_flow st f) (accounts st)) (\<lambda>_.
     require (\<forall>(i, r) \<in> set (orders st). dict_get (fl_filled f) i = Some (o_filled r))
       (ValueError ''execution quantity mismatch'')))"

definition audit_fill :: "order \<Rightarrow> string list" where
  "audit_fill r = supply_error (o_filled r + o_remaining r \<noteq> o_quantity r \<or> min (o_filled r) (o_remaining r) < 0)
     ''order fill/remaining mismatch''"

text \<open>An exception inside a guarded block becomes one error line.\<close>

fun caught :: "unit result \<Rightarrow> string \<Rightarrow> string list" where
  "caught (Inl e) message = [message]"
| "caught (Inr u) message = []"

record report =
  a_errors :: "string list"
  a_cash_supply :: int
  a_share_supply :: "(string, int) dict"

definition a_matches :: "report \<Rightarrow> bool" where
  "a_matches r \<longleftrightarrow> a_errors r = []"

definition audit :: "exchange \<Rightarrow> report result" where
  "audit st =
     (let cash_supply = dict_sum (\<lambda>a. balance_total (cash a)) (accounts st) in
      and_then (traverse (\<lambda>x. and_then (audit_symbol st x) (\<lambda>(n, es). Inr ((x, n), es)))
          (s_symbols (st_settings st))) (\<lambda>rows.
      Inr \<lparr>a_errors =
             supply_error (cash_supply \<noteq> dict_sum op_cash (s_accounts (st_settings st))) ''cash supply mismatch'' @
             concat (map snd rows) @
             concat (map (audit_owner st) (accounts st)) @
             audit_sequence st @
             caught (audit_index st) ''order-book index mismatch'' @
             caught (audit_reconcile st) ''execution/account reconciliation mismatch'' @
             concat (map (\<lambda>(i, r). audit_fill r) (orders st)),
           a_cash_supply = cash_supply, a_share_supply = map fst rows\<rparr>))"

section \<open>Supplies and reservations\<close>

lemma traverse_all:
  "(\<And>x. x \<in> set xs \<Longrightarrow> f x = Inr (g x)) \<Longrightarrow> traverse f xs = Inr (map g xs)"
  by (induction xs) auto

lemma sum_sum_list_swap:
  "(\<Sum>w \<in> W. sum_list (map (f w) ts)) = sum_list (map (\<lambda>t. \<Sum>w \<in> W. f w t) ts)" for f :: "'a \<Rightarrow> 'b \<Rightarrow> int"
  by (induction ts) (simp_all add: sum.distrib)

lemma sum_list_map_zero: "(\<And>t. t \<in> set ts \<Longrightarrow> f t = 0) \<Longrightarrow> sum_list (map f ts) = (0 :: int)"
  by (induction ts) auto

lemma flows_cancel:
  assumes "finite W" "tr_buyer t \<in> W" "tr_seller t \<in> W"
  shows "(\<Sum>w \<in> W. cash_flow w t) = 0" "(\<Sum>w \<in> W. share_flow w x t) = 0"
  using assms by (simp add: cash_flow_def sum_subtractf)
    (use assms in \<open>cases "tr_symbol t = x"; simp add: share_flow_def sum_subtractf\<close>)

lemma engine_okD:
  assumes "engine_ok st"
  shows "settings_ok (st_settings st)" "shape_ok st" "orders_ok st" "ledger_ok st" "trades_ok st" "index_ok {} st"
  using assms by (simp_all add: engine_ok_def engine_inv_def)

lemma ledger_cash:
  "ledger_ok st \<Longrightarrow> w \<in> owners_of st \<Longrightarrow>
   avail_cash st w + hold_cash st w = opening_cash (st_settings st) w + sum_list (map (cash_flow w) (trades st))"
  unfolding ledger_ok_def cash_ok_def by blast

lemma ledger_shares:
  "ledger_ok st \<Longrightarrow> w \<in> owners_of st \<Longrightarrow> x \<in> symbols_of st \<Longrightarrow>
   avail_pos st w x + hold_pos st w x
     = opening_pos (st_settings st) w x + sum_list (map (share_flow w x) (trades st))"
  unfolding ledger_ok_def shares_ok_def by blast

lemma trade_parties:
  assumes "engine_ok st" "t \<in> set (trades st)"
  shows "tr_buyer t \<in> owners_of st" "tr_seller t \<in> owners_of st" "tr_symbol t \<in> symbols_of st"
proof -
  note e = engine_okD[OF assms(1)]
  obtain bid ask where "dict_get (orders st) (tr_buy_order t) = Some bid"
    "dict_get (orders st) (tr_sell_order t) = Some ask"
    "o_owner bid = tr_buyer t" "o_owner ask = tr_seller t" "o_symbol bid = tr_symbol t"
    using e(5) assms(2) by (auto simp: trades_ok_def trade_ok_def)
  then show "tr_buyer t \<in> owners_of st" "tr_seller t \<in> owners_of st" "tr_symbol t \<in> symbols_of st"
    using orders_okD[OF e(3), of "tr_buy_order t" bid] orders_okD[OF e(3), of "tr_sell_order t" ask]
    by (auto simp: order_ok_def)
qed

lemma opening_sum:
  assumes "dict_ok (s_accounts s)"
  shows "(\<Sum>w \<in> fst ` set (s_accounts s). opening_cash s w) = dict_sum op_cash (s_accounts s)"
    "(\<Sum>w \<in> fst ` set (s_accounts s). opening_pos s w x)
       = dict_sum (\<lambda>v. dict_get_or (op_positions v) x 0) (s_accounts s)"
proof -
  have known: "dict_get (s_accounts s) w \<noteq> None" if "w \<in> fst ` set (s_accounts s)" for w
    using that by (simp only: dict_get_dom)
  show "(\<Sum>w \<in> fst ` set (s_accounts s). opening_cash s w) = dict_sum op_cash (s_accounts s)"
    unfolding dict_sum_keys[OF assms] by (rule sum.cong[OF refl], drule known) (auto simp: opening_cash_def)
  show "(\<Sum>w \<in> fst ` set (s_accounts s). opening_pos s w x)
       = dict_sum (\<lambda>v. dict_get_or (op_positions v) x 0) (s_accounts s)"
    unfolding dict_sum_keys[OF assms] by (rule sum.cong[OF refl], drule known) (auto simp: opening_pos_def)
qed

lemma cash_supply:
  assumes "engine_ok st"
  shows "dict_sum (\<lambda>a. balance_total (cash a)) (accounts st) = dict_sum op_cash (s_accounts (st_settings st))"
proof -
  note e = engine_okD[OF assms]
  let ?W = "owners_of st"
  have "dict_sum (\<lambda>a. balance_total (cash a)) (accounts st) = (\<Sum>w \<in> ?W. avail_cash st w + hold_cash st w)"
  proof -
    have "dict_sum (\<lambda>a. balance_total (cash a)) (accounts st)
        = (\<Sum>w \<in> fst ` set (accounts st). balance_total (cash (the (dict_get (accounts st) w))))"
      using e(2) by (intro dict_sum_keys) (simp add: shape_ok_def)
    also have "\<dots> = (\<Sum>w \<in> ?W. avail_cash st w + hold_cash st w)"
    proof (rule sum.cong)
      show "fst ` set (accounts st) = ?W" using e(2) by (simp add: shape_ok_def)
      fix w assume "w \<in> ?W"
      then obtain a where "dict_get (accounts st) w = Some a" using shape_ok_get[OF e(2)] by blast
      then show "balance_total (cash (the (dict_get (accounts st) w))) = avail_cash st w + hold_cash st w"
        by (simp add: balance_total_def avail_cash_def hold_cash_def)
    qed
    finally show ?thesis .
  qed
  also have "\<dots> = (\<Sum>w \<in> ?W. opening_cash (st_settings st) w + sum_list (map (cash_flow w) (trades st)))"
    by (intro sum.cong refl ledger_cash[OF e(4)])
  also have "\<dots> = (\<Sum>w \<in> ?W. opening_cash (st_settings st) w)"
    using flows_cancel(1)[of ?W] trade_parties[OF assms]
    by (simp add: sum.distrib sum_sum_list_swap sum_list_map_zero owners_of_def)
  also have "\<dots> = dict_sum op_cash (s_accounts (st_settings st))"
    using opening_sum(1) e(1) by (simp add: owners_of_def settings_ok_def)
  finally show ?thesis .
qed

definition position_sum :: "exchange \<Rightarrow> string \<Rightarrow> int" where
  "position_sum st x = dict_sum (\<lambda>a. case dict_get (positions a) x of None \<Rightarrow> 0 | Some b \<Rightarrow> balance_total b) (accounts st)"

lemma share_supply:
  assumes "engine_ok st" "x \<in> symbols_of st"
  shows "position_sum st x = dict_sum (\<lambda>v. dict_get_or (op_positions v) x 0) (s_accounts (st_settings st))"
proof -
  note e = engine_okD[OF assms(1)]
  let ?W = "owners_of st"
  have "position_sum st x = (\<Sum>w \<in> ?W. avail_pos st w x + hold_pos st w x)"
  proof -
    have "position_sum st x = (\<Sum>w \<in> fst ` set (accounts st).
        case dict_get (positions (the (dict_get (accounts st) w))) x of None \<Rightarrow> 0 | Some b \<Rightarrow> balance_total b)"
      unfolding position_sum_def using e(2) by (intro dict_sum_keys) (simp add: shape_ok_def)
    also have "\<dots> = (\<Sum>w \<in> ?W. avail_pos st w x + hold_pos st w x)"
    proof (rule sum.cong)
      show "fst ` set (accounts st) = ?W" using e(2) by (simp add: shape_ok_def)
      fix w assume "w \<in> ?W"
      then obtain a where "dict_get (accounts st) w = Some a" using shape_ok_get[OF e(2)] by blast
      then show "(case dict_get (positions (the (dict_get (accounts st) w))) x of None \<Rightarrow> 0 | Some b \<Rightarrow> balance_total b)
          = avail_pos st w x + hold_pos st w x"
        by (simp add: balance_total_def avail_pos_def hold_pos_def split: option.split)
    qed
    finally show ?thesis .
  qed
  also have "\<dots> = (\<Sum>w \<in> ?W. opening_pos (st_settings st) w x + sum_list (map (share_flow w x) (trades st)))"
    by (intro sum.cong refl ledger_shares[OF e(4) _ assms(2)])
  also have "\<dots> = (\<Sum>w \<in> ?W. opening_pos (st_settings st) w x)"
    using flows_cancel(2)[of ?W] trade_parties[OF assms(1)]
    by (simp add: sum.distrib sum_sum_list_swap sum_list_map_zero owners_of_def)
  also have "\<dots> = dict_sum (\<lambda>v. dict_get_or (op_positions v) x 0) (s_accounts (st_settings st))"
    using opening_sum(2) e(1) by (simp add: owners_of_def settings_ok_def)
  finally show ?thesis .
qed

lemma audit_symbol_clean:
  assumes "engine_ok st" "x \<in> symbols_of st"
  shows "audit_symbol st x = Inr (position_sum st x, [])"
proof -
  note e = engine_okD[OF assms(1)]
  have "position_total x a = Inr (case dict_get (positions a) x of None \<Rightarrow> 0 | Some b \<Rightarrow> balance_total b)"
    if "a \<in> set (map snd (accounts st))" for a
  proof -
    have "account_ok (symbols_of st) a" using e(2) that by (auto simp: shape_ok_def)
    then have "dict_get (positions a) x \<noteq> None" using assms(2) by (simp only: dict_get_dom account_ok_def)
    then show ?thesis by (auto simp: position_total_def)
  qed
  then have "traverse (position_total x) (map snd (accounts st))
      = Inr (map (\<lambda>a. case dict_get (positions a) x of None \<Rightarrow> 0 | Some b \<Rightarrow> balance_total b) (map snd (accounts st)))"
    by (rule traverse_all)
  then show ?thesis
    using share_supply[OF assms]
    by (simp add: audit_symbol_def supply_error_def position_sum_def dict_sum_def comp_def case_prod_unfold)
qed

lemma filter_sum_dict:
  "sum_list (map f (filter P (map snd d))) = dict_sum (\<lambda>r. if P r then f r else 0) d"
  by (induction d) auto

lemma shape_ok_mem:
  assumes "shape_ok st" "(w, a) \<in> set (accounts st)"
  shows "w \<in> owners_of st \<and> account_ok (symbols_of st) a \<and> dict_get (accounts st) w = Some a"
proof -
  have "w \<in> fst ` set (accounts st)" using assms(2) by force
  moreover have "dict_get (accounts st) w = Some a"
    using assms by (simp add: dict_get_mem[symmetric] shape_ok_def)
  ultimately show ?thesis using assms unfolding shape_ok_def by blast
qed

lemma account_ok_mem:
  assumes "account_ok X a" "(x, b) \<in> set (positions a)"
  shows "x \<in> X \<and> dict_get (positions a) x = Some b"
proof -
  have "x \<in> fst ` set (positions a)" using assms(2) by force
  then show ?thesis using assms by (simp add: dict_get_mem[symmetric] account_ok_def)
qed

lemma audit_owner_clean:
  assumes "engine_ok st" "(w, a) \<in> set (accounts st)"
  shows "audit_owner st (w, a) = []"
proof -
  note e = engine_okD[OF assms(1)]
  have w: "w \<in> owners_of st" and ok: "account_ok (symbols_of st) a" and get: "dict_get (accounts st) w = Some a"
    using shape_ok_mem[OF e(2) assms(2)] by simp_all
  have cash: "cash_ok st w" using e(4) w by (simp add: ledger_ok_def)
  have nn: "0 \<le> bid_hold w r" "0 \<le> ask_hold w x r" if "(i, r) \<in> set (orders st)" for i r x
  proof -
    have "order_ok st r" using that e(3) orders_okD[OF e(3), of i r] by (simp add: orders_ok_def dict_get_mem)
    then show "0 \<le> bid_hold w r" "0 \<le> ask_hold w x r"
      by (simp_all add: bid_hold_def ask_hold_def order_ok_def)
  qed
  have c: "held (cash a) = sum_list (map (\<lambda>r. o_remaining r * o_price r) (filter (\<lambda>r. o_side r = BUY) (open_orders st w)))"
    "0 \<le> available (cash a)" "0 \<le> held (cash a)"
  proof -
    have h: "held (cash a) = dict_sum (bid_hold w) (orders st)"
      using cash get by (simp add: cash_ok_def hold_cash_def)
    then show "held (cash a) = sum_list (map (\<lambda>r. o_remaining r * o_price r) (filter (\<lambda>r. o_side r = BUY) (open_orders st w)))"
      by (simp add: open_orders_def filter_sum_dict bid_hold_def[abs_def] conj_ac cong: if_cong)
    show "0 \<le> held (cash a)" unfolding h by (rule dict_sum_nonneg) (rule nn(1))
    show "0 \<le> available (cash a)" using cash get by (simp add: cash_ok_def avail_cash_def)
  qed
  have p: "held b = sum_list (map o_remaining (filter (\<lambda>r. o_side r = SELL \<and> o_symbol r = x) (open_orders st w))) \<and>
      0 \<le> available b \<and> 0 \<le> held b" if b: "(x, b) \<in> set (positions a)" for x b
  proof -
    have x: "x \<in> symbols_of st" and gb: "dict_get (positions a) x = Some b"
      using account_ok_mem[OF ok b] by simp_all
    have sh: "shares_ok st w x" using e(4) w x by (simp add: ledger_ok_def)
    have h: "held b = dict_sum (ask_hold w x) (orders st)"
      using sh get gb by (simp add: shares_ok_def hold_pos_def)
    moreover have "dict_sum (ask_hold w x) (orders st)
        = sum_list (map o_remaining (filter (\<lambda>r. o_side r = SELL \<and> o_symbol r = x) (open_orders st w)))"
      by (simp add: open_orders_def filter_sum_dict ask_hold_def[abs_def] conj_ac cong: if_cong)
    moreover have "0 \<le> held b" unfolding h by (rule dict_sum_nonneg) (rule nn(2))
    moreover have "0 \<le> available b" using sh get gb by (simp add: shares_ok_def avail_pos_def)
    ultimately show ?thesis by simp
  qed
  have "(\<lambda>(symbol, b). supply_error (min (available b) (held b) < 0 \<or> held b \<noteq> sum_list (map o_remaining
             (filter (\<lambda>r. o_side r = SELL \<and> o_symbol r = symbol) (open_orders st w))))
         (''share reservation mismatch: '' @ w)) e = []" if "e \<in> set (positions a)" for e
  proof (cases e)
    case (Pair x b)
    then show ?thesis using p[of x b] that by (auto simp: supply_error_def min_less_iff_disj)
  qed
  then show ?thesis using c by (simp add: audit_owner_def supply_error_def)
qed

section \<open>The index walk\<close>

definition ids_at :: "int \<Rightarrow> entry list \<Rightarrow> string list" where
  "ids_at p es = map fst (filter (\<lambda>(i, p', q). p' = p) es)"

lemma ids_at_simps [simp]:
  "ids_at p [] = []" "ids_at p ((i, p', q) # es) = (if p' = p then i # ids_at p es else ids_at p es)"
  by (simp_all add: ids_at_def)

lemma set_ids_at: "set (ids_at p es) = {i. \<exists>q. (i, p, q) \<in> set es}"
  by (force simp: ids_at_def)

text \<open>What the walk needs to know of the resting entries of one side.\<close>

definition resting :: "(string, order) dict \<Rightarrow> string \<Rightarrow> side \<Rightarrow> entry list \<Rightarrow> bool" where
  "resting act x sd es \<longleftrightarrow> (\<forall>(i, p, q) \<in> set es. \<exists>r. dict_get act i = Some r \<and> o_symbol r = x \<and> o_side r = sd \<and>
     o_price r = p \<and> o_remaining r = q)"

lemma restingD:
  assumes "resting act x sd es" "(i, p, q) \<in> set es"
  obtains r where "dict_get act i = Some r" "o_symbol r = x" "o_side r = sd" "o_price r = p" "o_remaining r = q"
  using bspec[OF assms(1)[unfolded resting_def] assms(2)] by auto

lemma walk_level_clean:
  assumes nodes: "nodes_at es (dict_get nodes)" and res: "resting act x sd es"
    and dist: "distinct (map fst es)"
    and sq: "sorted_wrt (\<lambda>a b. sq (fst a) < sq (fst b)) es" "\<And>i r. dict_get act i = Some r \<Longrightarrow> sq i = o_seq r"
    and es: "es = A @ B" and new: "set visited \<inter> set (ids_at p B) = {}"
    and lastq: "\<forall>e \<in> set B. lastq < sq (fst e)"
  shows "walk_level act x sd p nodes (first_id p B) visited (last_id p A) quantity lastq
    = Inr (rev (ids_at p B) @ visited, last_id p es, quantity + depth_at p B)"
  using es new lastq
proof (induction B arbitrary: A visited quantity lastq)
  case Nil
  then show ?case by simp
next
  case (Cons e B)
  obtain i p' q where e: "e = (i, p', q)" by (cases e)
  have es: "es = (A @ [e]) @ B" using Cons.prems(1) by simp
  show ?case
  proof (cases "p' = p")
    case False
    have "set visited \<inter> set (ids_at p B) = {}" "\<forall>e \<in> set B. lastq < sq (fst e)"
      using Cons.prems(2,3) False by (auto simp: e)
    then show ?thesis using Cons.IH[OF es, of visited lastq quantity] False by (simp add: e)
  next
    case True
    have mem: "(i, p, q) \<in> set es" using es e True by simp
    obtain r where r: "dict_get act i = Some r" "o_symbol r = x" "o_side r = sd" "o_price r = p" "o_remaining r = q"
      using restingD[OF res mem] .
    have n: "dict_get nodes i = Some \<lparr>n_previous = last_id p A, n_next = first_id p B, n_price = p, n_quantity = q\<rparr>"
      using nodes_atD[of A i p q B "dict_get nodes"] nodes es e True by simp
    have fresh: "i \<notin> set visited" "lastq < o_seq r"
      using Cons.prems(2,3) sq(2)[OF r(1)] by (auto simp: e True)
    have "i \<notin> fst ` set B" using dist es e by simp
    then have "i \<notin> set (ids_at p B)" unfolding set_ids_at by force
    then have IHp: "set (i # visited) \<inter> set (ids_at p B) = {}" using Cons.prems(2) by (simp add: e True)
    have "\<forall>e \<in> set B. o_seq r < sq (fst e)"
      using sq(1) sq(2)[OF r(1)] es e by (simp add: sorted_wrt_append)
    then show ?thesis
      using Cons.IH[OF es IHp, of "o_seq r" "quantity + q"] r n fresh by (simp add: e True)
  qed
qed

lemma level_at_Some:
  "level_at es p = Some l \<Longrightarrow> l_head l = first_id p es \<and> l_tail l = last_id p es \<and> l_quantity l = depth_at p es"
  by (auto simp: level_at_def split: option.splits)

lemma depth_at_nonneg: "\<forall>(i, p, q) \<in> set es. 0 < q \<Longrightarrow> 0 \<le> depth_at p es"
  by (induction p es rule: depth_at.induct) auto

lemma depth_at_pos: "\<forall>(i, p, q) \<in> set es. 0 < q \<Longrightarrow> first_id p es \<noteq> None \<Longrightarrow> 0 < depth_at p es"
proof (induction p es rule: depth_at.induct)
  case (2 p i p' q es)
  then show ?case using depth_at_nonneg[of es p] by (cases "p' = p") auto
qed simp

lemma walk_levels_clean:
  assumes nodes: "nodes_at es (dict_get nodes)" and res: "resting act x sd es"
    and dist: "distinct (map fst es)" and pos: "\<forall>(i, p, q) \<in> set es. 0 < q"
    and sq: "sorted_wrt (\<lambda>a b. sq (fst a) < sq (fst b)) es" "\<And>i r. dict_get act i = Some r \<Longrightarrow> sq i = o_seq r"
      "\<forall>e \<in> set es. 0 < sq (fst e)"
    and ls: "distinct (map fst ls)" "\<forall>(p, l) \<in> set ls. level_at es p = Some l"
    and new: "\<forall>(p, l) \<in> set ls. set visited \<inter> set (ids_at p es) = {}"
  shows "\<exists>vs. walk_levels act x sd nodes ls visited = Inr vs \<and>
    set vs = set visited \<union> (\<Union>(p, l) \<in> set ls. set (ids_at p es))"
  using ls new
proof (induction ls arbitrary: visited)
  case (Cons pl ls)
  obtain p l where pl: "pl = (p, l)" by (cases pl)
  have lv: "level_at es p = Some l" using Cons.prems(2) by (simp add: pl)
  have w: "walk_level act x sd p nodes (l_head l) visited None 0 0
      = Inr (rev (ids_at p es) @ visited, last_id p es, depth_at p es)"
    using walk_level_clean[OF nodes res dist sq(1,2), of "[]" es visited p 0 0] Cons.prems(3) sq(3) level_at_Some[OF lv]
    by (simp add: pl)
  have "0 < depth_at p es" using depth_at_pos[OF pos] lv level_at_None[of es p] by simp
  have "set (rev (ids_at p es) @ visited) \<inter> set (ids_at p' es) = {}" if "(p', l') \<in> set ls" for p' l'
  proof -
    have "p' \<noteq> p" using Cons.prems(1) that by (auto simp: pl image_iff)
    then have "set (ids_at p es) \<inter> set (ids_at p' es) = {}"
      using eq_key_imp_eq_value[OF dist] by (fastforce simp: set_ids_at)
    then show ?thesis using Cons.prems(3) that by auto
  qed
  then obtain vs where "walk_levels act x sd nodes ls (rev (ids_at p es) @ visited) = Inr vs"
    "set vs = set (rev (ids_at p es) @ visited) \<union> (\<Union>(p, l) \<in> set ls. set (ids_at p es))"
    using Cons.IH[of "rev (ids_at p es) @ visited"] Cons.prems(1,2) by (auto simp: pl)
  then show ?case
    using w \<open>0 < depth_at p es\<close> level_at_Some[OF lv] by (auto simp: pl)
qed simp

lemma sorted_heap_ok:
  assumes "side_repr sd es s"
  shows "heap_ok sd s"
proof -
  have "b_heap s ! ((i - 1) div 2) \<le> b_heap s ! i" if "i \<in> set [1..<length (b_heap s)]" for i
    using that assms by (intro sorted_nth_mono) (auto simp: side_repr_def)
  moreover have "p * sign sd \<in> set (b_heap s)" if "p \<in> fst ` set (b_levels s)" for p
  proof -
    have "level_at es p \<noteq> None" using that dict_get_dom[of "b_levels s" p] assms by (simp add: side_repr_def)
    then obtain i where "first_id p es = Some i" by (auto simp: level_at_None)
    then show ?thesis using first_id_mem[of p es i] assms by (fastforce simp: side_repr_def mult.commute)
  qed
  ultimately show ?thesis by (simp add: heap_ok_def)
qed

lemma audit_side_clean:
  assumes repr: "side_repr sd es s" and res: "resting act x sd es"
    and sq: "sorted_wrt (\<lambda>a b. sq (fst a) < sq (fst b)) es" "\<And>i r. dict_get act i = Some r \<Longrightarrow> sq i = o_seq r"
      "\<forall>e \<in> set es. 0 < sq (fst e)"
  shows "\<exists>vs. audit_side act x sd s = Inr vs \<and> set vs = fst ` set es"
proof -
  note r = repr[unfolded side_repr_def]
  have lv: "\<forall>(p, l) \<in> set (b_levels s). level_at es p = Some l"
    using r dict_get_mem[of "b_levels s"] by auto
  obtain vs where vs: "walk_levels act x sd (b_nodes s) (b_levels s) [] = Inr vs"
    "set vs = (\<Union>(p, l) \<in> set (b_levels s). set (ids_at p es))"
    using walk_levels_clean[of es "b_nodes s" act x sd sq "b_levels s" "[]"] r res sq lv
    by (auto simp: dict_ok_def)
  have "set vs = fst ` set es"
  proof
    show "set vs \<subseteq> fst ` set es" by (force simp: vs(2) set_ids_at)
    show "fst ` set es \<subseteq> set vs"
    proof
      fix i assume "i \<in> fst ` set es"
      then obtain p q where ipq: "(i, p, q) \<in> set es" by auto
      then have "level_at es p \<noteq> None" unfolding level_at_None first_id_None by blast
      then obtain l where "dict_get (b_levels s) p = Some l" using r by auto
      then have "(p, l) \<in> set (b_levels s)" by (rule map_of_SomeD)
      then show "i \<in> set vs" using ipq by (force simp: vs(2) set_ids_at)
    qed
  qed
  moreover have "fst ` set (b_nodes s) = fst ` set es"
  proof (rule set_eqI)
    show "i \<in> fst ` set (b_nodes s) \<longleftrightarrow> i \<in> fst ` set es" for i
      using r nodes_at_dom[of es "dict_get (b_nodes s)" i] dict_get_dom[of "b_nodes s" i] by simp
  qed
  ultimately show ?thesis
    using vs(1) sorted_heap_ok[OF repr] by (simp add: audit_side_def)
qed

lemma active_orders_get:
  "dict_ok (orders st) \<Longrightarrow>
   dict_get (active_orders st) i = Some r \<longleftrightarrow> dict_get (orders st) i = Some r \<and> active r"
proof -
  assume ok: "dict_ok (orders st)"
  then have "dict_ok (active_orders st)"
    by (simp add: dict_ok_def active_orders_def distinct_map_filter)
  then show ?thesis
    using ok by (simp add: dict_get_mem[symmetric]) (auto simp: active_orders_def)
qed

lemma audit_index_clean:
  assumes "engine_ok st"
  shows "audit_index st = Inr ()"
proof -
  note e = engine_okD[OF assms]
  let ?act = "active_orders st"
  have ok: "dict_ok (orders st)" using e(3) by (simp add: orders_ok_def)
  obtain E where E: "book_repr E (book_index st)" "entries_ok {} st E"
    and sy: "book_symbols (book_index st) = symbols_of st"
    using e(6) by (auto simp: index_ok_def)
  have ids: "fst ` set (E x sd) = {i. \<exists>r. dict_get ?act i = Some r \<and> o_symbol r = x \<and> o_side r = sd}" for x sd
    by (force simp: active_orders_get[OF ok] entries_ok_mem[OF E(2)] rests_def image_iff)
  have res: "resting ?act x sd (E x sd)" for x sd
    unfolding resting_def by (auto simp: active_orders_get[OF ok] entries_ok_mem[OF E(2)] rests_def)
  have sq: "dict_get ?act i = Some r \<Longrightarrow> seq_of st i = o_seq r" for i r
    by (simp add: active_orders_get[OF ok] seq_of_def)
  have pos: "\<forall>e \<in> set (E x sd). 0 < seq_of st (fst e)" for x sd
    using orders_okD[OF e(3)] by (force simp: entries_ok_mem[OF E(2)] rests_def seq_of_def order_ok_def)
  have side: "\<exists>vs. audit_side ?act x sd (get_side sd v) = Inr vs \<and> set vs = fst ` set (E x sd)"
    if "(x, v) \<in> set (book_index st)" for x v sd
  proof (rule audit_side_clean[OF _ res entries_ok_sorted[OF E(2)] sq pos])
    show "side_repr sd (E x sd) (get_side sd v)"
      using E(1) that by (auto simp: book_repr_def)
  qed
  define f :: "string \<times> sides \<Rightarrow> string list result" where "f = (\<lambda>(x, v). and_then (audit_side ?act x BUY (buys v)) (\<lambda>bs.
        and_then (audit_side ?act x SELL (sells v)) (\<lambda>ss. Inr (bs @ ss))))"
  have f: "\<exists>vs. f (x, v) = Inr vs \<and> set vs = fst ` set (E x BUY) \<union> fst ` set (E x SELL)"
    if "(x, v) \<in> set (book_index st)" for x v
    using side[OF that, of BUY] side[OF that, of SELL] by (auto simp: f_def)
  define g where "g = (\<lambda>xv. projr (f xv))"
  have fg: "f xv = Inr (g xv)" "set (g xv) = fst ` set (E (fst xv) BUY) \<union> fst ` set (E (fst xv) SELL)"
    if mem: "xv \<in> set (book_index st)" for xv
  proof -
    obtain vs where "f xv = Inr vs" "set vs = fst ` set (E (fst xv) BUY) \<union> fst ` set (E (fst xv) SELL)"
      using f[of "fst xv" "snd xv"] mem by auto
    then show "f xv = Inr (g xv)" "set (g xv) = fst ` set (E (fst xv) BUY) \<union> fst ` set (E (fst xv) SELL)"
      by (simp_all add: g_def)
  qed
  have "traverse f (book_index st) = Inr (map g (book_index st))" by (rule traverse_all) (rule fg(1))
  moreover have "set (concat (map g (book_index st))) = fst ` set ?act"
  proof -
    have "set (concat (map g (book_index st)))
        = (\<Union>x \<in> symbols_of st. fst ` set (E x BUY) \<union> fst ` set (E x SELL))"
      unfolding sy[symmetric] book_symbols_def by (simp add: fg(2))
    also have "\<dots> = {i. \<exists>r. dict_get ?act i = Some r}"
    proof -
      have "o_symbol r \<in> symbols_of st" if "dict_get ?act i = Some r" for i r
        using that orders_okD[OF e(3)] by (auto simp: active_orders_get[OF ok] order_ok_def)
      moreover have "o_side r = BUY \<or> o_side r = SELL" for r by (cases "o_side r") auto
      ultimately show ?thesis unfolding ids by blast
    qed
    also have "\<dots> = fst ` set ?act" using dict_get_dom[of ?act] by blast
    finally show ?thesis .
  qed
  ultimately show ?thesis by (simp add: audit_index_def f_def[symmetric])
qed

section \<open>Reconciliation\<close>

lemma bump_get:
  assumes "dict_get d k = Some m"
  shows "\<exists>d'. bump k n d = Inr d' \<and> dict_get d' = (dict_get d)(k \<mapsto> m + n)"
  using assms by (simp add: bump_def dict_simps)

text \<open>Flows collected so far, against the trades they were collected from.\<close>

definition flows_match :: "exchange \<Rightarrow> trade list \<Rightarrow> flows \<Rightarrow> bool" where
  "flows_match st ts f \<longleftrightarrow>
     (\<forall>i. dict_get (fl_filled f) i = (if dict_get (orders st) i = None then None else Some (sum_list (map (order_fill i) ts)))) \<and>
     (\<forall>w. dict_get (fl_cash f) w = (if w \<in> owners_of st then Some (sum_list (map (cash_flow w) ts)) else None)) \<and>
     (\<forall>w x. dict_get (fl_share f) (w, x) = (if w \<in> owners_of st \<and> x \<in> symbols_of st
        then Some (sum_list (map (share_flow w x) ts)) else None))"

lemma map_of_zero_keys: "map_of (map (\<lambda>(k, v). (k, c)) d) k = (if map_of d k = None then None else Some c)"
  by (induction d) auto

lemma map_of_concat_keys:
  "map_of (concat (map (\<lambda>(w, a). map (\<lambda>x. ((w, x), c)) xs) d)) (w, x)
   = (if w \<in> fst ` set d \<and> x \<in> set xs then Some c else None)"
proof (induction d)
  case (Cons wa d)
  have "map_of (map (\<lambda>x. ((v, x), c)) xs) (w, x) = (if v = w \<and> x \<in> set xs then Some c else None)" for v
    by (induction xs) auto
  then show ?case using Cons by (cases wa) (auto simp: map_add_def)
qed simp

lemma flows_init_match:
  assumes "shape_ok st"
  shows "flows_match st [] (flows_init st)"
  using assms
  by (auto simp: flows_match_def flows_init_def map_of_zero_keys map_of_concat_keys shape_ok_def symbols_of_def
      map_of_eq_None_iff[of "accounts st"])

lemma audit_trade_clean:
  assumes ok: "engine_ok st" and t: "t \<in> set (trades st)" and f: "flows_match st ts f"
  shows "\<exists>f'. audit_trade st t f = Inr f' \<and> flows_match st (ts @ [t]) f'"
proof -
  note e = engine_okD[OF ok] and p = trade_parties[OF ok t]
  obtain bid ask where ba: "dict_get (orders st) (tr_buy_order t) = Some bid"
    "dict_get (orders st) (tr_sell_order t) = Some ask"
    "o_owner bid = tr_buyer t" "o_owner ask = tr_seller t" "tr_buyer t \<noteq> tr_seller t"
    "o_side bid = BUY" "o_side ask = SELL" "o_symbol bid = tr_symbol t" "o_symbol ask = tr_symbol t"
    "o_price ask \<le> tr_price t" "tr_price t \<le> o_price bid"
    using e(5) t by (auto simp: trades_ok_def trade_ok_def)
  have ne: "tr_buy_order t \<noteq> tr_sell_order t" using ba by auto
  note g = f[unfolded flows_match_def]
  show ?thesis
    using ba ne p g
    by (auto simp: audit_trade_def bump_def Let_def flows_match_def dict_simps order_fill_def cash_flow_def share_flow_def)
qed

lemma audit_trades_clean:
  assumes ok: "engine_ok st"
  shows "set ts \<subseteq> set (trades st) \<Longrightarrow> flows_match st pre f \<Longrightarrow>
    \<exists>f'. audit_trades st ts f = Inr f' \<and> flows_match st (pre @ ts) f'"
proof (induction ts arbitrary: pre f)
  case (Cons t ts)
  obtain f1 where f1: "audit_trade st t f = Inr f1" "flows_match st (pre @ [t]) f1"
    using audit_trade_clean[OF ok, of t pre f] Cons.prems by auto
  then show ?case using Cons.IH[of "pre @ [t]" f1] Cons.prems by auto
qed simp

lemma audit_flow_clean:
  assumes ok: "engine_ok st" and f: "flows_match st (trades st) f" and a: "(w, a) \<in> set (accounts st)"
  shows "audit_flow st f (w, a) = Inr ()"
proof -
  note e = engine_okD[OF ok]
  have w: "w \<in> owners_of st" and aok: "account_ok (symbols_of st) a" and get: "dict_get (accounts st) w = Some a"
    using shape_ok_mem[OF e(2) a] by simp_all
  obtain v where v: "dict_get (s_accounts (st_settings st)) w = Some v"
    using w dict_get_dom[of "s_accounts (st_settings st)" w] unfolding owners_of_def by auto
  have c: "flow_of (fl_cash f) w = Inr (sum_list (map (cash_flow w) (trades st)))"
    using f w by (simp add: flows_match_def flow_of_def)
  have tc: "balance_total (cash a) = op_cash v + sum_list (map (cash_flow w) (trades st))"
    using ledger_cash[OF e(4) w] get v by (simp add: balance_total_def avail_cash_def hold_cash_def opening_cash_def)
  have "(\<lambda>(x, b). and_then (flow_of (fl_share f) (w, x)) (\<lambda>flow.
            require (balance_total b = dict_get_or (op_positions v) x 0 + flow) (ValueError ''owner share flow mismatch''))) xb
      = Inr ()" if "xb \<in> set (positions a)" for xb
  proof (cases xb)
    case (Pair x b)
    then have x: "x \<in> symbols_of st" and gb: "dict_get (positions a) x = Some b"
      using account_ok_mem[OF aok] that by auto
    have "flow_of (fl_share f) (w, x) = Inr (sum_list (map (share_flow w x) (trades st)))"
      using f w x by (simp add: flows_match_def flow_of_def)
    moreover have "balance_total b = dict_get_or (op_positions v) x 0 + sum_list (map (share_flow w x) (trades st))"
      using ledger_shares[OF e(4) w x] get gb v
      by (simp add: balance_total_def avail_pos_def hold_pos_def opening_pos_def)
    ultimately show ?thesis by (simp add: Pair)
  qed
  then have "traverse (\<lambda>(x, b). and_then (flow_of (fl_share f) (w, x)) (\<lambda>flow.
      require (balance_total b = dict_get_or (op_positions v) x 0 + flow) (ValueError ''owner share flow mismatch'')))
      (positions a) = Inr (map (\<lambda>_. ()) (positions a))"
    by (rule traverse_all)
  then show ?thesis by (simp add: audit_flow_def v c tc)
qed

lemma audit_reconcile_clean:
  assumes "engine_ok st"
  shows "audit_reconcile st = Inr ()"
proof -
  note e = engine_okD[OF assms]
  obtain f where f: "audit_trades st (trades st) (flows_init st) = Inr f" "flows_match st (trades st) f"
    using audit_trades_clean[OF assms subset_refl flows_init_match[OF e(2)]] by auto
  have "traverse (audit_flow st f) (accounts st) = Inr (map (\<lambda>_. ()) (accounts st))"
    by (rule traverse_all) (use audit_flow_clean[OF assms f(2)] in auto)
  moreover have "\<forall>(i, r) \<in> set (orders st). dict_get (fl_filled f) i = Some (o_filled r)"
  proof (intro ballI, clarify)
    fix i r assume that: "(i, r) \<in> set (orders st)"
    have "dict_get (orders st) i = Some r" using that e(3) by (simp add: dict_get_mem[symmetric] orders_ok_def)
    then show "dict_get (fl_filled f) i = Some (o_filled r)"
      using f(2) e(5) by (simp add: flows_match_def trades_ok_def)
  qed
  ultimately show ?thesis using f(1) by (simp add: audit_reconcile_def require_def)
qed

lemma audit_clean:
  assumes "engine_ok st"
  shows "\<exists>r. audit st = Inr r \<and> a_matches r \<and>
    a_cash_supply r = dict_sum op_cash (s_accounts (st_settings st)) \<and>
    a_share_supply r = map (\<lambda>x. (x, dict_sum (\<lambda>v. dict_get_or (op_positions v) x 0) (s_accounts (st_settings st))))
      (s_symbols (st_settings st))"
proof -
  note e = engine_okD[OF assms]
  let ?rows = "map (\<lambda>x. ((x, position_sum st x), [] :: string list)) (s_symbols (st_settings st))"
  have rows: "traverse (\<lambda>x. and_then (audit_symbol st x) (\<lambda>(n, es). Inr ((x, n), es))) (s_symbols (st_settings st))
      = Inr ?rows"
    by (rule traverse_all) (simp add: audit_symbol_clean[OF assms] symbols_of_def)
  have "audit_fill r = []" if "(i, r) \<in> set (orders st)" for i r
  proof -
    have "order_ok st r" using that e(3) orders_okD[OF e(3), of i r] by (simp add: orders_ok_def dict_get_mem)
    then show ?thesis by (auto simp: audit_fill_def supply_error_def order_ok_def min_less_iff_disj)
  qed
  then have fills: "concat (map (\<lambda>(i, r). audit_fill r) (orders st)) = []" by auto
  have owners: "concat (map (audit_owner st) (accounts st)) = []" using audit_owner_clean[OF assms] by auto
  have seq: "audit_sequence st = []" using e(5) by (simp add: audit_sequence_def supply_error_def trades_ok_def)
  have "concat (map snd ?rows) = []" by simp
  then show ?thesis
    using rows fills owners seq cash_supply[OF assms] audit_index_clean[OF assms] audit_reconcile_clean[OF assms]
      share_supply[OF assms]
    by (simp add: audit_def Let_def a_matches_def supply_error_def comp_def symbols_of_def)
qed

end
