(* ===== verification/Exchange_Theorems.thy ===== *)
theory Exchange_Theorems
  imports Exchange_Audit
begin

text \<open>
  The properties of the stock exchange, stated over journals: a list of JSON commands replayed from
  the empty state.
\<close>

section \<open>The depth view\<close>

definition resting_at :: "string \<Rightarrow> side \<Rightarrow> int \<Rightarrow> order \<Rightarrow> bool" where
  "resting_at x sd p r \<longleftrightarrow> o_symbol r = x \<and> active r \<and> o_side r = sd \<and> o_price r = p"

definition pick_side :: "side \<Rightarrow> 'a \<times> 'a \<Rightarrow> 'a" where
  "pick_side sd ba = (case sd of BUY \<Rightarrow> fst ba | SELL \<Rightarrow> snd ba)"

lemma book_scan_get:
  "dict_get (pick_side sd (book_scan x rs ba)) p =
   (if dict_get (pick_side sd ba) p = None \<and> (\<forall>r \<in> set rs. \<not> resting_at x sd p r) then None
    else Some (dict_get_or (pick_side sd ba) p 0
      + sum_list (map (\<lambda>r. if resting_at x sd p r then o_remaining r else 0) rs)))"
proof (induction rs arbitrary: ba)
  case Nil
  then show ?case by (auto simp: dict_get_or_def)
next
  case (Cons r rs)
  obtain b a where ba: "ba = (b, a)" by (cases ba)
  show ?case
  proof (cases "o_symbol r = x \<and> active r")
    case False
    then have "\<not> resting_at x sd p r" by (auto simp: resting_at_def)
    then show ?thesis using Cons[of ba] False by auto
  next
    case True
    define ba' where "ba' = (case o_side r of
        BUY \<Rightarrow> (dict_set (o_price r) (dict_get_or b (o_price r) 0 + o_remaining r) b, a)
      | SELL \<Rightarrow> (b, dict_set (o_price r) (dict_get_or a (o_price r) 0 + o_remaining r) a))"
    have step: "book_scan x (r # rs) ba = book_scan x rs ba'" using True by (simp add: ba ba'_def)
    have get: "dict_get (pick_side sd ba') p
        = (if resting_at x sd p r then Some (dict_get_or (pick_side sd ba) p 0 + o_remaining r)
           else dict_get (pick_side sd ba) p)"
      using True by (cases "o_side r"; cases sd) (auto simp: ba'_def ba pick_side_def resting_at_def dict_simps)
    then have "dict_get_or (pick_side sd ba') p 0
        = dict_get_or (pick_side sd ba) p 0 + (if resting_at x sd p r then o_remaining r else 0)"
      by (auto simp: dict_get_or_def)
    then show ?thesis unfolding step Cons[of ba'] using get by auto
  qed
qed

lemma depth_at_sum:
  "distinct es \<Longrightarrow> depth_at p es = (\<Sum>(i, p', q) \<in> set es. if p' = p then q else 0)"
  by (induction p es rule: depth_at.induct) auto

lemma depth_at_orders:
  assumes "engine_ok st" "entries_ok {} st E" "distinct (map fst (E x sd))"
  shows "depth_at p (E x sd) = dict_sum (\<lambda>r. if resting_at x sd p r then o_remaining r else 0) (orders st)"
proof -
  note e = engine_okD[OF assms(1)]
  have ok: "dict_ok (orders st)" using e(3) by (simp add: orders_ok_def)
  let ?f = "\<lambda>i. (i, o_price (the (dict_get (orders st) i)), o_remaining (the (dict_get (orders st) i)))"
  let ?I = "{i \<in> fst ` set (orders st). resting_at x sd (o_price (the (dict_get (orders st) i))) (the (dict_get (orders st) i))}"
  have es: "set (E x sd) = ?f ` ?I"
  proof -
    have mem: "(i, p', q) \<in> set (E x sd) \<longleftrightarrow> (i, p', q) \<in> ?f ` ?I" for i p' q
      using dict_get_dom[of "orders st" i]
      by (auto simp: entries_ok_mem[OF assms(2)] rests_def resting_at_def image_iff)
    show ?thesis
    proof (rule set_eqI)
      fix e :: entry
      obtain i p' q where "e = (i, p', q)" by (cases e)
      then show "e \<in> set (E x sd) \<longleftrightarrow> e \<in> ?f ` ?I" by (simp only: mem)
    qed
  qed
  have "depth_at p (E x sd) = (\<Sum>(i, p', q) \<in> ?f ` ?I. if p' = p then q else 0)"
    using assms(3) by (subst depth_at_sum) (simp_all only: distinct_map es)
  also have "\<dots> = (\<Sum>i \<in> ?I. if o_price (the (dict_get (orders st) i)) = p then o_remaining (the (dict_get (orders st) i)) else 0)"
    by (subst sum.reindex) (auto simp: inj_on_def)
  also have "\<dots> = (\<Sum>i \<in> fst ` set (orders st). if resting_at x sd p (the (dict_get (orders st) i))
      then o_remaining (the (dict_get (orders st) i)) else 0)"
    by (rule sum.mono_neutral_cong_left) (auto simp: resting_at_def)
  also have "\<dots> = dict_sum (\<lambda>r. if resting_at x sd p r then o_remaining r else 0) (orders st)"
    by (rule dict_sum_keys[OF ok, symmetric])
  finally show ?thesis .
qed

lemma book_levels_orders:
  assumes ok: "engine_ok st" and x: "x \<in> symbols_of st"
  shows "\<exists>bids asks. book st x = Inr (bids, asks) \<and>
    (\<forall>sd p. dict_get (pick_side sd (bids, asks)) p = dict_get (pick_side sd (book_unindexed st x)) p)"
proof -
  note e = engine_okD[OF ok]
  obtain E where E: "book_repr E (book_index st)" "entries_ok {} st E"
    and sy: "book_symbols (book_index st) = symbols_of st"
    using e(6) by (auto simp: index_ok_def)
  obtain v where v: "dict_get (book_index st) x = Some v" using book_symbols_get x sy by blast
  have "dict_get (side_levels (get_side sd v)) p = dict_get (pick_side sd (book_unindexed st x)) p" for sd p
  proof -
    note r = book_repr_get[OF E(1) v, of sd]
    have dist: "distinct (map fst (E x sd))" using r by (simp add: side_repr_def)
    have any: "first_id p (E x sd) = None \<longleftrightarrow> (\<forall>r \<in> set (map snd (orders st)). \<not> resting_at x sd p r)"
    proof -
      have "(\<exists>i q. (i, p, q) \<in> set (E x sd)) \<longleftrightarrow> (\<exists>i r. dict_get (orders st) i = Some r \<and> resting_at x sd p r)"
        by (auto simp: entries_ok_mem[OF E(2)] rests_def resting_at_def)
      also have "\<dots> \<longleftrightarrow> (\<exists>r \<in> set (map snd (orders st)). resting_at x sd p r)"
        using e(3) by (force simp: dict_get_mem[symmetric] orders_ok_def)
      finally show ?thesis unfolding first_id_None by fast
    qed
    have "sum_list (map (\<lambda>r. if resting_at x sd p r then o_remaining r else 0) (map snd (orders st))) = depth_at p (E x sd)"
      using depth_at_orders[OF ok E(2) dist, of p] by (simp add: dict_sum_def comp_def)
    then show ?thesis
      using side_levels_refines(2)[OF r, of p] any
      by (simp add: book_unindexed_def book_scan_get pick_side_def[of _ "([], [])"] dict_get_or_def split: side.split)
  qed
  from this[of BUY] this[of SELL] show ?thesis
    by (auto simp: book_def book_levels_def v pick_side_def split: side.split)
qed

section \<open>Commands that return\<close>

text \<open>A well-formed command with the next sequence number, as the sequencer writes it.\<close>

definition command :: "int \<Rightarrow> int \<Rightarrow> string \<Rightarrow> json \<Rightarrow> json \<Rightarrow> json" where
  "command seq stamp owner kind body0 =
     JDict [(''seq'', JInt seq), (''timestamp'', JInt stamp), (''owner'', JStr owner), (''kind'', kind),
            (''body'', body0)]"

lemma reduce_sequenced_total:
  assumes ok: "engine_ok st" and seq: "seq = last_seq st + 1" "seq \<le> 1001"
    and stamp: "last_timestamp st \<le> stamp" "1 \<le> stamp" "stamp \<le> MAX_TIMESTAMP"
    and owner: "is_identifier owner" "dict_get (accounts st) owner \<noteq> None"
    and body0: "validate body0 kind = Inr b"
  shows "\<exists>st'. reduce_sequenced st (command seq stamp owner kind body0) = Inr st'"
proof -
  have o: "engine_inv {} st" "uncrossed {} st" "seqs_below seq st" "0 < seq" "2 \<le> seq"
    using ok seq by (simp_all add: engine_ok_def)
  let ?s0 = "st\<lparr>last_seq := seq, last_timestamp := stamp\<rparr>" and ?day = "isoformat (utc_day stamp)"
  have inv0: "engine_inv {} ?s0" using o(1) engine_inv_cong[of ?s0 st] by simp
  obtain s1 where s1: "expire ?day ?s0 = Inr s1" "engine_inv {} s1" "evolves ?s0 s1"
    using expire_inv[OF inv0, of ?day] by blast
  have un: "uncrossed {} s1" and sq: "seqs_below seq s1"
    using evolves_uncrossed[OF s1(3)] evolves_seqs_below[OF s1(3)] rows_cong[of ?s0 st] o by auto
  have "owner \<in> owners_of st"
    using owner(2) o(1) dict_get_dom[of "accounts st" owner] by (simp add: engine_inv_def shape_ok_def)
  then have w1: "owner \<in> owners_of s1" using s1(3) keys_cong[of s1 st] by (simp add: evolves_def)
  have "\<exists>st'. (case terms b of None \<Rightarrow> reduce_cancel seq owner b s1
      | Some t \<Rightarrow> reduce_new seq stamp ?day owner b t s1) = Inr st'"
  proof (cases "terms b")
    case None
    then show ?thesis using reduce_cancel_inv[OF s1(2) un sq, of seq owner b] by auto
  next
    case (Some t)
    then have "terms_ok t" using validate_sound[OF body0] by (simp add: body_ok_def)
    then show ?thesis
      using reduce_new_inv[OF s1(2) un sq o(4) _ w1, of t stamp ?day b] Some by auto
  qed
  then show ?thesis
    using seq stamp owner body0 s1(1) o(5)
    by (auto simp: reduce_sequenced_def command_def check_field_def Let_def require_def)
qed

lemma reduce_command_command:
  assumes "kind \<noteq> JStr ''genesis''"
  shows "reduce_command (Some st) (command seq stamp owner kind body0)
    = reduce_sequenced st (command seq stamp owner kind body0)"
  using assms by (simp add: reduce_command_def command_def insert_commute)

lemma reduce_command_header:
  assumes "reduce_command (Some st) c = Inr st'"
  shows "item c ''seq'' = Inr (JInt (last_seq st + 1))"
    "\<exists>stamp. item c ''timestamp'' = Inr (JInt stamp) \<and> last_timestamp st \<le> stamp"
proof -
  obtain d where d: "c = JDict d" using assms by (auto simp: reduce_command_def split: json.splits)
  have "dict_get d ''kind'' \<noteq> Some (JStr ''genesis'')"
    using assms by (auto simp: reduce_command_def d and_then_Inr_iff require_Inr_iff)
  then have "reduce_sequenced st c = Inr st'"
    using assms by (auto simp: reduce_command_def d and_then_Inr_iff)
  then show "item c ''seq'' = Inr (JInt (last_seq st + 1))"
    "\<exists>stamp. item c ''timestamp'' = Inr (JInt stamp) \<and> last_timestamp st \<le> stamp"
    unfolding reduce_sequenced_def and_then_Inr_iff check_field_def check_integer_Inr require_Inr_iff
    by (elim exE conjE, simp)+
qed

section \<open>Bodies on the wire\<close>

definition body_json :: "body \<Rightarrow> json" where
  "body_json b =
     (case terms b of
        None \<Rightarrow> JDict [(''request_id'', JStr (request_id b)), (''order_id'', JStr (order_id b))]
      | Some t \<Rightarrow>
          JDict [(''request_id'', JStr (request_id b)), (''order_id'', JStr (order_id b)),
                 (''symbol'', JStr (t_symbol t)),
                 (''side'', JStr (case t_side t of BUY \<Rightarrow> ''BUY'' | SELL \<Rightarrow> ''SELL'')),
                 (''price'', JInt (t_price t)), (''quantity'', JInt (t_quantity t))])"

definition kind_json :: "body \<Rightarrow> json" where
  "kind_json b = JStr (case terms b of None \<Rightarrow> ''cancel'' | Some t \<Rightarrow> ''new'')"

lemma map_of_sort_key: "dict_ok d \<Longrightarrow> map_of (sort_key f d) = map_of d"
  by (rule map_of_eqI) (auto simp: dict_ok_def distinct_map intro: map_of_eqI)

lemma dict_ok_keep: "dict_ok (map (\<lambda>(k, v). (k, f v)) d) \<longleftrightarrow> dict_ok d"
  by (simp add: dict_ok_def)

lemma item_freeze:
  assumes "dict_ok d"
  shows "item (freeze (JDict d)) k = and_then (item (JDict d) k) (\<lambda>v. Inr (freeze v))"
  using assms by (simp add: map_of_sort_key dict_ok_keep map_of_map_snd split: option.split)

lemma exact_fields_freeze:
  "exact_fields (freeze (JDict d)) names
   = (if fst ` set d = set names then Inr (freeze (JDict d)) else Inl (ValueError ''exact fields required''))"
proof -
  have "fst ` set (sort_key fst (map (\<lambda>(k, v). (k, freeze v)) d)) = fst ` set d" by (force simp: image_iff)
  then show ?thesis by simp
qed

lemma validate_complete:
  assumes "body_ok b"
  shows "validate (body_json b) (kind_json b) = Inr b"
proof (cases "terms b")
  case None
  let ?d = "[(''request_id'', JStr (request_id b)), (''order_id'', JStr (order_id b))]"
  have "dict_ok ?d" by (simp add: dict_ok_def)
  note i = item_freeze[OF this]
  show ?thesis
    using assms None
    by (simp add: validate_def Let_def body_json_def kind_json_def exact_fields_freeze check_field_def i body_ok_def
        del: freeze.simps(2) item.simps(1) exact_fields.simps(1)) simp
next
  case (Some t)
  let ?d = "[(''request_id'', JStr (request_id b)), (''order_id'', JStr (order_id b)),
                 (''symbol'', JStr (t_symbol t)),
                 (''side'', JStr (case t_side t of BUY \<Rightarrow> ''BUY'' | SELL \<Rightarrow> ''SELL'')),
                 (''price'', JInt (t_price t)), (''quantity'', JInt (t_quantity t))]"
  have "dict_ok ?d" by (simp add: dict_ok_def)
  note i = item_freeze[OF this]
  show ?thesis
    using assms Some
    by (simp add: validate_def Let_def body_json_def kind_json_def exact_fields_freeze check_field_def i body_ok_def
        terms_ok_def insert_commute del: freeze.simps(2) item.simps(1) exact_fields.simps(1))
      (cases "t_side t"; simp)
qed

section \<open>A journal\<close>

definition demo_settings :: json where
  "demo_settings = JDict [
     (''symbols'', JList [JStr ''A'']),
     (''accounts'', JDict [
        (''u'', JDict [(''cash'', JInt 100), (''positions'', JDict [])]),
        (''v'', JDict [(''cash'', JInt 0), (''positions'', JDict [(''A'', JInt 5)])])]),
     (''session'', JDict [(''weekdays'', JList [JInt 3]), (''start_minute'', JInt 0), (''end_minute'', JInt 1440)]),
     (''daily_limit'', JInt 10)]"

definition demo_body :: "string \<Rightarrow> side \<Rightarrow> int \<Rightarrow> int \<Rightarrow> body" where
  "demo_body i sd p q = \<lparr>request_id = i, order_id = i,
     terms = Some \<lparr>t_symbol = ''A'', t_side = sd, t_price = p, t_quantity = q\<rparr>\<rparr>"

definition demo_journal :: "json list" where
  "demo_journal =
     [JDict [(''kind'', JStr ''genesis''), (''settings'', demo_settings)],
      command 2 60 ''v'' (JStr ''new'') (body_json (demo_body ''s1'' SELL 10 3)),
      command 3 60 ''u'' (JStr ''new'') (body_json (demo_body ''b1'' BUY 12 4)),
      command 4 60 ''v'' (JStr ''new'') (body_json (demo_body ''s2'' SELL 20 1))]"

lemma demo_replay_facts:
  "map_sum (\<lambda>e. ()) (map_option (\<lambda>st. ((last_seq st, last_timestamp st, length (trades st)),
      s_symbols (st_settings st), map fst (accounts st),
      map (\<lambda>(i, r). (i, o_symbol r, o_side r, o_price r, o_remaining r, o_status r)) (orders st)))) (replay None demo_journal)
   = Inr (Some ((4, 60, 1), [''A''], [''u'', ''v''], [(''s1'', ''A'', SELL, 10, 0, FILLED),
       (''b1'', ''A'', BUY, 12, 1, PARTIAL), (''s2'', ''A'', SELL, 20, 1, OPEN)]))"
  by code_simp

lemma demo_json_ok: "\<forall>c \<in> set demo_journal. json_ok c"
  by code_simp

definition demo_state :: exchange where
  "demo_state = the (projr (replay None demo_journal))"

lemma demo_run: "replay None demo_journal = Inr (Some demo_state)"
  using demo_replay_facts unfolding demo_state_def by (cases "replay None demo_journal") auto

lemma demo_fields:
  "last_seq demo_state = 4" "last_timestamp demo_state = 60" "length (trades demo_state) = 1"
  "s_symbols (st_settings demo_state) = [''A'']" "map fst (accounts demo_state) = [''u'', ''v'']"
  "map (\<lambda>(i, r). (i, o_symbol r, o_side r, o_price r, o_remaining r, o_status r)) (orders demo_state)
      = [(''s1'', ''A'', SELL, 10, 0, FILLED), (''b1'', ''A'', BUY, 12, 1, PARTIAL), (''s2'', ''A'', SELL, 20, 1, OPEN)]"
  using demo_replay_facts unfolding demo_run by simp_all

lemma demo_rows:
  "\<exists>r1 r2 r3. orders demo_state = [(''s1'', r1), (''b1'', r2), (''s2'', r3)] \<and> o_side r1 = SELL \<and>
     o_side r2 = BUY \<and> active r2 \<and> o_symbol r2 = ''A'' \<and> o_side r3 = SELL \<and> active r3 \<and> o_symbol r3 = ''A''"
  using demo_fields(6) by (auto simp: map_eq_Cons_conv active_def)

lemma demo_owner: "dict_get (accounts demo_state) ''u'' \<noteq> None"
  using demo_fields(5) by (auto simp: map_eq_Cons_conv)

lemma replay_ok:
  assumes "replay None cs = Inr (Some st)" "\<forall>c \<in> set cs. json_ok c"
  shows "engine_ok st"
  using replay_reachable[OF assms(1) reach_empty assms(2)] reachable_ok by blast

section \<open>Properties\<close>

text \<open>
  C1.  Replaying any journal of well-formed JSON commands yields a state in which the independent
  audit finds nothing: cash and share supplies are those of the opening settings, every hold is the
  reservation of the open orders, no balance is negative, the order-book index is intact link by
  link, and accounts and orders reconcile with the trades.
\<close>

theorem exchange_audit_clean:
  assumes "replay None cs = Inr (Some st)" "\<forall>c \<in> set cs. json_ok c"
  shows "\<exists>r. audit st = Inr r \<and> a_matches r \<and>
    a_cash_supply r = dict_sum op_cash (s_accounts (st_settings st)) \<and>
    a_share_supply r = map (\<lambda>x. (x, dict_sum (\<lambda>v. dict_get_or (op_positions v) x 0) (s_accounts (st_settings st))))
      (s_symbols (st_settings st))"
  by (rule audit_clean[OF replay_ok[OF assms]])

theorem exchange_audit_clean_witness:
  "replay None demo_journal = Inr (Some demo_state) \<and> length (trades demo_state) = 1 \<and>
   (\<exists>r. audit demo_state = Inr r \<and> a_matches r)"
  using exchange_audit_clean[OF demo_run demo_json_ok] demo_run demo_fields by blast

text \<open>
  C12.  After every command the resting book of a symbol is not crossed: every open bid is priced
  below every open offer, so nothing that could still trade is left resting.
\<close>

theorem exchange_uncrossed:
  assumes "replay None cs = Inr (Some st)" "\<forall>c \<in> set cs. json_ok c"
    and "dict_get (orders st) i = Some bid" "active bid" "o_side bid = BUY"
    and "dict_get (orders st) j = Some ask" "active ask" "o_side ask = SELL" "o_symbol bid = o_symbol ask"
  shows "o_price bid < o_price ask"
proof -
  have "uncrossed {} st" using replay_ok[OF assms(1,2)] by (simp add: engine_ok_def)
  then show ?thesis using assms(3-9) unfolding uncrossed_def by blast
qed

theorem exchange_uncrossed_witness:
  "\<exists>b a. dict_get (orders demo_state) ''b1'' = Some b \<and> dict_get (orders demo_state) ''s2'' = Some a \<and>
     active b \<and> active a \<and> o_price b < o_price a"
proof -
  obtain r1 b a where o: "orders demo_state = [(''s1'', r1), (''b1'', b), (''s2'', a)]" "o_side b = BUY" "active b"
    "o_symbol b = ''A''" "o_side a = SELL" "active a" "o_symbol a = ''A''"
    using demo_rows by auto
  then show ?thesis
    using exchange_uncrossed[OF demo_run demo_json_ok, of "''b1''" b "''s2''" a] by simp
qed

text \<open>
  C11.  Price-time priority: the maker the index offers to an incoming order is an open order of the
  other side such that every other open order there has a strictly worse price, or the same price
  and arrived no earlier; when the index offers none, the other side is empty.
\<close>

theorem exchange_price_time_priority:
  assumes "replay None cs = Inr (Some st)" "\<forall>c \<in> set cs. json_ok c" "x \<in> symbols_of st"
  shows "\<exists>best idx. book_best x sd (book_index st) = Inr (best, idx) \<and>
    (case best of
       None \<Rightarrow> \<forall>j m. dict_get (orders st) j = Some m \<longrightarrow> active m \<longrightarrow> o_symbol m = x \<longrightarrow> o_side m \<noteq> opposite sd
     | Some j \<Rightarrow> \<exists>m. dict_get (orders st) j = Some m \<and> active m \<and> o_symbol m = x \<and> o_side m = opposite sd \<and>
         (\<forall>j' m'. dict_get (orders st) j' = Some m' \<longrightarrow> active m' \<longrightarrow> o_symbol m' = x \<longrightarrow> o_side m' = opposite sd \<longrightarrow>
            sign (opposite sd) * o_price m < sign (opposite sd) * o_price m' \<or>
            o_price m = o_price m' \<and> o_seq m \<le> o_seq m'))"
proof -
  have "engine_inv {} st" using replay_ok[OF assms(1,2)] by (simp add: engine_ok_def)
  from best_maker[OF this assms(3), of sd] show ?thesis
    by (elim exE conjE, intro exI conjI) (assumption, simp split: option.splits, blast)
qed

theorem exchange_price_time_priority_witness:
  "\<exists>idx. book_best ''A'' SELL (book_index demo_state) = Inr (Some ''b1'', idx)"
proof -
  obtain r1 b a where o: "orders demo_state = [(''s1'', r1), (''b1'', b), (''s2'', a)]" "o_side r1 = SELL"
    "o_side b = BUY" "active b" "o_symbol b = ''A''" "o_side a = SELL"
    using demo_rows by auto
  have x: "''A'' \<in> symbols_of demo_state" by (simp add: symbols_of_def demo_fields)
  obtain best idx where run: "book_best ''A'' SELL (book_index demo_state) = Inr (best, idx)"
    and none: "best = None \<Longrightarrow> \<forall>j m. dict_get (orders demo_state) j = Some m \<longrightarrow> active m \<longrightarrow> o_symbol m = ''A'' \<longrightarrow>
      o_side m \<noteq> opposite SELL"
    and some: "\<And>j. best = Some j \<Longrightarrow> \<exists>m. dict_get (orders demo_state) j = Some m \<and> o_side m = opposite SELL"
    using exchange_price_time_priority[OF demo_run demo_json_ok x, of SELL]
    by (elim exE conjE) (fastforce split: option.splits)
  have "dict_get (orders demo_state) ''b1'' = Some b" "o_side b = opposite SELL" using o by simp_all
  then have "best \<noteq> None" using none o(4,5) by blast
  then obtain j where j: "best = Some j" by blast
  then have "j = ''b1''" using some[OF j] o by (auto split: if_splits)
  then show ?thesis using run j by blast
qed

text \<open>
  C13.  Every execution is between two different owners, matches a bid with an offer in the same
  symbol at a price within both limits, and the executions are numbered 1, 2, 3, \<dots> without gaps.
\<close>

theorem exchange_trades_fair:
  assumes "replay None cs = Inr (Some st)" "\<forall>c \<in> set cs. json_ok c" "k < length (trades st)"
  shows "tr_execution_seq (trades st ! k) = int k + 1 \<and> tr_buyer (trades st ! k) \<noteq> tr_seller (trades st ! k) \<and>
    0 < tr_quantity (trades st ! k) \<and>
    (\<exists>bid ask. dict_get (orders st) (tr_buy_order (trades st ! k)) = Some bid \<and>
       dict_get (orders st) (tr_sell_order (trades st ! k)) = Some ask \<and>
       o_owner bid = tr_buyer (trades st ! k) \<and> o_owner ask = tr_seller (trades st ! k) \<and>
       o_side bid = BUY \<and> o_side ask = SELL \<and> o_symbol bid = tr_symbol (trades st ! k) \<and>
       o_symbol ask = tr_symbol (trades st ! k) \<and>
       o_price ask \<le> tr_price (trades st ! k) \<and> tr_price (trades st ! k) \<le> o_price bid)"
proof -
  have ok: "trades_ok st" using engine_okD(5)[OF replay_ok[OF assms(1,2)]] .
  have "map tr_execution_seq (trades st) ! k = map int [1..<Suc (length (trades st))] ! k"
    using ok by (simp only: trades_ok_def)
  then have "tr_execution_seq (trades st ! k) = int k + 1" using assms(3) by (simp del: upt_Suc)
  moreover have "trade_ok st (trades st ! k)" using ok assms(3) by (simp add: trades_ok_def)
  ultimately show ?thesis unfolding trade_ok_def by blast
qed

theorem exchange_trades_fair_witness:
  "0 < length (trades demo_state) \<and> tr_execution_seq (trades demo_state ! 0) = 1 \<and>
   tr_buyer (trades demo_state ! 0) \<noteq> tr_seller (trades demo_state ! 0)"
  using exchange_trades_fair[OF demo_run demo_json_ok, of 0] demo_fields(3) by simp

text \<open>
  C14.  On a reached state every well-formed command with the next sequence number, a timestamp that
  does not go back and a known owner is reduced to a state: no exception, and the matching loop ends
  within its bound of one pass per share of the incoming order.
\<close>

theorem exchange_commands_return:
  assumes "replay None cs = Inr (Some st)" "\<forall>c \<in> set cs. json_ok c"
    and "last_seq st < 1001" "last_timestamp st \<le> stamp" "1 \<le> stamp" "stamp \<le> MAX_TIMESTAMP"
    and "is_identifier owner" "dict_get (accounts st) owner \<noteq> None" "body_ok b"
  shows "\<exists>st'. reduce_command (Some st) (command (last_seq st + 1) stamp owner (kind_json b) (body_json b)) = Inr st' \<and>
    last_seq st' = last_seq st + 1"
proof -
  note ok = replay_ok[OF assms(1,2)]
  have "kind_json b \<noteq> JStr ''genesis''" by (simp add: kind_json_def split: option.split)
  note c = reduce_command_command[OF this]
  have "last_seq st + 1 \<le> 1001" using assms(3) by simp
  then obtain st' where st': "reduce_sequenced st (command (last_seq st + 1) stamp owner (kind_json b) (body_json b)) = Inr st'"
    using reduce_sequenced_total[OF ok refl _ assms(4-8) validate_complete[OF assms(9)]] by blast
  then show ?thesis using reduce_sequenced_inv[OF ok st'] by (simp add: c)
qed

theorem exchange_commands_return_witness:
  "\<exists>st'. reduce_command (Some demo_state) (command 5 60 ''u'' (JStr ''new'') (body_json (demo_body ''b2'' BUY 1 1)))
     = Inr st'"
proof -
  have "body_ok (demo_body ''b2'' BUY 1 1)" "is_identifier ''u''" by code_simp+
  moreover have "kind_json (demo_body ''b2'' BUY 1 1) = JStr ''new''" by (simp add: kind_json_def demo_body_def)
  ultimately show ?thesis
    using exchange_commands_return[OF demo_run demo_json_ok, of 60 "''u''" "demo_body ''b2'' BUY 1 1"] demo_owner
    by (auto simp: MAX_TIMESTAMP_def demo_fields)
qed

text \<open>
  A command never rewrites history: it takes exactly the next sequence number and a timestamp
  that does not go back, existing trades stay as a prefix, every order keeps its terms, fills only
  grow, and a filled or cancelled order never changes again.
\<close>

theorem exchange_history_append_only:
  assumes "replay None cs = Inr (Some st)" "\<forall>c \<in> set cs. json_ok c"
    and "reduce_command (Some st) c = Inr st'" "json_ok c"
  shows "item c ''seq'' = Inr (JInt (last_seq st + 1)) \<and> last_seq st' = last_seq st + 1 \<and>
    (\<exists>stamp. item c ''timestamp'' = Inr (JInt stamp) \<and> last_timestamp st \<le> stamp) \<and>
    st_settings st' = st_settings st \<and> (\<exists>ts. trades st' = trades st @ ts) \<and>
    (\<forall>i r. dict_get (orders st) i = Some r \<longrightarrow>
       (\<exists>r'. dict_get (orders st') i = Some r' \<and> same_terms r r' \<and> o_filled r \<le> o_filled r' \<and>
          (\<not> active r \<longrightarrow> r' = r)))"
proof -
  have ok: "engine_ok s" if "Some st = Some s" for s using replay_ok[OF assms(1,2)] that by simp
  show ?thesis
    using reduce_command_header[OF assms(3)] reduce_command_inv(2,3)[OF ok assms(3,4)] unfolding extends_def by auto
qed

theorem exchange_history_append_only_witness:
  "\<exists>st st'. replay None (take 3 demo_journal) = Inr (Some st) \<and> reduce_command (Some st) (demo_journal ! 3) = Inr st' \<and>
     last_seq st' = last_seq st + 1 \<and> (\<exists>ts. trades st' = trades st @ ts)"
proof -
  have split: "demo_journal = take 3 demo_journal @ [demo_journal ! 3]" by (simp add: demo_journal_def)
  have app: "replay s (xs @ [c]) = and_then (replay s xs) (\<lambda>s'. and_then (reduce_command s' c) (\<lambda>t. Inr (Some t)))" for s xs c
    by (induction xs arbitrary: s) (auto split: sum.splits simp: and_then_case)
  have "and_then (replay None (take 3 demo_journal)) (\<lambda>s'. and_then (reduce_command s' (demo_journal ! 3))
      (\<lambda>t. Inr (Some t))) = Inr (Some demo_state)"
    using app[of None "take 3 demo_journal" "demo_journal ! 3"] split demo_run by simp
  then obtain s where s: "replay None (take 3 demo_journal) = Inr s" "reduce_command s (demo_journal ! 3) = Inr demo_state"
    by (auto simp: and_then_Inr_iff)
  have "s \<noteq> None" using s by (auto simp: demo_journal_def command_def reduce_command_def and_then_case split: sum.splits)
  then obtain s0 where s0: "s = Some s0" by blast
  have j: "\<forall>c \<in> set (take 3 demo_journal). json_ok c" "json_ok (demo_journal ! 3)"
    using demo_json_ok by (auto simp: demo_journal_def)
  show ?thesis using exchange_history_append_only[OF s(1)[unfolded s0] j(1) s(2)[unfolded s0] j(2)] s s0 by blast
qed

text \<open>
  C32.  The depth the index reports for a symbol is, price by price, the depth a scan over all orders
  computes (the code's path for states without an index).
\<close>

theorem exchange_depth_equivalent:
  assumes "replay None cs = Inr (Some st)" "\<forall>c \<in> set cs. json_ok c" "x \<in> set (s_symbols (st_settings st))"
  shows "\<exists>bids asks. book st x = Inr (bids, asks) \<and>
    (\<forall>p. dict_get bids p = dict_get (fst (book_unindexed st x)) p) \<and>
    (\<forall>p. dict_get asks p = dict_get (snd (book_unindexed st x)) p)"
proof -
  obtain bids asks where b: "book st x = Inr (bids, asks)"
    "\<And>sd p. dict_get (pick_side sd (bids, asks)) p = dict_get (pick_side sd (book_unindexed st x)) p"
    using book_levels_orders[OF replay_ok[OF assms(1,2)], of x] assms(3) by (auto simp: symbols_of_def)
  from b(1) b(2)[of BUY] b(2)[of SELL] show ?thesis by (auto simp: pick_side_def)
qed

theorem exchange_depth_equivalent_witness:
  "\<exists>bids asks. book demo_state ''A'' = Inr (bids, asks) \<and>
     dict_get bids 12 = dict_get (fst (book_unindexed demo_state ''A'')) 12"
  using exchange_depth_equivalent[OF demo_run demo_json_ok, of "''A''"] demo_fields(4) by auto

text \<open>
  Validation of an order body is exact: the wire form of every well-formed body is accepted and
  read back unchanged, and whatever is accepted is well formed and of the announced kind.
\<close>

theorem order_body_roundtrip:
  "(body_ok b \<longrightarrow> validate (body_json b) (kind_json b) = Inr b) \<and>
   (validate v kind = Inr b' \<longrightarrow> body_ok b' \<and> kind = kind_json b')"
  using validate_complete validate_sound[of v kind b'] by (auto simp: kind_json_def split: option.split)

theorem order_body_roundtrip_witness:
  "validate (body_json (demo_body ''b2'' BUY 1 1)) (kind_json (demo_body ''b2'' BUY 1 1)) = Inr (demo_body ''b2'' BUY 1 1)"
proof -
  have "body_ok (demo_body ''b2'' BUY 1 1)" by code_simp
  then show ?thesis using order_body_roundtrip[of "demo_body ''b2'' BUY 1 1"] by blast
qed

end
