(* ===== verification/Bytes.thy ===== *)
theory Bytes
  imports Prelude "HOL-Library.Word" "HOL-Library.List_Lexorder"
begin

text \<open>
  Byte strings and what the storage code uses of the standard library on them: \<^verbatim>\<open>struct\<close> packing
  of little-endian unsigned integers with its range errors, slices, strict UTF-8 decoding, the
  IEEE 754 order on doubles read from their bit patterns, and CRC-32.  A Python \<^verbatim>\<open>str\<close> is
  represented by its UTF-8 encoding, whose bytewise order is the code point order of \<^verbatim>\<open>str\<close>, so
  encoding is the identity and decoding is the validity check.
\<close>

type_synonym byte = "8 word"
type_synonym bytes = "8 word list"

section \<open>Little-endian integers\<close>

fun le_bytes :: "nat \<Rightarrow> nat \<Rightarrow> bytes" where
  "le_bytes 0 x = []"
| "le_bytes (Suc n) x = of_nat x # le_bytes n (x div 256)"

primrec le_nat :: "bytes \<Rightarrow> nat" where
  "le_nat [] = 0"
| "le_nat (b # bs) = unat b + 256 * le_nat bs"

lemma length_le_bytes [simp]: "length (le_bytes n x) = n"
  by (induction n x rule: le_bytes.induct) simp_all

lemma unat_byte: "unat (of_nat x :: byte) = x mod 256"
  by (simp add: unat_of_nat)

lemma le_nat_le_bytes [simp]: "le_nat (le_bytes n x) = x mod 256 ^ n"
proof (induction n x rule: le_bytes.induct)
  case (2 n x)
  have "x mod 256 + 256 * (x div 256 mod 256 ^ n) = x mod (256 * 256 ^ n)"
    by (simp add: mod_mult2_eq)
  with 2 show ?case by (simp add: unat_byte)
qed simp

lemma le_bytes_le_nat [simp]: "le_bytes (length bs) (le_nat bs) = bs"
proof (induction bs)
  case (Cons b bs)
  have b: "unat b < 256" using unsigned_less[of b, where ?'a = nat] by simp
  have z: "(of_nat (256 * le_nat bs) :: byte) = 0"
    by (simp only: word_of_nat_eq_0_iff) simp
  have "(of_nat (unat b + 256 * le_nat bs) :: byte) = of_nat (unat b) + of_nat (256 * le_nat bs)"
    by (rule of_nat_add)
  then have h: "(of_nat (unat b + 256 * le_nat bs) :: byte) = b" using z by simp
  have "(unat b + 256 * le_nat bs) div 256 = le_nat bs" using b by simp
  then show ?case using Cons h by simp
qed simp

lemma le_nat_less: "le_nat bs < 256 ^ length bs"
proof (induction bs)
  case (Cons b bs)
  have "unat b < 256" using unsigned_less[of b, where ?'a = nat] by simp
  with Cons show ?case by simp
qed simp

lemma le_nat_append: "le_nat (xs @ ys) = le_nat xs + 256 ^ length xs * le_nat ys"
  by (induction xs) (simp_all add: algebra_simps)

section \<open>struct\<close>

text \<open>
  \<^verbatim>\<open>struct.pack\<close> of one unsigned field of \<open>n\<close> bytes, and \<^verbatim>\<open>struct.unpack_from\<close> of one such field,
  which fails when fewer than \<open>n\<close> bytes remain.
\<close>

definition struct_pack :: "nat \<Rightarrow> nat \<Rightarrow> bytes result" where
  "struct_pack n x = (if x < 256 ^ n then Inr (le_bytes n x) else Inl StructError)"

definition unpack_from :: "nat \<Rightarrow> bytes \<Rightarrow> nat \<Rightarrow> nat result" where
  "unpack_from n data pos =
     (if pos + n \<le> length data then Inr (le_nat (take n (drop pos data))) else Inl StructError)"

text \<open>The slice \<^verbatim>\<open>data[a:b]\<close> for indices that are not negative.\<close>

definition slice :: "bytes \<Rightarrow> nat \<Rightarrow> nat \<Rightarrow> bytes" where
  "slice data a b = take (b - a) (drop a data)"

lemma struct_pack_Inr_iff [result_simps]:
  "struct_pack n x = Inr bs \<longleftrightarrow> x < 256 ^ n \<and> bs = le_bytes n x"
  by (auto simp: struct_pack_def)

lemma struct_pack_ok [simp]: "x < 256 ^ n \<Longrightarrow> struct_pack n x = Inr (le_bytes n x)"
  by (simp add: struct_pack_def)

text \<open>Reading a field that was appended at a known offset.\<close>

lemma unpack_from_at:
  "pos = length xs \<Longrightarrow> n = length f \<Longrightarrow> unpack_from n (xs @ f @ ys) pos = Inr (le_nat f)"
  by (simp add: unpack_from_def)

lemma slice_at:
  "a = length xs \<Longrightarrow> b = a + length f \<Longrightarrow> slice (xs @ f @ ys) a b = f"
  by (simp add: slice_def)

lemma unpack_from_append:
  "unpack_from n data pos = Inr v \<Longrightarrow> unpack_from n (data @ ys) pos = Inr v"
  by (auto simp: unpack_from_def split: if_splits)

lemma unpack_from_Inr_bound: "unpack_from n data pos = Inr v \<Longrightarrow> pos + n \<le> length data"
  by (simp add: unpack_from_def split: if_splits)

section \<open>UTF-8\<close>

definition in_range :: "nat \<Rightarrow> nat \<Rightarrow> byte \<Rightarrow> bool" where
  "in_range lo hi b \<longleftrightarrow> lo \<le> unat b \<and> unat b \<le> hi"

text \<open>Well-formed UTF-8: no overlong form, no surrogate, nothing above U+10FFFF.\<close>

fun utf8_ok :: "bytes \<Rightarrow> bool" where
  "utf8_ok [] = True"
| "utf8_ok (a # r) =
     (if in_range 0 127 a then utf8_ok r
      else case r of
        b # r1 \<Rightarrow>
          if in_range 194 223 a then in_range 128 191 b \<and> utf8_ok r1
          else (case r1 of
            c # r2 \<Rightarrow>
              if in_range 224 239 a then
                in_range (if unat a = 224 then 160 else 128) (if unat a = 237 then 159 else 191) b
                \<and> in_range 128 191 c \<and> utf8_ok r2
              else (case r2 of
                d # r3 \<Rightarrow>
                  in_range 240 244 a
                  \<and> in_range (if unat a = 240 then 144 else 128) (if unat a = 244 then 143 else 191) b
                  \<and> in_range 128 191 c \<and> in_range 128 191 d \<and> utf8_ok r3
              | [] \<Rightarrow> False)
          | [] \<Rightarrow> False)
      | [] \<Rightarrow> False)"

definition decode_utf8 :: "bytes \<Rightarrow> bytes result" where
  "decode_utf8 bs = (if utf8_ok bs then Inr bs else Inl UnicodeDecodeError)"

lemma decode_utf8_ok [simp]: "utf8_ok bs \<Longrightarrow> decode_utf8 bs = Inr bs"
  by (simp add: decode_utf8_def)

lemma decode_utf8_Inr_iff [result_simps]: "decode_utf8 bs = Inr s \<longleftrightarrow> utf8_ok bs \<and> s = bs"
  by (auto simp: decode_utf8_def)

lemma utf8_ok_ascii: "\<forall>b\<in>set bs. unat b < 128 \<Longrightarrow> utf8_ok bs"
  by (induction bs) (auto simp: in_range_def)

section \<open>Doubles\<close>

text \<open>
  A double is its 64-bit pattern.  For patterns that are not NaN the IEEE comparison is the
  comparison of sign and magnitude, with both zeros equal.
\<close>

type_synonym float64 = "64 word"

definition float_key :: "float64 \<Rightarrow> int" where
  "float_key w = (if unat w < 2 ^ 63 then int (unat w) else 2 ^ 63 - int (unat w))"

definition float_nan :: "float64 \<Rightarrow> bool" where
  "float_nan w \<longleftrightarrow> unat w mod 2 ^ 63 > 0x7FF0000000000000"

definition float_finite :: "float64 \<Rightarrow> bool" where
  "float_finite w \<longleftrightarrow> unat w mod 2 ^ 63 < 0x7FF0000000000000"

definition float_lt :: "float64 \<Rightarrow> float64 \<Rightarrow> bool" where
  "float_lt a b \<longleftrightarrow> \<not> float_nan a \<and> \<not> float_nan b \<and> float_key a < float_key b"

definition float_le :: "float64 \<Rightarrow> float64 \<Rightarrow> bool" where
  "float_le a b \<longleftrightarrow> \<not> float_nan a \<and> \<not> float_nan b \<and> float_key a \<le> float_key b"

definition float_bytes :: "float64 \<Rightarrow> bytes" where
  "float_bytes w = le_bytes 8 (unat w)"

definition unpack_float :: "bytes \<Rightarrow> nat \<Rightarrow> float64 result" where
  "unpack_float data pos = and_then (unpack_from 8 data pos) (\<lambda>n. Inr (of_nat n))"

lemma length_float_bytes [simp]: "length (float_bytes w) = 8"
  by (simp add: float_bytes_def)

lemma of_nat_float_bytes [simp]: "(of_nat (le_nat (float_bytes w)) :: float64) = w"
proof -
  have "unat w < 256 ^ 8" using unsigned_less[of w, where ?'a = nat] by simp
  then show ?thesis by (simp add: float_bytes_def del: le_bytes.simps)
qed

lemma unpack_float_at:
  "pos = length xs \<Longrightarrow> unpack_float (xs @ float_bytes w @ ys) pos = Inr w"
  by (simp add: unpack_float_def unpack_from_at)

section \<open>CRC-32\<close>

definition crc_bit :: "32 word \<Rightarrow> 32 word" where
  "crc_bit c = (if bit c 0 then xor (drop_bit 1 c) 0xEDB88320 else drop_bit 1 c)"

definition crc_byte :: "32 word \<Rightarrow> byte \<Rightarrow> 32 word" where
  "crc_byte c b = (crc_bit ^^ 8) (xor c (ucast b))"

definition crc32 :: "bytes \<Rightarrow> nat" where
  "crc32 bs = unat (not (foldl crc_byte 0xFFFFFFFF bs))"

lemma crc32_less: "crc32 bs < 256 ^ 4"
  using unsigned_less[of "not (foldl crc_byte 0xFFFFFFFF bs)", where ?'a = nat] by (simp add: crc32_def)

end
