(* ===== verification/KV_Memtable.thy ===== *)
theory KV_Memtable
  imports Bytes
begin

text \<open>
  The in-memory table of the key-value store (\<^verbatim>\<open>key-value-store/src/kv_store/storage/memtable.py\<close>):
  its entries, the size accounting and the last-writer-wins rule.  The entry record is shared with
  the on-disk tables, whose entries have the same fields.
\<close>

section \<open>State and operations\<close>

record MemTableEntry =
  entry_key :: bytes
  entry_value :: "bytes option"
  entry_timestamp :: float64
  entry_tombstone :: bool

type_synonym SSTableEntry = MemTableEntry

record MemTable =
  mt_entries :: "(bytes, MemTableEntry) dict"
  mt_threshold :: int
  mt_size :: int

definition ENTRY_OVERHEAD_BYTES :: int where
  "ENTRY_OVERHEAD_BYTES = 64"

definition entry_size :: "MemTableEntry \<Rightarrow> int" where
  "entry_size e =
     int (length (entry_key e))
     + (case entry_value e of None \<Rightarrow> 0 | Some v \<Rightarrow> int (length v)) + ENTRY_OVERHEAD_BYTES"

definition memtable_init :: "int \<Rightarrow> MemTable" where
  "memtable_init threshold = \<lparr>mt_entries = [], mt_threshold = threshold, mt_size = 0\<rparr>"

text \<open>The shared body of the two writes: the guard on the timestamp and the size accounting.\<close>

definition memtable_write :: "MemTableEntry \<Rightarrow> MemTable \<Rightarrow> MemTable" where
  "memtable_write e mt =
     (case dict_get (mt_entries mt) (entry_key e) of
        Some old \<Rightarrow>
          if float_lt (entry_timestamp e) (entry_timestamp old) then mt
          else mt\<lparr>mt_entries := dict_set (entry_key e) e (mt_entries mt),
                  mt_size := mt_size mt - entry_size old + entry_size e\<rparr>
      | None \<Rightarrow>
          mt\<lparr>mt_entries := dict_set (entry_key e) e (mt_entries mt),
             mt_size := mt_size mt + entry_size e\<rparr>)"

definition memtable_put :: "bytes \<Rightarrow> bytes \<Rightarrow> float64 \<Rightarrow> MemTable \<Rightarrow> MemTable" where
  "memtable_put k v ts mt =
     memtable_write
       \<lparr>entry_key = k, entry_value = Some v, entry_timestamp = ts, entry_tombstone = False\<rparr> mt"

definition memtable_delete :: "bytes \<Rightarrow> float64 \<Rightarrow> MemTable \<Rightarrow> MemTable" where
  "memtable_delete k ts mt =
     memtable_write
       \<lparr>entry_key = k, entry_value = None, entry_timestamp = ts, entry_tombstone = True\<rparr> mt"

definition memtable_get :: "MemTable \<Rightarrow> bytes \<Rightarrow> MemTableEntry option" where
  "memtable_get mt k = dict_get (mt_entries mt) k"

definition is_full :: "MemTable \<Rightarrow> bool" where
  "is_full mt \<longleftrightarrow> mt_size mt \<ge> mt_threshold mt"

definition entries_sorted :: "MemTable \<Rightarrow> MemTableEntry list" where
  "entries_sorted mt = map (\<lambda>k. the (dict_get (mt_entries mt) k)) (sort (map fst (mt_entries mt)))"

definition memtable_clear :: "MemTable \<Rightarrow> MemTable" where
  "memtable_clear mt = mt\<lparr>mt_entries := [], mt_size := 0\<rparr>"

definition memtable_len :: "MemTable \<Rightarrow> nat" where
  "memtable_len mt = length (mt_entries mt)"

section \<open>Invariant\<close>

definition entry_ok :: "MemTableEntry \<Rightarrow> bool" where
  "entry_ok e \<longleftrightarrow> entry_tombstone e = (entry_value e = None)"

definition memtable_inv :: "MemTable \<Rightarrow> bool" where
  "memtable_inv mt \<longleftrightarrow>
     dict_ok (mt_entries mt)
     \<and> (\<forall>(k, e) \<in> set (mt_entries mt). entry_key e = k \<and> entry_ok e)
     \<and> mt_size mt = dict_sum entry_size (mt_entries mt)"

lemma memtable_inv_init [simp]: "memtable_inv (memtable_init n)"
  by (simp add: memtable_inv_def memtable_init_def)

lemma memtable_inv_clear [simp]: "memtable_inv (memtable_clear mt)"
  by (simp add: memtable_inv_def memtable_clear_def)

lemma memtable_inv_write:
  assumes "memtable_inv mt" "entry_ok e"
  shows "memtable_inv (memtable_write e mt)"
  using assms set_dict_set[of "entry_key e" e "mt_entries mt"]
  by (auto simp: memtable_inv_def memtable_write_def dict_simps split: option.splits)

lemma memtable_inv_put [simp]: "memtable_inv mt \<Longrightarrow> memtable_inv (memtable_put k v ts mt)"
  by (simp add: memtable_put_def memtable_inv_write entry_ok_def)

lemma memtable_inv_delete [simp]: "memtable_inv mt \<Longrightarrow> memtable_inv (memtable_delete k ts mt)"
  by (simp add: memtable_delete_def memtable_inv_write entry_ok_def)

section \<open>Last writer wins\<close>

text \<open>The entry a write leaves under its key: the stored one when it is strictly newer.\<close>

definition newer :: "MemTableEntry \<Rightarrow> MemTableEntry option \<Rightarrow> MemTableEntry" where
  "newer e old =
     (case old of None \<Rightarrow> e
      | Some o' \<Rightarrow> if float_lt (entry_timestamp e) (entry_timestamp o') then o' else e)"

lemma memtable_get_write:
  "memtable_get (memtable_write e mt) k
   = (if k = entry_key e then Some (newer e (memtable_get mt k)) else memtable_get mt k)"
  by (auto simp: memtable_get_def memtable_write_def newer_def dict_simps split: option.splits)

lemma mt_threshold_write [simp]: "mt_threshold (memtable_write e mt) = mt_threshold mt"
  by (simp add: memtable_write_def split: option.splits)

lemma memtable_get_key:
  "memtable_inv mt \<Longrightarrow> memtable_get mt k = Some e \<Longrightarrow> entry_key e = k \<and> entry_ok e"
  by (auto simp: memtable_inv_def memtable_get_def dest: map_of_SomeD)

lemma entries_sorted_keys:
  assumes "memtable_inv mt"
  shows "map entry_key (entries_sorted mt) = sort (map fst (mt_entries mt))"
proof -
  have "entry_key (the (dict_get (mt_entries mt) k)) = k" if k: "k \<in> fst ` set (mt_entries mt)" for k
    using memtable_get_key[OF assms, of k] k
    by (auto simp: memtable_get_def simp flip: dict_get_dom)
  then show ?thesis by (auto simp: entries_sorted_def intro: map_idI)
qed

lemma entries_sorted_strict:
  assumes "memtable_inv mt"
  shows "sorted_wrt (<) (map entry_key (entries_sorted mt))"
  using assms
  by (simp add: entries_sorted_keys strict_sorted_iff) (simp add: memtable_inv_def dict_ok_def)

lemma set_entries_sorted:
  assumes "memtable_inv mt"
  shows "e \<in> set (entries_sorted mt) \<longleftrightarrow> memtable_get mt (entry_key e) = Some e"
proof
  assume "e \<in> set (entries_sorted mt)"
  then obtain k where "k \<in> fst ` set (mt_entries mt)" "e = the (dict_get (mt_entries mt) k)"
    by (auto simp: entries_sorted_def)
  then have "memtable_get mt k = Some e"
    by (auto simp: memtable_get_def simp flip: dict_get_dom)
  then show "memtable_get mt (entry_key e) = Some e"
    using memtable_get_key[OF assms] by auto
next
  assume get: "memtable_get mt (entry_key e) = Some e"
  then have "entry_key e \<in> fst ` set (mt_entries mt)"
    unfolding memtable_get_def by (metis dict_get_dom option.distinct(1))
  moreover have "e = the (dict_get (mt_entries mt) (entry_key e))"
    using get by (simp add: memtable_get_def)
  ultimately show "e \<in> set (entries_sorted mt)"
    unfolding entries_sorted_def set_map set_sort by (rule image_eqI[rotated])
qed

lemma length_entries_sorted [simp]: "length (entries_sorted mt) = memtable_len mt"
  by (simp add: entries_sorted_def memtable_len_def)

end
