(* ===== verification/KV_Bloom.thy ===== *)
theory KV_Bloom
  imports Bytes Complex_Main
begin

text \<open>
  The Bloom filter of the on-disk tables
  (\<^verbatim>\<open>key-value-store/src/kv_store/storage/bloom_filter.py\<close>): double hashing into a byte array,
  the arithmetic that sizes the filter, insertion, membership and the binary format.  The two
  digests, \<^verbatim>\<open>math.log\<close> and the rounding of a double operation are parameters (\<open>bloom_env\<close>).  Only the
  bounds on the size of a filter assume something of them, \<open>double_arithmetic\<close>.
\<close>

section \<open>Filter and hashing\<close>

record bloom_env =
  md5 :: "bytes \<Rightarrow> bytes"
  sha256 :: "bytes \<Rightarrow> bytes"
  math_log :: "float64 \<Rightarrow> real"
  rounded :: "real \<Rightarrow> real"

record BloomFilter =
  bf_expected :: int
  bf_rate :: float64
  bf_size_bits :: nat
  bf_hashes :: nat
  bf_bits :: bytes

definition FORMAT_VERSION :: nat where
  "FORMAT_VERSION = 1"

definition DEFAULT_RATE :: float64 where
  "DEFAULT_RATE = 0x3F847AE147AE147B"

text \<open>
  The optimal size and number of hash functions.  The value of a double is the real number it
  stands for and every operation is rounded; \<open>0x4000000000000000\<close> is the double 2.  Python's \<^verbatim>\<open>round\<close>
  takes the even neighbour of a tie.
\<close>

definition ln2 :: "bloom_env \<Rightarrow> real" where
  "ln2 env = math_log env 0x4000000000000000"

definition optimal_bits :: "bloom_env \<Rightarrow> int \<Rightarrow> float64 \<Rightarrow> int" where
  "optimal_bits env n rate =
     \<lceil>rounded env (rounded env (real_of_int (- n) * math_log env rate) / rounded env (ln2 env * ln2 env))\<rceil>"

definition py_round :: "real \<Rightarrow> int" where
  "py_round x = (if x - of_int \<lfloor>x\<rfloor> < 1 / 2 \<or> (x - of_int \<lfloor>x\<rfloor> = 1 / 2 \<and> even \<lfloor>x\<rfloor>) then \<lfloor>x\<rfloor> else \<lfloor>x\<rfloor> + 1)"

definition optimal_hashes :: "bloom_env \<Rightarrow> int \<Rightarrow> int \<Rightarrow> int" where
  "optimal_hashes env m n = py_round (rounded env (rounded env (real_of_int m / real_of_int n) * ln2 env))"

definition bloom_init :: "bloom_env \<Rightarrow> int \<Rightarrow> float64 \<Rightarrow> BloomFilter result" where
  "bloom_init env n rate =
     (if n < 1 then Inl (ValueError ''expected_items must be at least 1'')
      else if \<not> (float_lt 0 rate \<and> float_lt rate 0x3FF0000000000000) then
        Inl (ValueError ''false_positive_rate must be between 0 and 1 (exclusive)'')
      else
        let size = max 1 (optimal_bits env n rate);
            k = max 1 (optimal_hashes env size n)
        in Inr \<lparr>bf_expected = n, bf_rate = rate, bf_size_bits = nat size, bf_hashes = nat k,
               bf_bits = replicate (nat ((size + 7) div 8)) 0\<rparr>)"

definition get_hash_values :: "bloom_env \<Rightarrow> bytes \<Rightarrow> nat \<times> nat" where
  "get_hash_values env key =
     (le_nat (slice (md5 env key) 0 8), le_nat (slice (sha256 env key) 0 8))"

definition get_bit_positions :: "bloom_env \<Rightarrow> BloomFilter \<Rightarrow> bytes \<Rightarrow> nat list result" where
  "get_bit_positions env bf key =
     (let (hash1, hash2) = get_hash_values env key
      in if bf_size_bits bf = 0 \<and> bf_hashes bf > 0 then Inl ZeroDivisionError
         else Inr (map (\<lambda>i. (hash1 + i * hash2) mod bf_size_bits bf) [0..<bf_hashes bf]))"

definition set_bit_at :: "nat \<Rightarrow> BloomFilter \<Rightarrow> BloomFilter result" where
  "set_bit_at pos bf =
     (let i = pos div 8 in
      if i < length (bf_bits bf) then
        Inr (bf\<lparr>bf_bits := (bf_bits bf)[i := or (bf_bits bf ! i) (push_bit (pos mod 8) 1)]\<rparr>)
      else Inl IndexError)"

definition get_bit_at :: "BloomFilter \<Rightarrow> nat \<Rightarrow> bool result" where
  "get_bit_at bf pos =
     (let i = pos div 8 in
      if i < length (bf_bits bf) then
        Inr (and (bf_bits bf ! i) (push_bit (pos mod 8) 1) \<noteq> 0)
      else Inl IndexError)"

fun set_bits :: "nat list \<Rightarrow> BloomFilter \<Rightarrow> BloomFilter result" where
  "set_bits [] bf = Inr bf"
| "set_bits (p # ps) bf = and_then (set_bit_at p bf) (set_bits ps)"

definition bloom_add :: "bloom_env \<Rightarrow> bytes \<Rightarrow> BloomFilter \<Rightarrow> BloomFilter result" where
  "bloom_add env key bf = and_then (get_bit_positions env bf key) (\<lambda>ps. set_bits ps bf)"

fun all_bits :: "BloomFilter \<Rightarrow> nat list \<Rightarrow> bool result" where
  "all_bits bf [] = Inr True"
| "all_bits bf (p # ps) =
     and_then (get_bit_at bf p) (\<lambda>b. if \<not> b then Inr False else all_bits bf ps)"

definition might_contain :: "bloom_env \<Rightarrow> BloomFilter \<Rightarrow> bytes \<Rightarrow> bool result" where
  "might_contain env bf key = and_then (get_bit_positions env bf key) (all_bits bf)"

fun bloom_add_all :: "bloom_env \<Rightarrow> bytes list \<Rightarrow> BloomFilter \<Rightarrow> BloomFilter result" where
  "bloom_add_all env [] bf = Inr bf"
| "bloom_add_all env (k # ks) bf = and_then (bloom_add env k bf) (bloom_add_all env ks)"

section \<open>Binary format\<close>

definition bloom_serialize :: "BloomFilter \<Rightarrow> bytes result" where
  "bloom_serialize bf =
     and_then (struct_pack 1 FORMAT_VERSION) (\<lambda>version.
     and_then (struct_pack 4 (nat (bf_expected bf))) (\<lambda>expected.
     and_then (struct_pack 4 (bf_size_bits bf)) (\<lambda>size.
     and_then (struct_pack 2 (bf_hashes bf)) (\<lambda>hashes.
     and_then (struct_pack 4 (length (bf_bits bf))) (\<lambda>len.
       Inr (version @ expected @ float_bytes (bf_rate bf) @ size @ hashes @ len @ bf_bits bf))))))"

definition bloom_deserialize :: "bytes \<Rightarrow> BloomFilter result" where
  "bloom_deserialize data =
     (if length data < 23 then
        Inl (ValueError ''Data too short to contain a valid Bloom filter header'')
      else
        and_then (unpack_from 1 data 0) (\<lambda>version.
        and_then (unpack_from 4 data 1) (\<lambda>expected.
        and_then (unpack_float data 5) (\<lambda>rate.
        and_then (unpack_from 4 data 13) (\<lambda>size.
        and_then (unpack_from 2 data 17) (\<lambda>hashes.
        and_then (unpack_from 4 data 19) (\<lambda>len.
          if version \<noteq> FORMAT_VERSION then
            Inl (ValueError ''Unsupported Bloom filter format version'')
          else if length data < 23 + len then
            Inl (ValueError ''Data too short to contain the full bit array'')
          else Inr \<lparr>bf_expected = int expected, bf_rate = rate, bf_size_bits = size,
                    bf_hashes = hashes, bf_bits = slice data 23 (23 + len)\<rparr>)))))))"

section \<open>Size of the filter\<close>

text \<open>
  What IEEE arithmetic and \<^verbatim>\<open>math.log\<close> promise, with room to spare: a rounded result is within a
  relative error of \<open>2 ^ -50\<close>, and the two logarithms the sizing takes are within \<open>2 ^ -40\<close> of
  \<open>ln 2\<close> and of \<open>ln 0.01\<close>.
\<close>

definition double_arithmetic :: "bloom_env \<Rightarrow> bool" where
  "double_arithmetic env \<longleftrightarrow>
     (\<forall>x. 1 / 4 \<le> \<bar>x\<bar> \<and> \<bar>x\<bar> \<le> 2 ^ 64 \<longrightarrow> \<bar>rounded env x - x\<bar> \<le> \<bar>x\<bar> / 2 ^ 50) \<and>
     \<bar>math_log env 0x4000000000000000 - ln 2\<bar> \<le> 1 / 2 ^ 40 \<and> \<bar>math_log env DEFAULT_RATE + ln 100\<bar> \<le> 1 / 2 ^ 40"

lemma ln_2_bounds: "17 / 25 \<le> ln (2 :: real)" "ln (2 :: real) \<le> 7 / 10"
proof -
  have "(1 + (7 / 10 :: real) / real 64) ^ 64 \<le> exp (7 / 10)" by (rule exp_ge_one_plus_x_over_n_power_n) simp_all
  moreover have "(2 :: real) \<le> (1 + (7 / 10) / real 64) ^ 64" by (simp add: power_divide)
  ultimately have "(2 :: real) \<le> exp (7 / 10)" by (rule order_trans[rotated])
  then show "ln (2 :: real) \<le> 7 / 10" by (metis ln_exp ln_le_cancel_iff exp_gt_zero zero_less_numeral)
  have "(1 - (17 / 25 :: real) / real 64) ^ 64 \<le> exp (- (17 / 25))" by (rule exp_ge_one_minus_x_over_n_power_n) simp_all
  moreover have "(1 / 2 :: real) \<le> (1 - (17 / 25) / real 64) ^ 64" by (simp add: power_divide)
  ultimately have "(1 / 2 :: real) \<le> exp (- (17 / 25))" by (rule order_trans[rotated])
  then have "exp (17 / 25) \<le> (2 :: real)" by (simp add: exp_minus field_simps)
  then show "17 / 25 \<le> ln (2 :: real)" by (metis ln_exp ln_le_cancel_iff exp_gt_zero zero_less_numeral)
qed

lemma ln_100_bounds: "33 / 5 * ln 2 \<le> ln (100 :: real)" "ln (100 :: real) \<le> 20 / 3 * ln 2"
proof -
  have "ln (2 ^ 33 :: real) \<le> ln (100 ^ 5)" "ln (100 ^ 3 :: real) \<le> ln (2 ^ 20)" by simp_all
  then have "33 * ln 2 \<le> 5 * ln (100 :: real)" "3 * ln (100 :: real) \<le> 20 * ln 2"
    by (simp_all only: ln_realpow zero_less_numeral of_nat_numeral)
  then show "33 / 5 * ln 2 \<le> ln (100 :: real)" "ln (100 :: real) \<le> 20 / 3 * ln 2" by simp_all
qed

lemma rounded_bounds:
  assumes "double_arithmetic env" "lo \<le> x" "x \<le> hi" "1 / 4 \<le> lo" "hi \<le> 2 ^ 64"
  shows "999 / 1000 * lo \<le> rounded env x" "rounded env x \<le> 1001 / 1000 * hi"
proof -
  have x: "1 / 4 \<le> \<bar>x\<bar>" "\<bar>x\<bar> \<le> 2 ^ 64" "\<bar>x\<bar> = x" using assms(2-5) by simp_all
  then have "\<bar>rounded env x - x\<bar> \<le> \<bar>x\<bar> / 2 ^ 50" using assms(1) unfolding double_arithmetic_def by blast
  also have "\<dots> \<le> x / 1000" using x by simp
  finally have r: "rounded env x \<le> x + x / 1000" "x - x / 1000 \<le> rounded env x" by linarith+
  show "999 / 1000 * lo \<le> rounded env x" using r(2) assms(2) by simp
  show "rounded env x \<le> 1001 / 1000 * hi" using r(1) assms(3) by simp
qed

lemma ln2_bounds:
  assumes "double_arithmetic env"
  shows "679 / 1000 \<le> ln2 env" "ln2 env \<le> 701 / 1000"
proof -
  have "\<bar>ln2 env - ln 2\<bar> \<le> 1 / 2 ^ 40" using assms by (simp add: double_arithmetic_def ln2_def)
  then have "\<bar>ln2 env - ln 2\<bar> \<le> 1 / 1000" by (rule order_trans) simp
  then show "679 / 1000 \<le> ln2 env" "ln2 env \<le> 701 / 1000" using ln_2_bounds by linarith+
qed

text \<open>A filter for \<open>n\<close> keys has between 9 and 10.3 bits per key, and few hash functions.\<close>

lemma optimal_bits_bounds:
  assumes env: "double_arithmetic env" and n: "1 \<le> n" "n < 2 ^ 32"
  shows "9 * real_of_int n \<le> real_of_int (optimal_bits env n DEFAULT_RATE)"
    "real_of_int (optimal_bits env n DEFAULT_RATE) \<le> 103 / 10 * real_of_int n + 1"
proof -
  let ?x = "real_of_int n" and ?l = "ln2 env"
  have x: "1 \<le> ?x" "?x \<le> 2 ^ 32" using n by simp_all
  let ?p = "- math_log env DEFAULT_RATE"
  have "\<bar>math_log env DEFAULT_RATE + ln 100\<bar> \<le> 1 / 2 ^ 40" using env by (simp add: double_arithmetic_def)
  then have "\<bar>math_log env DEFAULT_RATE + ln 100\<bar> \<le> 1 / 1000" by (rule order_trans) simp
  then have p: "4487 / 1000 \<le> ?p" "?p \<le> 4668 / 1000" using ln_2_bounds ln_100_bounds by linarith+
  have "?x * (4487 / 1000) \<le> ?x * ?p" "?x * ?p \<le> ?x * (4668 / 1000)" using x p by (intro mult_left_mono; simp)+
  then have a: "4482 / 1000 * ?x \<le> rounded env (real_of_int (- n) * math_log env DEFAULT_RATE)"
    "rounded env (real_of_int (- n) * math_log env DEFAULT_RATE) \<le> 4673 / 1000 * ?x"
    using rounded_bounds[OF env, of "?x * (4487 / 1000)" "real_of_int (- n) * math_log env DEFAULT_RATE" "?x * (4668 / 1000)"] x
    by simp_all
  have "679 / 1000 * (679 / 1000) \<le> ?l * ?l" "?l * ?l \<le> 701 / 1000 * (701 / 1000)"
    using ln2_bounds[OF env] by (intro mult_mono; simp)+
  then have d: "460 / 1000 \<le> rounded env (?l * ?l)" "rounded env (?l * ?l) \<le> 492 / 1000"
    using rounded_bounds[OF env, of "679 / 1000 * (679 / 1000)" "?l * ?l" "701 / 1000 * (701 / 1000)"] by simp_all
  let ?q = "rounded env (real_of_int (- n) * math_log env DEFAULT_RATE) / rounded env (?l * ?l)"
  have "?q \<le> 4673 / 1000 * ?x / (460 / 1000)" "4482 / 1000 * ?x / (492 / 1000) \<le> ?q"
    using a d x by (intro frac_le; simp)+
  moreover have "910 / 100 * ?x \<le> 4482 / 1000 * ?x / (492 / 1000)" "4673 / 1000 * ?x / (460 / 1000) \<le> 1016 / 100 * ?x"
    using x by simp_all
  ultimately have "910 / 100 * ?x \<le> ?q" "?q \<le> 1016 / 100 * ?x" by (meson order_trans)+
  then have "9 * ?x \<le> rounded env ?q" "rounded env ?q \<le> 103 / 10 * ?x"
    using rounded_bounds[OF env, of "910 / 100 * ?x" ?q "1016 / 100 * ?x"] x by simp_all
  then show "9 * ?x \<le> real_of_int (optimal_bits env n DEFAULT_RATE)"
    "real_of_int (optimal_bits env n DEFAULT_RATE) \<le> 103 / 10 * ?x + 1"
    unfolding optimal_bits_def by linarith+
qed

lemma optimal_hashes_bound:
  assumes env: "double_arithmetic env" and n: "1 \<le> n" and m: "n \<le> m" "m \<le> 12 * n"
  shows "optimal_hashes env m n < 2 ^ 16"
proof -
  let ?r = "real_of_int m / real_of_int n"
  have "1 \<le> ?r" "?r \<le> 12" using n m by (simp_all add: le_divide_eq divide_le_eq)
  then have r: "999 / 1000 \<le> rounded env ?r" "rounded env ?r \<le> 13"
    using rounded_bounds[OF env, of 1 ?r 12] by simp_all
  have "999 / 1000 * (679 / 1000) \<le> rounded env ?r * ln2 env" "rounded env ?r * ln2 env \<le> 13 * (701 / 1000)"
    using r ln2_bounds[OF env] by (intro mult_mono; simp)+
  then have "rounded env (rounded env ?r * ln2 env) \<le> 10"
    using rounded_bounds[OF env, of "999 / 1000 * (679 / 1000)" "rounded env ?r * ln2 env" "13 * (701 / 1000)"] by simp
  then have "real_of_int (optimal_hashes env m n) \<le> 11"
    unfolding optimal_hashes_def py_round_def by (simp split: if_splits; linarith)
  then show ?thesis by simp
qed

section \<open>Invariant\<close>

definition bloom_inv :: "BloomFilter \<Rightarrow> bool" where
  "bloom_inv bf \<longleftrightarrow>
     1 \<le> bf_expected bf \<and> 0 < bf_size_bits bf \<and> bf_size_bits bf \<le> 8 * length (bf_bits bf)"

lemma bloom_inv_init: "bloom_init env n rate = Inr bf \<Longrightarrow> bloom_inv bf"
  by (auto simp: bloom_init_def bloom_inv_def Let_def split: if_splits)

text \<open>Whether a bit is set, without the range check.\<close>

definition bit_set :: "BloomFilter \<Rightarrow> nat \<Rightarrow> bool" where
  "bit_set bf pos \<longleftrightarrow> bit (bf_bits bf ! (pos div 8)) (pos mod 8)"

lemma byte_mask_test: "and w (push_bit n 1) \<noteq> 0 \<longleftrightarrow> bit w n" for w :: byte
  by (simp add: and_exp_eq_0_iff_not_bit push_bit_of_1)

lemma get_bit_at_ok:
  "pos < 8 * length (bf_bits bf) \<Longrightarrow> get_bit_at bf pos = Inr (bit_set bf pos)"
  by (simp only: get_bit_at_def bit_set_def byte_mask_test Let_def)
    (simp add: less_mult_imp_div_less mult.commute)

lemma set_bit_at_ok:
  assumes "pos < 8 * length (bf_bits bf)"
  shows "\<exists>bf'. set_bit_at pos bf = Inr bf' \<and> length (bf_bits bf') = length (bf_bits bf)
     \<and> bf_size_bits bf' = bf_size_bits bf \<and> bf_hashes bf' = bf_hashes bf
     \<and> bf_expected bf' = bf_expected bf
     \<and> bit_set bf' pos \<and> (\<forall>p. bit_set bf p \<longrightarrow> bit_set bf' p)"
proof -
  have i: "pos div 8 < length (bf_bits bf)" using assms by (simp add: less_mult_imp_div_less mult.commute)
  have "bit (or w (push_bit n 1)) m \<longleftrightarrow> bit w m \<or> m = n \<and> n < 8" for w :: byte and n m
    by (auto simp: bit_or_iff push_bit_of_1 bit_exp_iff)
  with i show ?thesis
    by (auto simp: set_bit_at_def bit_set_def Let_def nth_list_update)
qed

lemma set_bits_ok:
  assumes "\<forall>p\<in>set ps. p < 8 * length (bf_bits bf)"
  shows "\<exists>bf'. set_bits ps bf = Inr bf' \<and> length (bf_bits bf') = length (bf_bits bf)
     \<and> bf_size_bits bf' = bf_size_bits bf \<and> bf_hashes bf' = bf_hashes bf
     \<and> bf_expected bf' = bf_expected bf
     \<and> (\<forall>p\<in>set ps. bit_set bf' p) \<and> (\<forall>p. bit_set bf p \<longrightarrow> bit_set bf' p)"
  using assms
proof (induction ps arbitrary: bf)
  case (Cons p ps)
  from set_bit_at_ok[of p bf] Cons.prems obtain bf1 where
    1: "set_bit_at p bf = Inr bf1" "length (bf_bits bf1) = length (bf_bits bf)"
      "bf_size_bits bf1 = bf_size_bits bf" "bf_hashes bf1 = bf_hashes bf"
      "bf_expected bf1 = bf_expected bf" "bit_set bf1 p" "\<forall>q. bit_set bf q \<longrightarrow> bit_set bf1 q"
    by auto
  with Cons.IH[of bf1] Cons.prems show ?case by auto
qed simp

lemma all_bits_ok:
  "\<forall>p\<in>set ps. p < 8 * length (bf_bits bf) \<Longrightarrow> all_bits bf ps = Inr (\<forall>p\<in>set ps. bit_set bf p)"
  by (induction ps) (simp_all add: get_bit_at_ok)

text \<open>The positions of a key depend on the size and the number of hashes only.\<close>

definition key_positions :: "bloom_env \<Rightarrow> BloomFilter \<Rightarrow> bytes \<Rightarrow> nat list" where
  "key_positions env bf key = projr (get_bit_positions env bf key)"

lemma key_positions_cong:
  "bf_size_bits bf' = bf_size_bits bf \<Longrightarrow> bf_hashes bf' = bf_hashes bf
   \<Longrightarrow> key_positions env bf' k = key_positions env bf k"
  by (auto simp: key_positions_def get_bit_positions_def split: prod.splits)

lemma get_bit_positions_ok:
  assumes "bloom_inv bf"
  shows "get_bit_positions env bf key = Inr (key_positions env bf key)"
    and "\<forall>p\<in>set (key_positions env bf key). p < 8 * length (bf_bits bf)"
proof -
  have b: "0 < bf_size_bits bf" "bf_size_bits bf \<le> 8 * length (bf_bits bf)"
    using assms by (simp_all add: bloom_inv_def)
  then show "get_bit_positions env bf key = Inr (key_positions env bf key)"
    by (simp add: key_positions_def get_bit_positions_def split: prod.splits)
  have "x mod bf_size_bits bf < 8 * length (bf_bits bf)" for x
    using b by (meson mod_less_divisor less_le_trans)
  with b show "\<forall>p\<in>set (key_positions env bf key). p < 8 * length (bf_bits bf)"
    by (auto simp: key_positions_def get_bit_positions_def split: prod.splits)
qed

lemma might_contain_ok:
  "bloom_inv bf \<Longrightarrow> might_contain env bf k = Inr (\<forall>p\<in>set (key_positions env bf k). bit_set bf p)"
  by (simp add: might_contain_def get_bit_positions_ok all_bits_ok)

lemma bloom_add_ok:
  assumes "bloom_inv bf"
  shows "\<exists>bf'. bloom_add env k bf = Inr bf' \<and> bloom_inv bf'
     \<and> bf_size_bits bf' = bf_size_bits bf \<and> bf_hashes bf' = bf_hashes bf
     \<and> bf_expected bf' = bf_expected bf \<and> length (bf_bits bf') = length (bf_bits bf)
     \<and> might_contain env bf' k = Inr True
     \<and> (\<forall>q. might_contain env bf q = Inr True \<longrightarrow> might_contain env bf' q = Inr True)"
proof -
  from set_bits_ok[OF get_bit_positions_ok(2)[OF assms, of env k]] obtain bf' where
    bf': "set_bits (key_positions env bf k) bf = Inr bf'"
      "length (bf_bits bf') = length (bf_bits bf)" "bf_size_bits bf' = bf_size_bits bf"
      "bf_hashes bf' = bf_hashes bf" "bf_expected bf' = bf_expected bf"
      "\<forall>p\<in>set (key_positions env bf k). bit_set bf' p" "\<forall>p. bit_set bf p \<longrightarrow> bit_set bf' p"
    by auto
  then have inv: "bloom_inv bf'" using assms by (simp add: bloom_inv_def)
  have "might_contain env bf' q = Inr (\<forall>p\<in>set (key_positions env bf q). bit_set bf' p)" for q
    using might_contain_ok[OF inv] key_positions_cong[OF bf'(3,4)] by simp
  with bf' inv show ?thesis
    by (simp add: bloom_add_def get_bit_positions_ok[OF assms] might_contain_ok[OF assms])
qed

lemma bloom_add_all_ok:
  assumes "bloom_inv bf"
  shows "\<exists>bf'. bloom_add_all env ks bf = Inr bf' \<and> bloom_inv bf'
     \<and> bf_size_bits bf' = bf_size_bits bf \<and> bf_hashes bf' = bf_hashes bf
     \<and> bf_expected bf' = bf_expected bf \<and> length (bf_bits bf') = length (bf_bits bf)
     \<and> (\<forall>k\<in>set ks. might_contain env bf' k = Inr True)
     \<and> (\<forall>q. might_contain env bf q = Inr True \<longrightarrow> might_contain env bf' q = Inr True)"
  using assms
proof (induction ks arbitrary: bf)
  case (Cons k ks)
  from bloom_add_ok[OF Cons.prems, of env k] obtain bf1 where
    1: "bloom_add env k bf = Inr bf1" "bloom_inv bf1" "bf_size_bits bf1 = bf_size_bits bf"
      "bf_hashes bf1 = bf_hashes bf" "bf_expected bf1 = bf_expected bf"
      "length (bf_bits bf1) = length (bf_bits bf)" "might_contain env bf1 k = Inr True"
      "\<forall>q. might_contain env bf q = Inr True \<longrightarrow> might_contain env bf1 q = Inr True"
    by blast
  with Cons.IH[OF 1(2)] show ?case by auto
qed simp

lemma bloom_add_all_Inr:
  assumes "bloom_inv bf" "bloom_add_all env ks bf = Inr bf'"
  shows "bloom_inv bf'" "k \<in> set ks \<Longrightarrow> might_contain env bf' k = Inr True"
  using bloom_add_all_ok[OF assms(1), of env ks] assms(2) by auto

section \<open>Serialization\<close>

lemma slice_0_8: "slice data 0 n = take n data"
  by (simp add: slice_def)

lemma bloom_deserialize_serialize:
  assumes "0 \<le> bf_expected bf" "bloom_serialize bf = Inr data"
  shows "bloom_deserialize (data @ rest) = Inr bf"
proof -
  let ?v = "le_bytes 1 FORMAT_VERSION" and ?e = "le_bytes 4 (nat (bf_expected bf))"
  let ?r = "float_bytes (bf_rate bf)" and ?s = "le_bytes 4 (bf_size_bits bf)"
  let ?h = "le_bytes 2 (bf_hashes bf)" and ?l = "le_bytes 4 (length (bf_bits bf))"
  have data: "data = ?v @ ?e @ ?r @ ?s @ ?h @ ?l @ bf_bits bf"
    and bounds: "nat (bf_expected bf) < 256 ^ 4" "bf_size_bits bf < 256 ^ 4" "bf_hashes bf < 256 ^ 2"
      "length (bf_bits bf) < 256 ^ 4"
    using assms(2) by (auto simp: bloom_serialize_def result_simps simp del: le_bytes.simps)
  have fields:
    "unpack_from 1 (data @ rest) 0 = Inr FORMAT_VERSION"
    "unpack_from 4 (data @ rest) 1 = Inr (nat (bf_expected bf))"
    "unpack_float (data @ rest) 5 = Inr (bf_rate bf)"
    "unpack_from 4 (data @ rest) 13 = Inr (bf_size_bits bf)"
    "unpack_from 2 (data @ rest) 17 = Inr (bf_hashes bf)"
    "unpack_from 4 (data @ rest) 19 = Inr (length (bf_bits bf))"
    using unpack_from_at[of 0 "[]" 1 ?v] unpack_from_at[of 1 ?v 4 ?e] unpack_float_at[of 5 "?v @ ?e" "bf_rate bf"]
      unpack_from_at[of 13 "?v @ ?e @ ?r" 4 ?s] unpack_from_at[of 17 "?v @ ?e @ ?r @ ?s" 2 ?h]
      unpack_from_at[of 19 "?v @ ?e @ ?r @ ?s @ ?h" 4 ?l] bounds
    by (simp_all add: data FORMAT_VERSION_def del: le_bytes.simps)
  have bits: "slice (data @ rest) 23 (23 + length (bf_bits bf)) = bf_bits bf"
    using slice_at[of 23 "?v @ ?e @ ?r @ ?s @ ?h @ ?l" _ "bf_bits bf"]
    by (simp add: data del: le_bytes.simps)
  have "length (data @ rest) = 23 + length (bf_bits bf) + length rest" by (simp add: data)
  then show ?thesis
    using assms(1) by (simp only: bloom_deserialize_def fields bits and_then.simps) simp
qed

end
