(* ===== verification/KV_Wal.thy ===== *)
theory KV_Wal
  imports Bytes
begin

text \<open>
  The write-ahead log (\<^verbatim>\<open>key-value-store/src/kv_store/storage/wal.py\<close>): the frame format with its
  checksum, the replay loop over arbitrary file contents, and the log object with its sequence
  number and its I/O fence.  Every disk operation takes the outcome of the I/O as an argument: it
  succeeds, or it raises after some bytes have reached the file.
\<close>

section \<open>Frames\<close>

datatype WALEntryType = PUT | DELETE

fun entry_type_to_byte :: "WALEntryType \<Rightarrow> nat" where
  "entry_type_to_byte PUT = 0"
| "entry_type_to_byte DELETE = 1"

definition byte_to_entry_type :: "nat \<Rightarrow> WALEntryType option" where
  "byte_to_entry_type b = (if b = 0 then Some PUT else if b = 1 then Some DELETE else None)"

record WALEntry =
  wal_seq :: nat
  wal_type :: WALEntryType
  wal_key :: bytes
  wal_value :: "bytes option"
  wal_time :: float64

definition value_bytes :: "bytes option \<Rightarrow> bytes" where
  "value_bytes v = (case v of None \<Rightarrow> [] | Some b \<Rightarrow> b)"

definition serialize_entry :: "WALEntry \<Rightarrow> bytes result" where
  "serialize_entry e =
     and_then (struct_pack 8 (wal_seq e)) (\<lambda>seq.
     and_then (struct_pack 1 (entry_type_to_byte (wal_type e))) (\<lambda>ty.
     and_then (struct_pack 4 (length (wal_key e))) (\<lambda>klen.
     and_then (struct_pack 4 (length (value_bytes (wal_value e)))) (\<lambda>vlen.
       let checksummed = seq @ ty @ klen @ wal_key e @ vlen @ value_bytes (wal_value e)
                         @ float_bytes (wal_time e)
       in and_then (struct_pack 4 (crc32 checksummed)) (\<lambda>crc.
          and_then (struct_pack 4 (length (checksummed @ crc))) (\<lambda>len.
            Inr (len @ checksummed @ crc)))))))"

definition deserialize_entry :: "bytes \<Rightarrow> WALEntry option result" where
  "deserialize_entry entry_data =
     (if length entry_data < 4 then Inr None
      else
        let body = take (length entry_data - 4) entry_data;
            stored = le_nat (drop (length entry_data - 4) entry_data)
        in if crc32 body \<noteq> stored then Inr None
      else if 9 > length body then Inr None
      else
        case byte_to_entry_type (le_nat (slice body 8 9)) of
          None \<Rightarrow> Inr None
        | Some ty \<Rightarrow>
            if 13 > length body then Inr None
            else
              let klen = le_nat (slice body 9 13) in
              if 13 + klen > length body then Inr None
              else and_then (decode_utf8 (slice body 13 (13 + klen))) (\<lambda>key.
                let pos = 13 + klen in
                if pos + 4 > length body then Inr None
                else
                  let vlen = le_nat (slice body pos (pos + 4)); pos = pos + 4 in
                  if pos + vlen > length body then Inr None
                  else
                    let value = (if vlen > 0 then Some (slice body pos (pos + vlen)) else None);
                        pos = pos + vlen
                    in if pos + 8 > length body then Inr None
                       else Inr (Some \<lparr>wal_seq = le_nat (slice body 0 8), wal_type = ty,
                         wal_key = key, wal_value = value,
                         wal_time = of_nat (le_nat (slice body pos (pos + 8)))\<rparr>)))"

section \<open>Replay\<close>

text \<open>
  The loop of \<^verbatim>\<open>_read_all_entries\<close>: the entries read so far and the end of the last complete
  frame.  It stops at the first incomplete frame and skips a complete frame that is damaged.
\<close>

function read_loop ::
  "bytes \<Rightarrow> nat \<Rightarrow> nat \<Rightarrow> WALEntry list \<Rightarrow> (WALEntry list \<times> nat) result" where
  "read_loop data offset complete_end entries =
     (if offset < length data then
        if offset + 4 > length data then Inr (entries, complete_end)
        else
          let len = le_nat (slice data offset (offset + 4)); start = offset + 4 in
          if start + len > length data then Inr (entries, complete_end)
          else and_then (deserialize_entry (slice data start (start + len))) (\<lambda>e.
                 read_loop data (start + len) (start + len)
                   (case e of None \<Rightarrow> entries | Some x \<Rightarrow> entries @ [x]))
      else Inr (entries, complete_end))"
  by pat_completeness auto
termination
  by (relation "measure (\<lambda>(data, offset, _, _). length data - offset)") auto

declare read_loop.simps [simp del]

definition read_all_entries :: "bytes option \<Rightarrow> (WALEntry list \<times> bytes option) result" where
  "read_all_entries file =
     (case file of
        None \<Rightarrow> Inr ([], None)
      | Some data \<Rightarrow>
          and_then (read_loop data 0 0 []) (\<lambda>(entries, complete_end).
            Inr (entries, Some (if complete_end < length data then take complete_end data
                                else data))))"

section \<open>The log object\<close>

datatype io = IoOk | IoFail nat

record WriteAheadLog =
  wal_file :: "bytes option"
  wal_sequence :: nat
  wal_fenced :: bool

definition wal_contents :: "WriteAheadLog \<Rightarrow> bytes" where
  "wal_contents w = (case wal_file w of None \<Rightarrow> [] | Some b \<Rightarrow> b)"

definition wal_init :: "bytes option \<Rightarrow> WriteAheadLog" where
  "wal_init file = \<lparr>wal_file = file, wal_sequence = 0, wal_fenced = False\<rparr>"

definition require_healthy :: "WriteAheadLog \<Rightarrow> unit result" where
  "require_healthy w = require (\<not> wal_fenced w) (RuntimeError ''WAL requires recovery after I/O failure'')"

definition write_and_sync :: "io \<Rightarrow> bytes \<Rightarrow> WriteAheadLog \<Rightarrow> WriteAheadLog \<times> unit result" where
  "write_and_sync out data w =
     (case out of
        IoOk \<Rightarrow> (w\<lparr>wal_file := Some (wal_contents w @ data)\<rparr>, Inr ())
      | IoFail n \<Rightarrow> (w\<lparr>wal_file := Some (wal_contents w @ take n data), wal_fenced := True\<rparr>, Inl OSError))"

definition wal_append :: "io \<Rightarrow> WALEntry \<Rightarrow> WriteAheadLog \<Rightarrow> WriteAheadLog \<times> unit result" where
  "wal_append out e w =
     (case require_healthy w of
        Inl x \<Rightarrow> (w, Inl x)
      | Inr _ \<Rightarrow>
          let w1 = w\<lparr>wal_sequence := wal_sequence w + 1\<rparr> in
          case serialize_entry (e\<lparr>wal_seq := wal_sequence w1\<rparr>) of
            Inl x \<Rightarrow> (w1, Inl x)
          | Inr data \<Rightarrow> write_and_sync out data w1)"

definition wal_replay :: "io \<Rightarrow> WriteAheadLog \<Rightarrow> WriteAheadLog \<times> WALEntry list result" where
  "wal_replay out w =
     (case out of
        IoFail _ \<Rightarrow> (w\<lparr>wal_fenced := True\<rparr>, Inl OSError)
      | IoOk \<Rightarrow>
          (case read_all_entries (wal_file w) of
             Inl x \<Rightarrow> (w, Inl x)
           | Inr (entries, file) \<Rightarrow>
               (w\<lparr>wal_file := file,
                  wal_sequence := (if entries = [] then wal_sequence w
                                   else Max (set (map wal_seq entries))),
                  wal_fenced := False\<rparr>, Inr entries)))"

definition wal_truncate :: "io \<Rightarrow> WriteAheadLog \<Rightarrow> WriteAheadLog \<times> unit result" where
  "wal_truncate out w =
     (case require_healthy w of
        Inl x \<Rightarrow> (w, Inl x)
      | Inr _ \<Rightarrow>
          (case out of
             IoOk \<Rightarrow> (w\<lparr>wal_file := Some []\<rparr>, Inr ())
           | IoFail n \<Rightarrow>
               (w\<lparr>wal_file := (if n = 0 then wal_file w else Some []), wal_fenced := True\<rparr>,
                Inl OSError)))"

section \<open>Round trip of one frame\<close>

text \<open>
  Replay reads an empty value back as \<open>None\<close>; the engine turns it into the empty byte string
  again for a \<open>PUT\<close>.
\<close>

definition wal_norm :: "WALEntry \<Rightarrow> WALEntry" where
  "wal_norm e = e\<lparr>wal_value := (if value_bytes (wal_value e) = [] then None else wal_value e)\<rparr>"

definition frame_body :: "WALEntry \<Rightarrow> bytes" where
  "frame_body e =
     le_bytes 8 (wal_seq e) @ le_bytes 1 (entry_type_to_byte (wal_type e))
     @ le_bytes 4 (length (wal_key e)) @ wal_key e
     @ le_bytes 4 (length (value_bytes (wal_value e))) @ value_bytes (wal_value e)
     @ float_bytes (wal_time e)"

lemma serialize_entry_Inr:
  assumes "serialize_entry e = Inr data"
  shows "data = le_bytes 4 (length (frame_body e) + 4) @ frame_body e @ le_bytes 4 (crc32 (frame_body e))"
    and "wal_seq e < 256 ^ 8" "length (wal_key e) < 256 ^ 4"
      "length (value_bytes (wal_value e)) < 256 ^ 4" "length (frame_body e) + 4 < 256 ^ 4"
  using assms
  by (auto simp: serialize_entry_def frame_body_def result_simps Let_def simp del: le_bytes.simps)

lemma serialize_entry_ok:
  assumes "wal_seq e < 256 ^ 8" "length (wal_key e) + length (value_bytes (wal_value e)) < 256 ^ 4 - 29"
  shows "\<exists>data. serialize_entry e = Inr data"
proof -
  have "entry_type_to_byte (wal_type e) < 256" by (cases "wal_type e") simp_all
  with assms show ?thesis
    by (simp add: serialize_entry_def Let_def crc32_less[simplified] del: le_bytes.simps)
qed

lemma byte_to_entry_type_inverse: "byte_to_entry_type (entry_type_to_byte t) = Some t"
  by (cases t) (simp_all add: byte_to_entry_type_def)

lemma value_bytes_norm:
  "(if 0 < length (value_bytes v) then Some (value_bytes v) else None)
   = (if value_bytes v = [] then None else v)"
  by (cases v) (auto simp: value_bytes_def)

lemma deserialize_frame:
  assumes "utf8_ok (wal_key e)" "wal_seq e < 256 ^ 8" "length (wal_key e) < 256 ^ 4"
    "length (value_bytes (wal_value e)) < 256 ^ 4"
  shows "deserialize_entry (frame_body e @ le_bytes 4 (crc32 (frame_body e))) = Inr (Some (wal_norm e))"
proof -
  let ?b = "frame_body e" and ?d = "frame_body e @ le_bytes 4 (crc32 (frame_body e))"
  let ?s = "le_bytes 8 (wal_seq e)" and ?t = "le_bytes 1 (entry_type_to_byte (wal_type e))"
  let ?kl = "le_bytes 4 (length (wal_key e))" and ?vl = "le_bytes 4 (length (value_bytes (wal_value e)))"
  let ?v = "value_bytes (wal_value e)" and ?f = "float_bytes (wal_time e)"
  define k where "k = length (wal_key e)"
  define l where "l = length ?v"
  have len: "length ?b = 25 + k + l" by (simp add: frame_body_def k_def l_def)
  have body: "take (length ?d - 4) ?d = ?b" "drop (length ?d - 4) ?d = le_bytes 4 (crc32 ?b)"
    by simp_all
  have ty: "entry_type_to_byte (wal_type e) < 256" by (cases "wal_type e") simp_all
  have s1: "slice ?b 0 8 = ?s" using slice_at[of 0 "[]" 8 ?s] by (simp add: frame_body_def)
  have s2: "slice ?b 8 9 = ?t" using slice_at[of 8 ?s 9 ?t] by (simp add: frame_body_def)
  have s3: "slice ?b 9 13 = ?kl" using slice_at[of 9 "?s @ ?t" 13 ?kl] by (simp add: frame_body_def)
  have s4: "slice ?b 13 (13 + k) = wal_key e"
    using slice_at[of 13 "?s @ ?t @ ?kl" "13 + k" "wal_key e"] by (simp add: frame_body_def k_def)
  have s5: "slice ?b (13 + k) (13 + k + 4) = ?vl"
    using slice_at[of "13 + k" "?s @ ?t @ ?kl @ wal_key e" "13 + k + 4" ?vl] by (simp add: frame_body_def k_def)
  have s6: "slice ?b (13 + k + 4) (13 + k + 4 + l) = ?v"
    using slice_at[of "13 + k + 4" "?s @ ?t @ ?kl @ wal_key e @ ?vl" "13 + k + 4 + l" ?v]
    by (simp add: frame_body_def k_def l_def)
  have s7: "slice ?b (13 + k + 4 + l) (13 + k + 4 + l + 8) = ?f"
    using slice_at[of "13 + k + 4 + l" "?s @ ?t @ ?kl @ wal_key e @ ?vl @ ?v" "13 + k + 4 + l + 8" ?f "[]"]
    by (simp add: frame_body_def k_def l_def)
  have n: "le_nat ?s = wal_seq e" "le_nat ?t = entry_type_to_byte (wal_type e)" "le_nat ?kl = k"
    "le_nat ?vl = l" "le_nat (le_bytes 4 (crc32 ?b)) = crc32 ?b"
    using assms ty crc32_less[of ?b] by (simp_all add: k_def l_def del: le_bytes.simps)
  have norm: "\<lparr>wal_seq = wal_seq e, wal_type = wal_type e, wal_key = wal_key e,
      wal_value = if 0 < l then Some ?v else None, wal_time = wal_time e\<rparr> = wal_norm e"
    by (simp add: wal_norm_def l_def value_bytes_norm del: length_greater_0_conv)
  have g: "\<not> length ?d < 4" "\<not> 9 > length ?b" "\<not> 13 > length ?b" "\<not> 13 + k > length ?b"
    "\<not> 13 + k + 4 > length ?b" "\<not> 13 + k + 4 + l > length ?b" "\<not> 13 + k + 4 + l + 8 > length ?b"
    using len by simp_all
  show ?thesis
    unfolding deserialize_entry_def Let_def body n s1 s2 s3 s4 s5 s6 s7
      byte_to_entry_type_inverse option.case decode_utf8_ok[OF assms(1)] and_then.simps
      of_nat_float_bytes norm
    by (simp only: g if_False if_True not_False_eq_True refl simp_thms)
qed

section \<open>Replay of a log with a torn tail\<close>

text \<open>An entry the log can write: its fields fit and its key is text.\<close>

definition wal_entry_ok :: "WALEntry \<Rightarrow> bool" where
  "wal_entry_ok e \<longleftrightarrow> utf8_ok (wal_key e) \<and> (\<exists>data. serialize_entry e = Inr data)"

definition frame :: "WALEntry \<Rightarrow> bytes" where
  "frame e = projr (serialize_entry e)"

definition frames :: "WALEntry list \<Rightarrow> bytes" where
  "frames es = concat (map frame es)"

lemma frame_eq:
  assumes "wal_entry_ok e"
  shows "frame e = le_bytes 4 (length (frame_body e) + 4) @ frame_body e @ le_bytes 4 (crc32 (frame_body e))"
    and "length (frame_body e) + 4 < 256 ^ 4"
  using assms serialize_entry_Inr by (auto simp: wal_entry_ok_def frame_def)

lemma deserialize_wal_entry_ok:
  assumes "wal_entry_ok e"
  shows "deserialize_entry (frame_body e @ le_bytes 4 (crc32 (frame_body e))) = Inr (Some (wal_norm e))"
proof -
  obtain data where "serialize_entry e = Inr data" using assms by (auto simp: wal_entry_ok_def)
  from serialize_entry_Inr(2-4)[OF this] assms show ?thesis
    by (intro deserialize_frame) (simp_all add: wal_entry_ok_def)
qed

lemma length_frame: "wal_entry_ok e \<Longrightarrow> length (frame e) = length (frame_body e) + 8"
  by (simp add: frame_eq)

lemma read_loop_frame:
  assumes "wal_entry_ok e"
  shows "read_loop (pre @ frame e @ rest) (length pre) c acc
    = read_loop (pre @ frame e @ rest) (length pre + length (frame e)) (length pre + length (frame e))
        (acc @ [wal_norm e])"
proof -
  let ?L = "le_bytes 4 (length (frame_body e) + 4)"
  let ?P = "frame_body e @ le_bytes 4 (crc32 (frame_body e))"
  let ?data = "pre @ frame e @ rest"
  have data: "?data = pre @ ?L @ ?P @ rest" by (simp add: frame_eq[OF assms])
  have len: "le_nat (slice ?data (length pre) (length pre + 4)) = length ?P"
    unfolding data using slice_at[of "length pre" pre _ ?L "?P @ rest"] frame_eq(2)[OF assms] by simp
  have pay: "slice ?data (length pre + 4) (length pre + 4 + length ?P) = ?P"
    unfolding data using slice_at[of "length pre + 4" "pre @ ?L" _ ?P rest] by simp
  have g: "length pre < length ?data" "\<not> length pre + 4 > length ?data"
    "\<not> length pre + 4 + length ?P > length ?data"
    by (simp_all add: frame_eq[OF assms])
  have e: "length pre + 4 + length ?P = length pre + length (frame e)"
    by (simp add: length_frame[OF assms])
  show ?thesis
    unfolding read_loop.simps[of ?data "length pre" c] Let_def len pay deserialize_wal_entry_ok[OF assms]
    by (simp only: g if_True if_False and_then.simps option.case e) simp
qed

lemma read_loop_frames:
  assumes "\<forall>e\<in>set es. wal_entry_ok e"
  shows "read_loop (pre @ frames es @ rest) (length pre) (length pre) acc
    = read_loop (pre @ frames es @ rest) (length pre + length (frames es)) (length pre + length (frames es))
        (acc @ map wal_norm es)"
  using assms
proof (induction es arbitrary: pre acc)
  case (Cons e es)
  have "read_loop ((pre @ frame e) @ frames es @ rest) (length (pre @ frame e)) (length (pre @ frame e)) (acc @ [wal_norm e])
    = read_loop ((pre @ frame e) @ frames es @ rest) (length (pre @ frame e) + length (frames es))
        (length (pre @ frame e) + length (frames es)) ((acc @ [wal_norm e]) @ map wal_norm es)"
    using Cons by (intro Cons.IH) simp
  then show ?case
    using read_loop_frame[of e pre "frames es @ rest" "length pre" acc] Cons.prems
    by (simp add: frames_def add.assoc)
qed (simp add: frames_def)

text \<open>A tail that is a proper prefix of a frame ends the replay.\<close>

lemma read_loop_torn:
  assumes "wal_entry_ok e" "n < length (frame e)"
  shows "read_loop (pre @ take n (frame e)) (length pre) c acc = Inr (acc, c)"
proof (cases "n < 4")
  case True
  then show ?thesis by (auto simp: read_loop.simps)
next
  case False
  let ?L = "le_bytes 4 (length (frame_body e) + 4)"
  let ?P = "frame_body e @ le_bytes 4 (crc32 (frame_body e))"
  have torn: "take n (frame e) = ?L @ take (n - 4) ?P"
    using False by (simp add: frame_eq[OF assms(1)])
  have "le_nat (slice (pre @ take n (frame e)) (length pre) (length pre + 4)) = length ?P"
    unfolding torn using slice_at[of "length pre" pre _ ?L "take (n - 4) ?P"] frame_eq(2)[OF assms(1)]
    by simp
  moreover have "length pre + 4 + length ?P > length (pre @ take n (frame e))"
    using assms by (simp add: length_frame[OF assms(1)])
  moreover have "length pre < length (pre @ take n (frame e))"
    "\<not> length pre + 4 > length (pre @ take n (frame e))"
    unfolding torn using False by simp_all
  ultimately show ?thesis
    unfolding read_loop.simps[of "pre @ take n (frame e)" "length pre" c acc] Let_def
    by (simp only: if_True if_False)
qed

lemma read_loop_end: "read_loop data (length data) c acc = Inr (acc, c)"
  by (simp add: read_loop.simps)

lemma read_all_entries_frames:
  assumes "\<forall>e\<in>set es. wal_entry_ok e"
  shows "read_all_entries (Some (frames es)) = Inr (map wal_norm es, Some (frames es))"
  using read_loop_frames[OF assms, of "[]" "[]" "[]"] read_loop_end[of "frames es"]
  by (simp add: read_all_entries_def)

lemma read_all_entries_torn:
  assumes "\<forall>e\<in>set es. wal_entry_ok e" "wal_entry_ok e" "n < length (frame e)"
  shows "read_all_entries (Some (frames es @ take n (frame e))) = Inr (map wal_norm es, Some (frames es))"
  using read_loop_frames[OF assms(1), of "[]" "take n (frame e)" "[]"]
    read_loop_torn[OF assms(2,3), of "frames es"]
  by (simp add: read_all_entries_def)

section \<open>Runs of the log\<close>

text \<open>
  The acknowledged entries of a run: what \<open>append\<close> accepted since the last truncation.  Appends may
  fail part way, and a restart opens the file left behind and replays it.
\<close>

inductive wal_run :: "WriteAheadLog \<Rightarrow> WALEntry list \<Rightarrow> bool" where
  start: "wal_run (wal_init None) []"
| append_ok: "\<lbrakk>wal_run w es; utf8_ok (wal_key e); wal_append out e w = (w', Inr ())\<rbrakk>
    \<Longrightarrow> wal_run w' (es @ [e\<lparr>wal_seq := wal_sequence w'\<rparr>])"
| append_raise: "\<lbrakk>wal_run w es; utf8_ok (wal_key e); wal_append out e w = (w', Inl x)\<rbrakk> \<Longrightarrow> wal_run w' es"
| truncated: "\<lbrakk>wal_run w es; wal_truncate out w = (w', r)\<rbrakk>
    \<Longrightarrow> wal_run w' (if wal_file w' = wal_file w then es else [])"
| restart: "\<lbrakk>wal_run w es; wal_replay IoOk (wal_init (wal_file w)) = (w', Inr es')\<rbrakk> \<Longrightarrow> wal_run w' es'"

text \<open>
  The file holds the frames of \<open>es\<close>; behind a fence it may end in a prefix of one more frame, of an
  entry in \<open>X\<close>.
\<close>

definition log_holds :: "WriteAheadLog \<Rightarrow> WALEntry list \<Rightarrow> WALEntry set \<Rightarrow> bool" where
  "log_holds w es X \<longleftrightarrow>
     (\<forall>e\<in>set es. wal_entry_ok e)
     \<and> (\<exists>tail. wal_contents w = frames es @ tail
         \<and> (tail = [] \<or> wal_fenced w \<and> (\<exists>e\<in>X. \<exists>n. wal_entry_ok e \<and> tail = take n (frame e))))"

lemma frame_norm [simp]: "frame (wal_norm e) = frame e"
  and wal_entry_ok_norm [simp]: "wal_entry_ok (wal_norm e) = wal_entry_ok e"
proof -
  have "value_bytes (wal_value (wal_norm e)) = value_bytes (wal_value e)"
    by (simp add: wal_norm_def value_bytes_def)
  then have "serialize_entry (wal_norm e) = serialize_entry e"
    by (simp add: serialize_entry_def wal_norm_def)
  then show "frame (wal_norm e) = frame e" "wal_entry_ok (wal_norm e) = wal_entry_ok e"
    by (simp_all add: frame_def wal_entry_ok_def) (simp add: wal_norm_def)
qed

lemma frames_norm [simp]: "frames (map wal_norm es) = frames es"
  by (induction es) (simp_all add: frames_def)

lemma frames_snoc: "frames (es @ [e]) = frames es @ frame e"
  by (simp add: frames_def)

lemma read_all_entries_holds:
  assumes "log_holds w es X" "wal_file w = Some data"
  shows "\<exists>extra. set extra \<subseteq> X \<and> length extra \<le> 1 \<and> (\<not> wal_fenced w \<longrightarrow> extra = [])
    \<and> (\<forall>e\<in>set (es @ extra). wal_entry_ok e)
    \<and> read_all_entries (Some data) = Inr (map wal_norm (es @ extra), Some (frames (es @ extra)))"
proof -
  from assms obtain tail where ok: "\<forall>e\<in>set es. wal_entry_ok e" and data: "data = frames es @ tail"
    and tail: "tail = [] \<or> wal_fenced w \<and> (\<exists>e\<in>X. \<exists>n. wal_entry_ok e \<and> tail = take n (frame e))"
    by (auto simp: log_holds_def wal_contents_def)
  show ?thesis
  proof (cases "tail = []")
    case True
    then show ?thesis
      using read_all_entries_frames[OF ok] ok data by (intro exI[of _ "[]"]) simp
  next
    case False
    then obtain e n where e: "wal_fenced w" "wal_entry_ok e" "tail = take n (frame e)" "e \<in> X"
      using tail by auto
    show ?thesis
    proof (cases "n < length (frame e)")
      case True
      then show ?thesis
        using read_all_entries_torn[OF ok e(2) True] ok data e by (intro exI[of _ "[]"]) simp
    next
      case False
      then have "data = frames (es @ [e])" using data e by (simp add: frames_snoc)
      then show ?thesis
        using read_all_entries_frames[of "es @ [e]"] ok e by (intro exI[of _ "[e]"]) simp
    qed
  qed
qed

lemma wal_replay_holds:
  assumes "log_holds w es X"
  shows "\<exists>w' extra. set extra \<subseteq> X \<and> length extra \<le> 1 \<and> (\<not> wal_fenced w \<longrightarrow> extra = [])
    \<and> wal_replay IoOk w = (w', Inr (map wal_norm (es @ extra)))
    \<and> log_holds w' (map wal_norm (es @ extra)) X \<and> \<not> wal_fenced w'"
proof (cases "wal_file w")
  case None
  then have "es = [] \<or> frames es = []" using assms by (auto simp: log_holds_def wal_contents_def)
  moreover have "frame e \<noteq> []" if "wal_entry_ok e" for e
    using length_frame[OF that] by auto
  ultimately have "es = []"
    using assms by (cases es) (auto simp: frames_def log_holds_def)
  with None show ?thesis
    by (intro exI[of _ "w\<lparr>wal_fenced := False\<rparr>"] exI[of _ "[]"])
      (simp add: wal_replay_def read_all_entries_def log_holds_def wal_contents_def frames_def)
next
  case (Some data)
  from read_all_entries_holds[OF assms Some] obtain extra where
    x: "set extra \<subseteq> X" "length extra \<le> 1" "\<not> wal_fenced w \<longrightarrow> extra = []" "\<forall>e\<in>set (es @ extra). wal_entry_ok e"
      "read_all_entries (Some data) = Inr (map wal_norm (es @ extra), Some (frames (es @ extra)))"
    by blast
  then show ?thesis
    using Some
    by (simp add: wal_replay_def log_holds_def wal_contents_def del: map_append) blast
qed

lemma log_holds_mono: "log_holds w es X \<Longrightarrow> X \<subseteq> Y \<Longrightarrow> log_holds w es Y"
  unfolding log_holds_def by blast

lemma log_holds_append:
  assumes "log_holds w es X" "utf8_ok (wal_key e)" "wal_append out e w = (w', r)"
  shows "log_holds w' (case r of Inr _ \<Rightarrow> es @ [e\<lparr>wal_seq := wal_sequence w'\<rparr>] | Inl _ \<Rightarrow> es)
    (insert (e\<lparr>wal_seq := wal_sequence w'\<rparr>) X)"
proof (cases "wal_fenced w")
  case True
  then show ?thesis
    using assms log_holds_mono[OF assms(1) subset_insertI] by (auto simp: wal_append_def require_healthy_def)
next
  case False
  let ?e = "e\<lparr>wal_seq := wal_sequence w + 1\<rparr>"
  have cont: "wal_contents w = frames es" and ok: "\<forall>e\<in>set es. wal_entry_ok e"
    using assms(1) False by (auto simp: log_holds_def)
  show ?thesis
  proof (cases "serialize_entry ?e")
    case (Inl x)
    then show ?thesis
      using assms False cont ok
      by (auto simp: wal_append_def require_healthy_def log_holds_def wal_contents_def)
  next
    case (Inr data)
    have e: "wal_entry_ok ?e" "frame ?e = data"
      using Inr assms(2) by (auto simp: wal_entry_ok_def frame_def)
    show ?thesis
    proof (cases out)
      case IoOk
      then show ?thesis
        using assms(3) False cont ok Inr e
        by (auto simp: wal_append_def require_healthy_def write_and_sync_def log_holds_def
            wal_contents_def frames_snoc)
    next
      case (IoFail n)
      then have w': "r = Inl OSError" "wal_fenced w'" "wal_contents w' = frames es @ take n (frame ?e)"
        "wal_sequence w' = wal_sequence w + 1"
        using assms(3) False cont Inr e
        by (auto simp: wal_append_def require_healthy_def write_and_sync_def wal_contents_def)
      then show ?thesis
        using ok e(1) by (auto simp: log_holds_def)
    qed
  qed
qed

lemma log_holds_truncate:
  assumes "log_holds w es X" "wal_truncate out w = (w', r)"
  shows "log_holds w' (if wal_file w' = wal_file w then es else []) X"
proof (cases "wal_fenced w")
  case True
  then show ?thesis using assms by (simp add: wal_truncate_def require_healthy_def)
next
  case False
  then show ?thesis
    using assms
    by (auto simp: wal_truncate_def require_healthy_def log_holds_def wal_contents_def frames_def
        split: io.splits if_splits)
qed

lemma wal_replay_fence:
  "wal_replay IoOk (w\<lparr>wal_fenced := b\<rparr>) = (w', Inr x) \<Longrightarrow> wal_replay IoOk w = (w', Inr x)"
  by (auto simp: wal_replay_def split: sum.splits prod.splits)

lemma wal_run_holds: "wal_run w es \<Longrightarrow> log_holds w es UNIV"
proof (induction rule: wal_run.induct)
  case start
  then show ?case by (simp add: log_holds_def wal_init_def wal_contents_def frames_def)
next
  case (append_ok w es e out w')
  then show ?case using log_holds_append[of w es UNIV e out w' "Inr ()"] by simp
next
  case (append_raise w es e out w' x)
  then show ?case using log_holds_append[of w es UNIV e out w' "Inl x"] by simp
next
  case (truncated w es out w' r)
  then show ?case using log_holds_truncate by blast
next
  case (restart w es w' es')
  let ?w = "(wal_init (wal_file w))\<lparr>wal_fenced := True\<rparr>"
  have "log_holds ?w es UNIV"
    using restart.IH by (auto simp: log_holds_def wal_init_def wal_contents_def)
  from wal_replay_holds[OF this] obtain w2 extra where
    2: "wal_replay IoOk ?w = (w2, Inr (map wal_norm (es @ extra)))"
      "log_holds w2 (map wal_norm (es @ extra)) UNIV" by blast
  from wal_replay_fence[OF 2(1)] 2(2) restart.hyps show ?case by simp
qed

text \<open>
  C5.  Durability across torn writes: after any run of appends (some of them failing after any number of
  bytes reached the file), truncations and restarts, replaying the log succeeds and returns exactly
  the acknowledged entries in order, followed by at most one entry whose append raised; without a
  failed append there is no such entry.  The log is usable again and holds exactly what was returned.
\<close>

theorem wal_replay_recovers:
  assumes "wal_run w acked"
  shows "\<exists>w' extra. length extra \<le> 1 \<and> (\<not> wal_fenced w \<longrightarrow> extra = [])
    \<and> wal_replay IoOk w = (w', Inr (map wal_norm (acked @ extra)))
    \<and> \<not> wal_fenced w' \<and> wal_file w' = (if wal_file w = None then None else Some (frames (acked @ extra)))"
proof -
  from wal_replay_holds[OF wal_run_holds[OF assms]] obtain w' extra where
    w': "length extra \<le> 1" "\<not> wal_fenced w \<longrightarrow> extra = []" "\<not> wal_fenced w'"
      "wal_replay IoOk w = (w', Inr (map wal_norm (acked @ extra)))"
      "log_holds w' (map wal_norm (acked @ extra)) UNIV"
    by blast
  have "wal_contents w' = frames (acked @ extra)"
    using w'(3,5) by (auto simp: log_holds_def simp flip: map_append)
  moreover have "wal_file w' = None \<longleftrightarrow> wal_file w = None"
    using w'(4) by (auto simp: wal_replay_def read_all_entries_def and_then_case
        split: sum.splits option.splits prod.splits)
  ultimately have "wal_file w' = (if wal_file w = None then None else Some (frames (acked @ extra)))"
    by (auto simp: wal_contents_def split: option.splits)
  with w' show ?thesis by blast
qed

text \<open>A run with one acknowledged entry and one append torn after nine bytes.\<close>

definition demo_put :: "bytes \<Rightarrow> bytes \<Rightarrow> WALEntry" where
  "demo_put k v = \<lparr>wal_seq = 0, wal_type = PUT, wal_key = k, wal_value = Some v, wal_time = 0\<rparr>"

definition demo_log :: "io \<Rightarrow> bytes \<Rightarrow> bytes \<Rightarrow> WriteAheadLog \<Rightarrow> WriteAheadLog" where
  "demo_log out k v w = fst (wal_append out (demo_put k v) w)"

lemma demo_serialize:
  "n < 10 \<Longrightarrow> \<exists>data. serialize_entry ((demo_put [k] [v])\<lparr>wal_seq := n\<rparr>) = Inr data"
  by (rule serialize_entry_ok) (simp_all add: demo_put_def value_bytes_def)

lemma demo_wal_run:
  "wal_run (demo_log (IoFail 9) [98] [2] (demo_log IoOk [97] [1] (wal_init None)))
     [(demo_put [97] [1])\<lparr>wal_seq := 1\<rparr>]"
proof -
  let ?w1 = "demo_log IoOk [97] [1] (wal_init None)"
  have keys: "utf8_ok (wal_key (demo_put [k] v))" if "unat k < 128" for k v
    using that by (simp add: demo_put_def in_range_def)
  have a: "wal_append IoOk (demo_put [97] [1]) (wal_init None) = (?w1, Inr ())" "wal_sequence ?w1 = 1"
    "\<not> wal_fenced ?w1"
    using demo_serialize[of 1 97 1]
    by (auto simp: demo_log_def wal_append_def wal_init_def require_healthy_def write_and_sync_def)
  from wal_run.append_ok[OF wal_run.start _ a(1)] have 1: "wal_run ?w1 [(demo_put [97] [1])\<lparr>wal_seq := 1\<rparr>]"
    using keys[of 97 "[1]"] by (simp add: a(2))
  have "wal_append (IoFail 9) (demo_put [98] [2]) ?w1 = (demo_log (IoFail 9) [98] [2] ?w1, Inl OSError)"
    using demo_serialize[of 2 98 2] a(2,3)
    by (auto simp: demo_log_def[of "IoFail 9"] wal_append_def require_healthy_def write_and_sync_def
        numeral_2_eq_2 Let_def)
  from wal_run.append_raise[OF 1 _ this] show ?thesis using keys[of 98 "[2]"] by simp
qed

theorem wal_replay_recovers_witness:
  "\<exists>w' extra. length extra \<le> 1
    \<and> wal_replay IoOk (demo_log (IoFail 9) [98] [2] (demo_log IoOk [97] [1] (wal_init None)))
      = (w', Inr (map wal_norm ([(demo_put [97] [1])\<lparr>wal_seq := 1\<rparr>] @ extra)))"
  using wal_replay_recovers[OF demo_wal_run] by blast

end
