(* ===== verification/KV_SSTable.thy ===== *)
theory KV_SSTable
  imports KV_Memtable KV_Bloom KV_Wal
begin

text \<open>
  The immutable on-disk table (\<^verbatim>\<open>key-value-store/src/kv_store/storage/sstable.py\<close>, and the writer in
  \<^verbatim>\<open>compaction.py\<close> that shares its format): the writer's data block, sparse index, Bloom filter and
  footer, the reader that locates the footer from the end of the file, the binary search over the
  sparse index and the scan of one index interval.
\<close>

section \<open>Data\<close>

record SSTableMetadata =
  file_path :: string
  level :: nat
  min_key :: bytes
  max_key :: bytes
  entry_count :: nat
  size_bytes :: nat
  created_at :: float64

record IndexEntry =
  index_key :: bytes
  index_offset :: nat

record SSTable =
  raw_data :: bytes
  metadata :: SSTableMetadata
  sparse_index :: "IndexEntry list"
  table_bloom :: BloomFilter
  data_block_size :: nat
  index_block_size :: nat
  bloom_filter_size :: nat

definition MAGIC_NUMBER :: nat where
  "MAGIC_NUMBER = 0x53535442"

definition INDEX_INTERVAL :: nat where
  "INDEX_INTERVAL = 16"

section \<open>Writing a table\<close>

definition encode_entry :: "SSTableEntry \<Rightarrow> bytes result" where
  "encode_entry e =
     and_then (struct_pack 4 (length (entry_key e))) (\<lambda>klen.
     and_then (struct_pack 4 (length (value_bytes (entry_value e)))) (\<lambda>vlen.
     and_then (struct_pack 1 (if entry_tombstone e then 1 else 0)) (\<lambda>flag.
       Inr (klen @ entry_key e @ vlen @ value_bytes (entry_value e)
            @ float_bytes (entry_timestamp e) @ flag))))"

fun build_loop ::
  "bloom_env \<Rightarrow> nat \<Rightarrow> SSTableEntry list \<Rightarrow> bytes \<Rightarrow> IndexEntry list \<Rightarrow> BloomFilter
   \<Rightarrow> (bytes \<times> IndexEntry list \<times> BloomFilter) result" where
  "build_loop env i [] block index bloom = Inr (block, index, bloom)"
| "build_loop env i (e # es) block index bloom =
     (let index' = (if i mod INDEX_INTERVAL = 0
                    then index @ [\<lparr>index_key = entry_key e, index_offset = length block\<rparr>]
                    else index)
      in and_then (bloom_add env (entry_key e) bloom) (\<lambda>bloom'.
         and_then (encode_entry e) (\<lambda>b.
           build_loop env (i + 1) es (block @ b) index' bloom')))"

definition encode_index_entry :: "IndexEntry \<Rightarrow> bytes result" where
  "encode_index_entry x =
     and_then (struct_pack 4 (length (index_key x))) (\<lambda>klen.
     and_then (struct_pack 8 (index_offset x)) (\<lambda>off.
       Inr (klen @ index_key x @ off)))"

definition encode_footer ::
  "nat \<Rightarrow> nat \<Rightarrow> nat \<Rightarrow> nat \<Rightarrow> nat \<Rightarrow> bytes \<Rightarrow> bytes \<Rightarrow> float64 \<Rightarrow> bytes result" where
  "encode_footer dsize isize bsize count lvl kmin kmax created =
     and_then (struct_pack 8 dsize) (\<lambda>d.
     and_then (struct_pack 8 isize) (\<lambda>i.
     and_then (struct_pack 8 bsize) (\<lambda>b.
     and_then (struct_pack 4 count) (\<lambda>c.
     and_then (struct_pack 4 lvl) (\<lambda>l.
     and_then (struct_pack 4 (length kmin)) (\<lambda>mn.
     and_then (struct_pack 4 (length kmax)) (\<lambda>mx.
     and_then (struct_pack 4 MAGIC_NUMBER) (\<lambda>magic.
       Inr (d @ i @ b @ c @ l @ mn @ kmin @ mx @ kmax @ float_bytes created @ magic)))))))))"

text \<open>The file both writers produce for a list of entries that is not empty.\<close>

definition build_file :: "bloom_env \<Rightarrow> SSTableEntry list \<Rightarrow> nat \<Rightarrow> float64 \<Rightarrow> bytes result" where
  "build_file env es lvl created =
     and_then (bloom_init env (max (int (length es)) 1) DEFAULT_RATE) (\<lambda>bloom0.
     and_then (build_loop env 0 es [] [] bloom0) (\<lambda>(block, index, bloom).
     and_then (traverse encode_index_entry index) (\<lambda>index_parts.
     and_then (bloom_serialize bloom) (\<lambda>bloom_data.
     and_then (encode_footer (length block) (length (concat index_parts)) (length bloom_data)
                 (length es) lvl (entry_key (hd es)) (entry_key (last es)) created) (\<lambda>footer.
       Inr (block @ concat index_parts @ bloom_data @ footer))))))"

section \<open>Opening a table\<close>

function parse_index_block :: "bytes \<Rightarrow> nat \<Rightarrow> IndexEntry list result" where
  "parse_index_block data pos =
     (if pos < length data then
        if pos + 4 > length data then Inr []
        else
          let klen = le_nat (slice data pos (pos + 4)); p1 = pos + 4 in
          if p1 + klen > length data then Inr []
          else and_then (decode_utf8 (slice data p1 (p1 + klen))) (\<lambda>key.
            let p2 = p1 + klen in
            if p2 + 8 > length data then Inr []
            else and_then (parse_index_block data (p2 + 8)) (\<lambda>xs.
              Inr (\<lparr>index_key = key, index_offset = le_nat (slice data p2 (p2 + 8))\<rparr> # xs)))
      else Inr [])"
  by pat_completeness auto
termination
  by (relation "measure (\<lambda>(data, pos). length data - pos)") auto

declare parse_index_block.simps [simp del]

definition parse_footer_at ::
  "string \<Rightarrow> bytes \<Rightarrow> nat \<Rightarrow> nat \<Rightarrow> nat \<Rightarrow> nat \<Rightarrow> SSTable result" where
  "parse_footer_at path data start dsize isize bsize =
     (let pos = start + 24 in
      and_then (unpack_from 4 data pos) (\<lambda>count.
      and_then (unpack_from 4 data (pos + 4)) (\<lambda>lvl.
      and_then (unpack_from 4 data (pos + 8)) (\<lambda>min_len.
      and_then (decode_utf8 (slice data (pos + 12) (pos + 12 + min_len))) (\<lambda>kmin.
      let pos = pos + 12 + min_len in
      and_then (unpack_from 4 data pos) (\<lambda>max_len.
      and_then (decode_utf8 (slice data (pos + 4) (pos + 4 + max_len))) (\<lambda>kmax.
      let pos = pos + 4 + max_len in
      and_then (unpack_float data pos) (\<lambda>created.
      and_then (unpack_from 4 data (pos + 8)) (\<lambda>magic.
      if magic \<noteq> MAGIC_NUMBER then Inl (ValueError ''Magic number mismatch in footer'')
      else if pos + 12 \<noteq> length data then Inl (ValueError ''Footer size mismatch'')
      else
        and_then (parse_index_block (slice data dsize (dsize + isize)) 0) (\<lambda>index.
        and_then (bloom_deserialize (slice data (dsize + isize) (dsize + isize + bsize))) (\<lambda>bloom.
          Inr \<lparr>raw_data = data,
               metadata = \<lparr>file_path = path, level = lvl, min_key = kmin, max_key = kmax,
                 entry_count = count, size_bytes = length data, created_at = created\<rparr>,
               sparse_index = index, table_bloom = bloom, data_block_size = dsize,
               index_block_size = isize, bloom_filter_size = bsize\<rparr>)))))))))))"

text \<open>The exceptions the footer search swallows.\<close>

fun footer_error :: "exn \<Rightarrow> bool" where
  "footer_error StructError = True"
| "footer_error UnicodeDecodeError = True"
| "footer_error (ValueError _) = True"
| "footer_error _ = False"

text \<open>One candidate of the search: \<open>None\<close> goes on to the next footer size.\<close>

definition footer_candidate :: "string \<Rightarrow> bytes \<Rightarrow> nat \<Rightarrow> SSTable result option" where
  "footer_candidate path data start =
     (if start + 24 > length data then None
      else
        let dsize = le_nat (slice data start (start + 8));
            isize = le_nat (slice data (start + 8) (start + 16));
            bsize = le_nat (slice data (start + 16) (start + 24))
        in if dsize + isize + bsize = start then
             (case parse_footer_at path data start dsize isize bsize of
                Inr t \<Rightarrow> Some (Inr t)
              | Inl x \<Rightarrow> if footer_error x then None else Some (Inl x))
           else None)"

fun find_footer :: "string \<Rightarrow> bytes \<Rightarrow> nat list \<Rightarrow> SSTable result" where
  "find_footer path data [] = Inl (ValueError ''Could not locate valid footer in SSTable file'')"
| "find_footer path data (c # cs) =
     (if length data < c then Inl (ValueError ''Could not locate valid footer in SSTable file'')
      else case footer_candidate path data (length data - c) of
             None \<Rightarrow> find_footer path data cs
           | Some r \<Rightarrow> r)"

definition parse_footer_from_end :: "string \<Rightarrow> bytes \<Rightarrow> SSTable result" where
  "parse_footer_from_end path data =
     find_footer path data [52..<min (length data) (52 + 65536) + 1]"

definition load_from_bytes :: "string \<Rightarrow> bytes \<Rightarrow> SSTable result" where
  "load_from_bytes path data =
     (if length data < 4 then Inl (ValueError ''File too small to be a valid SSTable'')
      else if le_nat (drop (length data - 4) data) \<noteq> MAGIC_NUMBER then
        Inl (ValueError ''Invalid SSTable file: bad magic number'')
      else if length data < 12 then Inl StructError
      else parse_footer_from_end path data)"

definition sstable_open :: "string \<Rightarrow> bytes option \<Rightarrow> SSTable result" where
  "sstable_open path stored =
     (case stored of
        None \<Rightarrow> Inl FileNotFoundError
      | Some data \<Rightarrow> load_from_bytes path data)"

text \<open>
  Writing publishes the file and then reads it back: the result is the file and the outcome of
  opening it.
\<close>

definition create_from_memtable ::
  "bloom_env \<Rightarrow> MemTable \<Rightarrow> string \<Rightarrow> nat \<Rightarrow> float64 \<Rightarrow> (bytes \<times> SSTable result) result" where
  "create_from_memtable env mt path lvl created =
     (let es = entries_sorted mt in
      if es = [] then Inl (ValueError ''Cannot create SSTable from empty MemTable'')
      else and_then (build_file env es lvl created) (\<lambda>data.
           Inr (data, sstable_open path (Some data))))"

definition create_sstable_from_entries ::
  "bloom_env \<Rightarrow> SSTableEntry list \<Rightarrow> string \<Rightarrow> nat \<Rightarrow> float64 \<Rightarrow> (bytes \<times> SSTable result) result" where
  "create_sstable_from_entries env es path lvl created =
     (if es = [] then Inl (ValueError ''Cannot create SSTable from empty entries after compaction'')
      else and_then (build_file env es lvl created) (\<lambda>data.
           Inr (data, sstable_open path (Some data))))"

section \<open>Reading a table\<close>

definition read_entry_at :: "bytes \<Rightarrow> nat \<Rightarrow> nat \<Rightarrow> (SSTableEntry \<times> nat) option" where
  "read_entry_at data dsize pos =
     (if pos + 4 > dsize then None else
      case unpack_from 4 data pos of Inl _ \<Rightarrow> None | Inr klen \<Rightarrow>
      let pos = pos + 4 in
      if pos + klen > dsize then None else
      case decode_utf8 (slice data pos (pos + klen)) of Inl _ \<Rightarrow> None | Inr key \<Rightarrow>
      let pos = pos + klen in
      if pos + 4 > dsize then None else
      case unpack_from 4 data pos of Inl _ \<Rightarrow> None | Inr vlen \<Rightarrow>
      let pos = pos + 4 in
      if pos + vlen > dsize then None else
      let val = slice data pos (pos + vlen); pos = pos + vlen in
      if pos + 8 > dsize then None else
      case unpack_float data pos of Inl _ \<Rightarrow> None | Inr ts \<Rightarrow>
      let pos = pos + 8 in
      if pos + 1 > dsize then None else
      case unpack_from 1 data pos of Inl _ \<Rightarrow> None | Inr flag \<Rightarrow>
      let dead = (flag = 1) in
      Some (\<lparr>entry_key = key, entry_value = (if \<not> dead then Some val else None),
             entry_timestamp = ts, entry_tombstone = dead\<rparr>, pos + 1))"

lemma read_entry_at_progress:
  "read_entry_at data dsize pos = Some (e, p) \<Longrightarrow> pos < p \<and> p \<le> dsize"
  by (auto simp: read_entry_at_def Let_def split: if_splits sum.splits)

function entries_loop :: "bytes \<Rightarrow> nat \<Rightarrow> nat \<Rightarrow> SSTableEntry list" where
  "entries_loop data dsize pos =
     (if pos < dsize then
        case read_entry_at data dsize pos of
          None \<Rightarrow> []
        | Some (e, p) \<Rightarrow> e # entries_loop data dsize p
      else [])"
  by pat_completeness auto
termination
  by (relation "measure (\<lambda>(data, dsize, pos). dsize - pos)") (auto dest!: read_entry_at_progress)

declare entries_loop.simps [simp del]

definition sstable_entries :: "SSTable \<Rightarrow> SSTableEntry list" where
  "sstable_entries t = entries_loop (raw_data t) (data_block_size t) 0"

function scan_data_block ::
  "bytes \<Rightarrow> nat \<Rightarrow> bytes \<Rightarrow> nat \<Rightarrow> nat \<Rightarrow> SSTableEntry option" where
  "scan_data_block data dsize key pos end_offset =
     (if pos < end_offset then
        case read_entry_at data dsize pos of
          None \<Rightarrow> None
        | Some (e, p) \<Rightarrow>
            if entry_key e = key then Some e
            else if entry_key e > key then None
            else scan_data_block data dsize key p end_offset
      else None)"
  by pat_completeness auto
termination
  by (relation "measure (\<lambda>(data, dsize, key, pos, end_offset). end_offset - pos)")
    (auto dest!: read_entry_at_progress)

declare scan_data_block.simps [simp del]

text \<open>The loop bounds are signed: \<open>hi\<close> may reach \<open>-1\<close>.\<close>

function search_index :: "IndexEntry list \<Rightarrow> bytes \<Rightarrow> int \<Rightarrow> int \<Rightarrow> nat \<Rightarrow> nat" where
  "search_index index key lo hi result_idx =
     (if lo \<le> hi then
        let mid = (lo + hi) div 2 in
        if index_key (index ! nat mid) \<le> key then search_index index key (mid + 1) hi (nat mid)
        else search_index index key lo (mid - 1) result_idx
      else result_idx)"
  by pat_completeness auto
termination
  by (relation "measure (\<lambda>(index, key, lo, hi, r). nat (hi + 1 - lo))") auto

declare search_index.simps [simp del]

definition find_scan_range :: "SSTable \<Rightarrow> bytes \<Rightarrow> nat \<times> nat" where
  "find_scan_range t key =
     (let index = sparse_index t in
      if index = [] then (0, data_block_size t)
      else
        let r = search_index index key 0 (int (length index) - 1) 0 in
        (index_offset (index ! r),
         if r + 1 < length index then index_offset (index ! (r + 1)) else data_block_size t))"

definition sstable_get :: "bloom_env \<Rightarrow> SSTable \<Rightarrow> bytes \<Rightarrow> SSTableEntry option result" where
  "sstable_get env t key =
     and_then (might_contain env (table_bloom t) key) (\<lambda>maybe.
       if \<not> maybe then Inr None
       else if key < min_key (metadata t) \<or> key > max_key (metadata t) then Inr None
       else
         let (start_offset, end_offset) = find_scan_range t key in
         Inr (scan_data_block (raw_data t) (data_block_size t) key start_offset end_offset))"

definition may_contain :: "bloom_env \<Rightarrow> SSTable \<Rightarrow> bytes \<Rightarrow> bool result" where
  "may_contain env t key = might_contain env (table_bloom t) key"

end
