(* ===== verification/KV_SSTable_Laws.thy ===== *)
theory KV_SSTable_Laws
  imports KV_SSTable
begin

text \<open>
  What the on-disk table promises: a file written from a strictly sorted list of entries reopens as
  a table that iterates over exactly those entries and whose indexed lookup agrees with a linear
  search.  The last part shows that the search for the footer cannot stop early when the extreme
  keys are non-empty and free of NUL bytes.
\<close>

section \<open>The data block\<close>

definition enc :: "SSTableEntry \<Rightarrow> bytes" where
  "enc e = le_bytes 4 (length (entry_key e)) @ entry_key e
     @ le_bytes 4 (length (value_bytes (entry_value e))) @ value_bytes (entry_value e)
     @ float_bytes (entry_timestamp e) @ le_bytes 1 (if entry_tombstone e then 1 else 0)"

definition block :: "SSTableEntry list \<Rightarrow> bytes" where
  "block es = concat (map enc es)"

definition entry_fits :: "SSTableEntry \<Rightarrow> bool" where
  "entry_fits e \<longleftrightarrow> utf8_ok (entry_key e) \<and> length (entry_key e) < 256 ^ 4
     \<and> length (value_bytes (entry_value e)) < 256 ^ 4 \<and> entry_ok e"

lemma encode_entry_Inr:
  "encode_entry e = Inr b \<Longrightarrow> b = enc e"
  "encode_entry e = Inr b \<Longrightarrow> length (entry_key e) < 256 ^ 4 \<and> length (value_bytes (entry_value e)) < 256 ^ 4"
  by (auto simp: encode_entry_def enc_def result_simps simp del: le_bytes.simps)

lemma block_simps [simp]: "block [] = []" "block (e # es) = enc e @ block es"
  "block (xs @ ys) = block xs @ block ys"
  by (simp_all add: block_def)

lemma enc_ne [simp]: "enc e \<noteq> []" "0 < length (enc e)"
  by (simp_all add: enc_def)

lemma read_entry_at_enc:
  assumes "entry_fits e" "length pre + length (enc e) \<le> dsize"
  shows "read_entry_at (pre @ enc e @ post) dsize (length pre) = Some (e, length pre + length (enc e))"
proof -
  let ?k = "entry_key e" and ?v = "value_bytes (entry_value e)" and ?f = "float_bytes (entry_timestamp e)"
  let ?kl = "le_bytes 4 (length ?k)" and ?vl = "le_bytes 4 (length ?v)"
  let ?t = "le_bytes 1 (if entry_tombstone e then 1 else 0)"
  let ?data = "pre @ enc e @ post" and ?p = "length pre"
  have fits: "utf8_ok ?k" "length ?k < 256 ^ 4" "length ?v < 256 ^ 4" and ok: "entry_ok e"
    using assms(1) by (simp_all add: entry_fits_def)
  have len: "length (enc e) = 17 + length ?k + length ?v" by (simp add: enc_def)
  have u1: "unpack_from 4 ?data ?p = Inr (length ?k)"
    using unpack_from_at[of ?p pre 4 ?kl] fits by (simp add: enc_def)
  have u2: "slice ?data (?p + 4) (?p + 4 + length ?k) = ?k"
    using slice_at[of "?p + 4" "pre @ ?kl" _ ?k] by (simp add: enc_def)
  have u3: "unpack_from 4 ?data (?p + 4 + length ?k) = Inr (length ?v)"
    using unpack_from_at[of "?p + 4 + length ?k" "pre @ ?kl @ ?k" 4 ?vl] fits by (simp add: enc_def)
  have u4: "slice ?data (?p + 4 + length ?k + 4) (?p + 4 + length ?k + 4 + length ?v) = ?v"
    using slice_at[of "?p + 4 + length ?k + 4" "pre @ ?kl @ ?k @ ?vl" _ ?v] by (simp add: enc_def)
  have u5: "unpack_float ?data (?p + 4 + length ?k + 4 + length ?v) = Inr (entry_timestamp e)"
    using unpack_float_at[of "?p + 4 + length ?k + 4 + length ?v" "pre @ ?kl @ ?k @ ?vl @ ?v"]
    by (simp add: enc_def)
  have u6: "unpack_from 1 ?data (?p + 4 + length ?k + 4 + length ?v + 8)
      = Inr (if entry_tombstone e then 1 else 0)"
    using unpack_from_at[of "?p + 4 + length ?k + 4 + length ?v + 8" "pre @ ?kl @ ?k @ ?vl @ ?v @ ?f" 1 ?t]
    by (simp add: enc_def)
  have val: "(if \<not> entry_tombstone e then Some ?v else None) = entry_value e"
    using ok by (cases "entry_value e") (auto simp: entry_ok_def value_bytes_def)
  have g: "\<not> ?p + 4 > dsize" "\<not> ?p + 4 + length ?k > dsize" "\<not> ?p + 4 + length ?k + 4 > dsize"
    "\<not> ?p + 4 + length ?k + 4 + length ?v > dsize" "\<not> ?p + 4 + length ?k + 4 + length ?v + 8 > dsize"
    "\<not> ?p + 4 + length ?k + 4 + length ?v + 8 + 1 > dsize"
    using assms(2) len by simp_all
  have flag: "((if entry_tombstone e then 1 else 0) = (1::nat)) = entry_tombstone e" by simp
  show ?thesis
    unfolding read_entry_at_def Let_def u1 u2 u3 u4 u5 u6 sum.case decode_utf8_ok[OF fits(1)] flag val
    by (simp only: g if_False) (simp add: len)
qed

lemma entries_loop_block:
  assumes "\<forall>e\<in>set es. entry_fits e" "dsize = length pre + length (block es)"
  shows "entries_loop (pre @ block es @ post) dsize (length pre) = es"
  using assms
proof (induction es arbitrary: pre)
  case Nil
  then show ?case by (simp add: entries_loop.simps)
next
  case (Cons e es)
  have "read_entry_at (pre @ block (e # es) @ post) dsize (length pre) = Some (e, length (pre @ enc e))"
    using read_entry_at_enc[of e pre dsize "block es @ post"] Cons.prems by simp
  moreover have "entries_loop ((pre @ enc e) @ block es @ post) dsize (length (pre @ enc e)) = es"
    using Cons.prems by (intro Cons.IH) simp_all
  ultimately show ?case
    using Cons.prems by (subst entries_loop.simps) simp
qed

text \<open>On sorted entries the early exit of the scan loses nothing.\<close>

lemma scan_data_block_sorted:
  assumes "\<forall>e\<in>set es. entry_fits e" "length pre + length (block es) \<le> dsize"
    "sorted_wrt (<) (map entry_key es)"
  shows "scan_data_block (pre @ block es @ post) dsize key (length pre) (length pre + length (block es))
    = List.find (\<lambda>e. entry_key e = key) es"
  using assms
proof (induction es arbitrary: pre)
  case Nil
  then show ?case by (simp add: scan_data_block.simps)
next
  case (Cons e es)
  have r: "read_entry_at (pre @ block (e # es) @ post) dsize (length pre) = Some (e, length (pre @ enc e))"
    using read_entry_at_enc[of e pre dsize "block es @ post"] Cons.prems by simp
  have ih: "scan_data_block ((pre @ enc e) @ block es @ post) dsize key (length (pre @ enc e))
      (length (pre @ enc e) + length (block es)) = List.find (\<lambda>e. entry_key e = key) es"
    using Cons.prems by (intro Cons.IH) simp_all
  have gt: "List.find (\<lambda>e. entry_key e = key) es = None" if "entry_key e > key"
    using Cons.prems(3) that by (fastforce simp: find_None_iff)
  show ?case
    by (subst scan_data_block.simps) (use r ih gt in \<open>auto simp: add.assoc\<close>)
qed

section \<open>The sparse index\<close>

definition offset_of :: "SSTableEntry list \<Rightarrow> nat \<Rightarrow> nat" where
  "offset_of es i = length (block (take i es))"

definition index_of :: "SSTableEntry list \<Rightarrow> IndexEntry list" where
  "index_of es = map (\<lambda>j. \<lparr>index_key = entry_key (es ! (16 * j)), index_offset = offset_of es (16 * j)\<rparr>)
     [0..<(length es + 15) div 16]"

text \<open>The binary search finds the last index entry whose key is not above the wanted one.\<close>

lemma search_index_spec:
  assumes sorted: "sorted_wrt (<) (map index_key ix)" and first: "index_key (ix ! 0) \<le> key"
  shows "\<lbrakk>0 \<le> lo; lo \<le> hi + 1; hi < int (length ix);
      \<forall>j<length ix. hi < int j \<longrightarrow> key < index_key (ix ! j);
      r = nat (lo - 1); index_key (ix ! r) \<le> key; r < length ix\<rbrakk>
    \<Longrightarrow> search_index ix key lo hi r < length ix
      \<and> index_key (ix ! search_index ix key lo hi r) \<le> key
      \<and> (\<forall>j<length ix. search_index ix key lo hi r < j \<longrightarrow> key < index_key (ix ! j))"
proof (induction "nat (hi + 1 - lo)" arbitrary: lo hi r rule: less_induct)
  case less
  show ?case
  proof (cases "lo \<le> hi")
    case False
    then have "lo = hi + 1" using less.prems by simp
    moreover have "0 \<le> hi"
    proof (rule ccontr)
      assume "\<not> 0 \<le> hi"
      then have "key < index_key (ix ! 0)" 
        using less.prems(4)[rule_format, of 0] less.prems(7) by (cases ix) auto
      with first show False by simp
    qed
    ultimately show ?thesis
      using less.prems by (subst (1 2 3) search_index.simps) auto
  next
    case True
    let ?mid = "(lo + hi) div 2"
    have mid: "lo \<le> ?mid" "?mid \<le> hi" "0 \<le> ?mid" using True less.prems(1) by simp_all
    show ?thesis
    proof (cases "index_key (ix ! nat ?mid) \<le> key")
      case le: True
      have step: "search_index ix key lo hi r = search_index ix key (?mid + 1) hi (nat ?mid)"
        using True le by (subst search_index.simps) (simp add: Let_def)
      show ?thesis
        unfolding step using True mid le less.prems by (intro less.hyps) simp_all
    next
      case gt: False
      have step: "search_index ix key lo hi r = search_index ix key lo (?mid - 1) r"
        using True gt by (subst search_index.simps) (simp add: Let_def)
      have "key < index_key (ix ! j)" if "j < length ix" "?mid - 1 < int j" for j
      proof -
        have "nat ?mid \<le> j" using that(2) by simp
        then have "index_key (ix ! nat ?mid) \<le> index_key (ix ! j)"
          using sorted that(1) sorted_wrt_nth_less[OF sorted, of "nat ?mid" j]
          by (cases "nat ?mid = j") auto
        with gt show ?thesis by simp
      qed
      then show ?thesis
        unfolding step using True mid less.prems by (intro less.hyps) simp_all
    qed
  qed
qed

lemma search_index_last:
  assumes "sorted_wrt (<) (map index_key ix)" "index_key (ix ! 0) \<le> key" "ix \<noteq> []"
  defines "r \<equiv> search_index ix key 0 (int (length ix) - 1) 0"
  shows "r < length ix" "index_key (ix ! r) \<le> key" "\<And>j. r < j \<Longrightarrow> j < length ix \<Longrightarrow> key < index_key (ix ! j)"
  using search_index_spec[OF assms(1,2), of 0 "int (length ix) - 1" 0] assms(2,3)
  by (simp_all add: r_def)

lemma index_of_sorted:
  assumes "sorted_wrt (<) (map entry_key es)"
  shows "sorted_wrt (<) (map index_key (index_of es))"
proof -
  have "entry_key (es ! (16 * i)) < entry_key (es ! (16 * j))"
    if "i < j" "j < (length es + 15) div 16" for i j
  proof -
    have "16 * i < 16 * j" "16 * j < length es" using that by auto
    then show ?thesis using sorted_wrt_nth_less[OF assms, of "16 * i" "16 * j"] by simp
  qed
  then show ?thesis by (auto simp: index_of_def sorted_wrt_iff_nth_less)
qed

lemma find_append:
  "List.find P (xs @ ys) = (case List.find P xs of None \<Rightarrow> List.find P ys | Some x \<Rightarrow> Some x)"
  by (induction xs) auto

text \<open>The interval between two consecutive index entries holds the wanted key if any does.\<close>

lemma find_in_interval:
  assumes sorted: "sorted_wrt (<) (map entry_key es)" and r: "16 * r < length es"
    and lo: "entry_key (es ! (16 * r)) \<le> key"
    and hi: "16 * (r + 1) < length es \<Longrightarrow> key < entry_key (es ! (16 * (r + 1)))"
  shows "List.find (\<lambda>e. entry_key e = key) es
    = List.find (\<lambda>e. entry_key e = key) (take 16 (drop (16 * r) es))"
proof -
  let ?P = "\<lambda>e. entry_key e = key"
  have split: "es = take (16 * r) es @ take 16 (drop (16 * r) es) @ drop (16 * (r + 1)) es"
    by (simp add: drop_drop[symmetric] add.commute del: drop_drop)
  have nth: "entry_key (es ! i) < entry_key (es ! j)" if "i < j" "j < length es" for i j
    using sorted_wrt_nth_less[OF sorted, of i j] that by simp
  have 1: "List.find ?P (take (16 * r) es) = None"
    using nth[of _ "16 * r"] r lo by (fastforce simp: find_None_iff in_set_conv_nth)
  have 2: "List.find ?P (drop (16 * (r + 1)) es) = None"
  proof -
    have above: "key < entry_key (es ! j)" if "16 * (r + 1) \<le> j" "j < length es" for j
      using that hi nth[of "16 * (r + 1)" j] by (cases "16 * (r + 1) = j") auto
    have "key < entry_key (drop (16 * (r + 1)) es ! j)" if "j < length es - 16 * (r + 1)" for j
      using above[of "16 * (r + 1) + j"] that by simp
    then have "entry_key (drop (16 * (r + 1)) es ! j) \<noteq> key" if "j < length es - 16 * (r + 1)" for j
      using that less_imp_neq by blast
    then show ?thesis by (auto simp: find_None_iff in_set_conv_nth)
  qed
  show ?thesis
    by (subst split, simp only: find_append 1 2) (simp split: option.splits)
qed

section \<open>A table that represents a list of entries\<close>

definition sst_repr :: "bloom_env \<Rightarrow> SSTable \<Rightarrow> SSTableEntry list \<Rightarrow> bool" where
  "sst_repr env t es \<longleftrightarrow>
     es \<noteq> [] \<and> sorted_wrt (<) (map entry_key es) \<and> (\<forall>e\<in>set es. entry_fits e)
     \<and> (\<exists>rest. raw_data t = block es @ rest) \<and> data_block_size t = length (block es)
     \<and> sparse_index t = index_of es
     \<and> min_key (metadata t) = entry_key (hd es) \<and> max_key (metadata t) = entry_key (last es)
     \<and> bloom_inv (table_bloom t)
     \<and> (\<forall>e\<in>set es. might_contain env (table_bloom t) (entry_key e) = Inr True)"

lemma sst_repr_entries: "sst_repr env t es \<Longrightarrow> sstable_entries t = es"
  using entries_loop_block[of es _ "[]"] by (auto simp: sst_repr_def sstable_entries_def)

lemma find_scan_range_repr:
  assumes "sst_repr env t es" "min_key (metadata t) \<le> key"
  shows "\<exists>r. 16 * r < length es \<and> entry_key (es ! (16 * r)) \<le> key
    \<and> (16 * (r + 1) < length es \<longrightarrow> key < entry_key (es ! (16 * (r + 1))))
    \<and> find_scan_range t key = (offset_of es (16 * r), offset_of es (16 * (r + 1)))"
proof -
  have es: "es \<noteq> []" "sorted_wrt (<) (map entry_key es)" "sparse_index t = index_of es"
    "data_block_size t = length (block es)"
    using assms(1) by (simp_all add: sst_repr_def)
  let ?ix = "index_of es"
  define r where "r = search_index ?ix key 0 (int (length ?ix) - 1) 0"
  have len: "length ?ix = (length es + 15) div 16" by (simp add: index_of_def)
  have ne: "?ix \<noteq> []" using es(1) len by (cases es) auto
  have nth: "?ix ! j = \<lparr>index_key = entry_key (es ! (16 * j)), index_offset = offset_of es (16 * j)\<rparr>"
    if "j < length ?ix" for j
    using that by (simp add: index_of_def)
  have "index_key (?ix ! 0) \<le> key"
    using assms es(1) ne by (simp add: nth sst_repr_def hd_conv_nth)
  note s = search_index_last[OF index_of_sorted[OF es(2)] this ne, folded r_def]
  have range: "16 * j < length es \<longleftrightarrow> j < length ?ix" for j unfolding len by auto
  have "entry_key (es ! (16 * r)) \<le> key" using s(1,2) nth by simp
  moreover have "16 * (r + 1) < length es \<longrightarrow> key < entry_key (es ! (16 * (r + 1)))"
    using s(3)[of "r + 1"] nth[of "r + 1"] range[of "r + 1"] by simp
  moreover have "find_scan_range t key = (offset_of es (16 * r), offset_of es (16 * (r + 1)))"
    using s(1) ne nth[of r] nth[of "r + 1"] range[of "r + 1"]
    by (auto simp: find_scan_range_def es Let_def offset_of_def simp flip: r_def)
  ultimately show ?thesis using range[of r] s(1) by blast
qed

lemma scan_interval:
  assumes "sst_repr env t es" "16 * r < length es"
  shows "scan_data_block (raw_data t) (data_block_size t) key (offset_of es (16 * r)) (offset_of es (16 * (r + 1)))
    = List.find (\<lambda>e. entry_key e = key) (take 16 (drop (16 * r) es))"
proof -
  let ?a = "take (16 * r) es" and ?b = "take 16 (drop (16 * r) es)" and ?c = "drop (16 * (r + 1)) es"
  from assms(1) obtain rest where es: "sorted_wrt (<) (map entry_key es)" "\<forall>e\<in>set es. entry_fits e"
    "raw_data t = block es @ rest" "data_block_size t = length (block es)"
    by (auto simp: sst_repr_def)
  have split: "es = ?a @ ?b @ ?c" by (simp add: drop_drop[symmetric] add.commute del: drop_drop)
  then have bl: "block es = block ?a @ block ?b @ block ?c" by (metis block_simps(3))
  have "take (16 * (r + 1)) es = ?a @ ?b"
    by (simp only: distrib_left mult_1_right take_add)
  then have off: "offset_of es (16 * r) = length (block ?a)"
    "offset_of es (16 * (r + 1)) = length (block ?a) + length (block ?b)"
    by (simp_all add: offset_of_def)
  have raw: "raw_data t = block ?a @ block ?b @ (block ?c @ rest)" unfolding es(3) bl by simp
  have fits: "\<forall>e\<in>set ?b. entry_fits e" using es(2) by (meson in_set_dropD in_set_takeD)
  have sorted: "sorted_wrt (<) (map entry_key ?b)"
    using es(1) by (simp add: sorted_wrt_take sorted_wrt_drop flip: take_map drop_map)
  show ?thesis
    unfolding off raw using bl es(4) by (intro scan_data_block_sorted fits sorted) simp
qed

theorem sst_repr_get:
  assumes "sst_repr env t es"
  shows "sstable_get env t key = Inr (List.find (\<lambda>e. entry_key e = key) es)"
proof -
  let ?find = "List.find (\<lambda>e. entry_key e = key) es"
  note es = assms[unfolded sst_repr_def]
  show ?thesis
  proof (cases ?find)
    case (Some e)
    then have e: "e \<in> set es" "entry_key e = key" by (auto simp: find_Some_iff)
    have "entry_key (hd es) \<le> key" "key \<le> entry_key (last es)"
    proof -
      from e(1) obtain i where i: "i < length es" "es ! i = e" by (auto simp: in_set_conv_nth)
      have le: "entry_key (es ! a) \<le> entry_key (es ! b)" if "a \<le> b" "b < length es" for a b
        using that sorted_wrt_nth_less[of "(<)" "map entry_key es" a b] es by (cases "a = b") auto
      show "entry_key (hd es) \<le> key" "key \<le> entry_key (last es)"
        using le[of 0 i] le[of i "length es - 1"] i e(2) es by (auto simp: hd_conv_nth last_conv_nth)
    qed
    moreover from find_scan_range_repr[OF assms, of key] obtain r where
      r: "16 * r < length es" "entry_key (es ! (16 * r)) \<le> key"
        "16 * (r + 1) < length es \<longrightarrow> key < entry_key (es ! (16 * (r + 1)))"
        "find_scan_range t key = (offset_of es (16 * r), offset_of es (16 * (r + 1)))"
      using calculation es by auto
    ultimately show ?thesis
      using scan_interval[OF assms r(1)] find_in_interval[of es r key] r es e
      by (auto simp: sstable_get_def)
  next
    case None
    have "might_contain env (table_bloom t) key
        = Inr (\<forall>p\<in>set (key_positions env (table_bloom t) key). bit_set (table_bloom t) p)"
      using might_contain_ok es by blast
    moreover have "find_scan_range t key = (a, b) \<Longrightarrow> min_key (metadata t) \<le> key
        \<Longrightarrow> scan_data_block (raw_data t) (data_block_size t) key a b = None" for a b
      using find_scan_range_repr[OF assms, of key] scan_interval[OF assms] find_in_interval[of es _ key] es None
      by fastforce
    ultimately show ?thesis
      using None by (auto simp: sstable_get_def split: prod.splits)
  qed
qed

lemma sst_repr_may_contain:
  assumes "sst_repr env t es"
  shows "\<exists>b. may_contain env t key = Inr b \<and> (b \<or> List.find (\<lambda>e. entry_key e = key) es = None)"
proof -
  note es = assms[unfolded sst_repr_def]
  have "List.find (\<lambda>e. entry_key e = key) es = None" if "might_contain env (table_bloom t) key \<noteq> Inr True"
    using es that by (auto simp: find_None_iff)
  moreover obtain b where "might_contain env (table_bloom t) key = Inr b"
    using might_contain_ok es by blast
  ultimately have "may_contain env t key = Inr b \<and> (b \<or> List.find (\<lambda>e. entry_key e = key) es = None)"
    by (cases b) (simp_all add: may_contain_def)
  then show ?thesis ..
qed

section \<open>What the writer builds\<close>

fun index_from :: "nat \<Rightarrow> SSTableEntry list \<Rightarrow> nat \<Rightarrow> IndexEntry list" where
  "index_from i [] n = []"
| "index_from i (e # es) n =
     (if i mod 16 = 0 then [\<lparr>index_key = entry_key e, index_offset = n\<rparr>] else [])
     @ index_from (i + 1) es (n + length (enc e))"

lemma index_from_snoc:
  "index_from i (es @ [e]) n = index_from i es n
   @ (if (i + length es) mod 16 = 0
      then [\<lparr>index_key = entry_key e, index_offset = n + length (block es)\<rparr>] else [])"
  by (induction i es n rule: index_from.induct) (simp_all add: add.assoc)

lemma div_interval_step: "n mod 16 \<noteq> 0 \<Longrightarrow> (16 + n) div 16 = (n + 15) div 16" for n :: nat
proof -
  assume "n mod 16 \<noteq> 0"
  then obtain q r where n: "n = 16 * q + r" "0 < r" "r < 16"
    using mult_div_mod_eq[of 16 n] by (metis gr0I mod_less_divisor zero_less_numeral)
  have "(16 + n) div 16 = Suc q" by (rule div_nat_eqI) (use n in simp_all)
  moreover have "(n + 15) div 16 = Suc q" by (rule div_nat_eqI) (use n in simp_all)
  ultimately show ?thesis by simp
qed

lemma index_of_snoc:
  "index_of (es @ [e]) = index_of es
   @ (if length es mod 16 = 0 then [\<lparr>index_key = entry_key e, index_offset = length (block es)\<rparr>] else [])"
proof -
  let ?item = "\<lambda>xs j. \<lparr>index_key = entry_key (xs ! (16 * j)), index_offset = offset_of xs (16 * j)\<rparr>"
  have same: "?item (es @ [e]) j = ?item es j" if "j < (length es + 15) div 16" for j
  proof -
    have "16 * j < length es" using that by auto
    then show ?thesis by (simp add: nth_append offset_of_def)
  qed
  show ?thesis
  proof (cases "length es mod 16 = 0")
    case True
    then obtain m where m: "length es = 16 * m" by (auto simp: mod_eq_0_iff_dvd)
    have new: "?item (es @ [e]) m = \<lparr>index_key = entry_key e, index_offset = length (block es)\<rparr>"
      by (simp add: offset_of_def flip: m)
    have len: "(length (es @ [e]) + 15) div 16 = Suc m" "(length es + 15) div 16 = m" using m by simp_all
    have "map (?item (es @ [e])) [0..<m] = map (?item es) [0..<m]"
      using same len(2) by (intro map_cong refl) simp
    moreover have "[0..<Suc m] = [0..<m] @ [m]" by simp
    ultimately have "index_of (es @ [e]) = index_of es @ [?item (es @ [e]) m]"
      unfolding index_of_def len by (simp only: map_append list.map)
    then show ?thesis unfolding new using True by (simp only: if_True refl)
  next
    case False
    then have len: "(length (es @ [e]) + 15) div 16 = (length es + 15) div 16"
      using div_interval_step by simp
    have "map (?item (es @ [e])) [0..<(length es + 15) div 16] = map (?item es) [0..<(length es + 15) div 16]"
      using same by (intro map_cong refl) simp
    then show ?thesis unfolding index_of_def len using False by (simp only: if_False append_Nil2)
  qed
qed

lemma index_from_index_of: "index_from 0 es 0 = index_of es"
  by (induction es rule: rev_induct) (simp_all add: index_from_snoc index_of_snoc, simp add: index_of_def)

lemma build_loop_Inr:
  assumes "build_loop env i es d ix bf = Inr (d', ix', bf')"
  shows "d' = d @ block es" "ix' = ix @ index_from i es (length d)"
    "bloom_add_all env (map entry_key es) bf = Inr bf'"
    "\<forall>e\<in>set es. length (entry_key e) < 256 ^ 4 \<and> length (value_bytes (entry_value e)) < 256 ^ 4"
proof -
  have "d' = d @ block es \<and> ix' = ix @ index_from i es (length d)
    \<and> bloom_add_all env (map entry_key es) bf = Inr bf'
    \<and> (\<forall>e\<in>set es. length (entry_key e) < 256 ^ 4 \<and> length (value_bytes (entry_value e)) < 256 ^ 4)"
    using assms
  proof (induction env i es d ix bf rule: build_loop.induct)
    case (2 env i e es d ix bf)
    let ?ix = "if i mod INDEX_INTERVAL = 0
      then ix @ [\<lparr>index_key = entry_key e, index_offset = length d\<rparr>] else ix"
    from "2.prems" obtain bf1 b where
      1: "bloom_add env (entry_key e) bf = Inr bf1" "encode_entry e = Inr b"
        "build_loop env (i + 1) es (d @ b) ?ix bf1 = Inr (d', ix', bf')"
      by (auto simp: Let_def result_simps)
    from "2.IH"[OF refl 1(3)] encode_entry_Inr[OF 1(2)] 1(1) show ?case
      by (simp add: INDEX_INTERVAL_def)
  qed simp
  then show "d' = d @ block es" "ix' = ix @ index_from i es (length d)"
    "bloom_add_all env (map entry_key es) bf = Inr bf'"
    "\<forall>e\<in>set es. length (entry_key e) < 256 ^ 4 \<and> length (value_bytes (entry_value e)) < 256 ^ 4"
    by blast+
qed

definition enc_index :: "IndexEntry \<Rightarrow> bytes" where
  "enc_index x = le_bytes 4 (length (index_key x)) @ index_key x @ le_bytes 8 (index_offset x)"

definition index_fits :: "IndexEntry \<Rightarrow> bool" where
  "index_fits x \<longleftrightarrow> length (index_key x) < 256 ^ 4 \<and> index_offset x < 256 ^ 8"

lemma encode_index_entry_Inr: "encode_index_entry x = Inr b \<Longrightarrow> b = enc_index x \<and> index_fits x"
  by (auto simp: encode_index_entry_def enc_index_def index_fits_def result_simps simp del: le_bytes.simps)

lemma encode_index_Inr:
  "traverse encode_index_entry xs = Inr parts \<Longrightarrow> parts = map enc_index xs \<and> (\<forall>x\<in>set xs. index_fits x)"
  by (induction xs arbitrary: parts) (auto simp: and_then_Inr_iff dest: encode_index_entry_Inr)

lemma parse_index_block_concat:
  assumes "\<forall>x\<in>set xs. index_fits x \<and> utf8_ok (index_key x)"
  shows "parse_index_block (pre @ concat (map enc_index xs)) (length pre) = Inr xs"
  using assms
proof (induction xs arbitrary: pre)
  case Nil
  then show ?case by (simp add: parse_index_block.simps)
next
  case (Cons x xs)
  let ?k = "index_key x" and ?rest = "concat (map enc_index xs)" and ?p = "length pre"
  let ?l = "le_bytes 4 (length ?k)" and ?o = "le_bytes 8 (index_offset x)"
  let ?data = "pre @ enc_index x @ ?rest"
  have fits: "length ?k < 256 ^ 4" "index_offset x < 256 ^ 8" "utf8_ok ?k"
    using Cons.prems by (simp_all add: index_fits_def)
  have s1: "le_nat (slice ?data ?p (?p + 4)) = length ?k"
    using slice_at[of ?p pre _ ?l] fits by (simp add: enc_index_def)
  have s2: "slice ?data (?p + 4) (?p + 4 + length ?k) = ?k"
    using slice_at[of "?p + 4" "pre @ ?l" _ ?k] by (simp add: enc_index_def)
  have s3: "le_nat (slice ?data (?p + 4 + length ?k) (?p + 4 + length ?k + 8)) = index_offset x"
    using slice_at[of "?p + 4 + length ?k" "pre @ ?l @ ?k" _ ?o] fits by (simp add: enc_index_def)
  have len: "length (pre @ enc_index x) = ?p + 4 + length ?k + 8" by (simp add: enc_index_def)
  have ih: "parse_index_block ?data (?p + 4 + length ?k + 8) = Inr xs"
    using Cons.IH[of "pre @ enc_index x"] Cons.prems unfolding len by simp
  have g: "?p < length ?data" "\<not> ?p + 4 > length ?data" "\<not> ?p + 4 + length ?k > length ?data"
    "\<not> ?p + 4 + length ?k + 8 > length ?data"
    using len by simp_all
  have item: "\<lparr>index_key = ?k, index_offset = index_offset x\<rparr> = x" by simp
  show ?case
    unfolding list.map concat.simps parse_index_block.simps[of ?data ?p] Let_def s1 s2 s3
      decode_utf8_ok[OF fits(3)] and_then.simps ih item
    by (simp only: g if_True if_False)
qed

definition footer_bytes :: "nat \<Rightarrow> nat \<Rightarrow> nat \<Rightarrow> nat \<Rightarrow> nat \<Rightarrow> bytes \<Rightarrow> bytes \<Rightarrow> float64 \<Rightarrow> bytes" where
  "footer_bytes d i b c l kmin kmax created =
     le_bytes 8 d @ le_bytes 8 i @ le_bytes 8 b @ le_bytes 4 c @ le_bytes 4 l
     @ le_bytes 4 (length kmin) @ kmin @ le_bytes 4 (length kmax) @ kmax
     @ float_bytes created @ le_bytes 4 MAGIC_NUMBER"

lemma length_footer_bytes [simp]:
  "length (footer_bytes d i b c l kmin kmax created) = 52 + length kmin + length kmax"
  by (simp add: footer_bytes_def)

lemma encode_footer_Inr:
  "encode_footer d i b c l kmin kmax created = Inr f
   \<Longrightarrow> f = footer_bytes d i b c l kmin kmax created
     \<and> d < 256 ^ 8 \<and> i < 256 ^ 8 \<and> b < 256 ^ 8 \<and> c < 256 ^ 4 \<and> l < 256 ^ 4
     \<and> length kmin < 256 ^ 4 \<and> length kmax < 256 ^ 4"
  by (auto simp: encode_footer_def footer_bytes_def result_simps simp del: le_bytes.simps)

section \<open>The footer\<close>

lemma unpack_footer_field:
  assumes "data = xs @ f @ ys" "pos = length xs" "n = length f"
  shows "unpack_from n data pos = Inr (le_nat f)"
  using assms by (simp add: unpack_from_at)

lemma parse_footer_at_true:
  assumes data: "data = pre @ footer_bytes d i b c l kmin kmax created"
    and bounds: "c < 256 ^ 4" "l < 256 ^ 4" "length kmin < 256 ^ 4" "length kmax < 256 ^ 4"
    and utf: "utf8_ok kmin" "utf8_ok kmax"
    and index: "parse_index_block (slice data d (d + i)) 0 = Inr ix"
    and bloom: "bloom_deserialize (slice data (d + i) (d + i + b)) = Inr bf"
  shows "parse_footer_at path data (length pre) d i b =
    Inr \<lparr>raw_data = data,
      metadata = \<lparr>file_path = path, level = l, min_key = kmin, max_key = kmax, entry_count = c,
        size_bytes = length data, created_at = created\<rparr>,
      sparse_index = ix, table_bloom = bf, data_block_size = d, index_block_size = i,
      bloom_filter_size = b\<rparr>"
proof -
  let ?p = "length pre + 24" and ?m = "length kmin" and ?M = "length kmax"
  let ?S = "le_bytes 8 d @ le_bytes 8 i @ le_bytes 8 b"
  let ?C = "le_bytes 4 c" and ?L = "le_bytes 4 l" and ?mn = "le_bytes 4 ?m" and ?mx = "le_bytes 4 ?M"
  let ?G = "le_bytes 4 MAGIC_NUMBER" and ?F = "float_bytes created"
  have eq: "data = pre @ ?S @ ?C @ ?L @ ?mn @ kmin @ ?mx @ kmax @ ?F @ ?G"
    by (simp add: data footer_bytes_def)
  have f1: "unpack_from 4 data ?p = Inr c"
    using unpack_from_at[of ?p "pre @ ?S" 4 ?C] bounds by (simp add: eq)
  have f2: "unpack_from 4 data (?p + 4) = Inr l"
    using unpack_from_at[of "?p + 4" "pre @ ?S @ ?C" 4 ?L] bounds by (simp add: eq)
  have f3: "unpack_from 4 data (?p + 8) = Inr ?m"
    using unpack_from_at[of "?p + 8" "pre @ ?S @ ?C @ ?L" 4 ?mn] bounds by (simp add: eq)
  have f4: "slice data (?p + 12) (?p + 12 + ?m) = kmin"
    using slice_at[of "?p + 12" "pre @ ?S @ ?C @ ?L @ ?mn" _ kmin] by (simp add: eq)
  have f5: "unpack_from 4 data (?p + 12 + ?m) = Inr ?M"
    using unpack_from_at[of "?p + 12 + ?m" "pre @ ?S @ ?C @ ?L @ ?mn @ kmin" 4 ?mx] bounds by (simp add: eq)
  have f6: "slice data (?p + 12 + ?m + 4) (?p + 12 + ?m + 4 + ?M) = kmax"
    using slice_at[of "?p + 12 + ?m + 4" "pre @ ?S @ ?C @ ?L @ ?mn @ kmin @ ?mx" _ kmax] by (simp add: eq)
  have f7: "unpack_float data (?p + 12 + ?m + 4 + ?M) = Inr created"
    using unpack_float_at[of "?p + 12 + ?m + 4 + ?M" "pre @ ?S @ ?C @ ?L @ ?mn @ kmin @ ?mx @ kmax"]
    by (simp add: eq)
  have f8: "unpack_from 4 data (?p + 12 + ?m + 4 + ?M + 8) = Inr MAGIC_NUMBER"
    using unpack_from_at[of "?p + 12 + ?m + 4 + ?M + 8" "pre @ ?S @ ?C @ ?L @ ?mn @ kmin @ ?mx @ kmax @ ?F" 4 ?G "[]"]
    by (simp add: eq MAGIC_NUMBER_def del: le_bytes.simps)
  have len: "?p + 12 + ?m + 4 + ?M + 12 = length data" by (simp add: eq)
  show ?thesis
    unfolding parse_footer_at_def Let_def f1 and_then.simps f2 f3 f4 decode_utf8_ok[OF utf(1)] f5 f6
      decode_utf8_ok[OF utf(2)] f7 f8 index bloom len
    by simp
qed

lemma parse_footer_at_error:
  "parse_footer_at path data start d i b = Inl x \<Longrightarrow> footer_error x"
proof -
  have u: "unpack_from n data p = Inl y \<Longrightarrow> footer_error y" for n data p y
    by (auto simp: unpack_from_def split: if_splits)
  have f: "unpack_float data p = Inl y \<Longrightarrow> footer_error y" for data p y
    using u by (auto simp: unpack_float_def and_then_Inl_iff)
  have d: "decode_utf8 bs = Inl y \<Longrightarrow> footer_error y" for bs y
    by (auto simp: decode_utf8_def split: if_splits)
  have ix: "parse_index_block data p = Inl y \<Longrightarrow> footer_error y" for data p y
  proof (induction data p rule: parse_index_block.induct)
    case (1 data pos)
    from "1.prems" show ?case
      by (subst (asm) parse_index_block.simps)
        (auto simp: and_then_Inl_iff Let_def result_simps split: if_splits intro: d "1.IH"[OF _ _ refl refl])
  qed
  have bl: "bloom_deserialize data = Inl y \<Longrightarrow> footer_error y" for data y
    using u f by (auto simp: bloom_deserialize_def and_then_Inl_iff split: if_splits)
  show "parse_footer_at path data start d i b = Inl x \<Longrightarrow> footer_error x"
    using u f d ix bl unfolding parse_footer_at_def Let_def and_then_Inl_iff
    by (elim disjE exE conjE) (auto split: if_splits simp: and_then_Inl_iff)
qed

text \<open>
  A key that cannot imitate the length fields of a footer: non-empty text without NUL bytes, within
  the engine's bound on keys.
\<close>

definition plain_key :: "bytes \<Rightarrow> bool" where
  "plain_key k \<longleftrightarrow> k \<noteq> [] \<and> 0 \<notin> set k \<and> utf8_ok k \<and> length k \<le> 256"

lemma plain_key_nth: "plain_key k \<Longrightarrow> j < length k \<Longrightarrow> k ! j \<noteq> 0"
  by (metis nth_mem plain_key_def)

lemma plain_key_length: "plain_key k \<Longrightarrow> 0 < length k \<and> length k \<le> 256"
  by (simp add: plain_key_def)

lemma four_bytes:
  assumes "length bs = 4"
  shows "le_nat bs = unat (bs ! 0) + 256 * unat (bs ! 1) + 65536 * unat (bs ! 2) + 16777216 * unat (bs ! 3)"
proof -
  from assms obtain a b c d where "bs = [a, b, c, d]"
    by (auto simp: numeral_eq_Suc length_Suc_conv)
  then show ?thesis by simp
qed

lemma four_bytes_small:
  assumes "length bs = 4" "le_nat bs < 65536"
  shows "bs ! 2 = 0" "bs ! 3 = 0" "le_nat bs = unat (bs ! 0) + 256 * unat (bs ! 1)"
proof -
  note e = four_bytes[OF assms(1)]
  have "unat (bs ! 2) = 0" "unat (bs ! 3) = 0" using assms(2) e by arith+
  then show "bs ! 2 = 0" "bs ! 3 = 0" "le_nat bs = unat (bs ! 0) + 256 * unat (bs ! 1)"
    using e by (simp_all add: unat_eq_0)
qed

lemma nth_length_field:
  assumes "n \<le> 256"
  shows "le_bytes 4 n ! 0 = of_nat n" "le_bytes 4 n ! 1 = of_nat (n div 256)"
    "le_bytes 4 n ! 2 = 0" "le_bytes 4 n ! 3 = 0"
proof -
  have four: "(4::nat) = Suc (Suc (Suc (Suc 0)))" by simp
  have "n div 256 div 256 = 0" using assms by simp
  then have "le_bytes 4 n = [of_nat n, of_nat (n div 256), 0, 0]"
    by (simp only: four le_bytes.simps div_0) simp
  then show "le_bytes 4 n ! 0 = of_nat n" "le_bytes 4 n ! 1 = of_nat (n div 256)"
    "le_bytes 4 n ! 2 = 0" "le_bytes 4 n ! 3 = 0"
    by simp_all
qed

text \<open>
  Where a plausible length field can start inside the key area of a footer: four bytes below 65536
  begin at the first key's length field, or one byte before or at the second key's.
\<close>

lemma length_field_positions:
  assumes "plain_key kmin" "plain_key kmax" "0 < k" "k \<le> length kmin + length kmax"
  defines "G \<equiv> le_bytes 4 (length kmin) @ kmin @ le_bytes 4 (length kmax) @ kmax"
  shows "le_nat (take 4 (drop k G)) \<ge> 65536 \<or> le_nat (take 4 (drop k G)) \<ge> length kmin + length kmax - k + 1"
proof (rule ccontr)
  let ?m = "length kmin" and ?M = "length kmax" and ?bs = "take 4 (drop k G)"
  assume "\<not> ?thesis"
  then have small: "le_nat ?bs < 65536" "le_nat ?bs \<le> ?m + ?M - k" by auto
  have len: "length G = ?m + ?M + 8" by (simp add: G_def)
  have bs: "length ?bs = 4" using len assms(4) by simp
  have nth: "?bs ! j = G ! (k + j)" if "j < 4" for j using that len assms(4) by simp
  note z = four_bytes_small[OF bs small(1)]
  have z2: "G ! (k + 2) = 0" and z3: "G ! (k + 3) = 0" using z(1,2) nth by simp_all
  have m: "0 < ?m" "?m \<le> 256" and M: "0 < ?M" "?M \<le> 256"
    using plain_key_length assms(1,2) by blast+
  have inmin: "G ! (4 + j) \<noteq> 0" if "j < ?m" for j
    using that plain_key_nth[OF assms(1) that] by (simp add: G_def nth_append)
  have inmax: "G ! (8 + ?m + j) \<noteq> 0" if "j < ?M" for j
    using that plain_key_nth[OF assms(2) that] by (simp add: G_def nth_append)
  have field: "G ! (4 + ?m + j) = le_bytes 4 ?M ! j" if "j < 4" for j
    using that by (simp add: G_def nth_append)
  have "\<not> k + 3 < 4 + ?m"
  proof
    assume "k + 3 < 4 + ?m"
    then have lt: "k - 1 < ?m" using assms(3) by simp
    have at: "4 + (k - 1) = k + 3" using assms(3) by simp
    from inmin[OF lt, unfolded at] z3 show False by (rule notE)
  qed
  moreover have "\<not> k + 3 \<ge> 8 + ?m"
  proof
    assume "k + 3 \<ge> 8 + ?m"
    then have at: "8 + ?m + (k + 3 - (8 + ?m)) = k + 3" and lt: "k + 3 - (8 + ?m) < ?M"
      using assms(4) by simp_all
    from inmax[OF lt, unfolded at] z3 show False by (rule notE)
  qed
  ultimately consider "k = ?m + 1" | "k = ?m + 2" | "k = ?m + 3" | "k = ?m + 4" by linarith
  then show False
  proof cases
    case 1
    have at: "4 + (?m - 1) = k + 2" using m 1 by simp
    have lt: "?m - 1 < ?m" using m by simp
    from inmin[OF lt, unfolded at] z2 show False by (rule notE)
  next
    case 2
    then have at: "4 + ?m + 0 = k + 2" "4 + ?m + 1 = k + 3" by simp_all
    have "le_bytes 4 ?M ! 0 = 0" using field[of 0, unfolded at] z2 by simp
    moreover have "le_bytes 4 ?M ! 1 = 0" using field[of 1, unfolded at] z3 by simp
    ultimately have "le_nat (le_bytes 4 ?M) = 0"
      using four_bytes[of "le_bytes 4 ?M"] nth_length_field[OF M(2)] by simp
    then show False using M by simp
  next
    case 3
    have at: "4 + ?m + 0 = k + 1" "4 + ?m + 1 = k + 2" using 3 by simp_all
    have "?bs ! 1 = le_bytes 4 ?M ! 0" using nth[of 1] field[of 0] unfolding at by simp
    moreover have "?bs ! 2 = le_bytes 4 ?M ! 1" using nth[of 2] field[of 1] unfolding at by simp
    ultimately have "le_nat (le_bytes 4 ?M) = unat (?bs ! 1)"
      using four_bytes[of "le_bytes 4 ?M"] nth_length_field[OF M(2)] z(1) by simp
    then have "unat (?bs ! 1) = ?M" using M by simp
    then show False using small(2) z(3) 3 M(1) by linarith
  next
    case 4
    have "?bs = le_bytes 4 ?M"
    proof (rule nth_equalityI)
      show "?bs ! j = le_bytes 4 ?M ! j" if "j < length ?bs" for j
      proof -
        have j: "j < 4" using that bs by simp
        have at: "k + j = 4 + ?m + j" using 4 by simp
        show ?thesis using nth[OF j] field[OF j] unfolding at by (rule trans)
      qed
    qed (simp only: bs length_le_bytes)
    then have "le_nat ?bs = ?M" using M by simp
    then show False using small(2) 4 M(1) by linarith
  qed
qed

lemma take_drop_append: "k + n \<le> length xs \<Longrightarrow> take n (drop k (xs @ ys)) = take n (drop k xs)"
  by simp

lemma drop_length_add: "drop (length xs + k) (xs @ ys) = drop k ys"
  by simp

lemma parse_footer_at_no_decoy:
  assumes data: "data = pre @ footer_bytes d i b c l kmin kmax created"
    and plain: "plain_key kmin" "plain_key kmax"
    and k: "0 < k" "k \<le> length kmin + length kmax"
  shows "parse_footer_at path data (length pre + k) d' i' b' \<noteq> Inr t"
proof
  let ?G = "le_bytes 4 (length kmin) @ kmin @ le_bytes 4 (length kmax) @ kmax"
  let ?H = "pre @ le_bytes 8 d @ le_bytes 8 i @ le_bytes 8 b @ le_bytes 4 c @ le_bytes 4 l"
  let ?T = "float_bytes created @ le_bytes 4 MAGIC_NUMBER"
  let ?p = "length pre + k + 24"
  assume "parse_footer_at path data (length pre + k) d' i' b' = Inr t"
  then obtain ml Ml where ml: "unpack_from 4 data (?p + 8) = Inr ml"
    and tot: "?p + 12 + ml + 4 + Ml + 12 = length data"
    unfolding parse_footer_at_def Let_def and_then_Inr_iff by (auto split: if_splits)
  have eq: "data = ?H @ ?G @ ?T" by (simp add: data footer_bytes_def)
  have pos: "?p + 8 = length ?H + k" by simp
  have "k + 4 \<le> length ?G" using k by simp
  then have "take 4 (drop k (?G @ ?T)) = take 4 (drop k ?G)" by (rule take_drop_append)
  moreover have "drop (?p + 8) data = drop k (?G @ ?T)" unfolding pos eq by (rule drop_length_add)
  ultimately have field: "le_nat (take 4 (drop k ?G)) = ml"
    using ml unfolding unpack_from_def by (simp only: sum.inject split: if_splits) simp_all
  have "ml + Ml + k = length kmin + length kmax" using tot by (simp add: data)
  moreover have "length kmin + length kmax \<le> 512" using plain_key_length[OF plain(1)] plain_key_length[OF plain(2)] by simp
  ultimately show False using length_field_positions[OF plain k, unfolded field] by linarith
qed

lemma find_footer_skip:
  assumes "\<forall>c\<in>set cs. c \<le> length data \<and> footer_candidate path data (length data - c) = None"
  shows "find_footer path data (cs @ ds) = find_footer path data ds"
  using assms by (induction cs) auto

lemma footer_candidate_decoy:
  assumes "data = pre @ footer_bytes d i b c l kmin kmax created" "plain_key kmin" "plain_key kmax"
    "0 < k" "k \<le> length kmin + length kmax"
  shows "footer_candidate path data (length pre + k) = None"
  using parse_footer_at_no_decoy[OF assms] parse_footer_at_error
  by (auto simp: footer_candidate_def Let_def split: sum.splits)

lemma load_from_bytes_true:
  assumes data: "data = pre @ footer_bytes d i b c l kmin kmax created"
    and plain: "plain_key kmin" "plain_key kmax"
    and bounds: "d < 256 ^ 8" "i < 256 ^ 8" "b < 256 ^ 8" and sum: "d + i + b = length pre"
    and parse: "parse_footer_at path data (length pre) d i b = Inr t"
  shows "load_from_bytes path data = Inr t"
proof -
  let ?n = "length kmin + length kmax" and ?F = "footer_bytes d i b c l kmin kmax created"
  have len: "length data = length pre + 52 + ?n" by (simp add: data)
  have n: "?n \<le> 512" using plain_key_length[OF plain(1)] plain_key_length[OF plain(2)] by simp
  define top where "top = min (length data) (52 + 65536) + 1"
  have range: "[52..<top] = [52..<52 + ?n] @ (52 + ?n) # [Suc (52 + ?n)..<top]"
  proof -
    have "52 + ?n < top" using len n by (simp add: top_def)
    then show ?thesis using upt_conv_Cons[of "52 + ?n" top] upt_add_eq_append[of 52 "52 + ?n" "top - (52 + ?n)"]
      by simp
  qed
  have skip: "\<forall>k\<in>set [52..<52 + ?n]. k \<le> length data \<and> footer_candidate path data (length data - k) = None"
  proof
    fix k assume k: "k \<in> set [52..<52 + ?n]"
    then have "length data - k = length pre + (52 + ?n - k)" "0 < 52 + ?n - k" "52 + ?n - k \<le> ?n"
      using len by auto
    then show "k \<le> length data \<and> footer_candidate path data (length data - k) = None"
      using footer_candidate_decoy[OF data plain, of "52 + ?n - k"] k len by simp
  qed
  have s: "slice data (length pre) (length pre + 8) = le_bytes 8 d"
    "slice data (length pre + 8) (length pre + 16) = le_bytes 8 i"
    "slice data (length pre + 16) (length pre + 24) = le_bytes 8 b"
    unfolding data footer_bytes_def
    using slice_at[of "length pre" pre "length pre + 8" "le_bytes 8 d"]
      slice_at[of "length pre + 8" "pre @ le_bytes 8 d" "length pre + 16" "le_bytes 8 i"]
      slice_at[of "length pre + 16" "pre @ le_bytes 8 d @ le_bytes 8 i" "length pre + 24" "le_bytes 8 b"]
    by simp_all
  have "footer_candidate path data (length pre) = Some (Inr t)"
    using parse bounds sum len by (simp add: footer_candidate_def Let_def s del: le_bytes.simps)
  moreover have "length data - (52 + ?n) = length pre" using len by simp
  ultimately have "find_footer path data [52..<top] = Inr t"
    unfolding range find_footer_skip[OF skip] using len by simp
  moreover have "le_nat (drop (length data - 4) data) = MAGIC_NUMBER"
  proof -
    have "drop (length data - 4) data = le_bytes 4 MAGIC_NUMBER"
      unfolding len by (simp add: data footer_bytes_def del: le_bytes.simps)
    then show ?thesis by (simp add: MAGIC_NUMBER_def del: le_bytes.simps)
  qed
  ultimately show ?thesis
    using len by (simp add: load_from_bytes_def parse_footer_from_end_def top_def)
qed

text \<open>The entries a writer may be given: strictly sorted, well formed, with plain keys.\<close>

definition writable :: "SSTableEntry list \<Rightarrow> bool" where
  "writable es \<longleftrightarrow> es \<noteq> [] \<and> sorted_wrt (<) (map entry_key es)
     \<and> (\<forall>e\<in>set es. plain_key (entry_key e) \<and> entry_ok e)"

lemma build_file_opens:
  assumes build: "build_file env es lvl created = Inr data" and es: "writable es"
  shows "\<exists>t. sstable_open path (Some data) = Inr t \<and> sst_repr env t es
    \<and> metadata t = \<lparr>file_path = path, level = lvl, min_key = entry_key (hd es), max_key = entry_key (last es),
        entry_count = length es, size_bytes = length data, created_at = created\<rparr>"
proof -
  let ?kmin = "entry_key (hd es)" and ?kmax = "entry_key (last es)"
  from build obtain bloom0 blk ix bloom parts bd footer where
    b: "bloom_init env (max (int (length es)) 1) DEFAULT_RATE = Inr bloom0"
      "build_loop env 0 es [] [] bloom0 = Inr (blk, ix, bloom)"
      "traverse encode_index_entry ix = Inr parts" "bloom_serialize bloom = Inr bd"
      "encode_footer (length blk) (length (concat parts)) (length bd) (length es) lvl ?kmin ?kmax created = Inr footer"
      "data = blk @ concat parts @ bd @ footer"
    by (auto simp: build_file_def and_then_Inr_iff split: prod.splits)
  note loop = build_loop_Inr[OF b(2)]
  have blk: "blk = block es" and ix: "ix = index_of es"
    using loop(1,2) by (simp_all add: index_from_index_of)
  have bloom: "bloom_inv bloom" "\<forall>e\<in>set es. might_contain env bloom (entry_key e) = Inr True"
    using bloom_add_all_Inr[OF bloom_inv_init[OF b(1)] loop(3)] by auto
  have parts: "concat parts = concat (map enc_index ix)" "\<forall>x\<in>set ix. index_fits x"
    using encode_index_Inr[OF b(3)] by simp_all
  let ?I = "concat (map enc_index ix)"
  have plain: "plain_key (entry_key e)" "entry_ok e" if "e \<in> set es" for e
    using es that by (simp_all add: writable_def)
  have utf: "utf8_ok (index_key x)" if "x \<in> set ix" for x
    using that plain by (auto simp: ix index_of_def plain_key_def)
  have ends: "plain_key ?kmin" "plain_key ?kmax" using es plain by (simp_all add: writable_def)
  note foot = encode_footer_Inr[OF b(5)]
  let ?pre = "blk @ ?I @ bd"
  have data: "data = ?pre @ footer_bytes (length blk) (length ?I) (length bd) (length es) lvl ?kmin ?kmax created"
    using b(6) foot parts(1) by simp
  have six: "slice data (length blk) (length blk + length ?I) = ?I"
    unfolding data using slice_at[of "length blk" blk _ ?I] by simp
  have sbd: "slice data (length blk + length ?I) (length blk + length ?I + length bd) = bd"
    unfolding data using slice_at[of "length blk + length ?I" "blk @ ?I" _ bd] by simp
  let ?t = "\<lparr>raw_data = data,
      metadata = \<lparr>file_path = path, level = lvl, min_key = ?kmin, max_key = ?kmax, entry_count = length es,
        size_bytes = length data, created_at = created\<rparr>,
      sparse_index = ix, table_bloom = bloom, data_block_size = length blk, index_block_size = length ?I,
      bloom_filter_size = length bd\<rparr>"
  have "parse_footer_at path data (length ?pre) (length blk) (length ?I) (length bd) = Inr ?t"
  proof (rule parse_footer_at_true[OF data])
    show "parse_index_block (slice data (length blk) (length blk + length ?I)) 0 = Inr ix"
      unfolding six using parse_index_block_concat[of ix "[]"] parts(2) utf by simp
    show "bloom_deserialize (slice data (length blk + length ?I) (length blk + length ?I + length bd)) = Inr bloom"
      unfolding sbd using bloom_deserialize_serialize[OF _ b(4), of "[]"] bloom(1) by (simp add: bloom_inv_def)
  qed (use foot ends in \<open>simp_all add: plain_key_def\<close>)
  then have "load_from_bytes path data = Inr ?t"
    by (rule load_from_bytes_true[OF data ends, rotated -1]) (use foot parts in simp_all)
  moreover have "sst_repr env ?t es"
    using es plain loop(4) bloom data
    by (auto simp: sst_repr_def writable_def blk ix entry_fits_def plain_key_def)
  ultimately show ?thesis by (simp add: sstable_open_def)
qed

section \<open>Writing never overflows a field\<close>

text \<open>Bounds within which every field of the format can hold its value.\<close>

definition fits_format :: "bloom_env \<Rightarrow> SSTableEntry list \<Rightarrow> nat \<Rightarrow> bool" where
  "fits_format env es lvl \<longleftrightarrow> length es < 2 ^ 32 \<and> lvl < 2 ^ 32
     \<and> (\<forall>e\<in>set es. length (entry_key e) \<le> 256 \<and> length (value_bytes (entry_value e)) < 2 ^ 31)
     \<and> optimal_bits env (max (int (length es)) 1) DEFAULT_RATE < 2 ^ 32
     \<and> optimal_hashes env (max 1 (optimal_bits env (max (int (length es)) 1) DEFAULT_RATE))
         (max (int (length es)) 1) < 2 ^ 16"

text \<open>With double arithmetic a filter for up to \<open>415 * 10 ^ 6\<close> entries has dimensions that fit.\<close>

lemma fits_format_sized:
  assumes env: "double_arithmetic env" and es: "es \<noteq> []" "length es \<le> 415000000" and lvl: "lvl < 2 ^ 32"
    and small: "\<forall>e\<in>set es. length (entry_key e) \<le> 256 \<and> length (value_bytes (entry_value e)) < 2 ^ 31"
  shows "fits_format env es lvl"
proof -
  let ?n = "int (length es)" and ?bits = "optimal_bits env (int (length es)) DEFAULT_RATE"
  have n: "1 \<le> ?n" "?n \<le> 415000000" using es by (simp_all add: Suc_le_eq)
  then have m: "max ?n 1 = ?n" by simp
  have "9 * real_of_int ?n \<le> real_of_int ?bits" "real_of_int ?bits \<le> 103 / 10 * real_of_int ?n + 1"
    using optimal_bits_bounds[OF env n(1)] n(2) by simp_all
  then have b: "9 * ?n \<le> ?bits" "10 * ?bits \<le> 103 * ?n + 10" by linarith+
  then have "?bits < 2 ^ 32" using n by simp
  moreover have "optimal_hashes env (max 1 ?bits) ?n < 2 ^ 16"
    using b n by (intro optimal_hashes_bound[OF env]) simp_all
  ultimately show ?thesis using es lvl small unfolding fits_format_def m by simp
qed

lemma length_concat_bound:
  "\<forall>x\<in>set xs. length (f x) \<le> B \<Longrightarrow> length (concat (map f xs)) \<le> B * length xs"
  by (induction xs) auto

lemma block_bound:
  assumes "fits_format env es lvl"
  shows "length (block es) < 256 ^ 8"
proof -
  have "length (enc e) \<le> 2 ^ 32 - 1" if "e \<in> set es" for e
    using assms that by (auto simp: fits_format_def enc_def)
  then have "length (block es) \<le> (2 ^ 32 - 1) * length es"
    unfolding block_def by (intro length_concat_bound) simp
  also have "\<dots> \<le> (2 ^ 32 - 1) * 2 ^ 32" using assms by (intro mult_le_mono) (simp_all add: fits_format_def)
  finally show ?thesis by simp
qed

lemma build_loop_total:
  assumes "bloom_inv bf" "\<forall>e\<in>set es. length (entry_key e) < 256 ^ 4 \<and> length (value_bytes (entry_value e)) < 256 ^ 4"
  shows "\<exists>d' ix' bf'. build_loop env i es d ix bf = Inr (d', ix', bf')"
  using assms
proof (induction es arbitrary: i d ix bf)
  case (Cons e es)
  obtain bf1 where bf1: "bloom_add env (entry_key e) bf = Inr bf1" "bloom_inv bf1"
    using bloom_add_ok[OF Cons.prems(1)] by blast
  have "encode_entry e = Inr (enc e)" using Cons.prems by (simp add: encode_entry_def enc_def del: le_bytes.simps)
  with bf1 Cons.IH[OF bf1(2)] Cons.prems(2) show ?case by (simp add: Let_def)
qed simp

lemma index_of_fits:
  assumes "fits_format env es lvl" "x \<in> set (index_of es)"
  shows "length (index_key x) \<le> 256" "index_offset x < 256 ^ 8"
proof -
  from assms(2) obtain j where j: "j < (length es + 15) div 16"
    and x: "x = \<lparr>index_key = entry_key (es ! (16 * j)), index_offset = offset_of es (16 * j)\<rparr>"
    by (auto simp: index_of_def)
  have "16 * j < length es" using j by auto
  then show "length (index_key x) \<le> 256" using assms(1) by (simp add: x fits_format_def)
  have "block es = block (take (16 * j) es) @ block (drop (16 * j) es)"
    by (metis append_take_drop_id block_simps(3))
  then have "offset_of es (16 * j) \<le> length (block es)" by (simp add: offset_of_def)
  with block_bound[OF assms(1)] show "index_offset x < 256 ^ 8" by (simp add: x)
qed

lemma index_block_total:
  assumes "fits_format env es lvl"
  shows "traverse encode_index_entry (index_of es) = Inr (map enc_index (index_of es))"
    "length (concat (map enc_index (index_of es))) < 256 ^ 8"
proof -
  show "traverse encode_index_entry (index_of es) = Inr (map enc_index (index_of es))"
  proof (intro traverse_total ballI)
    fix x assume "x \<in> set (index_of es)"
    from index_of_fits[OF assms this] show "encode_index_entry x = Inr (enc_index x)"
      by (simp add: encode_index_entry_def enc_index_def del: le_bytes.simps)
  qed
  have "length (enc_index x) \<le> 268" if "x \<in> set (index_of es)" for x
    using index_of_fits(1)[OF assms that] by (simp add: enc_index_def)
  then have "length (concat (map enc_index (index_of es))) \<le> 268 * length (index_of es)"
    by (intro length_concat_bound) simp
  also have "\<dots> \<le> 268 * (length es + 15)" by (simp add: index_of_def)
  also have "\<dots> < 268 * (2 ^ 32 + 15)" using assms by (simp add: fits_format_def)
  finally show "length (concat (map enc_index (index_of es))) < 256 ^ 8" by simp
qed

lemma build_file_total:
  assumes fits: "fits_format env es lvl" and ne: "es \<noteq> []"
  shows "\<exists>data. build_file env es lvl created = Inr data"
proof -
  let ?n = "max (int (length es)) 1"
  have rate: "float_lt 0 DEFAULT_RATE" "float_lt DEFAULT_RATE 0x3FF0000000000000"
    by (simp_all add: float_lt_def float_nan_def float_key_def DEFAULT_RATE_def)
  let ?size = "max 1 (optimal_bits env ?n DEFAULT_RATE)"
  let ?k = "max 1 (optimal_hashes env ?size ?n)"
  define bf0 where "bf0 = \<lparr>bf_expected = ?n, bf_rate = DEFAULT_RATE, bf_size_bits = nat ?size, bf_hashes = nat ?k,
    bf_bits = replicate (nat ((?size + 7) div 8)) 0\<rparr>"
  have "\<not> ?n < 1" by simp
  with rate have bf0: "bloom_init env ?n DEFAULT_RATE = Inr bf0"
    by (simp only: bloom_init_def Let_def bf0_def if_False if_True simp_thms)
  have small: "?n < 256 ^ 4" "?size < 256 ^ 4" "?k < 256 ^ 2" using fits by (simp_all add: fits_format_def)
  then have "(?size + 7) div 8 < 256 ^ 4" by linarith
  note small = small this
  have nl: "nat x < 256 ^ j" if "x < 256 ^ j" for x :: int and j
    using that by (simp add: nat_less_eq_zless zless_nat_eq_int_zless nat_less_iff)
  from small have dims: "nat (bf_expected bf0) < 256 ^ 4" "bf_size_bits bf0 < 256 ^ 4" "bf_hashes bf0 < 256 ^ 2"
    "length (bf_bits bf0) < 256 ^ 4"
    unfolding bf0_def by (simp_all only: BloomFilter.simps length_replicate nl)
  have ok: "\<forall>e\<in>set es. length (entry_key e) < 256 ^ 4 \<and> length (value_bytes (entry_value e)) < 256 ^ 4"
    using fits by (auto simp: fits_format_def)
  from build_loop_total[OF bloom_inv_init[OF bf0] ok, of env 0 "[]" "[]"] obtain blk ix bf where
    loop: "build_loop env 0 es [] [] bf0 = Inr (blk, ix, bf)" by blast
  note l = build_loop_Inr[OF loop]
  have blk: "blk = block es" "ix = index_of es" using l(1,2) by (simp_all add: index_from_index_of)
  from bloom_add_all_ok[OF bloom_inv_init[OF bf0], of env "map entry_key es"] l(3) dims
  have "nat (bf_expected bf) < 256 ^ 4" "bf_size_bits bf < 256 ^ 4" "bf_hashes bf < 256 ^ 2" "length (bf_bits bf) < 256 ^ 4"
    by auto
  then obtain bd where bd: "bloom_serialize bf = Inr bd" "length bd = 23 + length (bf_bits bf)"
    by (simp add: bloom_serialize_def FORMAT_VERSION_def del: le_bytes.simps)
  have "length bd < 256 ^ 8" using bd(2) \<open>length (bf_bits bf) < 256 ^ 4\<close> by simp
  moreover have "length (entry_key (hd es)) < 256 ^ 4" "length (entry_key (last es)) < 256 ^ 4" using ok ne by simp_all
  moreover have "length es < 256 ^ 4" "lvl < 256 ^ 4" using fits by (simp_all add: fits_format_def)
  moreover have magic: "MAGIC_NUMBER < 256 ^ 4" by (simp add: MAGIC_NUMBER_def)
  ultimately obtain f where f: "encode_footer (length blk) (length (concat (map enc_index (index_of es)))) (length bd)
      (length es) lvl (entry_key (hd es)) (entry_key (last es)) created = Inr f"
    using block_bound[OF fits] index_block_total(2)[OF fits]
    unfolding encode_footer_def blk by (simp only: struct_pack_ok and_then.simps magic)
  have "traverse encode_index_entry ix = Inr (map enc_index (index_of es))"
    using index_block_total(1)[OF fits] by (simp only: blk)
  then show ?thesis
    unfolding build_file_def bf0 and_then.simps loop prod.case bd(1) by (simp only: and_then.simps f) simp
qed

text \<open>Beyond \<open>480 * 10 ^ 6\<close> entries the size of the filter does not fit its field.\<close>

lemma build_file_oversized:
  assumes env: "double_arithmetic env" and es: "480000000 \<le> length es"
  shows "build_file env es lvl created \<noteq> Inr data"
proof
  let ?n = "int (length es)"
  assume "build_file env es lvl created = Inr data"
  then obtain bf0 blk ix bf bd where b: "bloom_init env (max ?n 1) DEFAULT_RATE = Inr bf0"
      "build_loop env 0 es [] [] bf0 = Inr (blk, ix, bf)" "bloom_serialize bf = Inr bd"
    by (auto simp: build_file_def and_then_Inr_iff split: prod.splits)
  have n: "max ?n 1 = ?n" "1 \<le> ?n" using es by simp_all
  have "bf_expected bf = bf_expected bf0" "bf_size_bits bf = bf_size_bits bf0"
    using bloom_add_all_ok[OF bloom_inv_init[OF b(1)], of env "map entry_key es"] build_loop_Inr(3)[OF b(2)] by auto
  then have "nat (bf_expected bf0) < 256 ^ 4" "bf_size_bits bf0 < 256 ^ 4"
    using b(3) by (auto simp: bloom_serialize_def result_simps struct_pack_def split: if_splits)
  then have small: "?n < 2 ^ 32" "optimal_bits env ?n DEFAULT_RATE < 2 ^ 32"
    using b(1) unfolding n(1) by (auto simp: bloom_init_def Let_def split: if_splits)
  then have "9 * real_of_int ?n \<le> real_of_int (optimal_bits env ?n DEFAULT_RATE)"
    using optimal_bits_bounds(1)[OF env n(2)] by simp
  then have "9 * ?n \<le> optimal_bits env ?n DEFAULT_RATE" by linarith
  then show False using small(2) es by simp
qed

end
