(* ===== verification/KV_Compaction.thy ===== *)
theory KV_Compaction
  imports KV_SSTable_Laws "HOL-Library.Multiset"
begin

text \<open>
  Size-tiered compaction (\<^verbatim>\<open>key-value-store/src/kv_store/storage/compaction.py\<close>): the k-way merge over
  a heap of table iterators, the choice of the level to compact and the merged table.  The test
  \<^verbatim>\<open>current_time - timestamp > grace\<close> on doubles is the argument \<open>expired\<close>; the storage engine
  passes an infinite grace period, for which it is constantly false.
\<close>

section \<open>The heap of iterators\<close>

text \<open>
  A heap item is ordered by the tuple \<^verbatim>\<open>(key, -timestamp, sstable_idx)\<close>; the index is unique, so the
  comparison never reaches the entry.
\<close>

datatype heap_rank = Heap_Rank bytes int nat

instantiation heap_rank :: linorder
begin

fun less_eq_heap_rank :: "heap_rank \<Rightarrow> heap_rank \<Rightarrow> bool" where
  "less_eq_heap_rank (Heap_Rank k t i) (Heap_Rank k' t' i') \<longleftrightarrow>
     k < k' \<or> k = k' \<and> (t < t' \<or> t = t' \<and> i \<le> i')"

definition less_heap_rank :: "heap_rank \<Rightarrow> heap_rank \<Rightarrow> bool" where
  "less_heap_rank a b \<longleftrightarrow> a \<le> b \<and> \<not> b \<le> a"

instance
proof
  fix x y z :: heap_rank
  show "(x < y) = (x \<le> y \<and> \<not> y \<le> x)" by (rule less_heap_rank_def)
  show "x \<le> x" by (cases x) simp
  show "x \<le> y \<Longrightarrow> y \<le> z \<Longrightarrow> x \<le> z" by (cases x; cases y; cases z) auto
  show "x \<le> y \<Longrightarrow> y \<le> x \<Longrightarrow> x = y" by (cases x; cases y) auto
  show "x \<le> y \<or> y \<le> x" by (cases x; cases y) auto
qed

end

record heap_item =
  heap_entry :: SSTableEntry
  heap_table :: nat
  heap_rest :: "SSTableEntry list"

definition entry_rank :: "nat \<Rightarrow> SSTableEntry \<Rightarrow> heap_rank" where
  "entry_rank i e = Heap_Rank (entry_key e) (- float_key (entry_timestamp e)) i"

definition item_rank :: "heap_item \<Rightarrow> heap_rank" where
  "item_rank x = entry_rank (heap_table x) (heap_entry x)"

definition push_iter :: "nat \<Rightarrow> SSTableEntry list \<Rightarrow> heap_item list \<Rightarrow> heap_item list" where
  "push_iter i it heap =
     (case it of [] \<Rightarrow> heap | e # rest \<Rightarrow> \<lparr>heap_entry = e, heap_table = i, heap_rest = rest\<rparr> # heap)"

fun heappop :: "heap_item list \<Rightarrow> (heap_item \<times> heap_item list) option" where
  "heappop [] = None"
| "heappop (x # xs) =
     (case heappop xs of
        None \<Rightarrow> Some (x, xs)
      | Some (y, ys) \<Rightarrow> if item_rank x \<le> item_rank y then Some (x, xs) else Some (y, x # ys))"

fun heap_init :: "nat \<Rightarrow> SSTableEntry list list \<Rightarrow> heap_item list" where
  "heap_init i [] = []"
| "heap_init i (es # ess) = push_iter i es (heap_init (i + 1) ess)"

definition heap_size :: "heap_item list \<Rightarrow> nat" where
  "heap_size heap = sum_list (map (\<lambda>x. 1 + length (heap_rest x)) heap)"

lemma heappop_Some:
  "heappop heap = Some (x, rest) \<Longrightarrow>
     mset heap = add_mset x (mset rest) \<and> (\<forall>y\<in>set heap. item_rank x \<le> item_rank y)"
proof (induction heap arbitrary: x rest)
  case (Cons z heap)
  show ?case
  proof (cases "heappop heap")
    case None
    then have "heap = []" by (cases heap) (auto split: option.splits prod.splits if_splits)
    then show ?thesis using Cons.prems by simp
  next
    case (Some p)
    then show ?thesis
      using Cons by (cases p) (fastforce split: if_splits)
  qed
qed simp

lemma heappop_None: "heappop heap = None \<longleftrightarrow> heap = []"
  by (cases heap) (auto split: option.splits prod.splits)

lemma heap_size_push: "heap_size (push_iter i it heap) = length it + heap_size heap"
  by (cases it) (simp_all add: push_iter_def heap_size_def)

lemma heap_size_pop:
  assumes "heappop heap = Some (x, rest)"
  shows "heap_size heap = 1 + length (heap_rest x) + heap_size rest"
proof -
  have "mset heap = mset (x # rest)" using heappop_Some[OF assms] by simp
  then have "mset (map (\<lambda>x. 1 + length (heap_rest x)) heap) = mset (map (\<lambda>x. 1 + length (heap_rest x)) (x # rest))"
    by (simp only: mset_map)
  then have "sum_list (map (\<lambda>x. 1 + length (heap_rest x)) heap) = sum_list (map (\<lambda>x. 1 + length (heap_rest x)) (x # rest))"
    by (metis sum_mset_sum_list)
  then show ?thesis by (simp add: heap_size_def)
qed

section \<open>The merge\<close>

function merge_loop ::
  "(float64 \<Rightarrow> bool) \<Rightarrow> heap_item list \<Rightarrow> bytes option \<Rightarrow> SSTableEntry list \<Rightarrow> nat
   \<Rightarrow> SSTableEntry list \<times> nat" where
  "merge_loop expired heap last_key merged removed =
     (case heappop heap of
        None \<Rightarrow> (merged, removed)
      | Some (x, rest) \<Rightarrow>
          let heap' = push_iter (heap_table x) (heap_rest x) rest;
              e = heap_entry x
          in if last_key = Some (entry_key e) then merge_loop expired heap' last_key merged removed
             else if entry_tombstone e \<and> expired (entry_timestamp e) then
               merge_loop expired heap' (Some (entry_key e)) merged (removed + 1)
             else merge_loop expired heap' (Some (entry_key e)) (merged @ [e]) removed)"
  by pat_completeness auto
termination
  by (relation "measure (\<lambda>(_, heap, _, _, _). heap_size heap)")
    (auto simp: heap_size_push heap_size_pop)

declare merge_loop.simps [simp del]

definition k_way_merge :: "(float64 \<Rightarrow> bool) \<Rightarrow> SSTable list \<Rightarrow> SSTableEntry list \<times> nat" where
  "k_way_merge expired tables = merge_loop expired (heap_init 0 (map sstable_entries tables)) None [] 0"

section \<open>Choosing and merging a level\<close>

record CompactionStats =
  input_sstables :: nat
  output_sstable :: nat
  keys_merged :: nat
  tombstones_removed :: nat
  bytes_before :: nat
  bytes_after :: nat

definition sstable_name :: "nat \<Rightarrow> string \<Rightarrow> string" where
  "sstable_name lvl uuid = ''sstable_L'' @ dec_nat lvl @ ''_'' @ uuid @ ''.sst''"

text \<open>The new file's name and contents, and the opened table with the statistics of the run.\<close>

type_synonym compaction = "string \<times> bytes \<times> (SSTable \<times> CompactionStats) result"

definition compact ::
  "bloom_env \<Rightarrow> (float64 \<Rightarrow> bool) \<Rightarrow> string \<Rightarrow> float64 \<Rightarrow> SSTable list \<Rightarrow> nat \<Rightarrow> compaction result" where
  "compact env expired uuid now tables lvl =
     (let before = sum_list (map (size_bytes \<circ> metadata) tables);
          (merged, removed) = k_way_merge expired tables;
          name = sstable_name (lvl + 1) uuid
      in and_then (create_sstable_from_entries env merged name (lvl + 1) now) (\<lambda>(data, opened).
           Inr (name, data, and_then opened (\<lambda>t.
             Inr (t, \<lparr>input_sstables = length tables, output_sstable = 1,
                      keys_merged = entry_count (metadata t), tombstones_removed = removed,
                      bytes_before = before, bytes_after = size_bytes (metadata t)\<rparr>)))))"

text \<open>Grouping by level keeps the order of the tables; the lowest level at the threshold is taken.\<close>

definition at_level :: "nat \<Rightarrow> SSTable list \<Rightarrow> SSTable list" where
  "at_level lvl tables = filter (\<lambda>t. level (metadata t) = lvl) tables"

definition pick_level :: "int \<Rightarrow> SSTable list \<Rightarrow> nat option" where
  "pick_level threshold tables =
     List.find (\<lambda>lvl. int (length (at_level lvl tables)) \<ge> threshold)
       (sort (remdups (map (level \<circ> metadata) tables)))"

definition maybe_compact ::
  "bloom_env \<Rightarrow> (float64 \<Rightarrow> bool) \<Rightarrow> int \<Rightarrow> string \<Rightarrow> float64 \<Rightarrow> SSTable list
   \<Rightarrow> compaction option result" where
  "maybe_compact env expired threshold uuid now tables =
     (case pick_level threshold tables of
        None \<Rightarrow> Inr None
      | Some lvl \<Rightarrow>
          and_then (compact env expired uuid now (at_level lvl tables) lvl) (\<lambda>r. Inr (Some r)))"

section \<open>What the merge computes\<close>

text \<open>The entries still to come, with the index of their table.\<close>

definition pending :: "heap_item list \<Rightarrow> (nat \<times> SSTableEntry) set" where
  "pending heap = (\<Union>x\<in>set heap. {heap_table x} \<times> set (heap_entry x # heap_rest x))"

definition heap_ok :: "heap_item list \<Rightarrow> bool" where
  "heap_ok heap \<longleftrightarrow> distinct (map heap_table heap)
     \<and> (\<forall>x\<in>set heap. sorted_wrt (<) (map entry_key (heap_entry x # heap_rest x)))"

definition wins :: "(nat \<times> SSTableEntry) set \<Rightarrow> SSTableEntry \<Rightarrow> bool" where
  "wins P e \<longleftrightarrow> (\<exists>i. (i, e) \<in> P
     \<and> (\<forall>(j, e')\<in>P. entry_key e' = entry_key e \<longrightarrow> entry_rank i e \<le> entry_rank j e'))"

lemma pending_push: "pending (push_iter i it heap) = {i} \<times> set it \<union> pending heap"
  by (cases it) (auto simp: push_iter_def pending_def)

lemma heap_step:
  assumes "heap_ok heap" "heappop heap = Some (x, rest)"
  defines "heap' \<equiv> push_iter (heap_table x) (heap_rest x) rest"
  shows "heap_ok heap'" "pending heap' = pending heap - {(heap_table x, heap_entry x)}"
    "(heap_table x, heap_entry x) \<in> pending heap"
    "\<And>j e. (j, e) \<in> pending heap \<Longrightarrow> entry_rank (heap_table x) (heap_entry x) \<le> entry_rank j e"
proof -
  note pop = heappop_Some[OF assms(2)]
  have set: "set heap = insert x (set rest)" 
    using pop by (metis set_mset_add_mset_insert set_mset_mset)
  have "mset (map heap_table heap) = mset (map heap_table (x # rest))"
    using pop by simp
  then have dist: "heap_table x \<notin> heap_table ` set rest" "distinct (map heap_table rest)"
    using assms(1) mset_eq_imp_distinct_iff by (fastforce simp: heap_ok_def)+
  have sx: "sorted_wrt (<) (map entry_key (heap_entry x # heap_rest x))"
    using assms(1) set by (simp add: heap_ok_def)
  show "heap_ok heap'"
    using assms(1) dist sx by (auto simp: heap_ok_def heap'_def push_iter_def set split: list.splits)
  show "(heap_table x, heap_entry x) \<in> pending heap" by (auto simp: pending_def set)
  have "heap_entry x \<notin> set (heap_rest x)" using sx by auto
  moreover have "(heap_table x, e) \<notin> pending rest" for e
    using dist(1) by (auto simp: pending_def)
  moreover have "pending heap = {heap_table x} \<times> set (heap_entry x # heap_rest x) \<union> pending rest"
    by (auto simp: pending_def set)
  ultimately show "pending heap' = pending heap - {(heap_table x, heap_entry x)}"
    by (auto simp: heap'_def pending_push)
  fix j e assume "(j, e) \<in> pending heap"
  then obtain y where y: "y \<in> set heap" "j = heap_table y" "e \<in> set (heap_entry y # heap_rest y)"
    by (auto simp: pending_def)
  have "sorted_wrt (<) (map entry_key (heap_entry y # heap_rest y))"
    using assms(1) y(1) by (simp add: heap_ok_def)
  then have "item_rank y \<le> entry_rank j e"
    using y(2,3) by (auto simp: item_rank_def entry_rank_def)
  moreover have "item_rank x \<le> item_rank y" using pop y(1) by blast
  ultimately show "entry_rank (heap_table x) (heap_entry x) \<le> entry_rank j e"
    by (simp add: item_rank_def)
qed

lemma wins_remove_other:
  assumes "entry_key e \<noteq> entry_key d"
  shows "wins (P - {(i, d)}) e \<longleftrightarrow> wins P e"
  using assms unfolding wins_def by fastforce

lemma wins_least:
  assumes "(i, d) \<in> P" "\<And>j e. (j, e) \<in> P \<Longrightarrow> entry_rank i d \<le> entry_rank j e"
  shows "wins P d" "wins P e \<Longrightarrow> entry_key e = entry_key d \<Longrightarrow> e = d \<or> entry_rank i d = entry_rank i e"
    "(j, e) \<in> P \<Longrightarrow> entry_key d \<le> entry_key e"
proof -
  show "wins P d" using assms by (auto simp: wins_def)
  show "(j, e) \<in> P \<Longrightarrow> entry_key d \<le> entry_key e"
    using assms(2)[of j e] by (auto simp: entry_rank_def)
  assume "wins P e" "entry_key e = entry_key d"
  then obtain j where "(j, e) \<in> P" "entry_rank j e \<le> entry_rank i d" using assms(1) by (auto simp: wins_def)
  with assms(2)[of j e] have "entry_rank j e = entry_rank i d" by (meson order.antisym)
  then show "e = d \<or> entry_rank i d = entry_rank i e" by (auto simp: entry_rank_def)
qed

text \<open>At most one entry of a table has a given key.\<close>

definition functional :: "(nat \<times> SSTableEntry) set \<Rightarrow> bool" where
  "functional P \<longleftrightarrow> (\<forall>i e e'. (i, e) \<in> P \<longrightarrow> (i, e') \<in> P \<longrightarrow> entry_key e = entry_key e' \<longrightarrow> e = e')"

lemma sorted_keys_inj:
  "sorted_wrt (<) (map entry_key es) \<Longrightarrow> e \<in> set es \<Longrightarrow> e' \<in> set es \<Longrightarrow> entry_key e = entry_key e' \<Longrightarrow> e = e'"
  using sorted_wrt_less_distinct[of "map entry_key es"] by (auto simp: distinct_map inj_on_def)

lemma heap_ok_functional: "heap_ok heap \<Longrightarrow> functional (pending heap)"
proof (unfold functional_def, intro allI impI)
  fix i e e' assume ok: "heap_ok heap" and mem: "(i, e) \<in> pending heap" "(i, e') \<in> pending heap"
    and k: "entry_key e = entry_key e'"
  then obtain x y where x: "x \<in> set heap" "i = heap_table x" "e \<in> set (heap_entry x # heap_rest x)"
    and y: "y \<in> set heap" "i = heap_table y" "e' \<in> set (heap_entry y # heap_rest y)"
    by (auto simp: pending_def)
  have "inj_on heap_table (set heap)" using ok by (simp add: heap_ok_def distinct_map)
  then have "x = y" using x(1,2) y(1,2) by (auto dest: inj_onD)
  moreover have "sorted_wrt (<) (map entry_key (heap_entry x # heap_rest x))"
    using ok x(1) unfolding heap_ok_def by blast
  ultimately show "e = e'" using sorted_keys_inj x(3) y(3) k by blast
qed

lemma wins_unique:
  assumes "functional P" "wins P e" "wins P d" "entry_key e = entry_key d"
  shows "e = d"
proof -
  from assms(2) obtain i where i: "(i, e) \<in> P"
    "\<forall>(j, e')\<in>P. entry_key e' = entry_key e \<longrightarrow> entry_rank i e \<le> entry_rank j e'"
    unfolding wins_def by blast
  from assms(3) obtain j where j: "(j, d) \<in> P"
    "\<forall>(i, e')\<in>P. entry_key e' = entry_key d \<longrightarrow> entry_rank j d \<le> entry_rank i e'"
    unfolding wins_def by blast
  have ij: "(i, e) \<in> P" "(j, d) \<in> P" "entry_rank i e \<le> entry_rank j d" "entry_rank j d \<le> entry_rank i e"
    using i j assms(4) by auto
  then have "entry_rank i e = entry_rank j d" by (meson order.antisym)
  then have "i = j" by (simp add: entry_rank_def)
  with assms(1,4) ij show ?thesis by (auto simp: functional_def)
qed

definition kept :: "(float64 \<Rightarrow> bool) \<Rightarrow> SSTableEntry \<Rightarrow> bool" where
  "kept expired e \<longleftrightarrow> \<not> (entry_tombstone e \<and> expired (entry_timestamp e))"

lemma merge_loop_spec:
  assumes "heap_ok heap" "\<forall>(i, e)\<in>pending heap. \<forall>k. prev = Some k \<longrightarrow> k \<le> entry_key e"
  shows "\<exists>out. fst (merge_loop expired heap prev merged removed) = merged @ out
    \<and> sorted_wrt (<) (map entry_key out)
    \<and> set out = {e. wins (pending heap) e \<and> prev \<noteq> Some (entry_key e) \<and> kept expired e}"
  using assms
proof (induction expired heap prev merged removed rule: merge_loop.induct)
  case (1 expired heap prev merged removed)
  show ?case
  proof (cases "heappop heap")
    case None
    then have "pending heap = {}" by (simp add: heappop_None pending_def)
    then have "{e. wins (pending heap) e \<and> prev \<noteq> Some (entry_key e) \<and> kept expired e} = {}"
      by (auto simp: wins_def)
    then show ?thesis using None by (subst merge_loop.simps) simp
  next
    case (Some p)
    then obtain x rest where pop: "heappop heap = Some (x, rest)" by (cases p) auto
    let ?heap = "push_iter (heap_table x) (heap_rest x) rest" and ?e = "heap_entry x"
    note step = heap_step[OF "1.prems"(1) pop]
    have least: "entry_key ?e \<le> entry_key e" if "(j, e) \<in> pending heap" for j e
      using wins_least(3)[OF step(3,4) that] .
    have bound: "\<forall>(i, e)\<in>pending ?heap. \<forall>k. Some (entry_key ?e) = Some k \<longrightarrow> k \<le> entry_key e"
      using least step(2) by auto
    have other: "wins (pending ?heap) e \<longleftrightarrow> wins (pending heap) e" if "entry_key e \<noteq> entry_key ?e" for e
      unfolding step(2) using wins_remove_other[OF that] .
    show ?thesis
    proof (cases "prev = Some (entry_key ?e)")
      case True
      from True bound "1.IH"(1)[OF pop refl refl refl] step(1) obtain out where
        "fst (merge_loop expired ?heap prev merged removed) = merged @ out" "sorted_wrt (<) (map entry_key out)"
        "set out = {e. wins (pending ?heap) e \<and> prev \<noteq> Some (entry_key e) \<and> kept expired e}" by auto
      moreover have "{e. wins (pending ?heap) e \<and> prev \<noteq> Some (entry_key e) \<and> kept expired e}
          = {e. wins (pending heap) e \<and> prev \<noteq> Some (entry_key e) \<and> kept expired e}"
        using other True by auto
      ultimately show ?thesis
        using True pop by (intro exI[of _ out]) (subst merge_loop.simps, simp add: Let_def)
    next
      case False
      have notlast: "prev \<noteq> Some (entry_key e)" if "(j, e) \<in> pending heap" for j e
        using "1.prems"(2) step(3) least[OF that] False by fastforce
      have win: "wins (pending heap) ?e" using wins_least(1)[OF step(3,4)] .
      have all: "{e. wins (pending heap) e \<and> prev \<noteq> Some (entry_key e) \<and> kept expired e}
          = {e. wins (pending ?heap) e \<and> Some (entry_key ?e) \<noteq> Some (entry_key e) \<and> kept expired e}
            \<union> {e. e = ?e \<and> kept expired e}" (is "?L = ?R \<union> ?S")
      proof (intro equalityI subsetI)
        fix e assume e: "e \<in> ?L"
        then show "e \<in> ?R \<union> ?S"
          using other[of e] wins_unique[OF heap_ok_functional[OF "1.prems"(1)] _ win, of e]
          by (cases "entry_key e = entry_key ?e") auto
      next
        fix e assume e: "e \<in> ?R \<union> ?S"
        then have "wins (pending heap) e \<and> kept expired e" using other[of e] win by auto
        then show "e \<in> ?L" using notlast by (auto simp: wins_def)
      qed
      have gt: "entry_key ?e < entry_key e" if "e \<in> ?R" for e
      proof -
        have "wins (pending heap) e" using that other[of e] by auto
        then obtain j where "(j, e) \<in> pending heap" by (auto simp: wins_def)
        with least that show ?thesis by fastforce
      qed
      show ?thesis
      proof (cases "entry_tombstone ?e \<and> expired (entry_timestamp ?e)")
        case dead: True
        from bound "1.IH"(2)[OF pop refl refl refl False dead] step(1) obtain out where
          *: "fst (merge_loop expired ?heap (Some (entry_key ?e)) merged (removed + 1)) = merged @ out"
          and "sorted_wrt (<) (map entry_key out)" "set out = ?R" by auto
        moreover have "?L = ?R" unfolding all using dead by (auto simp: kept_def)
        ultimately have "sorted_wrt (<) (map entry_key out) \<and> set out = ?L" by simp
        moreover have "fst (merge_loop expired heap prev merged removed) = merged @ out"
          using False dead pop * by (subst merge_loop.simps) (simp add: Let_def)
        ultimately show ?thesis by blast
      next
        case live: False
        from bound "1.IH"(3)[OF pop refl refl refl False live] step(1) obtain out where
          out: "fst (merge_loop expired ?heap (Some (entry_key ?e)) (merged @ [?e]) removed) = (merged @ [?e]) @ out"
          "sorted_wrt (<) (map entry_key out)" "set out = ?R" by auto
        have "?S = {?e}" using live by (auto simp: kept_def)
        then have "set (?e # out) = ?L" unfolding all out(3)[symmetric] by simp
        moreover have "sorted_wrt (<) (map entry_key (?e # out))" using out(2,3) gt by auto
        moreover have "fst (merge_loop expired heap prev merged removed) = merged @ ?e # out"
          using False live pop out(1) by (subst merge_loop.simps) (auto simp: Let_def)
        ultimately show ?thesis by blast
      qed
    qed
  qed
qed

section \<open>The reference: newest timestamp per key\<close>

text \<open>
  Tables are tried in order; a later one replaces the candidate only with a strictly newer
  timestamp.  The read path of the engine makes the same choice.
\<close>

definition find_key :: "bytes \<Rightarrow> SSTableEntry list \<Rightarrow> SSTableEntry option" where
  "find_key k es = List.find (\<lambda>e. entry_key e = k) es"

definition pick_newer :: "SSTableEntry option \<Rightarrow> SSTableEntry option \<Rightarrow> SSTableEntry option" where
  "pick_newer best cand =
     (case cand of
        None \<Rightarrow> best
      | Some c \<Rightarrow>
          (case best of
             None \<Rightarrow> Some c
           | Some b \<Rightarrow> if float_lt (entry_timestamp b) (entry_timestamp c) then Some c else Some b))"

definition newest_of :: "SSTableEntry list list \<Rightarrow> bytes \<Rightarrow> SSTableEntry option" where
  "newest_of ess k = foldl (\<lambda>best es. pick_newer best (find_key k es)) None ess"

definition tables_ok :: "SSTableEntry list list \<Rightarrow> bool" where
  "tables_ok ess \<longleftrightarrow> (\<forall>es\<in>set ess. sorted_wrt (<) (map entry_key es)
     \<and> (\<forall>e\<in>set es. \<not> float_nan (entry_timestamp e)))"

definition indexed :: "SSTableEntry list list \<Rightarrow> (nat \<times> SSTableEntry) set" where
  "indexed ess = {(j, e). j < length ess \<and> e \<in> set (ess ! j)}"

lemma find_key_Some:
  assumes "sorted_wrt (<) (map entry_key es)"
  shows "find_key k es = Some e \<longleftrightarrow> e \<in> set es \<and> entry_key e = k"
proof
  show "find_key k es = Some e \<Longrightarrow> e \<in> set es \<and> entry_key e = k"
    by (auto simp: find_key_def find_Some_iff)
  assume e: "e \<in> set es \<and> entry_key e = k"
  then obtain d where d: "find_key k es = Some d"
    by (cases "find_key k es") (auto simp: find_key_def find_None_iff)
  then have "d \<in> set es" "entry_key d = k" by (auto simp: find_key_def find_Some_iff)
  with e sorted_keys_inj[OF assms] have "d = e" by blast
  with d show "find_key k es = Some e" by simp
qed

lemma find_key_None: "find_key k es = None \<longleftrightarrow> (\<forall>e\<in>set es. entry_key e \<noteq> k)"
  by (auto simp: find_key_def find_None_iff)

lemma indexed_snoc: "indexed (ess @ [es]) = indexed ess \<union> {length ess} \<times> set es"
  by (auto simp: indexed_def nth_append less_Suc_eq)

lemma indexed_functional:
  assumes "tables_ok ess"
  shows "functional (indexed ess)"
proof (unfold functional_def, intro allI impI)
  fix i e e' assume "(i, e) \<in> indexed ess" "(i, e') \<in> indexed ess" and k: "entry_key e = entry_key e'"
  then have i: "i < length ess" "e \<in> set (ess ! i)" "e' \<in> set (ess ! i)" by (auto simp: indexed_def)
  then have "sorted_wrt (<) (map entry_key (ess ! i))" using assms by (simp add: tables_ok_def)
  from sorted_keys_inj[OF this i(2,3) k] show "e = e'" .
qed

lemma float_lt_key: "\<not> float_nan a \<Longrightarrow> \<not> float_nan b \<Longrightarrow> float_lt a b \<longleftrightarrow> float_key a < float_key b"
  by (simp add: float_lt_def)

lemma newest_of_snoc: "newest_of (ess @ [es]) k = pick_newer (newest_of ess k) (find_key k es)"
  by (simp add: newest_of_def)

lemma newest_of_spec:
  assumes "tables_ok ess"
  shows "case newest_of ess k of
      None \<Rightarrow> \<forall>(j, e)\<in>indexed ess. entry_key e \<noteq> k
    | Some e \<Rightarrow> entry_key e = k \<and> wins (indexed ess) e"
  using assms
proof (induction ess rule: rev_induct)
  case Nil
  then show ?case by (simp add: newest_of_def indexed_def)
next
  case (snoc es ess)
  have ok: "tables_ok ess" "sorted_wrt (<) (map entry_key es)" "\<forall>e\<in>set es. \<not> float_nan (entry_timestamp e)"
    using snoc.prems by (auto simp: tables_ok_def)
  have nan: "\<not> float_nan (entry_timestamp e)" if "(j, e) \<in> indexed ess" for j e
    using ok(1) that by (auto simp: tables_ok_def indexed_def)
  have small: "j < length ess" if "(j, e) \<in> indexed ess" for j e using that by (simp add: indexed_def)
  note ih = snoc.IH[OF ok(1)]
  show ?case
  proof (cases "find_key k es")
    case None
    then have no: "\<forall>e\<in>set es. entry_key e \<noteq> k" by (simp add: find_key_None)
    show ?thesis
    proof (cases "newest_of ess k")
      case b: None
      then show ?thesis using ih None no by (auto simp: newest_of_snoc pick_newer_def indexed_snoc)
    next
      case b: (Some b)
      then have "entry_key b = k" "wins (indexed ess) b" using ih by simp_all
      then have "wins (indexed (ess @ [es])) b" using no unfolding indexed_snoc wins_def by fastforce
      then show ?thesis using b None \<open>entry_key b = k\<close> by (simp add: newest_of_snoc pick_newer_def)
    qed
  next
    case (Some d)
    then have d: "d \<in> set es" "entry_key d = k" by (simp_all add: find_key_Some[OF ok(2)])
    have only: "e = d" if "e \<in> set es" "entry_key e = k" for e
      using sorted_keys_inj[OF ok(2) that(1) d(1)] that(2) d(2) by simp
    show ?thesis
    proof (cases "newest_of ess k")
      case b: None
      then have no: "\<forall>(j, e)\<in>indexed ess. entry_key e \<noteq> k" using ih by simp
      have "wins (indexed (ess @ [es])) d"
        unfolding wins_def indexed_snoc using no only d by (intro exI[of _ "length ess"]) fastforce
      then show ?thesis using b Some d by (simp add: newest_of_snoc pick_newer_def)
    next
      case b: (Some b)
      then have k: "entry_key b = k" and "wins (indexed ess) b" using ih by simp_all
      then obtain i where i: "(i, b) \<in> indexed ess"
        "\<forall>(j, e)\<in>indexed ess. entry_key e = k \<longrightarrow> entry_rank i b \<le> entry_rank j e"
        by (auto simp: wins_def)
      have lt: "float_lt (entry_timestamp b) (entry_timestamp d) \<longleftrightarrow>
          float_key (entry_timestamp b) < float_key (entry_timestamp d)"
        using float_lt_key nan[OF i(1)] ok(3) d(1) by blast
      show ?thesis
      proof (cases "float_lt (entry_timestamp b) (entry_timestamp d)")
        case True
        then have "entry_rank (length ess) d \<le> entry_rank i b"
          using lt k d(2) by (simp add: entry_rank_def)
        then have "\<forall>(j, e)\<in>indexed (ess @ [es]). entry_key e = k \<longrightarrow> entry_rank (length ess) d \<le> entry_rank j e"
          using i(2) only unfolding indexed_snoc by (auto intro: order.trans)
        then have "wins (indexed (ess @ [es])) d"
          unfolding wins_def using d by (intro exI[of _ "length ess"]) (simp add: indexed_snoc)
        then show ?thesis using b Some d True by (simp add: newest_of_snoc pick_newer_def)
      next
        case False
        then have "entry_rank i b \<le> entry_rank (length ess) d"
          using lt k d(2) small[OF i(1)] by (auto simp: entry_rank_def)
        then have "\<forall>(j, e)\<in>indexed (ess @ [es]). entry_key e = k \<longrightarrow> entry_rank i b \<le> entry_rank j e"
          using i(2) only unfolding indexed_snoc by auto
        then have "wins (indexed (ess @ [es])) b"
          unfolding wins_def using i(1) k by (intro exI[of _ i]) (simp add: indexed_snoc)
        then show ?thesis using b Some k False by (simp add: newest_of_snoc pick_newer_def)
      qed
    qed
  qed
qed

lemma newest_of_wins:
  assumes "tables_ok ess"
  shows "wins (indexed ess) e \<longleftrightarrow> newest_of ess (entry_key e) = Some e"
proof
  assume "newest_of ess (entry_key e) = Some e"
  then show "wins (indexed ess) e" using newest_of_spec[OF assms, of "entry_key e"] by simp
next
  assume w: "wins (indexed ess) e"
  show "newest_of ess (entry_key e) = Some e"
  proof (cases "newest_of ess (entry_key e)")
    case None
    then show ?thesis using newest_of_spec[OF assms, of "entry_key e"] w by (auto simp: wins_def)
  next
    case (Some d)
    then have "entry_key d = entry_key e" "wins (indexed ess) d"
      using newest_of_spec[OF assms, of "entry_key e"] by simp_all
    then have "e = d" using wins_unique[OF indexed_functional[OF assms] w] by simp
    with Some show ?thesis by simp
  qed
qed

lemma heap_init_spec:
  assumes "\<forall>es\<in>set ess. sorted_wrt (<) (map entry_key es)"
  shows "heap_ok (heap_init n ess) \<and> pending (heap_init n ess) = (\<lambda>(j, e). (n + j, e)) ` indexed ess
    \<and> (\<forall>x\<in>set (heap_init n ess). n \<le> heap_table x)"
  using assms
proof (induction ess arbitrary: n)
  case Nil
  then show ?case by (simp add: heap_ok_def pending_def indexed_def)
next
  case (Cons es ess)
  have ih: "heap_ok (heap_init (n + 1) ess)"
    "pending (heap_init (n + 1) ess) = (\<lambda>(j, e). (n + 1 + j, e)) ` indexed ess"
    "\<forall>x\<in>set (heap_init (n + 1) ess). n + 1 \<le> heap_table x"
    using Cons by simp_all
  have "indexed (es # ess) = {0} \<times> set es \<union> (\<lambda>(j, e). (Suc j, e)) ` indexed ess"
    by (auto simp: indexed_def nth_Cons image_iff split: nat.splits)
  moreover have "(\<lambda>(j, e). (n + j, e)) ` ({0} \<times> set es) = {n} \<times> set es" by force
  ultimately have "(\<lambda>(j, e). (n + j, e)) ` indexed (es # ess)
      = {n} \<times> set es \<union> (\<lambda>(j, e). (n + 1 + j, e)) ` indexed ess"
    by (simp only: image_Un image_image) (simp add: case_prod_unfold)
  moreover have "heap_ok (push_iter n es (heap_init (n + 1) ess))"
    using ih(1,3) Cons.prems by (fastforce simp: push_iter_def heap_ok_def split: list.splits)
  moreover have "\<forall>x\<in>set (push_iter n es (heap_init (n + 1) ess)). n \<le> heap_table x"
    using ih(3) by (fastforce simp: push_iter_def split: list.splits)
  ultimately show ?case using ih(2) by (simp add: pending_push)
qed

text \<open>The merge of sorted tables is strictly sorted and holds the newest live entry of every key.\<close>

theorem merge_newest:
  fixes expired :: "float64 \<Rightarrow> bool"
  assumes "tables_ok ess"
  defines "m \<equiv> fst (merge_loop expired (heap_init 0 ess) None [] 0)"
  shows "sorted_wrt (<) (map entry_key m)"
    and "find_key k m = (case newest_of ess k of
           None \<Rightarrow> None | Some e \<Rightarrow> if kept expired e then Some e else None)"
proof -
  have hi: "heap_ok (heap_init 0 ess)" "pending (heap_init 0 ess) = indexed ess"
    using heap_init_spec[of ess 0] assms(1) by (auto simp: tables_ok_def)
  from merge_loop_spec[OF hi(1), of None expired "[]" 0]
  have m: "sorted_wrt (<) (map entry_key m)" "set m = {e. wins (indexed ess) e \<and> kept expired e}"
    by (auto simp: m_def hi(2))
  show "sorted_wrt (<) (map entry_key m)" by (rule m(1))
  have mem: "e \<in> set m \<longleftrightarrow> newest_of ess (entry_key e) = Some e \<and> kept expired e" for e
    using m(2) newest_of_wins[OF assms(1)] by simp
  show "find_key k m = (case newest_of ess k of
           None \<Rightarrow> None | Some e \<Rightarrow> if kept expired e then Some e else None)"
  proof (cases "newest_of ess k")
    case None
    then have "find_key k m = None" using mem by (auto simp: find_key_None)
    then show ?thesis using None by simp
  next
    case (Some e)
    then have k: "entry_key e = k" using newest_of_spec[OF assms(1), of k] by simp
    show ?thesis
    proof (cases "kept expired e")
      case True
      then have "find_key k m = Some e" using mem k Some find_key_Some[OF m(1)] by simp
      then show ?thesis using Some True by simp
    next
      case False
      have "entry_key d \<noteq> k" if "d \<in> set m" for d
      proof
        assume "entry_key d = k"
        then have "d = e" "kept expired d" using mem[of d] that Some by simp_all
        with False show False by simp
      qed
      then have "find_key k m = None" by (simp add: find_key_None)
      then show ?thesis using Some False by simp
    qed
  qed
qed

end
