(* ===== verification/KV_Engine.thy ===== *)
theory KV_Engine
  imports KV_Compaction
begin

text \<open>
  The storage engine (\<^verbatim>\<open>key-value-store/src/kv_store/storage/engine.py\<close>): start with log replay, put,
  delete, get, scan, flush with compaction, and stop.  The state holds the log, the memory table, the
  open tables (newest first) and the files of the table directory.  Everything a call takes from
  outside (the outcome of each disk operation, the clock, the random part of file names) is its
  \<open>io_env\<close> argument.
\<close>

section \<open>State\<close>

record StorageConfig =
  memtable_size_bytes :: int
  compaction_threshold :: int
  max_value_size_bytes :: int

record StorageEngine =
  eng_config :: StorageConfig
  eng_wal :: WriteAheadLog
  eng_memtable :: MemTable
  eng_sstables :: "SSTable list"
  eng_started :: bool
  eng_files :: "(string, bytes) dict"

text \<open>
  \<^verbatim>\<open>files.publish\<close> makes a complete file visible at once; it can fail before, and the flush of the
  directory can fail after the file is visible.
\<close>

datatype publish_io = Published | NotPublished | NotSynced

record io_env =
  io_append :: io
  io_truncate :: io
  io_flush :: publish_io
  io_compact :: publish_io
  io_sync :: bool
  io_unlink :: "string \<Rightarrow> bool"
  flush_uuid :: string
  compact_uuid :: string
  flush_time :: float64
  compact_time :: float64

record StorageResult =
  res_key :: bytes
  res_value :: "bytes option"
  res_timestamp :: float64
  res_tombstone :: bool
  res_found :: bool

definition engine_init :: "StorageConfig \<Rightarrow> bytes option \<Rightarrow> (string, bytes) dict \<Rightarrow> StorageEngine" where
  "engine_init config wal_bytes files =
     \<lparr>eng_config = config, eng_wal = wal_init wal_bytes,
      eng_memtable = memtable_init (memtable_size_bytes config), eng_sstables = [],
      eng_started = False, eng_files = files\<rparr>"

section \<open>Validation\<close>

definition MAX_KEY_SIZE_BYTES :: nat where
  "MAX_KEY_SIZE_BYTES = 256"

definition validate_key :: "bytes \<Rightarrow> unit result" where
  "validate_key key = require (length key \<le> MAX_KEY_SIZE_BYTES) (ValueError ''Key exceeds maximum size'')"

definition validate_value :: "StorageConfig \<Rightarrow> bytes \<Rightarrow> unit result" where
  "validate_value config val =
     require (int (length val) \<le> max_value_size_bytes config) (ValueError ''Value exceeds maximum size'')"

text \<open>\<^verbatim>\<open>math.isfinite(t) and 0 <= t <= 1e12\<close>, on bit patterns.\<close>

definition timestamp_ok :: "float64 \<Rightarrow> bool" where
  "timestamp_ok ts \<longleftrightarrow> float_finite ts \<and> float_le 0 ts \<and> float_le ts 0x426D1A94A2000000"

definition validate_timestamp :: "float64 \<Rightarrow> unit result" where
  "validate_timestamp ts = require (timestamp_ok ts) (ValueError ''invalid storage timestamp'')"

section \<open>Flush and compaction\<close>

fun insert_by_creation :: "SSTable \<Rightarrow> SSTable list \<Rightarrow> SSTable list" where
  "insert_by_creation t [] = [t]"
| "insert_by_creation t (u # us) =
     (if float_lt (created_at (metadata u)) (created_at (metadata t)) then t # u # us
      else u # insert_by_creation t us)"

fun retire :: "(string \<Rightarrow> bool) \<Rightarrow> SSTable list \<Rightarrow> (string, bytes) dict \<Rightarrow> (string, bytes) dict" where
  "retire unlink [] files = files"
| "retire unlink (t # ts) files =
     retire unlink ts (if unlink (file_path (metadata t)) then dict_del (file_path (metadata t)) files
                       else files)"

definition replace_compacted_sstables ::
  "(string \<Rightarrow> bool) \<Rightarrow> SSTable \<Rightarrow> StorageEngine \<Rightarrow> StorageEngine" where
  "replace_compacted_sstables unlink compacted s =
     (let lvl = int (level (metadata compacted)) - 1;
          retired = filter (\<lambda>t. int (level (metadata t)) = lvl) (eng_sstables s);
          others = filter (\<lambda>t. int (level (metadata t)) \<noteq> lvl) (eng_sstables s)
      in s\<lparr>eng_sstables := insert_by_creation compacted others,
           eng_files := retire unlink retired (eng_files s)\<rparr>)"

text \<open>The engine's grace period is infinite, so no tombstone expires.\<close>

definition never_expired :: "float64 \<Rightarrow> bool" where
  "never_expired ts = False"

definition compact_tables :: "bloom_env \<Rightarrow> io_env \<Rightarrow> StorageEngine \<Rightarrow> StorageEngine \<times> unit result" where
  "compact_tables env oe s =
     (case maybe_compact env never_expired (compaction_threshold (eng_config s)) (compact_uuid oe)
             (compact_time oe) (eng_sstables s) of
        Inl x \<Rightarrow> (s, Inl x)
      | Inr None \<Rightarrow> (s, Inr ())
      | Inr (Some (name, data, opened)) \<Rightarrow>
          if io_compact oe = NotPublished then (s, Inl OSError)
          else
            let s1 = s\<lparr>eng_files := dict_set name data (eng_files s)\<rparr> in
            if io_compact oe = NotSynced then (s1, Inl OSError) else
            case opened of
              Inl x \<Rightarrow> (s1, Inl x)
            | Inr (t, stats) \<Rightarrow>
                (replace_compacted_sstables (io_unlink oe) t s1,
                 require (io_sync oe) OSError))"

definition flush_memtable :: "bloom_env \<Rightarrow> io_env \<Rightarrow> StorageEngine \<Rightarrow> StorageEngine \<times> unit result" where
  "flush_memtable env oe s =
     (if memtable_len (eng_memtable s) = 0 then (s, Inr ())
      else
        let name = sstable_name 0 (flush_uuid oe) in
        case create_from_memtable env (eng_memtable s) name 0 (flush_time oe) of
          Inl x \<Rightarrow> (s, Inl x)
        | Inr (data, opened) \<Rightarrow>
            if io_flush oe = NotPublished then (s, Inl OSError)
            else
              let s1 = s\<lparr>eng_files := dict_set name data (eng_files s)\<rparr> in
              if io_flush oe = NotSynced then (s1, Inl OSError) else
              case opened of
                Inl x \<Rightarrow> (s1, Inl x)
              | Inr t \<Rightarrow>
                  let (w, r) = wal_truncate (io_truncate oe) (eng_wal s1);
                      s2 = s1\<lparr>eng_sstables := t # eng_sstables s1,
                              eng_memtable := memtable_clear (eng_memtable s1), eng_wal := w\<rparr>
                  in then_do (s2, r) (\<lambda>s3 _. compact_tables env oe s3))"

section \<open>Writes\<close>

definition put_entry :: "bytes \<Rightarrow> bytes \<Rightarrow> float64 \<Rightarrow> MemTableEntry" where
  "put_entry k v ts = \<lparr>entry_key = k, entry_value = Some v, entry_timestamp = ts, entry_tombstone = False\<rparr>"

definition delete_entry :: "bytes \<Rightarrow> float64 \<Rightarrow> MemTableEntry" where
  "delete_entry k ts = \<lparr>entry_key = k, entry_value = None, entry_timestamp = ts, entry_tombstone = True\<rparr>"

definition wal_record :: "WALEntryType \<Rightarrow> bytes \<Rightarrow> bytes option \<Rightarrow> float64 \<Rightarrow> WALEntry" where
  "wal_record ty k v ts = \<lparr>wal_seq = 0, wal_type = ty, wal_key = k, wal_value = v, wal_time = ts\<rparr>"

text \<open>The common tail of the two writes: append to the log, apply to the memory table, flush when full.\<close>

definition log_and_apply ::
  "bloom_env \<Rightarrow> io_env \<Rightarrow> WALEntry \<Rightarrow> (MemTable \<Rightarrow> MemTable) \<Rightarrow> StorageEngine \<Rightarrow> StorageEngine \<times> unit result" where
  "log_and_apply env oe e update s =
     (let (w, r) = wal_append (io_append oe) e (eng_wal s) in
      then_do (s\<lparr>eng_wal := w\<rparr>, r) (\<lambda>s1 _.
        let s2 = s1\<lparr>eng_memtable := update (eng_memtable s1)\<rparr> in
        if is_full (eng_memtable s2) then flush_memtable env oe s2 else (s2, Inr ())))"

definition engine_put ::
  "bloom_env \<Rightarrow> io_env \<Rightarrow> bytes \<Rightarrow> bytes \<Rightarrow> float64 \<Rightarrow> StorageEngine \<Rightarrow> StorageEngine \<times> unit result" where
  "engine_put env oe key val ts s =
     (case and_then (require (eng_started s) (RuntimeError ''storage engine is not started'')) (\<lambda>_.
           and_then (validate_key key) (\<lambda>_.
           and_then (validate_timestamp ts) (\<lambda>_. validate_value (eng_config s) val))) of
        Inl x \<Rightarrow> (s, Inl x)
      | Inr _ \<Rightarrow>
          log_and_apply env oe (wal_record PUT key (Some val) ts) (memtable_put key val ts) s)"

definition engine_delete ::
  "bloom_env \<Rightarrow> io_env \<Rightarrow> bytes \<Rightarrow> float64 \<Rightarrow> StorageEngine \<Rightarrow> StorageEngine \<times> unit result" where
  "engine_delete env oe key ts s =
     (case and_then (require (eng_started s) (RuntimeError ''storage engine is not started'')) (\<lambda>_.
           and_then (validate_key key) (\<lambda>_. validate_timestamp ts)) of
        Inl x \<Rightarrow> (s, Inl x)
      | Inr _ \<Rightarrow>
          log_and_apply env oe (wal_record DELETE key None ts) (memtable_delete key ts) s)"

section \<open>Reads\<close>

fun get_loop :: "bloom_env \<Rightarrow> bytes \<Rightarrow> SSTable list \<Rightarrow> SSTableEntry option \<Rightarrow> SSTableEntry option result" where
  "get_loop env key [] best = Inr best"
| "get_loop env key (t # ts) best =
     and_then (may_contain env t key) (\<lambda>maybe.
       if maybe then
         and_then (sstable_get env t key) (\<lambda>cand. get_loop env key ts (pick_newer best cand))
       else get_loop env key ts best)"

definition as_result :: "SSTableEntry \<Rightarrow> bool \<Rightarrow> StorageResult" where
  "as_result e found =
     \<lparr>res_key = entry_key e, res_value = entry_value e, res_timestamp = entry_timestamp e,
      res_tombstone = entry_tombstone e, res_found = found\<rparr>"

definition engine_get :: "bloom_env \<Rightarrow> bytes \<Rightarrow> StorageEngine \<Rightarrow> StorageResult option result" where
  "engine_get env key s =
     and_then (validate_key key) (\<lambda>_.
     and_then (get_loop env key (eng_sstables s) (memtable_get (eng_memtable s) key)) (\<lambda>best.
       Inr (map_option (\<lambda>e. as_result e True) best)))"

definition scan_step :: "SSTableEntry \<Rightarrow> (bytes, SSTableEntry) dict \<Rightarrow> (bytes, SSTableEntry) dict" where
  "scan_step e d =
     (case dict_get d (entry_key e) of
        None \<Rightarrow> dict_set (entry_key e) e d
      | Some old \<Rightarrow>
          if float_le (entry_timestamp old) (entry_timestamp e) then dict_set (entry_key e) e d else d)"

definition engine_scan :: "StorageEngine \<Rightarrow> (bytes, StorageResult) dict" where
  "engine_scan s =
     (let d = fold (\<lambda>t. fold scan_step (sstable_entries t)) (rev (eng_sstables s)) [];
          d = fold scan_step (entries_sorted (eng_memtable s)) d
      in map (\<lambda>(k, e). (k, as_result e (\<not> entry_tombstone e))) d)"

section \<open>Start and stop\<close>

definition is_sst :: "string \<Rightarrow> bool" where
  "is_sst name \<longleftrightarrow> name \<noteq> ''.sst'' \<and> drop (length name - 4) name = ''.sst''"

definition load_sstables :: "(string, bytes) dict \<Rightarrow> SSTable list result" where
  "load_sstables files =
     and_then (traverse (\<lambda>(name, data).
         case sstable_open name (Some data) of
           Inr t \<Rightarrow> Inr t
         | Inl x \<Rightarrow> (case x of
               ValueError _ \<Rightarrow> Inl (ValueError ''invalid SSTable requires recovery'')
             | FileNotFoundError \<Rightarrow> Inl (ValueError ''invalid SSTable requires recovery'')
             | _ \<Rightarrow> Inl x))
       (filter (\<lambda>(name, _). is_sst name) files)) (\<lambda>ts.
       Inr (sort_key (\<lambda>t. - float_key (created_at (metadata t))) ts))"

definition replay_entry :: "WALEntry \<Rightarrow> MemTable \<Rightarrow> MemTable" where
  "replay_entry e mt =
     (case wal_type e of
        PUT \<Rightarrow> memtable_put (wal_key e) (value_bytes (wal_value e)) (wal_time e) mt
      | DELETE \<Rightarrow> memtable_delete (wal_key e) (wal_time e) mt)"

definition engine_start :: "io \<Rightarrow> StorageEngine \<Rightarrow> StorageEngine \<times> unit result" where
  "engine_start out s =
     (if eng_started s then (s, Inl (RuntimeError ''storage engine is already started''))
      else
        case load_sstables (eng_files s) of
          Inl x \<Rightarrow> (s, Inl x)
        | Inr ts \<Rightarrow>
            let s1 = s\<lparr>eng_sstables := ts\<rparr>; (w, r) = wal_replay out (eng_wal s1) in
            then_do (s1\<lparr>eng_wal := w\<rparr>, r) (\<lambda>s2 entries.
              (s2\<lparr>eng_memtable := fold replay_entry entries (eng_memtable s2), eng_started := True\<rparr>,
               Inr ())))"

definition engine_stop :: "bloom_env \<Rightarrow> io_env \<Rightarrow> StorageEngine \<Rightarrow> StorageEngine \<times> unit result" where
  "engine_stop env oe s =
     (let (s1, r) = (if memtable_len (eng_memtable s) > 0 then flush_memtable env oe s else (s, Inr ()))
      in (s1\<lparr>eng_started := False\<rparr>, r))"

end
