(* ===== verification/KV_Engine_Laws.thy ===== *)
theory KV_Engine_Laws
  imports KV_Engine
begin

text \<open>
  The storage engine refines a set of writes: whatever mixture of writes, flushes, compactions,
  failing disk operations and restarts led to a state, a read returns a write of that key whose
  timestamp is maximal among the acknowledged ones.  The interface between the engine and its tables
  is the locale \<open>sorted_table\<close>.
\<close>

section \<open>What the engine needs of a table\<close>

locale sorted_table =
  fixes ok :: "'t \<Rightarrow> bool"
    and entries :: "'t \<Rightarrow> SSTableEntry list"
    and lookup :: "'t \<Rightarrow> bytes \<Rightarrow> SSTableEntry option result"
    and maybe :: "'t \<Rightarrow> bytes \<Rightarrow> bool result"
  assumes lookup_find: "ok t \<Longrightarrow> lookup t k = Inr (find_key k (entries t))"
    and maybe_sound: "ok t \<Longrightarrow> \<exists>b. maybe t k = Inr b \<and> (b \<or> find_key k (entries t) = None)"
begin

text \<open>Consulting the filter first does not change what one table contributes to a read.\<close>

lemma probe:
  assumes "ok t"
  shows "and_then (maybe t k) (\<lambda>b. if b then and_then (lookup t k) (\<lambda>c. f (pick_newer best c)) else f best)
    = f (pick_newer best (find_key k (entries t)))"
proof -
  obtain b where "maybe t k = Inr b" "b \<or> find_key k (entries t) = None"
    using maybe_sound[OF assms] by blast
  then show ?thesis by (cases b) (auto simp: lookup_find[OF assms] pick_newer_def)
qed

end

section \<open>Well-formed tables\<close>

text \<open>A write the theorems are about: a plain key, a consistent tombstone flag, a comparable time.\<close>

definition good :: "MemTableEntry \<Rightarrow> bool" where
  "good e \<longleftrightarrow> plain_key (entry_key e) \<and> entry_ok e \<and> \<not> float_nan (entry_timestamp e)"

definition table_ok :: "bloom_env \<Rightarrow> SSTable \<Rightarrow> bool" where
  "table_ok env t \<longleftrightarrow> sst_repr env t (sstable_entries t) \<and> (\<forall>e\<in>set (sstable_entries t). good e)"

interpretation sst: sorted_table "table_ok env" sstable_entries "sstable_get env" "may_contain env" for env
proof
  fix t k assume "table_ok env t"
  then have r: "sst_repr env t (sstable_entries t)" by (simp add: table_ok_def)
  show "sstable_get env t k = Inr (find_key k (sstable_entries t))"
    using sst_repr_get[OF r] by (simp add: find_key_def)
  show "\<exists>b. may_contain env t k = Inr b \<and> (b \<or> find_key k (sstable_entries t) = None)"
    using sst_repr_may_contain[OF r] by (simp add: find_key_def)
qed

lemma table_ok_sorted: "table_ok env t \<Longrightarrow> sorted_wrt (<) (map entry_key (sstable_entries t))"
  by (simp add: table_ok_def sst_repr_def)

lemma get_loop_ok:
  "\<forall>t\<in>set ts. table_ok env t
   \<Longrightarrow> get_loop env k ts best = Inr (foldl (\<lambda>b es. pick_newer b (find_key k es)) best (map sstable_entries ts))"
  by (induction ts arbitrary: best) (simp_all add: sst.probe)

lemma writable_opens:
  assumes "writable es" "\<forall>e\<in>set es. good e" "build_file env es lvl created = Inr data"
  obtains t where "sstable_open path (Some data) = Inr t" "table_ok env t" "sstable_entries t = es"
    "level (metadata t) = lvl" "file_path (metadata t) = path"
proof -
  from build_file_opens[OF assms(3,1), of path] obtain t where
    t: "sstable_open path (Some data) = Inr t" "sst_repr env t es" "level (metadata t) = lvl"
      "file_path (metadata t) = path" by auto
  from sst_repr_entries[OF t(2)] have "sstable_entries t = es" .
  with t assms(2) that show ?thesis by (simp add: table_ok_def)
qed

section \<open>Dominance\<close>

text \<open>Every write of \<open>D\<close> is answered in \<open>C\<close> by one of the same key that is at least as new.\<close>

definition covers :: "MemTableEntry set \<Rightarrow> MemTableEntry set \<Rightarrow> bool" where
  "covers C D \<longleftrightarrow> (\<forall>d\<in>D. \<exists>c\<in>C. entry_key c = entry_key d
     \<and> float_key (entry_timestamp d) \<le> float_key (entry_timestamp c))"

lemma covers_refl [simp]: "D \<subseteq> C \<Longrightarrow> covers C D"
  unfolding covers_def by blast

lemma covers_trans [trans]: "covers B C \<Longrightarrow> covers C D \<Longrightarrow> covers B D"
  unfolding covers_def
proof (intro ballI)
  fix d assume BC: "\<forall>d\<in>C. \<exists>c\<in>B. entry_key c = entry_key d \<and> float_key (entry_timestamp d) \<le> float_key (entry_timestamp c)"
    and CD: "\<forall>d\<in>D. \<exists>c\<in>C. entry_key c = entry_key d \<and> float_key (entry_timestamp d) \<le> float_key (entry_timestamp c)"
    and "d \<in> D"
  then obtain c where c: "c \<in> C" "entry_key c = entry_key d"
    "float_key (entry_timestamp d) \<le> float_key (entry_timestamp c)" by blast
  with BC obtain b where "b \<in> B" "entry_key b = entry_key c"
    "float_key (entry_timestamp c) \<le> float_key (entry_timestamp b)" by blast
  with c show "\<exists>c\<in>B. entry_key c = entry_key d \<and> float_key (entry_timestamp d) \<le> float_key (entry_timestamp c)"
    by (intro bexI[of _ b]) simp_all
qed

lemma covers_Un: "covers C (D \<union> E) \<longleftrightarrow> covers C D \<and> covers C E"
  unfolding covers_def by blast

lemma covers_mono: "covers C D \<Longrightarrow> C \<subseteq> C' \<Longrightarrow> D' \<subseteq> D \<Longrightarrow> covers C' D'"
  unfolding covers_def by blast

definition memtable_set :: "MemTable \<Rightarrow> MemTableEntry set" where
  "memtable_set mt = {e. memtable_get mt (entry_key e) = Some e}"

definition cands :: "StorageEngine \<Rightarrow> MemTableEntry set" where
  "cands s = memtable_set (eng_memtable s) \<union> (\<Union>t\<in>set (eng_sstables s). set (sstable_entries t))"

lemma memtable_set_write:
  assumes "memtable_inv mt" "entry_ok e" "\<not> float_nan (entry_timestamp e)"
    "\<forall>d\<in>memtable_set mt. \<not> float_nan (entry_timestamp d)"
  shows "memtable_set (memtable_write e mt) \<subseteq> insert e (memtable_set mt)"
    "covers (memtable_set (memtable_write e mt)) (insert e (memtable_set mt))"
proof -
  have key: "entry_key d = k" if "memtable_get mt k = Some d" for d k
    using memtable_get_key[OF assms(1) that] by simp
  show "memtable_set (memtable_write e mt) \<subseteq> insert e (memtable_set mt)"
    by (auto simp: memtable_set_def memtable_get_write newer_def split: if_splits option.splits)
  have new: "newer e (memtable_get mt (entry_key e)) \<in> memtable_set (memtable_write e mt)"
  proof -
    have "entry_key (newer e (memtable_get mt (entry_key e))) = entry_key e"
      using key by (auto simp: newer_def split: option.splits)
    then show ?thesis by (simp add: memtable_set_def memtable_get_write)
  qed
  have "\<exists>c\<in>memtable_set (memtable_write e mt). entry_key c = entry_key d
      \<and> float_key (entry_timestamp d) \<le> float_key (entry_timestamp c)"
    if d: "d \<in> insert e (memtable_set mt)" for d
  proof (cases "entry_key d = entry_key e")
    case False
    then have "d \<in> memtable_set (memtable_write e mt)" using d by (auto simp: memtable_set_def memtable_get_write)
    then show ?thesis by blast
  next
    case True
    have "d = e \<or> memtable_get mt (entry_key e) = Some d" using d True by (auto simp: memtable_set_def)
    moreover have "\<not> float_nan (entry_timestamp o')" if "memtable_get mt (entry_key e) = Some o'" for o'
      using assms(4) key[OF that] that by (simp add: memtable_set_def)
    ultimately have "float_key (entry_timestamp d)
        \<le> float_key (entry_timestamp (newer e (memtable_get mt (entry_key e))))"
      using assms(3) by (auto simp: newer_def float_lt_def split: option.splits)
    moreover have "entry_key (newer e (memtable_get mt (entry_key e))) = entry_key d"
      using key True by (auto simp: newer_def split: option.splits)
    ultimately show ?thesis using new by blast
  qed
  then show "covers (memtable_set (memtable_write e mt)) (insert e (memtable_set mt))"
    by (simp add: covers_def)
qed

section \<open>The storage invariant\<close>

definition wal_to_entry :: "WALEntry \<Rightarrow> MemTableEntry" where
  "wal_to_entry w =
     (case wal_type w of
        PUT \<Rightarrow> put_entry (wal_key w) (value_bytes (wal_value w)) (wal_time w)
      | DELETE \<Rightarrow> delete_entry (wal_key w) (wal_time w))"

text \<open>A file of the table directory that opens to a well-formed table over the writes \<open>W\<close>.\<close>

definition file_ok :: "bloom_env \<Rightarrow> MemTableEntry set \<Rightarrow> string \<Rightarrow> bytes \<Rightarrow> bool" where
  "file_ok env W name data \<longleftrightarrow> is_sst name \<and> (\<exists>t. sstable_open name (Some data) = Inr t
     \<and> table_ok env t \<and> file_path (metadata t) = name \<and> set (sstable_entries t) \<subseteq> W)"

definition on_disk :: "StorageEngine \<Rightarrow> SSTable \<Rightarrow> bool" where
  "on_disk s t \<longleftrightarrow> sstable_open (file_path (metadata t)) (dict_get (eng_files s) (file_path (metadata t))) = Inr t"

definition log_inv :: "MemTableEntry set \<Rightarrow> StorageEngine \<Rightarrow> bool" where
  "log_inv W s \<longleftrightarrow> (\<exists>es X. log_holds (eng_wal s) es X \<and> wal_to_entry ` (set es \<union> X) \<subseteq> W
     \<and> memtable_set (eng_memtable s) \<subseteq> wal_to_entry ` set es)"

definition files_inv :: "bloom_env \<Rightarrow> MemTableEntry set \<Rightarrow> StorageEngine \<Rightarrow> bool" where
  "files_inv env W s \<longleftrightarrow> dict_ok (eng_files s)
     \<and> (\<forall>(name, data)\<in>set (eng_files s). file_ok env W name data)"

definition tables_inv :: "bloom_env \<Rightarrow> StorageEngine \<Rightarrow> bool" where
  "tables_inv env s \<longleftrightarrow> distinct (map (file_path \<circ> metadata) (eng_sstables s))
     \<and> (\<forall>t\<in>set (eng_sstables s). table_ok env t \<and> on_disk s t)"

definition storage_inv :: "bloom_env \<Rightarrow> MemTableEntry set \<Rightarrow> StorageEngine \<Rightarrow> bool" where
  "storage_inv env W s \<longleftrightarrow> (\<forall>e\<in>W. good e) \<and> memtable_inv (eng_memtable s)
     \<and> log_inv W s \<and> files_inv env W s \<and> tables_inv env s"

lemma storage_invD:
  assumes "storage_inv env W s"
  shows "\<forall>e\<in>W. good e" "memtable_inv (eng_memtable s)" "log_inv W s" "files_inv env W s" "tables_inv env s"
  using assms by (simp_all add: storage_inv_def)

lemma memtable_set_good:
  "storage_inv env W s \<Longrightarrow> memtable_set (eng_memtable s) \<subseteq> W"
  unfolding storage_inv_def log_inv_def by blast

lemma files_inv_get:
  "files_inv env W s \<Longrightarrow> dict_get (eng_files s) n = Some data \<Longrightarrow> file_ok env W n data"
  unfolding files_inv_def by (auto dest: map_of_SomeD)

lemma tables_good:
  assumes "storage_inv env W s" "t \<in> set (eng_sstables s)"
  shows "table_ok env t" "set (sstable_entries t) \<subseteq> W"
proof -
  note inv = storage_invD[OF assms(1)]
  show ok: "table_ok env t" using inv(5) assms(2) by (simp add: tables_inv_def)
  have disk: "on_disk s t" using inv(5) assms(2) by (simp add: tables_inv_def)
  then obtain data where data: "dict_get (eng_files s) (file_path (metadata t)) = Some data"
    by (cases "dict_get (eng_files s) (file_path (metadata t))") (auto simp: on_disk_def sstable_open_def)
  from files_inv_get[OF inv(4) data] disk data show "set (sstable_entries t) \<subseteq> W"
    by (auto simp: file_ok_def on_disk_def)
qed

lemma cands_subset: "storage_inv env W s \<Longrightarrow> cands s \<subseteq> W"
  using memtable_set_good tables_good(2) by (fastforce simp: cands_def)

section \<open>Reading\<close>

definition view :: "StorageEngine \<Rightarrow> SSTableEntry list list" where
  "view s = entries_sorted (eng_memtable s) # map sstable_entries (eng_sstables s)"

lemma find_key_memtable:
  assumes "memtable_inv mt"
  shows "find_key k (entries_sorted mt) = memtable_get mt k"
proof (cases "memtable_get mt k")
  case None
  then show ?thesis
    using set_entries_sorted[OF assms] by (auto simp: find_key_None)
next
  case (Some e)
  then have "entry_key e = k" using memtable_get_key[OF assms] by simp
  with Some show ?thesis
    using find_key_Some[OF entries_sorted_strict[OF assms]] set_entries_sorted[OF assms] by simp
qed

lemma view_tables_ok:
  assumes "storage_inv env W s"
  shows "tables_ok (view s)"
proof -
  note inv = storage_invD[OF assms]
  have "\<not> float_nan (entry_timestamp e)" if "e \<in> set (entries_sorted (eng_memtable s))" for e
  proof -
    have "e \<in> memtable_set (eng_memtable s)"
      using that set_entries_sorted[OF inv(2)] by (simp add: memtable_set_def)
    with memtable_set_good[OF assms] inv(1) show ?thesis by (auto simp: good_def)
  qed
  moreover have "sorted_wrt (<) (map entry_key (sstable_entries t))
      \<and> (\<forall>e\<in>set (sstable_entries t). \<not> float_nan (entry_timestamp e))"
    if "t \<in> set (eng_sstables s)" for t
    using tables_good(1)[OF assms that] table_ok_sorted by (auto simp: table_ok_def good_def)
  ultimately show ?thesis
    using entries_sorted_strict[OF inv(2)] by (auto simp: tables_ok_def view_def)
qed

lemma view_cands:
  assumes "storage_inv env W s"
  shows "(\<exists>j. (j, e) \<in> indexed (view s)) \<longleftrightarrow> e \<in> cands s"
proof -
  have "(\<exists>j. (j, e) \<in> indexed (view s)) \<longleftrightarrow> (\<exists>es\<in>set (view s). e \<in> set es)"
    by (simp add: indexed_def) (metis in_set_conv_nth)
  then show ?thesis
    using set_entries_sorted[OF storage_invD(2)[OF assms]]
    by (auto simp: view_def cands_def memtable_set_def)
qed

lemma engine_get_view:
  assumes "storage_inv env W s" "length k \<le> 256"
  shows "engine_get env k s = Inr (map_option (\<lambda>e. as_result e True) (newest_of (view s) k))"
proof -
  have "\<forall>t\<in>set (eng_sstables s). table_ok env t" using tables_good(1)[OF assms(1)] by blast
  from get_loop_ok[OF this, of k] show ?thesis
    using assms(2) find_key_memtable[OF storage_invD(2)[OF assms(1)]]
    by (simp add: engine_get_def validate_key_def MAX_KEY_SIZE_BYTES_def newest_of_def view_def pick_newer_def
        split: option.splits)
qed

text \<open>The entry a read returns is the newest candidate.\<close>

lemma newest_of_view:
  assumes "storage_inv env W s"
  shows "case newest_of (view s) k of
      None \<Rightarrow> \<forall>c\<in>cands s. entry_key c \<noteq> k
    | Some e \<Rightarrow> e \<in> cands s \<and> entry_key e = k
        \<and> (\<forall>c\<in>cands s. entry_key c = k \<longrightarrow> float_key (entry_timestamp c) \<le> float_key (entry_timestamp e))"
proof (cases "newest_of (view s) k")
  case None
  then show ?thesis
    using newest_of_spec[OF view_tables_ok[OF assms], of k] view_cands[OF assms] by fastforce
next
  case (Some e)
  then have "entry_key e = k" "wins (indexed (view s)) e"
    using newest_of_spec[OF view_tables_ok[OF assms], of k] by simp_all
  then obtain i where i: "(i, e) \<in> indexed (view s)"
    "\<forall>(j, c)\<in>indexed (view s). entry_key c = k \<longrightarrow> entry_rank i e \<le> entry_rank j c"
    by (auto simp: wins_def)
  have "float_key (entry_timestamp c) \<le> float_key (entry_timestamp e)"
    if c: "c \<in> cands s" and kc: "entry_key c = k" for c
  proof -
    obtain j where "(j, c) \<in> indexed (view s)" using c view_cands[OF assms, of c] by blast
    with i(2) kc have "entry_rank i e \<le> entry_rank j c" by blast
    then show ?thesis using kc \<open>entry_key e = k\<close> by (auto simp: entry_rank_def)
  qed
  moreover have "e \<in> cands s" using i(1) view_cands[OF assms, of e] by blast
  ultimately show ?thesis using Some \<open>entry_key e = k\<close> by simp
qed

section \<open>Flush and compaction\<close>

text \<open>A file name that is not in the directory.\<close>

definition fresh :: "string \<Rightarrow> StorageEngine \<Rightarrow> bool" where
  "fresh name s \<longleftrightarrow> name \<notin> fst ` set (eng_files s)"

lemma fresh_get: "fresh name s \<longleftrightarrow> dict_get (eng_files s) name = None"
  unfolding fresh_def using dict_get_dom[of "eng_files s" name] by (cases "dict_get (eng_files s) name") auto

lemma is_sst_name: "is_sst (sstable_name lvl uuid)"
  by (simp add: is_sst_def sstable_name_def)

lemma file_ok_mono: "file_ok env W n data \<Longrightarrow> W \<subseteq> W' \<Longrightarrow> file_ok env W' n data"
  unfolding file_ok_def by blast

lemma files_inv_set:
  assumes "files_inv env W s" "file_ok env W name data"
  shows "files_inv env W (s\<lparr>eng_files := dict_set name data (eng_files s)\<rparr>)"
  using assms set_dict_set[of name data "eng_files s"] by (fastforce simp: files_inv_def)

lemma on_disk_set:
  assumes "on_disk s t" "fresh name s"
  shows "on_disk (s\<lparr>eng_files := dict_set name data (eng_files s)\<rparr>) t"
proof -
  have "file_path (metadata t) \<noteq> name"
    using assms by (auto simp: on_disk_def fresh_get sstable_open_def)
  then show ?thesis using assms(1) by (simp add: on_disk_def dict_simps)
qed

lemma tables_inv_set:
  assumes "tables_inv env s" "fresh name s"
  shows "tables_inv env (s\<lparr>eng_files := dict_set name data (eng_files s)\<rparr>)"
  using assms on_disk_set[OF _ assms(2)] by (auto simp: tables_inv_def)

lemma storage_inv_publish:
  assumes "storage_inv env W s" "file_ok env W name data" "fresh name s"
  shows "storage_inv env W (s\<lparr>eng_files := dict_set name data (eng_files s)\<rparr>)"
  using assms files_inv_set tables_inv_set by (auto simp: storage_inv_def log_inv_def)

lemma cands_publish [simp]: "cands (s\<lparr>eng_files := f\<rparr>) = cands s"
  by (simp add: cands_def)

lemma set_insert_by_creation: "set (insert_by_creation t ts) = insert t (set ts)"
  by (induction ts) auto

lemma distinct_insert_by_creation:
  "distinct (map f (insert_by_creation t ts)) \<longleftrightarrow> distinct (map f (t # ts))"
  by (induction ts) (auto simp: set_insert_by_creation)

lemma retire_get:
  "dict_get (retire unlink ts files) n
   = (if \<exists>t\<in>set ts. file_path (metadata t) = n \<and> unlink n then None else dict_get files n)"
  by (induction ts arbitrary: files) (auto simp: dict_simps)

lemma retire_subset: "set (retire unlink ts files) \<subseteq> set files"
proof (induction ts arbitrary: files)
  case (Cons t ts)
  have "set (dict_del n files) \<subseteq> set files" for n by (auto simp: AList.delete_eq)
  with Cons show ?case by (auto split: if_splits)
qed simp

lemma retire_ok: "dict_ok files \<Longrightarrow> dict_ok (retire unlink ts files)"
  by (induction ts arbitrary: files) simp_all

text \<open>The merged entries of some tables of the engine, and what they cover.\<close>

lemma merged_writable:
  assumes inv: "storage_inv env W s" and sub: "set ts \<subseteq> set (eng_sstables s)"
    and m: "m = fst (k_way_merge never_expired ts)" "m \<noteq> []"
  shows "writable m" "set m \<subseteq> W" "covers (set m) (\<Union>t\<in>set ts. set (sstable_entries t))"
proof -
  let ?ess = "map sstable_entries ts"
  have ok: "tables_ok ?ess"
    using tables_good(1)[OF inv] sub table_ok_sorted
    by (fastforce simp: tables_ok_def table_ok_def good_def)
  note merge = merge_newest[OF ok, where expired = never_expired, folded k_way_merge_def, folded m(1)]
  have kept: "kept never_expired e" for e by (simp add: kept_def never_expired_def)
  have find: "find_key k m = newest_of ?ess k" for k
    using merge(2)[where k = k] kept by (simp split: option.splits)
  have from_tables: "e \<in> (\<Union>t\<in>set ts. set (sstable_entries t))" if "e \<in> set m" for e
  proof -
    have "find_key (entry_key e) m = Some e" using that find_key_Some[OF merge(1)] by simp
    then have "wins (indexed ?ess) e" using find newest_of_wins[OF ok] by simp
    then show ?thesis by (auto simp: wins_def indexed_def)
  qed
  then show W: "set m \<subseteq> W" using tables_good(2)[OF inv] sub by blast
  have "good e" if "e \<in> set m" for e using W that storage_invD(1)[OF inv] by blast
  then show "writable m" using merge(1) m(2) by (simp add: writable_def good_def)
  show "covers (set m) (\<Union>t\<in>set ts. set (sstable_entries t))"
    unfolding covers_def
  proof
    fix d assume "d \<in> (\<Union>t\<in>set ts. set (sstable_entries t))"
    then obtain t where t: "t \<in> set ts" "d \<in> set (sstable_entries t)" by blast
    then obtain j where "j < length ts" "ts ! j = t" by (metis in_set_conv_nth)
    with t(2) have j: "(j, d) \<in> indexed ?ess" by (simp add: indexed_def)
    show "\<exists>c\<in>set m. entry_key c = entry_key d \<and> float_key (entry_timestamp d) \<le> float_key (entry_timestamp c)"
    proof (cases "newest_of ?ess (entry_key d)")
      case None
      then show ?thesis using newest_of_spec[OF ok, of "entry_key d"] j by auto
    next
      case (Some c)
      then have c: "entry_key c = entry_key d" "wins (indexed ?ess) c"
        using newest_of_spec[OF ok, of "entry_key d"] by simp_all
      then obtain i where "entry_rank i c \<le> entry_rank j d" using j by (auto simp: wins_def)
      then have "float_key (entry_timestamp d) \<le> float_key (entry_timestamp c)"
        using c(1) by (auto simp: entry_rank_def)
      moreover have "c \<in> set m" using find Some find_key_Some[OF merge(1)] by simp
      ultimately show ?thesis using c(1) by blast
    qed
  qed
qed

lemma pick_level_sub: "set (at_level lvl ts) \<subseteq> set ts"
  by (auto simp: at_level_def)

lemma maybe_compact_Some:
  assumes inv: "storage_inv env W s"
    and mc: "maybe_compact env never_expired th uuid now (eng_sstables s) = Inr (Some (name, data, opened))"
  obtains lvl t stats where "name = sstable_name (lvl + 1) uuid" "opened = Inr (t, stats)"
    "file_ok env W name data" "sstable_open name (Some data) = Inr t" "table_ok env t"
    "file_path (metadata t) = name" "level (metadata t) = lvl + 1"
    "covers (set (sstable_entries t)) (\<Union>u\<in>set (at_level lvl (eng_sstables s)). set (sstable_entries u))"
proof -
  from mc obtain lvl where lvl: "compact env never_expired uuid now (at_level lvl (eng_sstables s)) lvl
      = Inr (name, data, opened)"
    by (auto simp: maybe_compact_def result_simps split: option.splits)
  let ?ts = "at_level lvl (eng_sstables s)"
  define m where "m = fst (k_way_merge never_expired ?ts)"
  define removed where "removed = snd (k_way_merge never_expired ?ts)"
  have pair: "k_way_merge never_expired ?ts = (m, removed)" by (simp add: m_def removed_def)
  from lvl have name: "name = sstable_name (lvl + 1) uuid" and ne: "m \<noteq> []"
    and build: "build_file env m (lvl + 1) now = Inr data"
    and opn: "\<exists>stats. \<forall>t. sstable_open name (Some data) = Inr t \<longrightarrow> opened = Inr (t, stats t)"
    by (auto simp: compact_def pair create_sstable_from_entries_def result_simps Let_def split: if_splits)
  note w = merged_writable[OF inv pick_level_sub m_def ne]
  have "\<forall>e\<in>set m. good e" using w(2) storage_invD(1)[OF inv] by blast
  from writable_opens[OF w(1) this build, of name] obtain t where
    t: "sstable_open name (Some data) = Inr t" "table_ok env t" "sstable_entries t = m"
      "level (metadata t) = lvl + 1" "file_path (metadata t) = name" .
  from opn t(1) obtain stats where "opened = Inr (t, stats)" by blast
  moreover have "file_ok env W name data"
    using t w(2) is_sst_name by (auto simp: file_ok_def name)
  ultimately show thesis using that name t w(3) by simp
qed

lemma replace_inv:
  fixes unlink :: "string \<Rightarrow> bool"
  assumes inv: "storage_inv env W s" and t: "on_disk s t" "table_ok env t" "level (metadata t) = lvl + 1"
    and new: "file_path (metadata t) \<notin> (file_path \<circ> metadata) ` set (eng_sstables s)"
    and cov: "covers (set (sstable_entries t)) (\<Union>u\<in>set (at_level lvl (eng_sstables s)). set (sstable_entries u))"
  defines "s' \<equiv> replace_compacted_sstables unlink t s"
  shows "storage_inv env W s'" "covers (cands s') (cands s)"
proof -
  note i = storage_invD[OF inv]
  let ?old = "at_level lvl (eng_sstables s)"
  let ?rest = "filter (\<lambda>u. level (metadata u) \<noteq> lvl) (eng_sstables s)"
  have s': "s' = s\<lparr>eng_sstables := insert_by_creation t ?rest, eng_files := retire unlink ?old (eng_files s)\<rparr>"
    by (simp add: s'_def replace_compacted_sstables_def t(3) at_level_def Let_def)
  have tabs: "set (eng_sstables s') = insert t (set ?rest)" by (simp add: s' set_insert_by_creation)
  have dist: "distinct (map (file_path \<circ> metadata) (eng_sstables s))" using i(5) by (simp add: tables_inv_def)
  have keep: "on_disk s' u" if u: "on_disk s u" "file_path (metadata u) \<notin> (file_path \<circ> metadata) ` set ?old" for u
  proof -
    have "\<forall>v\<in>set ?old. file_path (metadata v) \<noteq> file_path (metadata u)"
      using u(2) unfolding image_iff comp_def by metis
    then show ?thesis using u(1) by (auto simp: on_disk_def s' retire_get)
  qed
  have "on_disk s' u" if u: "u \<in> set ?rest" for u
  proof (rule keep)
    show "on_disk s u" using u i(5) by (simp add: tables_inv_def)
    show "file_path (metadata u) \<notin> (file_path \<circ> metadata) ` set ?old"
    proof
      assume "file_path (metadata u) \<in> (file_path \<circ> metadata) ` set ?old"
      then obtain v where v: "v \<in> set ?old" "file_path (metadata v) = file_path (metadata u)" by auto
      moreover have "inj_on (file_path \<circ> metadata) (set (eng_sstables s))" using dist by (simp add: distinct_map)
      ultimately have "u = v" using u by (auto simp: at_level_def inj_on_def)
      with u v show False by (simp add: at_level_def)
    qed
  qed
  moreover have "on_disk s' t" using keep t(1) new by (auto simp: at_level_def)
  moreover have "distinct (map (file_path \<circ> metadata) (eng_sstables s'))"
    unfolding s' using new dist by (simp add: distinct_insert_by_creation distinct_map_filter) auto
  moreover have "table_ok env u" if "u \<in> set ?rest" for u using that i(5) by (simp add: tables_inv_def)
  ultimately have "tables_inv env s'" unfolding tables_inv_def tabs using t(2) by blast
  moreover have "files_inv env W s'"
    using i(4) retire_ok retire_subset[of unlink ?old "eng_files s"] by (fastforce simp: files_inv_def s')
  moreover have "log_inv W s'" "memtable_inv (eng_memtable s')" using i(2,3) by (simp_all add: log_inv_def s')
  ultimately show "storage_inv env W s'" using i(1) by (simp add: storage_inv_def)
  have "cands s = memtable_set (eng_memtable s) \<union> (\<Union>u\<in>set ?rest. set (sstable_entries u))
      \<union> (\<Union>u\<in>set ?old. set (sstable_entries u))"
    by (auto simp: cands_def at_level_def)
  moreover have c': "cands s' = memtable_set (eng_memtable s) \<union> (\<Union>u\<in>set ?rest. set (sstable_entries u))
      \<union> set (sstable_entries t)"
    unfolding cands_def tabs by (auto simp: s')
  moreover have "covers (cands s') (\<Union>u\<in>set ?old. set (sstable_entries u))"
    using cov by (rule covers_mono) (auto simp: c')
  moreover have "covers (cands s') (memtable_set (eng_memtable s) \<union> (\<Union>u\<in>set ?rest. set (sstable_entries u)))"
    by (rule covers_refl) (auto simp: c')
  ultimately show "covers (cands s') (cands s)" by (simp only: covers_Un simp_thms)
qed

lemma compact_tables_inv:
  assumes inv: "storage_inv env W s" and ct: "compact_tables env oe s = (s', r)"
    and fresh: "\<forall>lvl. fresh (sstable_name lvl (compact_uuid oe)) s"
  shows "storage_inv env W s' \<and> covers (cands s') (cands s)"
proof (cases "maybe_compact env never_expired (compaction_threshold (eng_config s)) (compact_uuid oe)
    (compact_time oe) (eng_sstables s)")
  case (Inl x)
  then show ?thesis using inv ct by (simp add: compact_tables_def)
next
  case (Inr res)
  show ?thesis
  proof (cases "res = None \<or> io_compact oe = NotPublished")
    case True
    then show ?thesis using Inr inv ct by (auto simp: compact_tables_def split: option.splits)
  next
    case False
    then obtain name data opened where res: "res = Some (name, data, opened)" by (cases res) auto
    from maybe_compact_Some[OF inv Inr[unfolded res]] obtain lvl t stats where
      m: "name = sstable_name (lvl + 1) (compact_uuid oe)" "opened = Inr (t, stats)" "file_ok env W name data"
        "sstable_open name (Some data) = Inr t" "table_ok env t" "file_path (metadata t) = name"
        "level (metadata t) = lvl + 1"
        "covers (set (sstable_entries t)) (\<Union>u\<in>set (at_level lvl (eng_sstables s)). set (sstable_entries u))" .
    let ?s1 = "s\<lparr>eng_files := dict_set name data (eng_files s)\<rparr>"
    have f: "fresh name s" using fresh m(1) by simp
    have inv1: "storage_inv env W ?s1" using storage_inv_publish[OF inv m(3) f] .
    have "name \<notin> (file_path \<circ> metadata) ` set (eng_sstables s)"
      using f storage_invD(5)[OF inv] by (auto simp: tables_inv_def on_disk_def fresh_get sstable_open_def)
    moreover have "on_disk ?s1 t" using m(4,6) by (simp add: on_disk_def dict_simps)
    ultimately have rep: "storage_inv env W (replace_compacted_sstables (io_unlink oe) t ?s1)"
      "covers (cands (replace_compacted_sstables (io_unlink oe) t ?s1)) (cands s)"
      using replace_inv[OF inv1 _ m(5,7)] m(6,8) by simp_all
    have "s' = ?s1 \<or> s' = replace_compacted_sstables (io_unlink oe) t ?s1"
      using ct Inr res m(2) False by (auto simp: compact_tables_def Let_def split: if_splits)
    then show ?thesis using inv1 rep by auto
  qed
qed

lemma memtable_set_sorted:
  "memtable_inv mt \<Longrightarrow> set (entries_sorted mt) = memtable_set mt"
  using set_entries_sorted by (auto simp: memtable_set_def)

lemma memtable_set_clear [simp]: "memtable_set (memtable_clear mt) = {}"
  by (simp add: memtable_set_def memtable_clear_def memtable_get_def)

lemma storage_inv_flushed:
  assumes inv: "storage_inv env W s" and t: "table_ok env t" "on_disk s t"
    and new: "file_path (metadata t) \<notin> (file_path \<circ> metadata) ` set (eng_sstables s)"
    and tr: "wal_truncate out (eng_wal s) = (w, r)"
  shows "storage_inv env W (s\<lparr>eng_sstables := t # eng_sstables s,
      eng_memtable := memtable_clear (eng_memtable s), eng_wal := w\<rparr>)"
proof -
  note i = storage_invD[OF inv]
  obtain es X where log: "log_holds (eng_wal s) es X" "wal_to_entry ` (set es \<union> X) \<subseteq> W"
    using i(3) by (auto simp: log_inv_def)
  from log_holds_truncate[OF log(1) tr]
  have "log_holds w (if wal_file w = wal_file (eng_wal s) then es else []) X" .
  moreover have "wal_to_entry ` (set (if wal_file w = wal_file (eng_wal s) then es else []) \<union> X) \<subseteq> W"
    using log(2) by auto
  ultimately have "\<exists>es' X. log_holds w es' X \<and> wal_to_entry ` (set es' \<union> X) \<subseteq> W" by blast
  then show ?thesis
    using i t new by (auto simp: storage_inv_def log_inv_def files_inv_def tables_inv_def on_disk_def)
qed

lemma flush_memtable_inv:
  assumes inv: "storage_inv env W s" and fl: "flush_memtable env oe s = (s', r)"
    and f0: "fresh (sstable_name 0 (flush_uuid oe)) s"
    and f1: "\<forall>lvl. fresh (sstable_name lvl (compact_uuid oe)) s
      \<and> sstable_name lvl (compact_uuid oe) \<noteq> sstable_name 0 (flush_uuid oe)"
  shows "storage_inv env W s' \<and> covers (cands s') (cands s)"
proof (cases "memtable_len (eng_memtable s) = 0")
  case True
  then show ?thesis using fl inv by (simp add: flush_memtable_def)
next
  case False
  let ?es = "entries_sorted (eng_memtable s)" and ?name = "sstable_name 0 (flush_uuid oe)"
  note i = storage_invD[OF inv]
  have ne: "?es \<noteq> []" using False by (metis length_0_conv length_entries_sorted)
  show ?thesis
  proof (cases "build_file env ?es 0 (flush_time oe)")
    case (Inl x)
    then show ?thesis
      using fl inv False ne by (simp add: flush_memtable_def create_from_memtable_def Let_def)
  next
    case (Inr data)
    have sub: "set ?es \<subseteq> W" using memtable_set_sorted[OF i(2)] memtable_set_good[OF inv] by simp
    then have good: "\<forall>e\<in>set ?es. good e" using i(1) by blast
    then have "writable ?es"
      using ne entries_sorted_strict[OF i(2)] by (simp add: writable_def good_def)
    from writable_opens[OF this good Inr, of ?name] obtain t where
      t: "sstable_open ?name (Some data) = Inr t" "table_ok env t" "sstable_entries t = ?es"
        "file_path (metadata t) = ?name" .
    let ?s1 = "s\<lparr>eng_files := dict_set ?name data (eng_files s)\<rparr>"
    have fok: "file_ok env W ?name data" using t sub is_sst_name by (auto simp: file_ok_def)
    have inv1: "storage_inv env W ?s1" using storage_inv_publish[OF inv fok f0] .
    have run: "flush_memtable env oe s = (if io_flush oe = NotPublished then (s, Inl OSError)
        else if io_flush oe = NotSynced then (?s1, Inl OSError)
        else let (w, r) = wal_truncate (io_truncate oe) (eng_wal ?s1) in
          then_do (?s1\<lparr>eng_sstables := t # eng_sstables ?s1, eng_memtable := memtable_clear (eng_memtable ?s1),
            eng_wal := w\<rparr>, r) (\<lambda>s3 _. compact_tables env oe s3))"
      using ne Inr t(1) False by (simp add: flush_memtable_def create_from_memtable_def Let_def)
    show ?thesis
    proof (cases "io_flush oe")
      case NotPublished
      then show ?thesis using fl run inv by simp
    next
      case NotSynced
      then show ?thesis using fl run inv1 by auto
    next
      case Published
      obtain w r' where tr: "wal_truncate (io_truncate oe) (eng_wal ?s1) = (w, r')" by fastforce
      define s2 where "s2 = ?s1\<lparr>eng_sstables := t # eng_sstables ?s1,
        eng_memtable := memtable_clear (eng_memtable ?s1), eng_wal := w\<rparr>"
      have s': "then_do (s2, r') (\<lambda>s3 _. compact_tables env oe s3) = (s', r)"
        using fl Published tr unfolding run s2_def by simp
      have "?name \<notin> (file_path \<circ> metadata) ` set (eng_sstables s)"
        using f0 i(5) by (auto simp: tables_inv_def on_disk_def fresh_get sstable_open_def)
      moreover have "on_disk ?s1 t" using t(1,4) by (simp add: on_disk_def dict_simps)
      ultimately have inv2: "storage_inv env W s2"
        unfolding s2_def using storage_inv_flushed[OF inv1 t(2) _ _ tr] t(4) by simp
      have "cands s \<subseteq> cands s2"
        using memtable_set_sorted[OF i(2)] t(3) by (auto simp: cands_def s2_def)
      then have cov: "covers (cands s2) (cands s)" by simp
      have fr: "\<forall>lvl. fresh (sstable_name lvl (compact_uuid oe)) s2"
        using f1 by (auto simp: fresh_get s2_def dict_simps)
      show ?thesis
      proof (cases r')
        case (Inl x)
        then show ?thesis using s' inv2 cov by simp
      next
        case (Inr u)
        then have "compact_tables env oe s2 = (s', r)" using s' by simp
        from compact_tables_inv[OF inv2 this fr] cov show ?thesis using covers_trans by blast
      qed
    qed
  qed
qed

section \<open>Writes\<close>

lemma wal_to_entry_seq [simp]: "wal_to_entry (w\<lparr>wal_seq := n\<rparr>) = wal_to_entry w"
  by (simp add: wal_to_entry_def split: WALEntryType.splits)

lemma log_inv_mono: "log_inv W s \<Longrightarrow> W \<subseteq> W' \<Longrightarrow> log_inv W' s"
  unfolding log_inv_def by blast

lemma storage_inv_mono:
  assumes "storage_inv env W s" "W \<subseteq> W'" "\<forall>e\<in>W'. good e"
  shows "storage_inv env W' s"
proof -
  have "files_inv env W' s"
    using storage_invD(4)[OF assms(1)] file_ok_mono[OF _ assms(2)] by (fastforce simp: files_inv_def)
  then show ?thesis using assms log_inv_mono[OF _ assms(2)] by (simp add: storage_inv_def)
qed

text \<open>The names a call may create are not in use.\<close>

definition fresh_names :: "io_env \<Rightarrow> StorageEngine \<Rightarrow> bool" where
  "fresh_names oe s \<longleftrightarrow> fresh (sstable_name 0 (flush_uuid oe)) s
     \<and> (\<forall>lvl. fresh (sstable_name lvl (compact_uuid oe)) s
          \<and> sstable_name lvl (compact_uuid oe) \<noteq> sstable_name 0 (flush_uuid oe))"

lemma log_and_apply_inv:
  assumes inv: "storage_inv env W s" and e: "good e" "wal_to_entry w = e" "utf8_ok (wal_key w)"
    and fr: "fresh_names oe s"
    and la: "log_and_apply env oe w (memtable_write e) s = (s', r)"
  shows "storage_inv env (insert e W) s'" "covers (cands s') (cands s)"
    "r = Inr () \<Longrightarrow> covers (cands s') {e}"
proof -
  note i = storage_invD[OF inv]
  obtain w1 r1 where ap: "wal_append (io_append oe) w (eng_wal s) = (w1, r1)" by fastforce
  from i(3) obtain es X where log: "log_holds (eng_wal s) es X" "wal_to_entry ` (set es \<union> X) \<subseteq> W"
    "memtable_set (eng_memtable s) \<subseteq> wal_to_entry ` set es" by (auto simp: log_inv_def)
  let ?w = "w\<lparr>wal_seq := wal_sequence w1\<rparr>" and ?s1 = "s\<lparr>eng_wal := w1\<rparr>"
  from log_holds_append[OF log(1) e(3) ap]
  have hold: "log_holds w1 (case r1 of Inr _ \<Rightarrow> es @ [?w] | Inl _ \<Rightarrow> es) (insert ?w X)" .
  have W: "\<forall>d\<in>insert e W. good d" using i(1) e(1) by simp
  have inv': "storage_inv env (insert e W) s" using storage_inv_mono[OF inv _ W] by blast
  note i' = storage_invD[OF inv']
  have "storage_inv env (insert e W) s' \<and> covers (cands s') (cands s) \<and> (r = Inr () \<longrightarrow> covers (cands s') {e})"
  proof (cases r1)
    case (Inl x)
    then have s': "s' = ?s1" "r = Inl x" using la ap by (simp_all add: log_and_apply_def)
    have "wal_to_entry ` (set es \<union> insert ?w X) \<subseteq> insert e W" using log(2) e(2) by auto
    moreover have "log_holds (eng_wal ?s1) es (insert ?w X)" using hold Inl by simp
    moreover have "memtable_set (eng_memtable ?s1) \<subseteq> wal_to_entry ` set es" using log(3) by simp
    ultimately have "log_inv (insert e W) ?s1" unfolding log_inv_def by blast
    then have "storage_inv env (insert e W) ?s1"
      using i' by (simp add: storage_inv_def files_inv_def tables_inv_def on_disk_def)
    then show ?thesis by (simp add: s' cands_def)
  next
    case (Inr u)
    let ?s2 = "s\<lparr>eng_wal := w1, eng_memtable := memtable_write e (eng_memtable s)\<rparr>"
    have nan: "\<forall>d\<in>memtable_set (eng_memtable s). \<not> float_nan (entry_timestamp d)"
      using memtable_set_good[OF inv] i(1) by (auto simp: good_def)
    have ok: "entry_ok e" "\<not> float_nan (entry_timestamp e)" using e(1) by (simp_all add: good_def)
    note mw = memtable_set_write[OF i(2) ok nan]
    have "wal_to_entry ` (set (es @ [?w]) \<union> insert ?w X) \<subseteq> insert e W" using log(2) e(2) by auto
    moreover have "memtable_set (eng_memtable ?s2) \<subseteq> wal_to_entry ` set (es @ [?w])"
      using mw(1) log(3) e(2) by auto
    moreover have "log_holds (eng_wal ?s2) (es @ [?w]) (insert ?w X)" using hold Inr by simp
    ultimately have "log_inv (insert e W) ?s2" unfolding log_inv_def by blast
    then have inv2: "storage_inv env (insert e W) ?s2"
      using i' memtable_inv_write[OF i(2) ok(1)]
      by (simp add: storage_inv_def files_inv_def tables_inv_def on_disk_def)
    have cov: "covers (cands ?s2) (insert e (cands s))"
    proof -
      have "insert e (cands s) = insert e (memtable_set (eng_memtable s))
          \<union> (\<Union>t\<in>set (eng_sstables s). set (sstable_entries t))"
        by (auto simp: cands_def)
      moreover have "covers (cands ?s2) (insert e (memtable_set (eng_memtable s)))"
        using mw(2) by (rule covers_mono) (auto simp: cands_def)
      moreover have "covers (cands ?s2) (\<Union>t\<in>set (eng_sstables s). set (sstable_entries t))"
        by (rule covers_refl) (auto simp: cands_def)
      ultimately show ?thesis by (simp only: covers_Un simp_thms)
    qed
    have fr2: "fresh (sstable_name 0 (flush_uuid oe)) ?s2"
      "\<forall>lvl. fresh (sstable_name lvl (compact_uuid oe)) ?s2
        \<and> sstable_name lvl (compact_uuid oe) \<noteq> sstable_name 0 (flush_uuid oe)"
      using fr by (simp_all add: fresh_names_def fresh_def)
    have "storage_inv env (insert e W) s' \<and> covers (cands s') (cands ?s2)"
    proof (cases "is_full (eng_memtable ?s2)")
      case True
      then have "flush_memtable env oe ?s2 = (s', r)"
        using la ap Inr by (simp add: log_and_apply_def Let_def)
      from flush_memtable_inv[OF inv2 this fr2] show ?thesis .
    next
      case False
      then show ?thesis using la ap Inr inv2 by (simp add: log_and_apply_def Let_def)
    qed
    moreover from this have all: "covers (cands s') (insert e (cands s))" using covers_trans[OF _ cov] by blast
    moreover have "covers (cands s') (cands s)" "covers (cands s') {e}"
      by (rule covers_mono[OF all]; blast)+
    ultimately show ?thesis by blast
  qed
  then show "storage_inv env (insert e W) s'" "covers (cands s') (cands s)" "r = Inr () \<Longrightarrow> covers (cands s') {e}"
    by blast+
qed

end
