(* ===== verification/KV_Store_Theorems.thy ===== *)
theory KV_Store_Theorems
  imports KV_Engine_Laws
begin

text \<open>
  Restart of the storage engine, its runs, and the properties of the key-value store's storage layer.
\<close>

section \<open>Restart\<close>

lemma wal_to_entry_norm [simp]: "wal_to_entry (wal_norm w) = wal_to_entry w"
  by (simp add: wal_to_entry_def wal_norm_def value_bytes_def split: WALEntryType.splits)

lemma replay_entry_write: "replay_entry e mt = memtable_write (wal_to_entry e) mt"
  by (simp add: replay_entry_def wal_to_entry_def memtable_put_def memtable_delete_def put_entry_def
      delete_entry_def split: WALEntryType.splits)

lemma replay_fold:
  assumes "memtable_inv mt" "\<forall>w\<in>set es. good (wal_to_entry w)" "\<forall>d\<in>memtable_set mt. good d"
  shows "memtable_inv (fold replay_entry es mt)
    \<and> memtable_set (fold replay_entry es mt) \<subseteq> memtable_set mt \<union> wal_to_entry ` set es
    \<and> covers (memtable_set (fold replay_entry es mt)) (memtable_set mt \<union> wal_to_entry ` set es)"
  using assms
proof (induction es arbitrary: mt)
  case (Cons w es)
  let ?e = "wal_to_entry w" and ?mt = "replay_entry w mt"
  have ok: "entry_ok ?e" "\<not> float_nan (entry_timestamp ?e)"
    and nan: "\<forall>d\<in>memtable_set mt. \<not> float_nan (entry_timestamp d)"
    using Cons.prems by (auto simp: good_def)
  note mw = memtable_set_write[OF Cons.prems(1) ok nan, folded replay_entry_write]
  have "memtable_inv ?mt" using memtable_inv_write[OF Cons.prems(1) ok(1)] by (simp add: replay_entry_write)
  moreover have "\<forall>d\<in>memtable_set ?mt. good d" using mw(1) Cons.prems by auto
  ultimately have ih: "memtable_inv (fold replay_entry es ?mt)"
    "memtable_set (fold replay_entry es ?mt) \<subseteq> memtable_set ?mt \<union> wal_to_entry ` set es"
    "covers (memtable_set (fold replay_entry es ?mt)) (memtable_set ?mt \<union> wal_to_entry ` set es)"
    using Cons.IH[of ?mt] Cons.prems(2) by simp_all
  have "covers (memtable_set (fold replay_entry es ?mt)) (insert ?e (memtable_set mt))"
    using ih(3) mw(2) covers_trans by (simp only: covers_Un) blast
  then have "covers (memtable_set (fold replay_entry es ?mt)) (insert ?e (memtable_set mt) \<union> wal_to_entry ` set es)"
    using ih(3) by (simp only: covers_Un simp_thms)
  moreover have "insert ?e (memtable_set mt) \<union> wal_to_entry ` set es = memtable_set mt \<union> wal_to_entry ` set (w # es)"
    by auto
  moreover have "memtable_set (fold replay_entry es ?mt) \<subseteq> memtable_set mt \<union> wal_to_entry ` set (w # es)"
    using ih(2) mw(1) by auto
  ultimately show ?case using ih(1) by simp
qed simp

lemma load_sstables_ok:
  assumes "files_inv env W s"
  shows "\<exists>ts. load_sstables (eng_files s) = Inr ts
    \<and> distinct (map (file_path \<circ> metadata) ts)
    \<and> (\<forall>t\<in>set ts. table_ok env t \<and> set (sstable_entries t) \<subseteq> W \<and> on_disk s t)
    \<and> (\<forall>t. on_disk s t \<longrightarrow> t \<in> set ts)"
proof -
  let ?files = "eng_files s"
  define tab where "tab = (\<lambda>(n, data). projr (sstable_open n (Some data)))"
  have fl: "is_sst n" "sstable_open n (Some data) = Inr (tab (n, data))" "table_ok env (tab (n, data))"
    "file_path (metadata (tab (n, data))) = n" "set (sstable_entries (tab (n, data))) \<subseteq> W"
    if "(n, data) \<in> set ?files" for n data
  proof -
    have "file_ok env W n data" using assms that by (auto simp: files_inv_def)
    then show "is_sst n" "sstable_open n (Some data) = Inr (tab (n, data))" "table_ok env (tab (n, data))"
      "file_path (metadata (tab (n, data))) = n" "set (sstable_entries (tab (n, data))) \<subseteq> W"
      by (auto simp: file_ok_def tab_def)
  qed
  have filt: "filter (\<lambda>(n, _). is_sst n) ?files = ?files"
    using fl(1) by (auto intro: filter_True)
  have "load_sstables ?files
      = Inr (sort_key (\<lambda>t. - float_key (created_at (metadata t))) (map tab ?files))"
    unfolding load_sstables_def filt
    by (subst traverse_total[where g = tab]) (use fl(2) in auto)
  then have load: "load_sstables ?files = Inr (sort_key (\<lambda>t. - float_key (created_at (metadata t))) (map tab ?files))"
    (is "_ = Inr ?ts") .
  have names: "map (file_path \<circ> metadata) (map tab ?files) = map fst ?files" using fl(4) by auto
  have ok: "dict_ok ?files" using assms by (simp add: files_inv_def)
  have "distinct (map (file_path \<circ> metadata) (map tab ?files))" unfolding names using ok by (simp add: dict_ok_def)
  then have "distinct (map (file_path \<circ> metadata) ?ts)"
    unfolding distinct_map[of _ "map tab ?files"] distinct_map[of _ ?ts] distinct_sort set_sort .
  moreover have "table_ok env t \<and> set (sstable_entries t) \<subseteq> W \<and> on_disk s t" if "t \<in> set ?ts" for t
  proof -
    from that obtain n data where nd: "(n, data) \<in> set ?files" "t = tab (n, data)" by auto
    then have "dict_get ?files n = Some data" using ok by (simp add: dict_get_mem)
    with nd fl[OF nd(1)] show ?thesis by (simp add: on_disk_def)
  qed
  moreover have "t \<in> set ?ts" if "on_disk s t" for t
  proof -
    from that obtain data where "dict_get ?files (file_path (metadata t)) = Some data"
      "sstable_open (file_path (metadata t)) (Some data) = Inr t"
      by (cases "dict_get ?files (file_path (metadata t))") (auto simp: on_disk_def sstable_open_def)
    then have "tab (file_path (metadata t), data) = t" "(file_path (metadata t), data) \<in> set ?files"
      using map_of_SomeD by (auto simp: tab_def)
    then have "t \<in> tab ` set ?files" by (metis image_eqI)
    then show ?thesis by simp
  qed
  ultimately show ?thesis using load by blast
qed

lemma restart_inv:
  fixes cfg :: StorageConfig
  assumes inv: "storage_inv env W s"
  defines "s0 \<equiv> engine_init cfg (wal_file (eng_wal s)) (eng_files s)"
  shows "\<exists>s'. engine_start IoOk s0 = (s', Inr ()) \<and> eng_started s'
    \<and> storage_inv env W s' \<and> covers (cands s') (cands s)"
proof -
  note i = storage_invD[OF inv]
  from load_sstables_ok[OF i(4)] obtain ts where
    ts: "load_sstables (eng_files s) = Inr ts" "distinct (map (file_path \<circ> metadata) ts)"
      "\<forall>t\<in>set ts. table_ok env t \<and> set (sstable_entries t) \<subseteq> W \<and> on_disk s t" "\<forall>t. on_disk s t \<longrightarrow> t \<in> set ts"
    by blast
  from i(3) obtain es X where log: "log_holds (eng_wal s) es X" "wal_to_entry ` (set es \<union> X) \<subseteq> W"
    "memtable_set (eng_memtable s) \<subseteq> wal_to_entry ` set es" by (auto simp: log_inv_def)
  let ?w0 = "wal_init (wal_file (eng_wal s))"
  have "log_holds (?w0\<lparr>wal_fenced := True\<rparr>) es X"
    using log(1) by (auto simp: log_holds_def wal_init_def wal_contents_def)
  from wal_replay_holds[OF this] obtain w' extra where
    w': "set extra \<subseteq> X" "wal_replay IoOk ?w0 = (w', Inr (map wal_norm (es @ extra)))"
      "log_holds w' (map wal_norm (es @ extra)) X"
    using wal_replay_fence by blast
  let ?es = "map wal_norm (es @ extra)" and ?mt = "memtable_init (memtable_size_bytes cfg)"
  have img: "wal_to_entry ` set ?es = wal_to_entry ` set (es @ extra)"
    by (simp only: set_map image_image wal_to_entry_norm)
  have sub: "wal_to_entry ` (set ?es \<union> X) \<subseteq> W"
    using log(2) w'(1) unfolding image_Un img set_append by blast
  have mt0: "memtable_set ?mt = {}" by (simp add: memtable_set_def memtable_init_def memtable_get_def)
  have good: "\<forall>w\<in>set ?es. good (wal_to_entry w)" using sub i(1) by blast
  have rf: "memtable_inv (fold replay_entry ?es ?mt)"
    "memtable_set (fold replay_entry ?es ?mt) \<subseteq> wal_to_entry ` set ?es"
    "covers (memtable_set (fold replay_entry ?es ?mt)) (wal_to_entry ` set ?es)"
    using replay_fold[of ?mt ?es] good mt0 by simp_all
  define s' where "s' = s0\<lparr>eng_sstables := ts, eng_wal := w', eng_memtable := fold replay_entry ?es ?mt, eng_started := True\<rparr>"
  have start: "engine_start IoOk s0 = (s', Inr ())"
    using ts(1) w'(2) by (simp add: engine_start_def s0_def engine_init_def s'_def Let_def)
  have disk: "on_disk s' t = on_disk s t" for t by (simp add: on_disk_def s'_def s0_def engine_init_def)
  have "tables_inv env s'" using ts(2,3) disk by (simp add: tables_inv_def s'_def)
  moreover have "files_inv env W s'" using i(4) by (simp add: files_inv_def s'_def s0_def engine_init_def)
  moreover have "log_inv W s'" unfolding log_inv_def using w'(3) sub rf(2)
    by (intro exI[of _ ?es] exI[of _ X]) (simp add: s'_def)
  ultimately have inv': "storage_inv env W s'"
    using i(1) rf(1) by (simp add: storage_inv_def s'_def)
  have "memtable_set (eng_memtable s) \<subseteq> wal_to_entry ` set ?es" unfolding img using log(3) by auto
  then have "covers (cands s') (memtable_set (eng_memtable s))"
    by (rule covers_mono[OF rf(3), rotated]) (simp add: cands_def s'_def)
  moreover have "covers (cands s') (\<Union>t\<in>set (eng_sstables s). set (sstable_entries t))"
    by (rule covers_refl) (use i(5) ts(4) in \<open>auto simp: cands_def s'_def tables_inv_def\<close>)
  ultimately have "covers (cands s') (cands s)" unfolding cands_def[of s] by (simp only: covers_Un simp_thms)
  with start inv' show ?thesis by (intro exI[of _ s']) (simp add: s'_def)
qed

section \<open>Runs of the engine\<close>

text \<open>
  \<open>kv_run env s A U\<close>: the engine reached state \<open>s\<close>, having acknowledged the writes \<open>A\<close>, while the calls
  that raised after changing something were the writes \<open>U\<close>.  The outcome of every disk operation is
  arbitrary; file names are fresh, as the random identifiers in them are meant to be.  A restart
  keeps nothing but the log file and the table files.  The keys written are plain: not empty and
  without the byte 0, so that no key can spell a table footer (\<open>decoy_key_lost\<close> shows what happens otherwise).
\<close>

inductive kv_run :: "bloom_env \<Rightarrow> StorageEngine \<Rightarrow> MemTableEntry set \<Rightarrow> MemTableEntry set \<Rightarrow> bool" for env where
  boot: "engine_start IoOk (engine_init cfg None []) = (s, Inr ()) \<Longrightarrow> kv_run env s {} {}"
| put: "\<lbrakk>kv_run env s A U; plain_key k; fresh_names oe s; engine_put env oe k v ts s = (s', Inr ())\<rbrakk>
    \<Longrightarrow> kv_run env s' (insert (put_entry k v ts) A) U"
| put_raise: "\<lbrakk>kv_run env s A U; plain_key k; fresh_names oe s; engine_put env oe k v ts s = (s', Inl x)\<rbrakk>
    \<Longrightarrow> kv_run env s' A (if s' = s then U else insert (put_entry k v ts) U)"
| delete: "\<lbrakk>kv_run env s A U; plain_key k; fresh_names oe s; engine_delete env oe k ts s = (s', Inr ())\<rbrakk>
    \<Longrightarrow> kv_run env s' (insert (delete_entry k ts) A) U"
| delete_raise: "\<lbrakk>kv_run env s A U; plain_key k; fresh_names oe s; engine_delete env oe k ts s = (s', Inl x)\<rbrakk>
    \<Longrightarrow> kv_run env s' A (if s' = s then U else insert (delete_entry k ts) U)"
| stop: "\<lbrakk>kv_run env s A U; fresh_names oe s; engine_stop env oe s = (s', r)\<rbrakk> \<Longrightarrow> kv_run env s' A U"
| restart: "\<lbrakk>kv_run env s A U; engine_start IoOk (engine_init cfg (wal_file (eng_wal s)) (eng_files s)) = (s', r)\<rbrakk>
    \<Longrightarrow> kv_run env s' A U"

lemma timestamp_ok_nan: "timestamp_ok ts \<Longrightarrow> \<not> float_nan ts"
  by (simp add: timestamp_ok_def float_finite_def float_nan_def)

lemma good_put: "plain_key k \<Longrightarrow> timestamp_ok ts \<Longrightarrow> good (put_entry k v ts)"
  and good_delete: "plain_key k \<Longrightarrow> timestamp_ok ts \<Longrightarrow> good (delete_entry k ts)"
  by (simp_all add: good_def put_entry_def delete_entry_def entry_ok_def timestamp_ok_nan)

lemma engine_put_cases:
  assumes "engine_put env oe k v ts s = (s', r)"
  obtains (rejected) x where "s' = s" "r = Inl x"
  | (accepted) "timestamp_ok ts" "eng_started s"
      "log_and_apply env oe (wal_record PUT k (Some v) ts) (memtable_write (put_entry k v ts)) s = (s', r)"
proof -
  have eq: "memtable_put k v ts = memtable_write (put_entry k v ts)"
    by (simp add: fun_eq_iff memtable_put_def put_entry_def)
  show thesis
    using assms that
    by (auto simp: engine_put_def eq validate_timestamp_def require_def and_then_case validate_key_def
        validate_value_def split: sum.splits if_splits)
qed

lemma engine_delete_cases:
  assumes "engine_delete env oe k ts s = (s', r)"
  obtains (rejected) x where "s' = s" "r = Inl x"
  | (accepted) "timestamp_ok ts" "eng_started s"
      "log_and_apply env oe (wal_record DELETE k None ts) (memtable_write (delete_entry k ts)) s = (s', r)"
proof -
  have eq: "memtable_delete k ts = memtable_write (delete_entry k ts)"
    by (simp add: fun_eq_iff memtable_delete_def delete_entry_def)
  show thesis
    using assms that
    by (auto simp: engine_delete_def eq validate_timestamp_def require_def and_then_case validate_key_def
        split: sum.splits if_splits)
qed

lemma wal_record_entry:
  "wal_to_entry (wal_record PUT k (Some v) ts) = put_entry k v ts"
  "wal_to_entry (wal_record DELETE k None ts) = delete_entry k ts"
  "wal_key (wal_record ty k ov ts) = k"
  by (simp_all add: wal_to_entry_def wal_record_def value_bytes_def)

lemma boot_inv:
  assumes "engine_start IoOk (engine_init cfg None []) = (s, Inr ())"
  shows "storage_inv env {} s" "cands s = {}"
proof -
  let ?s0 = "engine_init cfg None []"
  have inv0: "storage_inv env {} ?s0"
    unfolding storage_inv_def log_inv_def
    by (auto simp: engine_init_def files_inv_def tables_inv_def wal_init_def log_holds_def wal_contents_def
        frames_def memtable_set_def memtable_init_def memtable_get_def memtable_inv_def
        intro!: exI[of _ "[]"] exI[of _ "{}"])
  have "engine_init cfg (wal_file (eng_wal ?s0)) (eng_files ?s0) = ?s0" by (simp add: engine_init_def wal_init_def)
  with restart_inv[OF inv0, of cfg] assms show "storage_inv env {} s" by auto
  from cands_subset[OF this] show "cands s = {}" by simp
qed

definition run_inv :: "bloom_env \<Rightarrow> StorageEngine \<Rightarrow> MemTableEntry set \<Rightarrow> MemTableEntry set \<Rightarrow> bool" where
  "run_inv env s A U \<longleftrightarrow> storage_inv env (A \<union> U) s \<and> covers (cands s) A"

lemma run_inv_write:
  assumes inv: "run_inv env s A U" and e: "good e" "wal_to_entry w = e" "utf8_ok (wal_key w)"
    and fr: "fresh_names oe s" and la: "log_and_apply env oe w (memtable_write e) s = (s', r)"
  shows "run_inv env s' A (insert e U)" "r = Inr () \<Longrightarrow> run_inv env s' (insert e A) U"
proof -
  have i: "storage_inv env (A \<union> U) s" "covers (cands s) A" using inv by (simp_all add: run_inv_def)
  note step = log_and_apply_inv[OF i(1) e fr la]
  have "covers (cands s') A" using step(2) i(2) covers_trans by blast
  then show "run_inv env s' A (insert e U)" using step(1) by (simp add: run_inv_def)
  show "run_inv env s' (insert e A) U" if "r = Inr ()"
    using step(1) step(3)[OF that] \<open>covers (cands s') A\<close> unfolding run_inv_def covers_def by simp
qed

lemma run_inv_put:
  assumes "run_inv env s A U" "plain_key k" "fresh_names oe s" "engine_put env oe k v ts s = (s', r)"
  shows "run_inv env s' A (if s' = s then U else insert (put_entry k v ts) U)
    \<and> (r = Inr () \<longrightarrow> run_inv env s' (insert (put_entry k v ts) A) U)"
  using assms(4)
proof (cases rule: engine_put_cases)
  case (accepted)
  have utf: "utf8_ok k" using assms(2) by (simp add: plain_key_def)
  note w = run_inv_write[OF assms(1) good_put[OF assms(2) accepted(1)] wal_record_entry(1) _ assms(3) accepted(3)]
  show ?thesis using w utf assms(1) by (simp add: wal_record_entry)
qed (use assms in simp_all)

lemma run_inv_delete:
  assumes "run_inv env s A U" "plain_key k" "fresh_names oe s" "engine_delete env oe k ts s = (s', r)"
  shows "run_inv env s' A (if s' = s then U else insert (delete_entry k ts) U)
    \<and> (r = Inr () \<longrightarrow> run_inv env s' (insert (delete_entry k ts) A) U)"
  using assms(4)
proof (cases rule: engine_delete_cases)
  case (accepted)
  have utf: "utf8_ok k" using assms(2) by (simp add: plain_key_def)
  note w = run_inv_write[OF assms(1) good_delete[OF assms(2) accepted(1)] wal_record_entry(2) _ assms(3) accepted(3)]
  show ?thesis using w utf assms(1) by (simp add: wal_record_entry)
qed (use assms in simp_all)

lemma storage_inv_started [simp]: "storage_inv env W (s\<lparr>eng_started := b\<rparr>) = storage_inv env W s"
  "cands (s\<lparr>eng_started := b\<rparr>) = cands s"
  by (simp_all add: storage_inv_def log_inv_def files_inv_def tables_inv_def on_disk_def cands_def)

lemma kv_run_inv: "kv_run env s A U \<Longrightarrow> run_inv env s A U"
proof (induction rule: kv_run.induct)
  case (boot cfg s)
  then show ?case using boot_inv by (simp add: run_inv_def covers_def)
next
  case (stop s A U oe s' r)
  have i: "storage_inv env (A \<union> U) s" "covers (cands s) A" using stop.IH by (simp_all add: run_inv_def)
  show ?case
  proof (cases "memtable_len (eng_memtable s) > 0")
    case True
    obtain s1 r1 where fl: "flush_memtable env oe s = (s1, r1)" by fastforce
    have "storage_inv env (A \<union> U) s1 \<and> covers (cands s1) (cands s)"
      using flush_memtable_inv[OF i(1) fl] stop.hyps(2) by (simp add: fresh_names_def)
    moreover have "s' = s1\<lparr>eng_started := False\<rparr>" using stop.hyps(3) True fl by (simp add: engine_stop_def)
    ultimately show ?thesis using i(2) covers_trans by (auto simp: run_inv_def)
  next
    case False
    then have "s' = s\<lparr>eng_started := False\<rparr>" using stop.hyps(3) by (simp add: engine_stop_def)
    then show ?thesis using i by (simp add: run_inv_def)
  qed
next
  case (restart s A U cfg s' r)
  have i: "storage_inv env (A \<union> U) s" "covers (cands s) A" using restart.IH by (simp_all add: run_inv_def)
  from restart_inv[OF i(1), of cfg] restart.hyps(2) i(2) covers_trans show ?case
    by (auto simp: run_inv_def)
next
  case (put s A U k oe v ts s')
  then show ?case using run_inv_put[OF put.IH put.hyps(2-4)] by simp
next
  case (put_raise s A U k oe v ts s' x)
  then show ?case using run_inv_put[OF put_raise.IH put_raise.hyps(2-4)] by simp
next
  case (delete s A U k oe ts s')
  then show ?case using run_inv_delete[OF delete.IH delete.hyps(2-4)] by simp
next
  case (delete_raise s A U k oe ts s' x)
  then show ?case using run_inv_delete[OF delete_raise.IH delete_raise.hyps(2-4)] by simp
qed

section \<open>The storage engine as a set of writes\<close>

lemma run_reads_newest:
  assumes "kv_run env s A U" "length k \<le> 256"
  shows "case newest_of (view s) k of
      None \<Rightarrow> \<forall>a\<in>A. entry_key a \<noteq> k
    | Some e \<Rightarrow> e \<in> A \<union> U \<and> entry_key e = k
        \<and> (\<forall>a\<in>A. entry_key a = k \<longrightarrow> float_le (entry_timestamp a) (entry_timestamp e))"
proof -
  have i: "storage_inv env (A \<union> U) s" "covers (cands s) A"
    using kv_run_inv[OF assms(1)] by (simp_all add: run_inv_def)
  note n = newest_of_view[OF i(1), of k]
  have answered: "\<exists>c\<in>cands s. entry_key c = entry_key a
      \<and> float_key (entry_timestamp a) \<le> float_key (entry_timestamp c)" if "a \<in> A" for a
    using i(2) that by (simp add: covers_def)
  show ?thesis
  proof (cases "newest_of (view s) k")
    case None
    then have "\<forall>c\<in>cands s. entry_key c \<noteq> k" using n by simp
    then have "entry_key a \<noteq> k" if "a \<in> A" for a using answered[OF that] by force
    then show ?thesis using None by simp
  next
    case (Some e)
    then have e: "e \<in> cands s" "entry_key e = k"
      "\<forall>c\<in>cands s. entry_key c = k \<longrightarrow> float_key (entry_timestamp c) \<le> float_key (entry_timestamp e)"
      using n by simp_all
    have W: "e \<in> A \<union> U" using cands_subset[OF i(1)] e(1) by blast
    have nan: "\<not> float_nan (entry_timestamp d)" if "d \<in> A \<union> U" for d
      using storage_invD(1)[OF i(1)] that by (auto simp: good_def)
    have "float_le (entry_timestamp a) (entry_timestamp e)" if a: "a \<in> A" "entry_key a = k" for a
    proof -
      from answered[OF a(1)] obtain c where "c \<in> cands s" "entry_key c = k"
        "float_key (entry_timestamp a) \<le> float_key (entry_timestamp c)" using a(2) by auto
      with e(3) have "float_key (entry_timestamp a) \<le> float_key (entry_timestamp e)" by force
      with nan[OF W] nan[of a] a(1) show ?thesis by (simp add: float_le_def)
    qed
    then show ?thesis using Some W e(2) by simp
  qed
qed

text \<open>
  C3.  The storage engine refines a set of writes.  After any run of puts, deletes, flushes,
  compactions, stops, failing disk operations and restarts from what is on disk, a read of a key
  returns without raising; it answers with a write of that key that was issued, and whose timestamp
  is at least that of every acknowledged write of the key (a tombstone when that write was a delete);
  it finds nothing only if no write of the key was ever acknowledged.
\<close>

theorem storage_reads_newest:
  assumes "kv_run env s A U" "length k \<le> 256"
  shows "\<exists>r. engine_get env k s = Inr r \<and>
    (case r of
       None \<Rightarrow> \<forall>a\<in>A. entry_key a \<noteq> k
     | Some x \<Rightarrow> \<exists>e\<in>A \<union> U. entry_key e = k \<and> x = as_result e True
         \<and> (\<forall>a\<in>A. entry_key a = k \<longrightarrow> float_le (entry_timestamp a) (entry_timestamp e)))"
proof -
  have i: "storage_inv env (A \<union> U) s" using kv_run_inv[OF assms(1)] by (simp add: run_inv_def)
  from run_reads_newest[OF assms] engine_get_view[OF i assms(2)] show ?thesis
    by (cases "newest_of (view s) k") auto
qed

text \<open>
  C20.  Recovery always succeeds: from the log file and the table files that any run leaves behind,
  with torn log records and tables that could not be retired, a new engine starts without raising.
\<close>

theorem storage_restart_succeeds:
  assumes "kv_run env s A U"
  shows "\<exists>s'. engine_start IoOk (engine_init cfg (wal_file (eng_wal s)) (eng_files s)) = (s', Inr ())
    \<and> eng_started s'"
  using restart_inv[of env "A \<union> U" s cfg] kv_run_inv[OF assms] by (auto simp: run_inv_def)

section \<open>Scan\<close>

text \<open>The scan keeps, per key, the last entry of maximal timestamp in its order of visits.\<close>

definition later :: "SSTableEntry option \<Rightarrow> SSTableEntry option \<Rightarrow> SSTableEntry option" where
  "later old new =
     (case new of None \<Rightarrow> old
      | Some e \<Rightarrow> (case old of None \<Rightarrow> Some e
          | Some d \<Rightarrow> if float_le (entry_timestamp d) (entry_timestamp e) then Some e else Some d))"

lemma scan_step_get:
  "dict_get (scan_step e d) k = (if k = entry_key e then later (dict_get d k) (Some e) else dict_get d k)"
  by (auto simp: scan_step_def later_def dict_simps split: option.splits)

lemma scan_table_get:
  assumes "sorted_wrt (<) (map entry_key es)"
  shows "dict_get (fold scan_step es d) k = later (dict_get d k) (find_key k es)"
  using assms
proof (induction es arbitrary: d)
  case Nil
  then show ?case by (simp add: later_def find_key_def)
next
  case (Cons e es)
  have ih: "dict_get (fold scan_step (e # es) d) k = later (dict_get (scan_step e d) k) (find_key k es)"
    using Cons by simp
  show ?case
  proof (cases "entry_key e = k")
    case True
    then have "find_key k es = None" using Cons.prems by (auto simp: find_key_None)
    moreover have "find_key k (e # es) = Some e" using True by (simp add: find_key_def)
    moreover have "later x None = x" for x by (simp add: later_def)
    ultimately show ?thesis unfolding ih scan_step_get using True by simp
  next
    case False
    then have "find_key k (e # es) = find_key k es" by (simp add: find_key_def)
    then show ?thesis unfolding ih scan_step_get using False by simp
  qed
qed

lemma later_pick_newer:
  assumes "\<And>e. a = Some e \<or> b = Some e \<Longrightarrow> \<not> float_nan (entry_timestamp e)"
  shows "later a b = pick_newer b a"
  using assms by (auto simp: later_def pick_newer_def float_le_def float_lt_def split: option.splits)

lemma pick_newer_assoc:
  assumes "\<And>e. Some e \<in> {a, b, c} \<Longrightarrow> \<not> float_nan (entry_timestamp e)"
  shows "pick_newer (pick_newer a b) c = pick_newer a (pick_newer b c)"
  using assms by (auto simp: pick_newer_def float_lt_def split: option.splits)

lemma pick_newer_None [simp]: "pick_newer None x = x" "pick_newer x None = x"
  by (simp_all add: pick_newer_def split: option.splits)

definition no_nan :: "SSTableEntry option \<Rightarrow> bool" where
  "no_nan x \<longleftrightarrow> (\<forall>e. x = Some e \<longrightarrow> \<not> float_nan (entry_timestamp e))"

lemma no_nan_pick: "no_nan a \<Longrightarrow> no_nan b \<Longrightarrow> no_nan (pick_newer a b)"
  by (auto simp: no_nan_def pick_newer_def split: option.splits if_splits)

lemma no_nan_assoc:
  "no_nan a \<Longrightarrow> no_nan b \<Longrightarrow> no_nan c \<Longrightarrow> pick_newer (pick_newer a b) c = pick_newer a (pick_newer b c)"
  by (rule pick_newer_assoc) (auto simp: no_nan_def)

lemma no_nan_find: "tables_ok (es # ess) \<Longrightarrow> no_nan (find_key k es)"
  by (auto simp: no_nan_def tables_ok_def find_key_def find_Some_iff)

lemma newest_of_Cons:
  assumes "tables_ok (es # ess)"
  shows "newest_of (es # ess) k = pick_newer (find_key k es) (newest_of ess k) \<and> no_nan (newest_of ess k)"
proof -
  have "foldl (\<lambda>best es. pick_newer best (find_key k es)) best ess = pick_newer best (newest_of ess k)
      \<and> no_nan (newest_of ess k)" if "no_nan best" "tables_ok ess" for best
    using that
  proof (induction ess arbitrary: best rule: rev_induct)
    case Nil
    then show ?case by (simp add: newest_of_def no_nan_def)
  next
    case (snoc es ess)
    have ok: "tables_ok ess" "no_nan (find_key k es)"
      using snoc.prems(2) no_nan_find[of es "[]"] by (auto simp: tables_ok_def)
    note ih = snoc.IH[OF snoc.prems(1) ok(1)]
    then show ?case
      using no_nan_assoc[OF snoc.prems(1) _ ok(2)] no_nan_pick[OF _ ok(2)]
      by (simp add: newest_of_snoc)
  qed
  note fold = this
  have ok: "tables_ok ess" using assms by (simp add: tables_ok_def)
  from fold[OF no_nan_find[OF assms] ok] show ?thesis by (simp add: newest_of_def)
qed

lemma scan_tables_get:
  assumes "tables_ok (map sstable_entries ts)"
  shows "dict_get (fold (\<lambda>t. fold scan_step (sstable_entries t)) (rev ts) []) k = newest_of (map sstable_entries ts) k"
  using assms
proof (induction ts)
  case Nil
  then show ?case by (simp add: newest_of_def)
next
  case (Cons t ts)
  have ok: "tables_ok (map sstable_entries ts)" and sorted: "sorted_wrt (<) (map entry_key (sstable_entries t))"
    using Cons.prems by (simp_all add: tables_ok_def)
  have nn: "no_nan (find_key k (sstable_entries t))" "no_nan (newest_of (map sstable_entries ts) k)"
    using no_nan_find newest_of_Cons Cons.prems by auto
  have "later (newest_of (map sstable_entries ts) k) (find_key k (sstable_entries t))
      = pick_newer (find_key k (sstable_entries t)) (newest_of (map sstable_entries ts) k)"
    by (rule later_pick_newer) (use nn in \<open>auto simp: no_nan_def\<close>)
  then show ?case
    using Cons.IH[OF ok] newest_of_Cons[of "sstable_entries t" "map sstable_entries ts" k] Cons.prems
    by (simp add: scan_table_get[OF sorted])
qed

lemma scan_dict_get:
  assumes "storage_inv env W s"
  shows "dict_get (engine_scan s) k = map_option (\<lambda>e. as_result e (\<not> entry_tombstone e)) (newest_of (view s) k)"
proof -
  let ?mem = "entries_sorted (eng_memtable s)" and ?ess = "map sstable_entries (eng_sstables s)"
  let ?d = "fold (\<lambda>t. fold scan_step (sstable_entries t)) (rev (eng_sstables s)) []"
  note ok = view_tables_ok[OF assms, unfolded view_def]
  have oks: "tables_ok ?ess" and sorted: "sorted_wrt (<) (map entry_key ?mem)" using ok by (simp_all add: tables_ok_def)
  have nn: "no_nan (find_key k ?mem)" "no_nan (newest_of ?ess k)" using no_nan_find newest_of_Cons ok by auto
  have "dict_get (fold scan_step ?mem ?d) k = later (newest_of ?ess k) (find_key k ?mem)"
    by (simp add: scan_table_get[OF sorted] scan_tables_get[OF oks])
  also have "\<dots> = pick_newer (find_key k ?mem) (newest_of ?ess k)"
    by (rule later_pick_newer) (use nn in \<open>auto simp: no_nan_def\<close>)
  also have "\<dots> = newest_of (view s) k" using newest_of_Cons[OF ok, of k] by (simp add: view_def)
  finally show ?thesis by (simp add: engine_scan_def Let_def map_of_map)
qed

text \<open>
  C21.  A scan and point reads agree: in every state of a run the scan holds, for each key, exactly the
  key, value, timestamp and tombstone flag a point read returns, and no entry for a key a point
  read does not find; ties between equal timestamps are broken the same way.  The two differ in the
  \<open>found\<close> flag alone, which a read sets for tombstones and a scan does not.
\<close>

theorem storage_scan_agrees_with_get:
  assumes "kv_run env s A U" "length k \<le> 256"
  shows "engine_get env k s =
    Inr (map_option (\<lambda>x. x\<lparr>res_found := True\<rparr>) (dict_get (engine_scan s) k))"
proof -
  have i: "storage_inv env (A \<union> U) s" using kv_run_inv[OF assms(1)] by (simp add: run_inv_def)
  show ?thesis
    unfolding engine_get_view[OF i assms(2)] scan_dict_get[OF i]
    by (cases "newest_of (view s) k") (simp_all add: as_result_def)
qed

section \<open>Rejected writes\<close>

text \<open>
  A write is rejected without any effect when the engine is not started, the key is longer than
  256 bytes, the timestamp is not a finite number between 0 and 1e12, the value exceeds the configured
  bound, or the log is fenced after an I/O failure; the exception is a \<open>ValueError\<close> for the three
  validations and a \<open>RuntimeError\<close> otherwise.
\<close>

theorem storage_rejects_without_effect:
  assumes "\<not> eng_started s \<or> 256 < length k \<or> \<not> timestamp_ok ts
    \<or> max_value_size_bytes (eng_config s) < int (length v) \<or> wal_fenced (eng_wal s)"
  shows "\<exists>m. engine_put env oe k v ts s
    = (s, Inl (if eng_started s \<and> (256 < length k \<or> \<not> timestamp_ok ts
                 \<or> max_value_size_bytes (eng_config s) < int (length v))
               then ValueError m else RuntimeError m))"
proof -
  have s: "s\<lparr>eng_wal := eng_wal s\<rparr> = s" by simp
  show ?thesis
    using assms s
    by (auto simp: engine_put_def validate_key_def MAX_KEY_SIZE_BYTES_def validate_timestamp_def
        validate_value_def require_def log_and_apply_def wal_append_def require_healthy_def)
qed

section \<open>Tables, filters, memory table and merge\<close>

text \<open>
  C4.  Round trip of the table format: the file written for strictly sorted entries with plain keys
  (non-empty, no NUL byte, at most 256 bytes of UTF-8) reopens with the same entries and metadata,
  whatever the values, timestamps and number of entries; and the indexed lookup through Bloom filter, sparse
  index, binary search and interval scan finds exactly what a linear search of the entries finds.
\<close>

theorem sstable_roundtrip:
  assumes "writable es" "build_file env es lvl created = Inr data"
  shows "\<exists>t. sstable_open path (Some data) = Inr t \<and> sstable_entries t = es
    \<and> (\<forall>k. sstable_get env t k = Inr (find_key k es))
    \<and> metadata t = \<lparr>file_path = path, level = lvl, min_key = entry_key (hd es), max_key = entry_key (last es),
        entry_count = length es, size_bytes = length data, created_at = created\<rparr>"
proof -
  from build_file_opens[OF assms(2,1), of path] obtain t where
    t: "sstable_open path (Some data) = Inr t" "sst_repr env t es"
      "metadata t = \<lparr>file_path = path, level = lvl, min_key = entry_key (hd es), max_key = entry_key (last es),
        entry_count = length es, size_bytes = length data, created_at = created\<rparr>" by blast
  with sst_repr_entries sst_repr_get show ?thesis by (fastforce simp: find_key_def)
qed

text \<open>
  C22.  No false negatives, across storage: inserting any keys into a new filter succeeds, and the filter
  read back from its serialized form, whatever bytes follow it, reports each of them as possibly present.
\<close>

theorem bloom_no_false_negatives:
  assumes "bloom_init env n rate = Inr bf0"
  shows "\<exists>bf. bloom_add_all env ks bf0 = Inr bf
    \<and> (\<forall>data rest. bloom_serialize bf = Inr data \<longrightarrow>
        (\<exists>bf'. bloom_deserialize (data @ rest) = Inr bf' \<and> (\<forall>k\<in>set ks. might_contain env bf' k = Inr True)))"
proof -
  from bloom_add_all_ok[OF bloom_inv_init[OF assms], of env ks] obtain bf where
    bf: "bloom_add_all env ks bf0 = Inr bf" "bloom_inv bf" "\<forall>k\<in>set ks. might_contain env bf k = Inr True" by blast
  then show ?thesis using bloom_deserialize_serialize[of bf] by (auto simp: bloom_inv_def)
qed

text \<open>
  C19.  The k-way merge equals its reference: over strictly sorted tables with comparable timestamps the
  merged list is strictly sorted and holds for each key the entry with the newest timestamp, the first table
  winning ties, unless that entry is a tombstone past its grace period.
\<close>

theorem compaction_merge_newest:
  assumes "\<forall>t\<in>set ts. sorted_wrt (<) (map entry_key (sstable_entries t))
    \<and> (\<forall>e\<in>set (sstable_entries t). \<not> float_nan (entry_timestamp e))"
  shows "sorted_wrt (<) (map entry_key (fst (k_way_merge expired ts)))
    \<and> (\<forall>k. find_key k (fst (k_way_merge expired ts))
         = (case newest_of (map sstable_entries ts) k of
              None \<Rightarrow> None
            | Some e \<Rightarrow> if entry_tombstone e \<and> expired (entry_timestamp e) then None else Some e))"
proof -
  have ok: "tables_ok (map sstable_entries ts)" using assms by (auto simp: tables_ok_def)
  from merge_newest[OF ok, where expired = expired] show ?thesis
    unfolding k_way_merge_def kept_def by (simp split: option.splits)
qed

datatype memtable_call = Put_Op bytes bytes float64 | Delete_Op bytes float64 | Clear_Op

fun memtable_step :: "memtable_call \<Rightarrow> MemTable \<Rightarrow> MemTable" where
  "memtable_step (Put_Op k v ts) mt = memtable_put k v ts mt"
| "memtable_step (Delete_Op k ts) mt = memtable_delete k ts mt"
| "memtable_step Clear_Op mt = memtable_clear mt"

text \<open>
  C23.  Memory table: after any sequence of puts, deletes and clears the tracked size is the sum of the sizes
  of the stored entries, at least 64 bytes for each; iteration yields one entry per key in
  strictly increasing key order; and an entry is a tombstone exactly when it has no value.
\<close>

theorem memtable_accounting:
  fixes ops :: "memtable_call list" and n :: int
  defines "mt \<equiv> fold memtable_step ops (memtable_init n)"
  shows "mt_size mt = sum_list (map entry_size (entries_sorted mt))
    \<and> 64 * int (memtable_len mt) \<le> mt_size mt
    \<and> sorted_wrt (<) (map entry_key (entries_sorted mt))
    \<and> (\<forall>e\<in>set (entries_sorted mt). memtable_get mt (entry_key e) = Some e
         \<and> entry_tombstone e = (entry_value e = None))"
proof -
  have "memtable_inv (fold memtable_step ops mt0)" if "memtable_inv mt0" for mt0
    using that by (induction ops arbitrary: mt0) (simp_all, metis memtable_step.elims memtable_inv_put
        memtable_inv_delete memtable_inv_clear)
  then have inv: "memtable_inv mt" by (simp add: mt_def)
  have perm: "mset (entries_sorted mt) = mset (map snd (mt_entries mt))"
  proof -
    have "mset (entries_sorted mt) = image_mset (\<lambda>k. the (dict_get (mt_entries mt) k)) (mset (map fst (mt_entries mt)))"
      by (simp add: entries_sorted_def)
    also have "\<dots> = image_mset (\<lambda>p. the (dict_get (mt_entries mt) (fst p))) (mset (mt_entries mt))"
      by (simp add: image_mset.compositionality comp_def)
    also have "\<dots> = image_mset snd (mset (mt_entries mt))"
      by (rule image_mset_cong) (use inv in \<open>auto simp: memtable_inv_def dict_ok_def\<close>)
    finally show ?thesis by simp
  qed
  have size: "mt_size mt = sum_list (map entry_size (entries_sorted mt))"
  proof -
    have "sum_list (map entry_size (entries_sorted mt)) = \<Sum>\<^sub># (image_mset entry_size (mset (entries_sorted mt)))"
      by (simp flip: sum_mset_sum_list)
    also have "\<dots> = sum_list (map entry_size (map snd (mt_entries mt)))"
      unfolding perm by (simp add: image_mset.compositionality flip: sum_mset_sum_list)
    finally show ?thesis using inv by (simp add: memtable_inv_def dict_sum_def comp_def)
  qed
  moreover have "64 * int (length es) \<le> sum_list (map entry_size es)" for es
  proof (induction es)
    case (Cons e es)
    have "64 \<le> entry_size e" by (simp add: entry_size_def ENTRY_OVERHEAD_BYTES_def split: option.splits)
    with Cons show ?case by simp
  qed simp
  from this[of "entries_sorted mt"] have "64 * int (memtable_len mt) \<le> mt_size mt" by (simp add: size)
  moreover have "memtable_get mt (entry_key e) = Some e \<and> entry_tombstone e = (entry_value e = None)"
    if e: "e \<in> set (entries_sorted mt)" for e
  proof -
    have g: "memtable_get mt (entry_key e) = Some e" using e set_entries_sorted[OF inv, of e] by simp
    from memtable_get_key[OF inv g] g show ?thesis by (simp add: entry_ok_def)
  qed
  ultimately show ?thesis using entries_sorted_strict[OF inv] by blast
qed

text \<open>
  C24.  How large a table can get.  With the double arithmetic of the code, which gives the Bloom filter
  between 9 and 10.3 bits per entry, every non-empty table of up to 415 million entries within the
  key limit and with values below \<open>2 ^ 31\<close> bytes is written without an overflowing field; from 480
  million entries on writing raises, although the entry count of the format has 32 bits, because the
  size of the filter no longer fits its field.
\<close>

theorem sstable_write_fits:
  assumes "double_arithmetic env" "es \<noteq> []" "lvl < 2 ^ 32"
    and "\<forall>e\<in>set es. length (entry_key e) \<le> 256 \<and> length (value_bytes (entry_value e)) < 2 ^ 31"
  shows "(length es \<le> 415000000 \<longrightarrow> (\<exists>data. build_file env es lvl created = Inr data))
    \<and> (480000000 \<le> length es \<longrightarrow> (\<exists>x. build_file env es lvl created = Inl x))"
proof -
  have "\<exists>data. build_file env es lvl created = Inr data" if "length es \<le> 415000000"
    using build_file_total[OF fits_format_sized[OF assms(1,2) that assms(3,4)] assms(2)] .
  moreover have "\<exists>x. build_file env es lvl created = Inl x" if "480000000 \<le> length es"
    using build_file_oversized[OF assms(1) that] by (metis sum.exhaust)
  ultimately show ?thesis by blast
qed

section \<open>A key that hides its table\<close>

text \<open>
  Without the restriction to plain keys the round trip fails.  For every value of up to 70 bytes the
  key below, 40 bytes of ASCII control characters and letters, spells a footer for a table with
  exactly this key, this value and a two-byte filter, and with empty extreme keys.  The search for
  the footer tries small footers first and stops at the one inside the key; every lookup is then out
  of range.
\<close>

definition decoy_key :: "nat \<Rightarrow> bytes" where
  "decoy_key n = le_bytes 8 (57 + n) @ le_bytes 8 52 @ le_bytes 8 105 @ le_bytes 4 1 @ le_bytes 4 0
     @ le_bytes 4 0 @ le_bytes 4 0"

lemma length_decoy_key [simp]: "length (decoy_key n) = 40"
  by (simp add: decoy_key_def)

lemma le_bytes_eval:
  "le_bytes 4 n = [of_nat n, of_nat (n div 256), of_nat (n div 256 div 256), of_nat (n div 256 div 256 div 256)]"
  "le_bytes 8 n = [of_nat n, of_nat (n div 256), of_nat (n div 256 div 256), of_nat (n div 256 div 256 div 256),
     of_nat (n div 256 div 256 div 256 div 256), of_nat (n div 256 div 256 div 256 div 256 div 256),
     of_nat (n div 256 div 256 div 256 div 256 div 256 div 256),
     of_nat (n div 256 div 256 div 256 div 256 div 256 div 256 div 256)]"
proof -
  have "(4::nat) = Suc (Suc (Suc (Suc 0)))" "(8::nat) = Suc (Suc (Suc (Suc (Suc (Suc (Suc (Suc 0)))))))" by simp_all
  then show "le_bytes 4 n = [of_nat n, of_nat (n div 256), of_nat (n div 256 div 256), of_nat (n div 256 div 256 div 256)]"
    "le_bytes 8 n = [of_nat n, of_nat (n div 256), of_nat (n div 256 div 256), of_nat (n div 256 div 256 div 256),
     of_nat (n div 256 div 256 div 256 div 256), of_nat (n div 256 div 256 div 256 div 256 div 256),
     of_nat (n div 256 div 256 div 256 div 256 div 256 div 256),
     of_nat (n div 256 div 256 div 256 div 256 div 256 div 256 div 256)]"
    by (simp_all only: le_bytes.simps)
qed

lemma decoy_key_nonempty: "[] < decoy_key n"
proof -
  have "decoy_key n \<noteq> []" by (metis length_decoy_key list.size(3) zero_neq_numeral)
  then obtain a r where "decoy_key n = a # r" by (cases "decoy_key n") auto
  then show ?thesis by (metis Nil_less_Cons)
qed

lemma utf8_decoy_key:
  assumes "n \<le> 70"
  shows "utf8_ok (decoy_key n)"
proof -
  have "unat (word_of_nat (57 + n) :: byte) < 128" using assms by (subst unat_of_nat) simp
  moreover have "(57 + n) div 256 = 0" using assms by simp
  ultimately show ?thesis by (intro utf8_ok_ascii) (simp add: decoy_key_def le_bytes_eval del: of_nat_add)
qed

definition decoy_entry :: "bytes \<Rightarrow> float64 \<Rightarrow> MemTableEntry" where
  "decoy_entry v ts = put_entry (decoy_key (length v)) v ts"

definition decoy_index :: "nat \<Rightarrow> bytes" where
  "decoy_index n = enc_index \<lparr>index_key = decoy_key n, index_offset = 0\<rparr>"

text \<open>The part of the real footer before the second copy of the key.\<close>

definition decoy_head :: "nat \<Rightarrow> bytes" where
  "decoy_head n = le_bytes 8 (57 + n) @ le_bytes 8 52 @ le_bytes 8 25 @ le_bytes 4 1 @ le_bytes 4 0 @ le_bytes 4 40
     @ decoy_key n @ le_bytes 4 40"

definition decoy_pre :: "bytes \<Rightarrow> float64 \<Rightarrow> bytes \<Rightarrow> bytes" where
  "decoy_pre v ts bd = enc (decoy_entry v ts) @ decoy_index (length v) @ bd @ decoy_head (length v)"

definition decoy_file :: "bytes \<Rightarrow> float64 \<Rightarrow> bytes \<Rightarrow> float64 \<Rightarrow> bytes" where
  "decoy_file v ts bd created = decoy_pre v ts bd @ footer_bytes (57 + length v) 52 105 1 0 [] [] created"

lemma decoy_lengths: "length (enc (decoy_entry v ts)) = 57 + length v" "length (decoy_index n) = 52" "length (decoy_head n) = 80"
  by (simp_all add: enc_def decoy_entry_def put_entry_def value_bytes_def decoy_index_def enc_index_def
      decoy_head_def)

lemma build_decoy_file:
  assumes env: "double_arithmetic env" and v: "length v \<le> 70"
  shows "\<exists>bloom bd. build_file env [decoy_entry v ts] 0 created = Inr (decoy_file v ts bd created)
    \<and> bloom_inv bloom \<and> bloom_serialize bloom = Inr bd \<and> length bd = 25"
proof -
  let ?e = "decoy_entry v ts" and ?k = "decoy_key (length v)"
  have fits: "fits_format env [?e] 0"
    using v by (intro fits_format_sized[OF env]) (simp_all add: decoy_entry_def put_entry_def value_bytes_def)
  have key: "entry_key ?e = ?k" by (simp add: decoy_entry_def put_entry_def)
  from build_file_total[OF fits, of created] obtain data where
    data: "build_file env [?e] 0 created = Inr data" by auto
  then obtain bloom0 blk ix bloom parts bd footer where
    b: "bloom_init env 1 DEFAULT_RATE = Inr bloom0"
      "build_loop env 0 [?e] [] [] bloom0 = Inr (blk, ix, bloom)"
      "traverse encode_index_entry ix = Inr parts" "bloom_serialize bloom = Inr bd"
      "encode_footer (length blk) (length (concat parts)) (length bd) 1 0 ?k ?k created = Inr footer"
      "data = blk @ concat parts @ bd @ footer"
    by (auto simp: build_file_def and_then_Inr_iff key split: prod.splits)
  note loop = build_loop_Inr[OF b(2)]
  have blk: "blk = enc ?e" and ix: "ix = [\<lparr>index_key = ?k, index_offset = 0\<rparr>]"
    using loop(1,2) by (simp_all add: key)
  have "9 * real_of_int 1 \<le> real_of_int (optimal_bits env 1 DEFAULT_RATE)"
    "real_of_int (optimal_bits env 1 DEFAULT_RATE) \<le> 103 / 10 * real_of_int 1 + 1"
    using optimal_bits_bounds[OF env, of 1] by simp_all
  then have "9 \<le> optimal_bits env 1 DEFAULT_RATE" "optimal_bits env 1 DEFAULT_RATE \<le> 12" by linarith+
  then have "nat ((max 1 (optimal_bits env 1 DEFAULT_RATE) + 7) div 8) = 2" by linarith
  then have "length (bf_bits bloom0) = 2"
    using b(1) by (auto simp: bloom_init_def Let_def split: if_splits)
  then have bloom: "length (bf_bits bloom) = 2" "bloom_inv bloom"
    using bloom_add_all_ok[OF bloom_inv_init[OF b(1)], of env "[?k]"] loop(3) by (simp_all add: key)
  then have bd: "length bd = 25" using b(4) by (auto simp: bloom_serialize_def result_simps simp del: le_bytes.simps)
  have parts: "concat parts = decoy_index (length v)" using encode_index_Inr[OF b(3)] by (simp add: ix decoy_index_def)
  have "footer = decoy_head (length v) @ footer_bytes (57 + length v) 52 105 1 0 [] [] created"
    using encode_footer_Inr[OF b(5)] parts bd decoy_lengths
    by (simp add: blk footer_bytes_def decoy_key_def decoy_head_def)
  then have "data = decoy_file v ts bd created" using b(6) parts blk by (simp add: decoy_file_def decoy_pre_def)
  with data bloom(2) b(4) bd show ?thesis by blast
qed

definition decoy_table :: "string \<Rightarrow> bytes \<Rightarrow> float64 \<Rightarrow> bytes \<Rightarrow> BloomFilter \<Rightarrow> float64 \<Rightarrow> SSTable" where
  "decoy_table path v ts bd bloom created = \<lparr>raw_data = decoy_file v ts bd created,
      metadata = \<lparr>file_path = path, level = 0, min_key = [], max_key = [], entry_count = 1,
        size_bytes = length (decoy_file v ts bd created), created_at = created\<rparr>,
      sparse_index = [\<lparr>index_key = decoy_key (length v), index_offset = 0\<rparr>], table_bloom = bloom,
      data_block_size = 57 + length v, index_block_size = 52, bloom_filter_size = 105\<rparr>"

lemma parse_decoy_footer:
  assumes v: "length v \<le> 70" and bd: "bloom_serialize bloom = Inr bd" "bloom_inv bloom" "length bd = 25"
  shows "parse_footer_at path (decoy_file v ts bd created) (214 + length v) (57 + length v) 52 105
    = Inr (decoy_table path v ts bd bloom created)"
proof -
  let ?n = "length v"
  let ?data = "decoy_file v ts bd created" and ?ix = "[\<lparr>index_key = decoy_key ?n, index_offset = 0\<rparr>]"
  have pre: "length (decoy_pre v ts bd) = 214 + ?n" using bd(3) decoy_lengths by (simp add: decoy_pre_def)
  have "slice ?data (57 + ?n) (57 + ?n + 52) = decoy_index ?n"
    using slice_at[of "57 + ?n" "enc (decoy_entry v ts)" _ "decoy_index ?n"] decoy_lengths
    by (simp add: decoy_file_def decoy_pre_def)
  then have ix: "parse_index_block (slice ?data (57 + ?n) (57 + ?n + 52)) 0 = Inr ?ix"
    using parse_index_block_concat[of ?ix "[]"] utf8_decoy_key[OF v] by (simp add: decoy_index_def index_fits_def)
  have "slice ?data (57 + ?n + 52) (57 + ?n + 52 + 105) = bd @ decoy_head ?n"
    using slice_at[of "57 + ?n + 52" "enc (decoy_entry v ts) @ decoy_index ?n" _ "bd @ decoy_head ?n"] decoy_lengths bd(3)
    by (simp add: decoy_file_def decoy_pre_def)
  then have bl: "bloom_deserialize (slice ?data (57 + ?n + 52) (57 + ?n + 52 + 105)) = Inr bloom"
    using bloom_deserialize_serialize[OF _ bd(1), of "decoy_head ?n"] bd(2) by (simp add: bloom_inv_def)
  from parse_footer_at_true[OF decoy_file_def _ _ _ _ _ _ ix bl, of path, unfolded pre] show ?thesis
    by (simp add: decoy_table_def)
qed

lemma decoy_file_opens:
  assumes v: "length v \<le> 70" and bd: "bloom_serialize bloom = Inr bd" "bloom_inv bloom" "length bd = 25"
  shows "sstable_open path (Some (decoy_file v ts bd created)) = Inr (decoy_table path v ts bd bloom created)"
proof -
  let ?n = "length v"
  let ?data = "decoy_file v ts bd created" and ?pre = "decoy_pre v ts bd"
  have pre: "length ?pre = 214 + ?n" using bd(3) decoy_lengths by (simp add: decoy_pre_def)
  have len: "length ?data = 266 + ?n" using pre by (simp add: decoy_file_def)
  have s: "slice ?data (214 + ?n) (222 + ?n) = le_bytes 8 (57 + ?n)" "slice ?data (222 + ?n) (230 + ?n) = le_bytes 8 52"
    "slice ?data (230 + ?n) (238 + ?n) = le_bytes 8 105"
    unfolding decoy_file_def footer_bytes_def
    using slice_at[of "214 + ?n" ?pre "222 + ?n" "le_bytes 8 (57 + ?n)"]
      slice_at[of "222 + ?n" "?pre @ le_bytes 8 (57 + ?n)" "230 + ?n" "le_bytes 8 52"]
      slice_at[of "230 + ?n" "?pre @ le_bytes 8 (57 + ?n) @ le_bytes 8 52" "238 + ?n" "le_bytes 8 105"] pre by simp_all
  have "footer_candidate path ?data (214 + ?n) = Some (Inr (decoy_table path v ts bd bloom created))"
    using parse_decoy_footer[OF v bd] len v by (simp add: footer_candidate_def s add.commute[of ?n])
  moreover have "[52..<min (length ?data) (52 + 65536) + 1] = 52 # [53..<267 + ?n]"
    unfolding len using v by (simp add: upt_conv_Cons)
  ultimately have "parse_footer_from_end path ?data = Inr (decoy_table path v ts bd bloom created)"
    by (simp add: parse_footer_from_end_def len)
  moreover have "drop (length ?data - 4) ?data = le_bytes 4 MAGIC_NUMBER"
    unfolding len using pre by (simp add: decoy_file_def footer_bytes_def)
  ultimately show ?thesis
    using len by (simp add: sstable_open_def load_from_bytes_def MAGIC_NUMBER_def)
qed

text \<open>
  C25.  A crafted key hides its table: whatever the hash functions, for every value of up to 70 bytes
  and every timestamp, the file written for the single entry of this key opens without error with
  empty extreme keys and iterates over the entry, yet looking the key up finds nothing.
\<close>

theorem decoy_key_lost:
  assumes "double_arithmetic env" "length v \<le> 70"
  shows "\<exists>data t. build_file env [decoy_entry v ts] 0 created = Inr data \<and> sstable_open path (Some data) = Inr t
    \<and> min_key (metadata t) = [] \<and> max_key (metadata t) = [] \<and> sstable_entries t = [decoy_entry v ts]
    \<and> sstable_get env t (entry_key (decoy_entry v ts)) = Inr None"
proof -
  from build_decoy_file[OF assms, of ts created] obtain bloom bd where
    b: "build_file env [decoy_entry v ts] 0 created = Inr (decoy_file v ts bd created)"
      "bloom_inv bloom" "bloom_serialize bloom = Inr bd" "length bd = 25" by blast
  let ?t = "decoy_table path v ts bd bloom created"
  have "entry_fits (decoy_entry v ts)"
    using utf8_decoy_key assms(2) by (simp add: entry_fits_def decoy_entry_def put_entry_def value_bytes_def entry_ok_def)
  then have "sstable_entries ?t = [decoy_entry v ts]"
    using entries_loop_block[of "[decoy_entry v ts]" "57 + length v" "[]"] decoy_lengths
    by (simp add: sstable_entries_def decoy_table_def decoy_file_def decoy_pre_def)
  moreover obtain m where "might_contain env bloom (decoy_key (length v)) = Inr m"
    using might_contain_ok[OF b(2)] by blast
  then have "sstable_get env ?t (decoy_key (length v)) = Inr None"
    using decoy_key_nonempty by (simp add: sstable_get_def decoy_table_def)
  moreover have "min_key (metadata ?t) = []" "max_key (metadata ?t) = []" by (simp_all add: decoy_table_def)
  ultimately show ?thesis
    using b(1) decoy_file_opens[OF assms(2) b(3,2,4)] by (fastforce simp: decoy_entry_def put_entry_def)
qed

section \<open>Witnesses\<close>

text \<open>Digests that can be computed, and exact logarithms and rounding.\<close>

definition demo_env :: bloom_env where
  "demo_env = \<lparr>md5 = (\<lambda>b. le_bytes 16 (3 + le_nat b)), sha256 = (\<lambda>b. le_bytes 32 (1 + 7 * le_nat b)),
     math_log = (\<lambda>x. if x = 0x4000000000000000 then ln 2 else - ln 100), rounded = (\<lambda>x. x)\<rparr>"

lemma demo_doubles: "double_arithmetic demo_env"
  by (simp add: double_arithmetic_def demo_env_def DEFAULT_RATE_def)

definition demo_config :: StorageConfig where
  "demo_config = \<lparr>memtable_size_bytes = 4194304, compaction_threshold = 4, max_value_size_bytes = 10240\<rparr>"

definition demo_io :: io_env where
  "demo_io = \<lparr>io_append = IoOk, io_truncate = IoOk, io_flush = Published, io_compact = Published, io_sync = True,
     io_unlink = (\<lambda>_. True), flush_uuid = ''a'', compact_uuid = ''b'', flush_time = 0, compact_time = 0\<rparr>"

definition demo_boot :: StorageEngine where
  "demo_boot = fst (engine_start IoOk (engine_init demo_config None []))"

definition demo_store :: StorageEngine where
  "demo_store = fst (engine_put demo_env demo_io [107] [1, 2] 0x41D0000000000000 demo_boot)"

lemma demo_boot_eq:
  "demo_boot = (engine_init demo_config None [])\<lparr>eng_started := True\<rparr>"
  "engine_start IoOk (engine_init demo_config None []) = (demo_boot, Inr ())"
  by (simp_all add: demo_boot_def engine_start_def engine_init_def load_sstables_def wal_init_def
      wal_replay_def read_all_entries_def)

lemma demo_store_eq: "engine_put demo_env demo_io [107] [1, 2] 0x41D0000000000000 demo_boot = (demo_store, Inr ())"
proof -
  let ?w = "(wal_record PUT [107] (Some [1, 2]) 0x41D0000000000000)\<lparr>wal_seq := 1\<rparr>"
  obtain data where data: "serialize_entry ?w = Inr data"
    using serialize_entry_ok[of ?w] by (auto simp: wal_record_def value_bytes_def)
  have ts: "timestamp_ok 0x41D0000000000000"
    by (simp add: timestamp_ok_def float_finite_def float_le_def float_nan_def float_key_def)
  have "snd (engine_put demo_env demo_io [107] [1, 2] 0x41D0000000000000 demo_boot) = Inr ()"
    using data ts
    by (simp add: engine_put_def demo_boot_eq(1) engine_init_def validate_key_def MAX_KEY_SIZE_BYTES_def
        validate_timestamp_def validate_value_def demo_config_def log_and_apply_def wal_append_def
        require_healthy_def wal_init_def write_and_sync_def demo_io_def memtable_put_def memtable_write_def
        memtable_init_def is_full_def entry_size_def ENTRY_OVERHEAD_BYTES_def)
  then show ?thesis by (metis demo_store_def prod.collapse)
qed

lemma demo_kv_run: "kv_run demo_env demo_store {put_entry [107] [1, 2] 0x41D0000000000000} {}"
proof -
  have "plain_key [107]" by (simp add: plain_key_def in_range_def)
  moreover have "fresh_names demo_io demo_boot"
    by (simp add: fresh_names_def fresh_def demo_boot_eq(1) engine_init_def demo_io_def sstable_name_def
        dec_nat.simps digit_def)
  ultimately show ?thesis
    using kv_run.put[OF kv_run.boot[OF demo_boot_eq(2)] _ _ demo_store_eq] by simp
qed

theorem storage_reads_newest_witness:
  "\<exists>r. engine_get demo_env [107] demo_store = Inr r \<and> r \<noteq> None"
  using storage_reads_newest[OF demo_kv_run, of "[107]"] by (auto simp: put_entry_def split: option.splits)

theorem storage_restart_succeeds_witness:
  "\<exists>s'. engine_start IoOk (engine_init demo_config (wal_file (eng_wal demo_store)) (eng_files demo_store)) = (s', Inr ())
    \<and> eng_started s'"
  by (rule storage_restart_succeeds[OF demo_kv_run])

theorem storage_scan_agrees_with_get_witness:
  "engine_get demo_env [107] demo_store =
    Inr (map_option (\<lambda>x. x\<lparr>res_found := True\<rparr>) (dict_get (engine_scan demo_store) [107]))"
  by (rule storage_scan_agrees_with_get[OF demo_kv_run]) simp

theorem storage_rejects_without_effect_witness:
  "\<exists>m. engine_put demo_env demo_io (replicate 257 97) [1] 0 demo_boot = (demo_boot, Inl (ValueError m))"
  using storage_rejects_without_effect[of demo_boot "replicate 257 97" 0 "[1]" demo_env demo_io]
  by (simp add: demo_boot_eq(1) engine_init_def)

definition demo_entries :: "SSTableEntry list" where
  "demo_entries = [put_entry [97] [1] 0, delete_entry [98] 0, put_entry [99, 100] [] 0]"

lemma demo_entries_ok: "writable demo_entries" "fits_format demo_env demo_entries 0" "demo_entries \<noteq> []"
  by (auto intro!: fits_format_sized[OF demo_doubles] simp: writable_def demo_entries_def put_entry_def delete_entry_def
      plain_key_def in_range_def entry_ok_def value_bytes_def)

theorem sstable_write_fits_witness:
  "\<exists>data. build_file demo_env demo_entries 0 0 = Inr data"
  using sstable_write_fits[OF demo_doubles demo_entries_ok(3), of 0 0]
  by (simp add: demo_entries_def put_entry_def delete_entry_def value_bytes_def)

theorem decoy_key_lost_witness:
  "\<exists>data t. build_file demo_env [decoy_entry [1] 0] 0 0 = Inr data \<and> sstable_open ''x.sst'' (Some data) = Inr t
    \<and> min_key (metadata t) = [] \<and> sstable_get demo_env t (decoy_key 1) = Inr None"
  using decoy_key_lost[OF demo_doubles, of "[1]" 0 0 "''x.sst''"] by (auto simp: decoy_entry_def put_entry_def)

theorem sstable_roundtrip_witness:
  "\<exists>data t. build_file demo_env demo_entries 0 0 = Inr data \<and> sstable_open ''x.sst'' (Some data) = Inr t
    \<and> sstable_entries t = demo_entries \<and> sstable_get demo_env t [98] = Inr (Some (delete_entry [98] 0))"
proof -
  obtain data where data: "build_file demo_env demo_entries 0 0 = Inr data"
    using build_file_total[OF demo_entries_ok(2,3)] by blast
  have "find_key [98] demo_entries = Some (delete_entry [98] 0)"
    by (simp add: find_key_def demo_entries_def put_entry_def delete_entry_def)
  with sstable_roundtrip[OF demo_entries_ok(1) data, of "''x.sst''"] data show ?thesis by fastforce
qed

theorem bloom_no_false_negatives_witness:
  "\<exists>bf0 bf. bloom_init demo_env 2 DEFAULT_RATE = Inr bf0 \<and> bloom_add_all demo_env [[97], [98, 99]] bf0 = Inr bf"
proof -
  have "float_lt 0 DEFAULT_RATE \<and> float_lt DEFAULT_RATE 0x3FF0000000000000"
    by (simp add: float_lt_def float_nan_def float_key_def DEFAULT_RATE_def)
  then obtain bf0 where "bloom_init demo_env 2 DEFAULT_RATE = Inr bf0" by (simp add: bloom_init_def Let_def)
  with bloom_no_false_negatives[OF this, of "[[97], [98, 99]]"] show ?thesis by blast
qed

text \<open>Two tables read back from their files, the second with a newer version of one key.\<close>

definition demo_table :: "MemTableEntry list \<Rightarrow> SSTable" where
  "demo_table es = projr (sstable_open ''t.sst'' (Some (projr (build_file demo_env es 0 0))))"

lemma demo_table_entries:
  assumes "writable es" "fits_format demo_env es 0"
  shows "sstable_entries (demo_table es) = es"
proof -
  have "es \<noteq> []" using assms(1) by (simp add: writable_def)
  from build_file_total[OF assms(2) this] obtain data where data: "build_file demo_env es 0 0 = Inr data" by blast
  from build_file_opens[OF data assms(1), of "''t.sst''"] obtain t where
    "sstable_open ''t.sst'' (Some data) = Inr t" "sst_repr demo_env t es" by blast
  then show ?thesis using sst_repr_entries data by (simp add: demo_table_def)
qed

theorem compaction_merge_newest_witness:
  "find_key [97] (fst (k_way_merge (\<lambda>_. False)
     [demo_table demo_entries, demo_table [put_entry [97] [7] 0x41D0000000000000]]))
   = Some (put_entry [97] [7] 0x41D0000000000000)"
proof -
  let ?new = "[put_entry [97] [7] 0x41D0000000000000]"
  let ?ts = "[demo_table demo_entries, demo_table ?new]"
  have new: "writable ?new" "fits_format demo_env ?new 0"
    by (auto intro!: fits_format_sized[OF demo_doubles] simp: writable_def put_entry_def plain_key_def in_range_def
        entry_ok_def value_bytes_def)
  note entries = demo_table_entries[OF demo_entries_ok(1,2)] demo_table_entries[OF new]
  have "\<forall>t\<in>set ?ts. sorted_wrt (<) (map entry_key (sstable_entries t))
      \<and> (\<forall>e\<in>set (sstable_entries t). \<not> float_nan (entry_timestamp e))"
    by (simp add: entries) (simp add: demo_entries_def put_entry_def delete_entry_def float_nan_def)
  from compaction_merge_newest[OF this, of "\<lambda>_. False"]
  have "find_key [97] (fst (k_way_merge (\<lambda>_. False) ?ts)) = newest_of [demo_entries, ?new] [97]"
    by (simp add: entries split: option.splits)
  also have "\<dots> = Some (put_entry [97] [7] 0x41D0000000000000)"
    by (simp add: newest_of_def find_key_def demo_entries_def put_entry_def delete_entry_def pick_newer_def
        float_lt_def float_nan_def float_key_def)
  finally show ?thesis .
qed

theorem memtable_accounting_witness:
  "mt_size (fold memtable_step [Put_Op [97] [1, 2] 0, Delete_Op [97] 0, Put_Op [98] [3] 0] (memtable_init 100)) \<ge> 128"
  using memtable_accounting[of "[Put_Op [97] [1, 2] 0, Delete_Op [97] 0, Put_Op [98] [3] 0]" 100]
  by (simp add: memtable_put_def memtable_delete_def memtable_write_def memtable_init_def memtable_len_def
      float_lt_def float_nan_def float_key_def)

end
