(* ===== verification/KV_Versions.thy ===== *)
theory KV_Versions
  imports Bytes "HOL-Library.Char_ord" "HOL-Library.Multiset"
begin

text \<open>
  Causal versions of the replicated key-value store: vector clocks
  (\<^verbatim>\<open>key-value-store/src/kv_store/replication/vector_clock.py\<close>) and the reconciliation of sibling
  versions (\<^verbatim>\<open>replication/records.py\<close>).  A clock is its dictionary in insertion order, because
  the pruning of \<^verbatim>\<open>increment\<close> breaks ties by that order; two clocks are compared as dictionaries.
  The lemmas relate a clock to the function that reads its counters: on clocks without zero
  counters, domination is the strict order of these functions and merging is their maximum.
\<close>

section \<open>Vector clocks\<close>

record VectorClock =
  vc_entries :: "(string, int) dict"
  vc_max_entries :: int

definition vector_clock :: "(string, int) dict option \<Rightarrow> int \<Rightarrow> VectorClock" where
  "vector_clock entries max_entries =
     \<lparr>vc_entries = (case entries of None \<Rightarrow> [] | Some d \<Rightarrow> d), vc_max_entries = max_entries\<rparr>"

text \<open>\<^verbatim>\<open>min(entries, key=...)\<close>: the first of the keys with the least counter.\<close>

fun min_node :: "(string, int) dict \<Rightarrow> string \<Rightarrow> int \<Rightarrow> string" where
  "min_node [] best least = best"
| "min_node ((node, n) # d) best least =
     (if n < least then min_node d node n else min_node d best least)"

definition least_node :: "(string, int) dict \<Rightarrow> string result" where
  "least_node d =
     (case d of [] \<Rightarrow> Inl (ValueError ''min() iterable argument is empty'')
              | (node, n) # r \<Rightarrow> Inr (min_node r node n))"

definition increment :: "string \<Rightarrow> VectorClock \<Rightarrow> VectorClock" where
  "increment node_id c =
     (let entries = dict_set node_id (dict_get_or (vc_entries c) node_id 0 + 1) (vc_entries c) in
      if int (length entries) > vc_max_entries c
      then case least_node entries of
             Inl _ \<Rightarrow> c
           | Inr node \<Rightarrow> c\<lparr>vc_entries := dict_del node entries\<rparr>
      else c\<lparr>vc_entries := entries\<rparr>)"

definition merge_counter :: "string \<times> int \<Rightarrow> (string, int) dict \<Rightarrow> (string, int) dict" where
  "merge_counter kv merged =
     dict_set (fst kv) (max (dict_get_or merged (fst kv) 0) (snd kv)) merged"

definition clock_merge :: "VectorClock \<Rightarrow> VectorClock \<Rightarrow> VectorClock" where
  "clock_merge self other = self\<lparr>vc_entries := fold merge_counter (vc_entries other) (vc_entries self)\<rparr>"

text \<open>The loop over the other clock; \<^const>\<open>None\<close> is the early \<^verbatim>\<open>return False\<close>.\<close>

fun dominates_loop :: "(string, int) dict \<Rightarrow> (string, int) dict \<Rightarrow> bool \<Rightarrow> bool option" where
  "dominates_loop self [] strict = Some strict"
| "dominates_loop self ((node_id, other_counter) # d) strict =
     (let self_counter = dict_get_or self node_id 0 in
      if self_counter < other_counter then None
      else dominates_loop self d (strict \<or> other_counter < self_counter))"

definition dominates :: "VectorClock \<Rightarrow> VectorClock \<Rightarrow> bool" where
  "dominates self other =
     (if vc_entries self = [] \<and> vc_entries other = [] then False
      else case dominates_loop (vc_entries self) (vc_entries other) False of
             None \<Rightarrow> False
           | Some strict \<Rightarrow>
               strict \<or> list_ex (\<lambda>(node, _). dict_get (vc_entries other) node = None) (vc_entries self))"

definition clock_eq :: "VectorClock \<Rightarrow> VectorClock \<Rightarrow> bool" where
  "clock_eq a b \<longleftrightarrow>
     length (vc_entries a) = length (vc_entries b) \<and>
     list_all (\<lambda>(node, n). dict_get (vc_entries b) node = Some n) (vc_entries a)"

definition conflicts_with :: "VectorClock \<Rightarrow> VectorClock \<Rightarrow> bool" where
  "conflicts_with a b \<longleftrightarrow> (if clock_eq a b then False else \<not> dominates a b \<and> \<not> dominates b a)"

section \<open>Sibling versions\<close>

record Version =
  ver_value :: "bytes option"
  ver_clock :: VectorClock
  ver_timestamp :: float64

type_synonym version_id = "bytes option \<times> (string \<times> int) list"

definition version_id :: "Version \<Rightarrow> version_id" where
  "version_id v = (ver_value v, sort_key fst (vc_entries (ver_clock v)))"

definition keep_newer :: "Version \<Rightarrow> (version_id, Version) dict \<Rightarrow> (version_id, Version) dict" where
  "keep_newer v unique =
     (case dict_get unique (version_id v) of
        None \<Rightarrow> dict_set (version_id v) v unique
      | Some previous \<Rightarrow>
          if float_lt (ver_timestamp previous) (ver_timestamp v)
          then dict_set (version_id v) v unique else unique)"

definition undominated :: "Version list \<Rightarrow> Version list" where
  "undominated candidates =
     filter (\<lambda>v. \<not> list_ex (\<lambda>w. dominates (ver_clock w) (ver_clock v)) candidates) candidates"

definition reconcile :: "Version list \<Rightarrow> Version list" where
  "reconcile versions = undominated (map snd (fold keep_newer versions []))"

section \<open>Counters\<close>

definition counter :: "VectorClock \<Rightarrow> string \<Rightarrow> int" where
  "counter c node = dict_get_or (vc_entries c) node 0"

definition clock_ok :: "VectorClock \<Rightarrow> bool" where
  "clock_ok c \<longleftrightarrow> dict_ok (vc_entries c) \<and> list_all (\<lambda>(_, n). 0 < n) (vc_entries c)"

named_theorems clock_simps \<open>reading the counters of a clock\<close>

lemma counter_some: "dict_get (vc_entries c) node = Some n \<Longrightarrow> counter c node = n"
  by (simp add: counter_def dict_get_or_def)

lemma counter_none: "dict_get (vc_entries c) node = None \<Longrightarrow> counter c node = 0"
  by (simp add: counter_def dict_get_or_def)

lemma clock_ok_pos: "clock_ok c \<Longrightarrow> dict_get (vc_entries c) node = Some n \<Longrightarrow> 0 < n"
  by (auto simp: clock_ok_def list_all_iff dest: map_of_SomeD)

lemma counter_nonneg [simp]: "clock_ok c \<Longrightarrow> 0 \<le> counter c node"
  by (cases "dict_get (vc_entries c) node") (auto simp: counter_some counter_none dest: clock_ok_pos)

lemma counter_pos_iff: "clock_ok c \<Longrightarrow> 0 < counter c node \<longleftrightarrow> dict_get (vc_entries c) node \<noteq> None"
  by (cases "dict_get (vc_entries c) node") (auto simp: counter_some counter_none dest: clock_ok_pos)

lemma counter_eq_entries:
  assumes "clock_ok a" "clock_ok b"
  shows "counter a = counter b \<longleftrightarrow> map_of (vc_entries a) = map_of (vc_entries b)"
proof
  assume eq: "counter a = counter b"
  show "map_of (vc_entries a) = map_of (vc_entries b)"
  proof
    fix node
    have "counter a node = counter b node" by (simp add: eq)
    then show "map_of (vc_entries a) node = map_of (vc_entries b) node"
      using counter_pos_iff[OF assms(1), of node] counter_pos_iff[OF assms(2), of node]
      by (cases "map_of (vc_entries a) node"; cases "map_of (vc_entries b) node")
        (auto simp: counter_some counter_none)
  qed
qed (auto simp: counter_def dict_get_or_def)

lemma dominates_loop_eq:
  "dominates_loop d xs strict =
     (if \<forall>(node, n)\<in>set xs. n \<le> dict_get_or d node 0
      then Some (strict \<or> (\<exists>(node, n)\<in>set xs. n < dict_get_or d node 0)) else None)"
  by (induction d xs strict rule: dominates_loop.induct) (auto simp: Let_def)

lemma ok_entries_le_iff:
  assumes "clock_ok a" "clock_ok b"
  shows "(\<forall>(node, n)\<in>set (vc_entries b). n \<le> counter a node) \<longleftrightarrow> counter b \<le> counter a"
proof
  assume l: "\<forall>(node, n)\<in>set (vc_entries b). n \<le> counter a node"
  show "counter b \<le> counter a"
  proof (rule le_funI)
    fix node
    show "counter b node \<le> counter a node"
      using l assms(1) by (cases "dict_get (vc_entries b) node")
        (auto simp: counter_some counter_none dest: map_of_SomeD)
  qed
next
  assume "counter b \<le> counter a"
  then show "\<forall>(node, n)\<in>set (vc_entries b). n \<le> counter a node"
    using assms(2) by (auto simp: clock_ok_def dict_get_mem le_fun_def) (metis counter_some)
qed

lemma dominates_iff [clock_simps]:
  assumes "clock_ok a" "clock_ok b"
  shows "dominates a b \<longleftrightarrow> counter b < counter a"
proof -
  have mem: "(node, n) \<in> set (vc_entries c) \<longleftrightarrow> dict_get (vc_entries c) node = Some n"
    if "clock_ok c" for node n c
    using that by (simp add: clock_ok_def dict_get_mem)
  have strict: "(\<exists>(node, n)\<in>set (vc_entries b). n < counter a node) \<or>
      (\<exists>(node, n)\<in>set (vc_entries a). dict_get (vc_entries b) node = None)
      \<longleftrightarrow> (\<exists>node. counter b node < counter a node)" (is "?l \<longleftrightarrow> ?r")
  proof
    assume ?l
    then consider node n where "dict_get (vc_entries b) node = Some n" "n < counter a node"
      | node n where "dict_get (vc_entries a) node = Some n" "dict_get (vc_entries b) node = None"
      using assms by (auto simp: mem)
    then show ?r
    proof cases
      case (1 node n)
      then have "counter b node < counter a node" by (simp add: counter_some)
      then show ?thesis ..
    next
      case (2 node n)
      then have "counter b node < counter a node"
        using clock_ok_pos[OF assms(1), of node n] by (simp add: counter_some counter_none)
      then show ?thesis ..
    qed
  next
    assume ?r
    then obtain node where less: "counter b node < counter a node" ..
    then have "0 < counter a node" using counter_nonneg[OF assms(2), of node] by linarith
    then obtain n where "dict_get (vc_entries a) node = Some n"
      using counter_pos_iff[OF assms(1)] by blast
    then have a: "(node, n) \<in> set (vc_entries a)" by (rule map_of_SomeD)
    show ?l
    proof (cases "dict_get (vc_entries b) node")
      case (Some m)
      then have "(node, m) \<in> set (vc_entries b)" "m < counter a node"
        using less by (auto simp: counter_some dest: map_of_SomeD)
      then show ?thesis by blast
    qed (use a in blast)
  qed
  have "dominates a b \<longleftrightarrow> (\<forall>(node, n)\<in>set (vc_entries b). n \<le> counter a node) \<and>
      ((\<exists>(node, n)\<in>set (vc_entries b). n < counter a node) \<or>
       (\<exists>(node, n)\<in>set (vc_entries a). dict_get (vc_entries b) node = None))"
    by (cases "vc_entries a = [] \<and> vc_entries b = []")
      (simp_all add: dominates_def dominates_loop_eq list_ex_iff counter_def case_prod_beta)
  moreover have "counter b < counter a \<longleftrightarrow> counter b \<le> counter a \<and> (\<exists>node. counter b node < counter a node)"
    by (simp add: less_fun_def le_fun_def not_le)
  ultimately show ?thesis
    unfolding strict ok_entries_le_iff[OF assms] by blast
qed

lemma clock_eq_iff [clock_simps]:
  assumes "clock_ok a" "clock_ok b"
  shows "clock_eq a b \<longleftrightarrow> counter a = counter b"
proof -
  have d: "distinct (map fst (vc_entries a))" "distinct (map fst (vc_entries b))"
    using assms by (simp_all add: clock_ok_def dict_ok_def)
  have sub: "list_all (\<lambda>(node, n). dict_get (vc_entries b) node = Some n) (vc_entries a)
      \<longleftrightarrow> set (vc_entries a) \<subseteq> set (vc_entries b)"
    using assms by (auto simp: list_all_iff clock_ok_def dict_get_mem)
  have card: "card (set (vc_entries c)) = length (vc_entries c)" if "clock_ok c" for c
    using that by (simp add: clock_ok_def dict_ok_def distinct_card distinct_map)
  have "clock_eq a b \<longleftrightarrow> set (vc_entries a) = set (vc_entries b)"
    unfolding clock_eq_def sub using card[OF assms(1)] card[OF assms(2)]
    by (metis card_subset_eq dual_order.refl finite_set)
  also have "\<dots> \<longleftrightarrow> map_of (vc_entries a) = map_of (vc_entries b)"
    using d by (simp add: map_of_inject_set)
  finally show ?thesis by (simp add: counter_eq_entries[OF assms])
qed

lemma conflicts_iff [clock_simps]:
  assumes "clock_ok a" "clock_ok b"
  shows "conflicts_with a b \<longleftrightarrow> \<not> counter a \<le> counter b \<and> \<not> counter b \<le> counter a"
  unfolding conflicts_with_def clock_eq_iff[OF assms] dominates_iff[OF assms]
    dominates_iff[OF assms(2) assms(1)] by (auto simp: less_le)

section \<open>Updates of clocks\<close>

lemma counter_set:
  "dict_get_or (dict_set node n d) m 0 = (if m = node then n else dict_get_or d m 0)"
  by (simp add: dict_get_or_def dict_simps)

lemma counter_fold_merge:
  "distinct (map fst xs) \<Longrightarrow> dict_get_or (fold merge_counter xs d) node 0 =
     (case dict_get xs node of None \<Rightarrow> dict_get_or d node 0 | Some n \<Rightarrow> max (dict_get_or d node 0) n)"
proof (induction xs arbitrary: d)
  case (Cons kv xs)
  obtain k n where kv: "kv = (k, n)" by force
  then have absent: "dict_get xs k = None" using Cons.prems by (simp add: map_of_eq_None_iff)
  show ?case
    using Cons.IH[of "merge_counter kv d"] Cons.prems absent
    unfolding kv by (simp add: merge_counter_def counter_set split: option.splits)
qed simp

lemma counter_merge [clock_simps]:
  assumes "clock_ok a" "clock_ok b"
  shows "counter (clock_merge a b) node = max (counter a node) (counter b node)"
proof -
  have "distinct (map fst (vc_entries b))"
    using assms(2) by (simp add: clock_ok_def dict_ok_def)
  from counter_fold_merge[OF this, of "vc_entries a" node] show ?thesis
    using counter_nonneg[OF assms(1), of node] counter_nonneg[OF assms(2), of node]
    by (simp add: counter_def clock_merge_def dict_get_or_def[of "vc_entries b"] split: option.splits)
qed

lemma dict_ok_fold_merge: "dict_ok d \<Longrightarrow> dict_ok (fold merge_counter xs d)"
  by (induction xs arbitrary: d) (simp_all add: merge_counter_def)

lemma fold_merge_pos:
  "\<forall>n\<in>snd ` set xs. 0 < n \<Longrightarrow> \<forall>n\<in>ran (map_of d). 0 < n
    \<Longrightarrow> \<forall>n\<in>ran (map_of (fold merge_counter xs d)). (0 :: int) < n"
proof (induction xs arbitrary: d)
  case (Cons kv xs)
  show ?case
    by (simp, rule Cons.IH)
      (use Cons.prems in \<open>auto simp: merge_counter_def ran_def dict_simps split: if_splits\<close>)
qed simp

lemma clock_ok_ran: "clock_ok c \<longleftrightarrow> dict_ok (vc_entries c) \<and> (\<forall>n\<in>ran (map_of (vc_entries c)). 0 < n)"
proof (cases "dict_ok (vc_entries c)")
  case True
  then have "(\<forall>(k, n)\<in>set (vc_entries c). 0 < n) \<longleftrightarrow> (\<forall>k n. dict_get (vc_entries c) k = Some n \<longrightarrow> 0 < n)"
    by (simp add: dict_get_mem[symmetric]) blast
  with True show ?thesis by (auto simp: clock_ok_def list_all_iff ran_def)
qed (simp add: clock_ok_def)

lemma clock_ok_merge [simp]:
  assumes "clock_ok a" "clock_ok b"
  shows "clock_ok (clock_merge a b)"
proof -
  have "\<forall>n\<in>snd ` set (vc_entries b). 0 < n"
    using assms(2) by (auto simp: clock_ok_def list_all_iff)
  moreover have "dict_ok (vc_entries a)" "\<forall>n\<in>ran (map_of (vc_entries a)). 0 < n"
    using assms(1)[unfolded clock_ok_ran] by (rule conjunct1, rule conjunct2)
  ultimately have "dict_ok (fold merge_counter (vc_entries b) (vc_entries a))"
    "\<forall>n\<in>ran (map_of (fold merge_counter (vc_entries b) (vc_entries a))). 0 < n"
    by (rule_tac [1] dict_ok_fold_merge, rule_tac [2] fold_merge_pos)
  then show ?thesis unfolding clock_ok_ran clock_merge_def by simp
qed

lemma clock_merge_least:
  assumes "clock_ok a" "clock_ok b" "clock_ok c"
  shows "counter (clock_merge a b) \<le> counter c \<longleftrightarrow> counter a \<le> counter c \<and> counter b \<le> counter c"
  using assms(1,2) by (auto simp: le_fun_def counter_merge)

section \<open>Maximal elements of a finite set\<close>

text \<open>
  What reconciliation needs of the order of versions: it is a strict order.  Then every element of
  a finite set is maximal or below a maximal one, and the maximal elements of a union can be found
  from the maximal elements of a part.
\<close>

locale version_order =
  fixes below :: "'a \<Rightarrow> 'a \<Rightarrow> bool"
  assumes irrefl: "\<not> below a a"
    and trans: "below a b \<Longrightarrow> below b c \<Longrightarrow> below a c"
begin

lemma maximal_above:
  assumes "finite S" "a \<in> S"
  shows "\<exists>b\<in>S. (b = a \<or> below a b) \<and> (\<forall>c\<in>S. \<not> below b c)"
  using assms(2)
proof (induction "card {b \<in> S. below a b}" arbitrary: a rule: less_induct)
  case less
  show ?case
  proof (cases "\<exists>b\<in>S. below a b")
    case True
    then obtain b where b: "b \<in> S" "below a b" by blast
    have "{c \<in> S. below b c} \<subset> {c \<in> S. below a c}"
      using b irrefl[of b] trans[OF b(2)] by auto
    then have "card {c \<in> S. below b c} < card {c \<in> S. below a c}"
      using assms(1) by (intro psubset_card_mono) auto
    from less.hyps[OF this b(1)] show ?thesis using b(2) trans by blast
  qed (use less.prems in blast)
qed

lemma maximal_absorb:
  assumes "finite A"
  defines "M \<equiv> {a \<in> A. \<forall>b\<in>A. \<not> below a b}"
  shows "{a \<in> M \<union> B. \<forall>b\<in>M \<union> B. \<not> below a b} = {a \<in> A \<union> B. \<forall>b\<in>A \<union> B. \<not> below a b}"
proof -
  have up: "\<exists>b\<in>M \<union> B. b = a \<or> below a b" if "a \<in> A \<union> B" for a
    using that maximal_above[OF assms(1), of a] unfolding M_def by blast
  have "(\<forall>b\<in>M \<union> B. \<not> below a b) \<longleftrightarrow> (\<forall>b\<in>A \<union> B. \<not> below a b)" for a
  proof
    assume free: "\<forall>b\<in>M \<union> B. \<not> below a b"
    show "\<forall>b\<in>A \<union> B. \<not> below a b"
    proof
      fix b assume "b \<in> A \<union> B"
      then obtain c where "c \<in> M \<union> B" "c = b \<or> below b c" using up by blast
      then show "\<not> below a b" using free trans by blast
    qed
  qed (auto simp: M_def)
  moreover have "a \<in> M \<union> B \<longleftrightarrow> a \<in> A \<union> B" if "\<forall>b\<in>A \<union> B. \<not> below a b" for a
    using that by (auto simp: M_def)
  ultimately show ?thesis by blast
qed

end

section \<open>What reconciliation keeps\<close>

text \<open>
  The observable part of a version: its value, its counters and the place of its timestamp in the
  order of doubles.  The specification of reconciliation is a function on sets of such
  observations: of those with the same value and counters the latest, unless its counters are
  below those of another one.
\<close>

type_synonym sibling = "bytes option \<times> (string \<Rightarrow> int) \<times> int"

definition observe :: "Version \<Rightarrow> sibling" where
  "observe v = (ver_value v, counter (ver_clock v), float_key (ver_timestamp v))"

definition version_ok :: "Version \<Rightarrow> bool" where
  "version_ok v \<longleftrightarrow> clock_ok (ver_clock v) \<and> \<not> float_nan (ver_timestamp v)"

definition superseded :: "sibling \<Rightarrow> sibling \<Rightarrow> bool" where
  "superseded a b \<longleftrightarrow>
     fst (snd a) < fst (snd b) \<or>
     fst a = fst b \<and> fst (snd a) = fst (snd b) \<and> snd (snd a) < snd (snd b)"

definition siblings :: "sibling set \<Rightarrow> sibling set" where
  "siblings S = {a \<in> S. \<forall>b\<in>S. \<not> superseded a b}"

interpretation sib: version_order superseded
  by unfold_locales (auto simp: superseded_def)

lemma sibling_covers:
  assumes "finite S" "a \<in> S"
  obtains b where "b \<in> siblings S" "b = a \<or> superseded a b"
  using sib.maximal_above[OF assms] unfolding siblings_def by blast

lemma siblings_absorb: "finite A \<Longrightarrow> siblings (siblings A \<union> B) = siblings (A \<union> B)"
  unfolding siblings_def by (rule sib.maximal_absorb)

section \<open>Reconciliation\<close>

lemma version_id_eq_iff:
  assumes "version_ok v" "version_ok w"
  shows "version_id v = version_id w \<longleftrightarrow>
    ver_value v = ver_value w \<and> counter (ver_clock v) = counter (ver_clock w)"
proof -
  let ?v = "vc_entries (ver_clock v)" and ?w = "vc_entries (ver_clock w)"
  have d: "distinct (map fst ?v)" "distinct (map fst ?w)"
    using assms by (simp_all add: version_ok_def clock_ok_def dict_ok_def)
  have "sort_key fst ?v = sort_key fst ?w \<longleftrightarrow> mset ?v = mset ?w"
  proof
    assume "mset ?v = mset ?w"
    then show "sort_key fst ?v = sort_key fst ?w"
      using d by (intro sort_key_inj_key_eq) (auto simp: distinct_map)
  qed (metis mset_sort)
  also have "\<dots> \<longleftrightarrow> set ?v = set ?w"
    using d by (simp add: distinct_map set_eq_iff_mset_eq_distinct)
  also have "\<dots> \<longleftrightarrow> counter (ver_clock v) = counter (ver_clock w)"
    using d assms by (simp add: counter_eq_entries version_ok_def map_of_inject_set)
  finally show ?thesis by (simp add: version_id_def)
qed

text \<open>
  The dictionary of unique versions after the loop: its keys are the identities seen, and each
  holds a version of that identity with the latest timestamp.
\<close>

definition unique_inv :: "Version set \<Rightarrow> (version_id, Version) dict \<Rightarrow> bool" where
  "unique_inv S u \<longleftrightarrow>
     dict_ok u \<and>
     (\<forall>(i, v)\<in>set u. v \<in> S \<and> version_id v = i) \<and>
     (\<forall>v\<in>S. \<exists>w. dict_get u (version_id v) = Some w \<and>
        float_key (ver_timestamp v) \<le> float_key (ver_timestamp w))"

lemma unique_inv_step:
  assumes "unique_inv S u" "\<forall>w\<in>insert v S. \<not> float_nan (ver_timestamp w)"
  shows "unique_inv (insert v S) (keep_newer v u)"
proof -
  have get: "w \<in> S \<and> version_id w = i" if "dict_get u i = Some w" for i w
    using assms(1) that unfolding unique_inv_def by (fastforce dest: map_of_SomeD)
  show ?thesis
  proof (cases "\<exists>w. dict_get u (version_id v) = Some w \<and>
      \<not> float_lt (ver_timestamp w) (ver_timestamp v)")
    case True
    then obtain w where w: "dict_get u (version_id v) = Some w"
      "\<not> float_lt (ver_timestamp w) (ver_timestamp v)" by blast
    then have "float_key (ver_timestamp v) \<le> float_key (ver_timestamp w)"
      using assms(2) get[OF w(1)] by (auto simp: float_lt_def)
    then show ?thesis
      using assms(1) w unfolding unique_inv_def keep_newer_def by auto
  next
    case False
    then have k: "keep_newer v u = dict_set (version_id v) v u"
      by (auto simp: keep_newer_def split: option.split)
    have old: "float_key (ver_timestamp w) \<le> float_key (ver_timestamp v)"
      if "dict_get u (version_id v) = Some w" for w
      using False that by (auto simp: float_lt_def)
    have "\<exists>w. dict_get (dict_set (version_id v) v u) (version_id x) = Some w \<and>
        float_key (ver_timestamp x) \<le> float_key (ver_timestamp w)" if "x \<in> insert v S" for x
    proof (cases "version_id x = version_id v")
      case True
      then show ?thesis
        using that assms(1) old unfolding unique_inv_def by (fastforce simp: dict_simps)
    next
      case False
      then show ?thesis
        using that assms(1) unfolding unique_inv_def by (auto simp: dict_simps)
    qed
    moreover have "w \<in> insert v S \<and> version_id w = i"
      if "(i, w) \<in> set (dict_set (version_id v) v u)" for i w
      using that assms(1) get unfolding unique_inv_def
      by (auto simp: dict_get_mem dict_simps split: if_splits)
    ultimately show ?thesis
      using assms(1) unfolding k unique_inv_def by auto
  qed
qed

lemma unique_inv_fold:
  assumes "unique_inv S u" "\<forall>w\<in>S \<union> set vs. \<not> float_nan (ver_timestamp w)"
  shows "unique_inv (S \<union> set vs) (fold keep_newer vs u)"
  using assms
proof (induction vs arbitrary: S u)
  case (Cons v vs)
  have "unique_inv (insert v S) (keep_newer v u)"
    using Cons.prems by (intro unique_inv_step) auto
  from Cons.IH[OF this] Cons.prems show ?case by simp
qed simp

text \<open>The candidates: one version per identity, each input at most as late as its candidate.\<close>

lemma candidates:
  assumes "\<forall>v\<in>set vs. version_ok v"
  defines "C \<equiv> map snd (fold keep_newer vs [])"
  shows "set C \<subseteq> set vs" "distinct (map version_id C)"
    and "v \<in> set vs \<Longrightarrow> \<exists>w\<in>set C. observe w = observe v \<or> superseded (observe v) (observe w)"
proof -
  define u where "u = fold keep_newer vs []"
  have inv: "unique_inv (set vs) u"
    unfolding u_def using unique_inv_fold[of "{}" "[]" vs] assms(1)
    by (simp add: unique_inv_def version_ok_def)
  have C: "C = map snd u" by (simp add: C_def u_def)
  show "set C \<subseteq> set vs" using inv by (auto simp: unique_inv_def C)
  have "map fst u = map version_id C" using inv by (auto simp: unique_inv_def C)
  then show "distinct (map version_id C)" using inv by (metis dict_ok_def unique_inv_def)
  assume v: "v \<in> set vs"
  obtain w where w: "dict_get u (version_id v) = Some w"
    "float_key (ver_timestamp v) \<le> float_key (ver_timestamp w)"
    using inv v by (auto simp: unique_inv_def)
  then have m: "w \<in> set C" "version_id w = version_id v" "w \<in> set vs"
    using inv by (force simp: unique_inv_def C dest: map_of_SomeD)+
  then have "ver_value w = ver_value v" "counter (ver_clock w) = counter (ver_clock v)"
    using assms(1) v by (simp_all add: version_id_eq_iff)
  then show "\<exists>w\<in>set C. observe w = observe v \<or> superseded (observe v) (observe w)"
    using w(2) m(1) by (intro bexI[of _ w]) (auto simp: observe_def superseded_def)
qed

lemma superseded_dominates:
  assumes "version_ok v" "version_ok w" "version_id v = version_id w \<Longrightarrow> v = w"
  shows "superseded (observe v) (observe w) \<longleftrightarrow> dominates (ver_clock w) (ver_clock v)"
proof -
  have "\<not> (ver_value v = ver_value w \<and> counter (ver_clock v) = counter (ver_clock w)
      \<and> float_key (ver_timestamp v) < float_key (ver_timestamp w))"
    using assms version_id_eq_iff[OF assms(1,2)] by auto
  then show ?thesis
    using assms(1,2) by (simp add: superseded_def observe_def version_ok_def dominates_iff) blast
qed

lemma reconcile_observed:
  assumes ok: "\<forall>v\<in>set vs. version_ok v"
  shows "observe ` set (reconcile vs) = siblings (observe ` set vs)"
    and "set (reconcile vs) \<subseteq> set vs"
    and "distinct (map observe (reconcile vs))"
proof -
  define C where "C = map snd (fold keep_newer vs [])"
  note cand = candidates[OF ok, folded C_def]
  have inj: "inj_on version_id (set C)" "distinct C" using cand(2) by (simp_all add: distinct_map)
  have okC: "\<And>v. v \<in> set C \<Longrightarrow> version_ok v" using cand(1) ok by blast
  have same: "superseded (observe v) (observe w) \<longleftrightarrow> dominates (ver_clock w) (ver_clock v)"
    if "v \<in> set C" "w \<in> set C" for v w
    using that by (intro superseded_dominates okC) (auto dest: inj_onD[OF inj(1)])
  then have mem: "v \<in> set (reconcile vs) \<longleftrightarrow> v \<in> set C \<and> (\<forall>w\<in>set C. \<not> superseded (observe v) (observe w))" for v
    by (auto simp: reconcile_def C_def[symmetric] undominated_def list_ex_iff)
  have "inj_on observe (set C)"
    by (rule inj_onI, rule inj_onD[OF inj(1)]) (auto simp: version_id_eq_iff okC observe_def)
  then show "distinct (map observe (reconcile vs))"
    using inj(2) by (auto simp: reconcile_def C_def[symmetric] undominated_def distinct_map inj_on_def)
  show "set (reconcile vs) \<subseteq> set vs" using mem cand(1) by blast
  have "(\<forall>w\<in>set vs. \<not> superseded a (observe w)) \<longleftrightarrow> (\<forall>w\<in>set C. \<not> superseded a (observe w))" for a
  proof
    assume free: "\<forall>w\<in>set C. \<not> superseded a (observe w)"
    show "\<forall>w\<in>set vs. \<not> superseded a (observe w)"
    proof
      fix w assume "w \<in> set vs"
      then obtain c where "c \<in> set C" "observe c = observe w \<or> superseded (observe w) (observe c)"
        using cand(3) by blast
      then show "\<not> superseded a (observe w)" using free sib.trans by metis
    qed
  qed (use cand(1) in blast)
  then have "siblings (observe ` set vs) = {a \<in> observe ` set vs. \<forall>w\<in>set C. \<not> superseded a (observe w)}"
    by (simp add: siblings_def)
  also have "\<dots> = observe ` set (reconcile vs)"
  proof (intro equalityI subsetI)
    fix a assume "a \<in> {a \<in> observe ` set vs. \<forall>w\<in>set C. \<not> superseded a (observe w)}"
    then obtain v where v: "v \<in> set vs" "a = observe v" "\<forall>w\<in>set C. \<not> superseded a (observe w)"
      by blast
    then obtain c where "c \<in> set C" "observe c = a" using cand(3)[OF v(1)] by auto
    then show "a \<in> observe ` set (reconcile vs)" using v(3) mem[of c] by auto
  qed (use mem cand(1) in auto)
  finally show "observe ` set (reconcile vs) = siblings (observe ` set vs)" by simp
qed

end
