(* ===== verification/KV_Replication.thy ===== *)
theory KV_Replication
  imports KV_Versions Hash_Ring
begin

text \<open>
  Replication in the key-value store: the replica records of a node
  (\<^verbatim>\<open>kv_store/replication/records.py\<close>), quorum parameters (\<^verbatim>\<open>replication/quorum.py\<close>), placement
  across data centers (\<^verbatim>\<open>cluster/placement.py\<close>) and the request coordinator
  (\<^verbatim>\<open>replication/service.py\<close>, \<^verbatim>\<open>replication/coordinator.py\<close>).  The cluster is one state holding
  the records of every node and the hints the coordinators persisted; the concurrent replica tasks
  of many requests are the steps of \<open>cluster_step\<close>, in any order.
\<close>

section \<open>Quorum parameters\<close>

datatype ConsistencyLevel = ONE | QUORUM | ALL_REPLICAS

record QuorumConfig =
  q_n :: int
  q_w :: int
  q_r :: int

definition is_strongly_consistent :: "QuorumConfig \<Rightarrow> bool" where
  "is_strongly_consistent q \<longleftrightarrow> q_n q < q_w q + q_r q"

fun from_consistency_level :: "ConsistencyLevel \<Rightarrow> int \<Rightarrow> QuorumConfig" where
  "from_consistency_level ONE n = \<lparr>q_n = n, q_w = 1, q_r = 1\<rparr>"
| "from_consistency_level QUORUM n = \<lparr>q_n = n, q_w = n div 2 + 1, q_r = n div 2 + 1\<rparr>"
| "from_consistency_level ALL_REPLICAS n = \<lparr>q_n = n, q_w = n, q_r = n\<rparr>"

record ReplicationConfig =
  n_replicas :: int
  w_quorum :: int
  r_quorum :: int
  vector_clock_max_entries :: int

definition replication_config :: "int \<Rightarrow> int \<Rightarrow> int \<Rightarrow> int \<Rightarrow> ReplicationConfig result" where
  "replication_config n w r m =
     (if 1 \<le> m \<and> m \<le> 256
      then Inr \<lparr>n_replicas = n, w_quorum = w, r_quorum = r, vector_clock_max_entries = m\<rparr>
      else Inl (ValueError ''vector_clock_max_entries must be between 1 and 256''))"

definition get_quorum_config :: "ReplicationConfig \<Rightarrow> ConsistencyLevel option \<Rightarrow> QuorumConfig" where
  "get_quorum_config c consistency =
     (case consistency of
        Some level \<Rightarrow> from_consistency_level level (n_replicas c)
      | None \<Rightarrow> \<lparr>q_n = n_replicas c, q_w = w_quorum c, q_r = r_quorum c\<rparr>)"

text \<open>The outcome of an awaited replica call: it raised, or it returned.\<close>

datatype 'a outcome = Raised | Returned 'a

record 'a QuorumResult =
  qr_success :: bool
  qr_received :: int
  qr_required :: int
  qr_failed :: "string list"
  qr_values :: "'a list"

definition write_quorum :: "string list \<Rightarrow> bool outcome list \<Rightarrow> QuorumConfig \<Rightarrow> unit QuorumResult" where
  "write_quorum replicas results q =
     (let rows = zip replicas results;
          success_count = int (length (filter (\<lambda>(_, r). r = Returned True) rows)) in
      \<lparr>qr_success = q_w q \<le> success_count, qr_received = success_count, qr_required = q_w q,
       qr_failed = map fst (filter (\<lambda>(_, r). r \<noteq> Returned True) rows), qr_values = []\<rparr>)"

definition read_quorum :: "string list \<Rightarrow> 'v option outcome list \<Rightarrow> QuorumConfig \<Rightarrow> 'v QuorumResult" where
  "read_quorum replicas results q =
     (let rows = zip replicas results;
          success_count = int (length (filter (\<lambda>(_, r). r \<noteq> Raised) rows)) in
      \<lparr>qr_success = q_r q \<le> success_count, qr_received = success_count, qr_required = q_r q,
       qr_failed = map fst (filter (\<lambda>(_, r). r = Raised) rows),
       qr_values = List.map_filter (\<lambda>(_, r). case r of Returned v \<Rightarrow> v | Raised \<Rightarrow> None) rows\<rparr>)"

section \<open>Placement\<close>

definition domain_of :: "(string, string) dict \<Rightarrow> string \<Rightarrow> string" where
  "domain_of dcs node = dict_get_or dcs node ''''"

fun spread :: "(string, string) dict \<Rightarrow> string list \<Rightarrow> string set \<Rightarrow> string list \<Rightarrow> string list
    \<Rightarrow> string list \<times> string list" where
  "spread dcs [] seen diverse remaining = (diverse, remaining)"
| "spread dcs (node # order) seen diverse remaining =
     (let domain = domain_of dcs node in
      if domain \<in> seen then spread dcs order seen diverse (remaining @ [node])
      else spread dcs order (insert domain seen) (diverse @ [node]) remaining)"

definition placement_get_nodes ::
  "RingSnapshot \<Rightarrow> (string, string) dict \<Rightarrow> string \<Rightarrow> nat \<Rightarrow> string list result" where
  "placement_get_nodes ring dcs key num =
     and_then (get_nodes ring key (int (length (nodes (snap_state ring))))) (\<lambda>order.
       let (diverse, remaining) = spread dcs order {} [] [] in
       Inr (take num (diverse @ remaining)))"

section \<open>Replica records\<close>

text \<open>
  \<open>codec\<close> is what a record's encoding depends on beyond the modelled code: the JSON text of a row,
  by which rows are sorted, and the length of the encoded record.  \<open>thaw\<close> is decoding after
  encoding: rows sorted by their text, clocks with sorted keys and the default bound.
\<close>

record codec =
  row_text :: "Version \<Rightarrow> string"
  raw_size :: "Version list \<Rightarrow> nat"

definition thaw_version :: "Version \<Rightarrow> Version" where
  "thaw_version v =
     v\<lparr>ver_clock := \<lparr>vc_entries = sort_key fst (vc_entries (ver_clock v)), vc_max_entries = 10\<rparr>\<rparr>"

definition thaw :: "codec \<Rightarrow> Version list \<Rightarrow> Version list" where
  "thaw co versions = map thaw_version (sort_key (row_text co) versions)"

definition clock_limits :: "VectorClock \<Rightarrow> bool" where
  "clock_limits c \<longleftrightarrow>
     length (vc_entries c) \<le> 256 \<and>
     list_all (\<lambda>(node, n). node \<noteq> [] \<and> length node \<le> 256 \<and> 0 \<le> n \<and> n \<le> 2 ^ 63 - 1) (vc_entries c)"

text \<open>The bit pattern of the double \<open>1e12\<close>.\<close>

definition MAX_RECORD_TIMESTAMP :: float64 where
  "MAX_RECORD_TIMESTAMP = 0x426D1A94A2000000"

definition check_version :: "Version \<Rightarrow> unit result" where
  "check_version v =
     and_then (require (clock_limits (ver_clock v)) (ValueError ''invalid vector clock'')) (\<lambda>_.
     and_then (require (float_finite (ver_timestamp v) \<and> float_le 0 (ver_timestamp v)
         \<and> float_le (ver_timestamp v) MAX_RECORD_TIMESTAMP) (ValueError ''invalid timestamp'')) (\<lambda>_.
     require (case ver_value v of None \<Rightarrow> True | Some x \<Rightarrow> length x \<le> 10 * 1024)
       (ValueError ''value exceeds 10 KiB'')))"

text \<open>
  Decoding what was encoded.  On the rows an encoding has, the structural checks of the decoder
  hold; its limits are checked in the order of the code.
\<close>

definition decode_encoded :: "codec \<Rightarrow> Version list \<Rightarrow> Version list result" where
  "decode_encoded co versions =
     and_then (require (raw_size co versions \<le> 1024 * 1024)
       (ValueError ''replica record exceeds 1 MiB'')) (\<lambda>_.
     and_then (require (length versions \<le> 256)
       (ValueError ''expected at most 256 sibling versions'')) (\<lambda>_.
     and_then (traverse check_version (thaw co versions)) (\<lambda>_. Inr (thaw co versions))))"

text \<open>What the storage engine does with the record: it may raise with or without having kept it.\<close>

datatype put_outcome = Put_ok | Put_lost | Put_kept

type_synonym record_store = "(string, Version list) dict"

definition records_read :: "record_store \<Rightarrow> string \<Rightarrow> Version list" where
  "records_read st key = dict_get_or st key []"

definition records_merge ::
  "codec \<Rightarrow> put_outcome \<Rightarrow> string \<Rightarrow> Version list \<Rightarrow> record_store \<Rightarrow> record_store \<times> unit result" where
  "records_merge co put key versions st =
     (case decode_encoded co versions of
        Inl e \<Rightarrow> (st, Inl e)
      | Inr frozen \<Rightarrow>
          let existing = records_read st key; merged = reconcile (existing @ frozen) in
          (case decode_encoded co merged of
             Inl e \<Rightarrow> (st, Inl e)
           | Inr stored \<Rightarrow>
               if stored = thaw co existing then (st, Inr ())
               else case put of
                      Put_ok \<Rightarrow> (dict_set key stored st, Inr ())
                    | Put_lost \<Rightarrow> (st, Inl OSError)
                    | Put_kept \<Rightarrow> (dict_set key stored st, Inl OSError)))"

section \<open>Targets of a request\<close>

fun substitute_loop :: "string list \<Rightarrow> (string \<Rightarrow> bool) \<Rightarrow> nat \<Rightarrow> string list \<Rightarrow> string list
    \<Rightarrow> (string, string) dict \<Rightarrow> string list \<times> (string, string) dict" where
  "substitute_loop order alive index [] selected replacements = (selected, replacements)"
| "substitute_loop order alive index (node # primary) selected replacements =
     (if alive node then substitute_loop order alive (Suc index) primary selected replacements
      else case find (\<lambda>c. c \<notin> set selected \<and> alive c) order of
             None \<Rightarrow> substitute_loop order alive (Suc index) primary selected replacements
           | Some c \<Rightarrow> substitute_loop order alive (Suc index) primary
                         (selected[index := c]) (dict_set c node replacements))"

definition targets :: "string list \<Rightarrow> nat \<Rightarrow> (string \<Rightarrow> bool) \<Rightarrow> string list \<times> (string, string) dict" where
  "targets order n alive =
     (let primary = take n order in substitute_loop order alive 0 primary primary [])"

section \<open>Replica tasks\<close>

record Cluster =
  cl_stores :: "(string, record_store) dict"
  cl_hints :: "(string \<times> string \<times> Version) list"

definition node_store :: "Cluster \<Rightarrow> string \<Rightarrow> record_store" where
  "node_store s node = dict_get_or (cl_stores s) node []"

definition node_merge ::
  "codec \<Rightarrow> put_outcome \<Rightarrow> string \<Rightarrow> string \<Rightarrow> Version list \<Rightarrow> Cluster \<Rightarrow> Cluster \<times> unit result" where
  "node_merge co put node key versions s =
     (let (st, r) = records_merge co put key versions (node_store s node) in
      (s\<lparr>cl_stores := dict_set node st (cl_stores s)\<rparr>, r))"

text \<open>
  The environment of a replica task: whether each of the two hint writes succeeds, whether the
  request reaches the replica, what its engine does, and whether the answer comes back.
\<close>

record task_env =
  hint_first :: bool
  delivered :: bool
  engine_outcome :: put_outcome
  answered :: bool
  hint_second :: bool

definition save_hint :: "bool \<Rightarrow> string \<Rightarrow> string \<Rightarrow> Version \<Rightarrow> Cluster \<Rightarrow> Cluster" where
  "save_hint works node key version s =
     (if works then s\<lparr>cl_hints := cl_hints s @ [(node, key, version)]\<rparr> else s)"

definition replica_call :: "codec \<Rightarrow> task_env \<Rightarrow> string \<Rightarrow> string \<Rightarrow> Version \<Rightarrow> Cluster \<Rightarrow> Cluster \<times> bool" where
  "replica_call co te node key version s =
     (if \<not> delivered te then (s, False)
      else let (s', r) = node_merge co (engine_outcome te) node key [version] s in
           (s', r = Inr () \<and> answered te))"

definition write_replica ::
  "codec \<Rightarrow> task_env \<Rightarrow> string \<Rightarrow> string \<Rightarrow> Version \<Rightarrow> string option \<Rightarrow> Cluster \<Rightarrow> Cluster \<times> string option" where
  "write_replica co te node key version original s =
     (let home = (case original of None \<Rightarrow> node | Some x \<Rightarrow> x);
          s1 = (case original of None \<Rightarrow> s | Some x \<Rightarrow> save_hint (hint_first te) x key version s);
          (s2, success) = (if original \<noteq> None \<and> \<not> hint_first te then (s1, False)
                           else replica_call co te node key version s1) in
      if success then (s2, Some node)
      else (save_hint (hint_second te) home key version s2, None))"

definition read_replica :: "bool \<Rightarrow> string \<Rightarrow> string \<Rightarrow> Cluster \<Rightarrow> Version list option" where
  "read_replica works node key s = (if works then Some (records_read (node_store s node) key) else None)"

text \<open>
  \<^verbatim>\<open>asyncio.wait\<close> hands over the tasks completed so far in batches; each is given with the node
  it asked.
\<close>

fun collect :: "int \<Rightarrow> (string \<times> 'a option) list list \<Rightarrow> 'a list \<Rightarrow> 'a list result" where
  "collect required batches responses =
     (if int (length responses) < required
      then case batches of
             [] \<Rightarrow> Inl (QuorumNotMetError required (int (length responses)))
           | finished # pending \<Rightarrow>
               collect required pending (responses @ List.map_filter snd finished)
      else Inr responses)"

declare collect.simps [simp del]

section \<open>The coordinator\<close>

record Coordinator =
  co_node :: string
  co_config :: ReplicationConfig
  co_codec :: codec

text \<open>\<^verbatim>\<open>RequestCoordinator._validate_key_value\<close>; a key is given by its UTF-8 bytes.\<close>

definition validate_key_value :: "string \<Rightarrow> bytes \<Rightarrow> unit result" where
  "validate_key_value key data =
     and_then (require (length key \<le> 256) (ValueError ''Key exceeds maximum size of 256 bytes'')) (\<lambda>_.
     require (length data \<le> 10 * 1024) (ValueError ''Value exceeds maximum size of 10 KB''))"

function prune_loop :: "int \<Rightarrow> string \<Rightarrow> (string, int) dict \<Rightarrow> (string, int) dict result" where
  "prune_loop bound node_id counts =
     (if bound < int (length counts)
      then case least_node (filter (\<lambda>(node, _). node \<noteq> node_id) counts) of
             Inl e \<Rightarrow> Inl e
           | Inr victim \<Rightarrow>
               if dict_get counts victim = None then Inl (KeyError victim)
               else prune_loop bound node_id (dict_del victim counts)
      else Inr counts)"
  by pat_completeness auto
termination
proof (relation "measure (\<lambda>(bound, node_id, counts). length counts)", simp)
  fix counts :: "(string, int) dict" and victim :: string
  assume "dict_get counts victim \<noteq> None"
  then obtain n where "(victim, n) \<in> set counts" by (auto dest: map_of_SomeD)
  then have "length (dict_del victim counts) < length counts"
    unfolding AList.delete_eq by (rule length_filter_less) simp
  then show "((bound, node_id, dict_del victim counts), bound, node_id, counts)
      \<in> measure (\<lambda>(bound, node_id, counts). length counts)" for bound node_id
    by simp
qed

declare prune_loop.simps [simp del]

definition own_counter :: "string \<Rightarrow> Version list \<Rightarrow> int" where
  "own_counter node_id old =
     (case map (\<lambda>v. counter (ver_clock v) node_id) old of [] \<Rightarrow> 0 | n # ns \<Rightarrow> fold max ns n)"

definition next_clock :: "Coordinator \<Rightarrow> VectorClock option \<Rightarrow> Version list \<Rightarrow> VectorClock result" where
  "next_clock c client old =
     (let counts = (case client of None \<Rightarrow> [] | Some vc \<Rightarrow> vc_entries vc);
          bound = vector_clock_max_entries (co_config c);
          counts = dict_set (co_node c)
            (max (dict_get_or counts (co_node c) 0) (own_counter (co_node c) old)) counts in
      and_then (prune_loop bound (co_node c) counts) (\<lambda>counts.
        Inr (increment (co_node c) (vector_clock (Some counts) bound))))"

text \<open>
  A write gives the replica tasks in the order in which they end, in batches, each with its
  environment.  All tasks run: the ones after the quorum was met go on in the background.
\<close>

type_synonym schedule = "(string \<times> task_env) list list"

fun run_tasks :: "codec \<Rightarrow> string \<Rightarrow> Version \<Rightarrow> (string, string) dict \<Rightarrow> (string \<times> task_env) list
    \<Rightarrow> Cluster \<Rightarrow> Cluster \<times> (string \<times> string option) list" where
  "run_tasks co key version replacements [] s = (s, [])"
| "run_tasks co key version replacements ((node, te) # ts) s =
     (let (s1, r) = write_replica co te node key version (dict_get replacements node) s;
          (s2, rs) = run_tasks co key version replacements ts s1 in
      (s2, (node, r) # rs))"

fun run_batches :: "codec \<Rightarrow> string \<Rightarrow> Version \<Rightarrow> (string, string) dict \<Rightarrow> schedule
    \<Rightarrow> Cluster \<Rightarrow> Cluster \<times> (string \<times> string option) list list" where
  "run_batches co key version replacements [] s = (s, [])"
| "run_batches co key version replacements (b # bs) s =
     (let (s1, r) = run_tasks co key version replacements b s;
          (s2, rs) = run_batches co key version replacements bs s1 in
      (s2, r # rs))"

definition write_admitted ::
  "Coordinator \<Rightarrow> string list \<Rightarrow> (string \<Rightarrow> bool) \<Rightarrow> put_outcome \<Rightarrow> schedule \<Rightarrow> float64
   \<Rightarrow> string \<Rightarrow> bytes option \<Rightarrow> VectorClock option \<Rightarrow> ConsistencyLevel option
   \<Rightarrow> Cluster \<Rightarrow> Cluster \<times> (VectorClock \<times> nat) result" where
  "write_admitted c order alive local tasks now key data client consistency s =
     (case and_then (validate_key_value key (case data of None \<Rightarrow> [] | Some b \<Rightarrow> b)) (\<lambda>_.
           and_then (require (key \<noteq> []) (ValueError ''nonempty string key required'')) (\<lambda>_.
             next_clock c client (records_read (node_store s (co_node c)) key))) of
        Inl e \<Rightarrow> (s, Inl e)
      | Inr clock \<Rightarrow>
          let version = \<lparr>ver_value = data, ver_clock = clock, ver_timestamp = now\<rparr>;
              (s1, r) = node_merge (co_codec c) local (co_node c) key [version] s in
          (case r of
             Inl e \<Rightarrow> (s1, Inl e)
           | Inr _ \<Rightarrow>
               let (selected, replacements) =
                     targets order (nat (q_n (get_quorum_config (co_config c) None))) alive;
                   (s2, results) = run_batches (co_codec c) key version replacements tasks s1 in
               (s2, and_then (collect (q_w (get_quorum_config (co_config c) consistency)) results [])
                      (\<lambda>responses. Inr (clock, length responses)))))"

record PutResult =
  put_clock :: VectorClock
  put_acknowledged :: nat

definition coordinator_put ::
  "Coordinator \<Rightarrow> string list \<Rightarrow> (string \<Rightarrow> bool) \<Rightarrow> put_outcome \<Rightarrow> schedule \<Rightarrow> float64
   \<Rightarrow> string \<Rightarrow> bytes \<Rightarrow> VectorClock option \<Rightarrow> ConsistencyLevel option
   \<Rightarrow> Cluster \<Rightarrow> Cluster \<times> PutResult result" where
  "coordinator_put c order alive local tasks now key data client consistency s =
     (case write_admitted c order alive local tasks now key (Some data) client consistency s of
        (s', r) \<Rightarrow> (s', and_then r (\<lambda>(clock, n). Inr \<lparr>put_clock = clock, put_acknowledged = n\<rparr>)))"

definition coordinator_delete ::
  "Coordinator \<Rightarrow> string list \<Rightarrow> (string \<Rightarrow> bool) \<Rightarrow> put_outcome \<Rightarrow> schedule \<Rightarrow> float64
   \<Rightarrow> string \<Rightarrow> VectorClock option \<Rightarrow> ConsistencyLevel option
   \<Rightarrow> Cluster \<Rightarrow> Cluster \<times> VectorClock result" where
  "coordinator_delete c order alive local tasks now key client consistency s =
     (case write_admitted c order alive local tasks now key None client consistency s of
        (s', r) \<Rightarrow> (s', and_then r (\<lambda>(clock, n). Inr clock)))"

record GetResult =
  get_found :: bool
  get_value :: "bytes option"
  get_clock :: "VectorClock option"
  get_conflict :: bool
  get_conflicting :: "(bytes option \<times> VectorClock) list"

definition resolved :: "Version list \<Rightarrow> GetResult" where
  "resolved versions =
     (case versions of
        [] \<Rightarrow> \<lparr>get_found = False, get_value = None, get_clock = None, get_conflict = False,
                get_conflicting = []\<rparr>
      | [v] \<Rightarrow> \<lparr>get_found = (ver_value v \<noteq> None), get_value = ver_value v,
                 get_clock = Some (ver_clock v), get_conflict = False, get_conflicting = []\<rparr>
      | _ \<Rightarrow> \<lparr>get_found = True, get_value = None, get_clock = None, get_conflict = True,
               get_conflicting = map (\<lambda>v. (ver_value v, ver_clock v)) versions\<rparr>)"

definition get_admitted ::
  "Coordinator \<Rightarrow> (string \<times> Version list option) list list \<Rightarrow> string \<Rightarrow> ConsistencyLevel option
   \<Rightarrow> GetResult result" where
  "get_admitted c batches key consistency =
     and_then (validate_key_value key []) (\<lambda>_.
     and_then (collect (q_r (get_quorum_config (co_config c) consistency)) batches []) (\<lambda>responses.
       Inr (resolved (reconcile (concat responses)))))"

section \<open>The stand-alone coordinator\<close>

text \<open>
  \<^verbatim>\<open>RequestCoordinator\<close> without replica records: the substitution of unavailable nodes and the
  resolution of the answers of a read.
\<close>

definition find_substitute_node :: "string list \<Rightarrow> string list \<Rightarrow> string option" where
  "find_substitute_node alive_members excluded = find (\<lambda>m. m \<notin> set excluded) alive_members"

fun get_replica_nodes :: "(string \<Rightarrow> bool) \<Rightarrow> string list \<Rightarrow> string list \<Rightarrow> string list \<Rightarrow> string list
    \<Rightarrow> string list" where
  "get_replica_nodes alive members primary [] result = result"
| "get_replica_nodes alive members primary (node # rest) result =
     get_replica_nodes alive members primary rest
       (if alive node then result @ [node]
        else case find_substitute_node members (result @ primary) of
               Some m \<Rightarrow> if m \<noteq> [] then result @ [m] else result @ [node]
             | None \<Rightarrow> result @ [node])"

definition non_dominated :: "(bytes \<times> VectorClock) list \<Rightarrow> (bytes \<times> VectorClock) list" where
  "non_dominated answers =
     map snd (filter (\<lambda>(i, (_, c)). \<not> list_ex (\<lambda>(j, (_, d)). i \<noteq> j \<and> dominates d c) (List.enumerate 0 answers))
       (List.enumerate 0 answers))"

fun drop_seen_clocks :: "(bytes \<times> VectorClock) list \<Rightarrow> (bytes \<times> VectorClock) list
    \<Rightarrow> (bytes \<times> VectorClock) list" where
  "drop_seen_clocks [] unique = unique"
| "drop_seen_clocks ((x, c) # rest) unique =
     (if list_ex (\<lambda>(_, seen). clock_eq c seen) unique then drop_seen_clocks rest unique
      else drop_seen_clocks rest (unique @ [(x, c)]))"

definition single_answer :: "bytes \<times> VectorClock \<Rightarrow> GetResult" where
  "single_answer a = \<lparr>get_found = True, get_value = Some (fst a), get_clock = Some (snd a),
     get_conflict = False, get_conflicting = []\<rparr>"

definition resolve_read_conflicts :: "(bytes \<times> VectorClock) list \<Rightarrow> GetResult" where
  "resolve_read_conflicts answers =
     (case answers of
        [a] \<Rightarrow> single_answer a
      | _ \<Rightarrow>
          (case drop_seen_clocks (non_dominated answers) [] of
             [a] \<Rightarrow> single_answer a
           | unique \<Rightarrow> \<lparr>get_found = True, get_value = None, get_clock = None, get_conflict = True,
                         get_conflicting = map (\<lambda>(x, c). (Some x, c)) unique\<rparr>))"

section \<open>The contract of a replica store\<close>

text \<open>
  What the coordinator relies on: merging keeps the store valid and everything the store covered,
  and a merge that returns covers what was merged.  The lemma states it for any sequence of merges.
\<close>

locale replica_store =
  fixes ok :: "'s \<Rightarrow> bool"
    and read :: "'s \<Rightarrow> 'k \<Rightarrow> 'v list"
    and merge :: "'p \<Rightarrow> 'k \<Rightarrow> 'v list \<Rightarrow> 's \<Rightarrow> 's \<times> unit result"
    and valid :: "'v \<Rightarrow> bool"
    and covers :: "'v \<Rightarrow> 'v list \<Rightarrow> bool"
  assumes merge_ok: "ok s \<Longrightarrow> \<forall>v\<in>set vs. valid v \<Longrightarrow> ok (fst (merge p k vs s))"
    and merge_keeps: "ok s \<Longrightarrow> \<forall>v\<in>set vs. valid v \<Longrightarrow> covers v (read s k')
      \<Longrightarrow> covers v (read (fst (merge p k vs s)) k')"
    and merge_adds: "ok s \<Longrightarrow> \<forall>v\<in>set vs. valid v \<Longrightarrow> snd (merge p k vs s) = Inr ()
      \<Longrightarrow> v \<in> set vs \<Longrightarrow> covers v (read (fst (merge p k vs s)) k)"
begin

lemma merge_then_merges:
  assumes "ok s" "valid v" "snd (merge p k [v] s) = Inr ()"
    and "\<forall>(p, k, vs)\<in>set ms. \<forall>v\<in>set vs. valid v"
  shows "covers v (read (fold (\<lambda>(p, k, vs) s. fst (merge p k vs s)) ms (fst (merge p k [v] s))) k)"
proof -
  have "ok t \<Longrightarrow> covers v (read t k)
      \<Longrightarrow> covers v (read (fold (\<lambda>(p, k, vs) s. fst (merge p k vs s)) ms t) k)" for t
    using assms(4)
  proof (induction ms arbitrary: t)
    case (Cons m ms)
    then show ?case by (cases m) (simp add: merge_ok merge_keeps)
  qed simp
  then show ?thesis using assms merge_ok[of s "[v]" p k] merge_adds[of s "[v]" p k v] by simp
qed

end

section \<open>Replica records keep what they are told\<close>

definition covers_version :: "Version \<Rightarrow> Version list \<Rightarrow> bool" where
  "covers_version v vs \<longleftrightarrow>
     (\<exists>u\<in>set vs. observe u = observe v \<or> superseded (observe v) (observe u))"

definition store_ok :: "record_store \<Rightarrow> bool" where
  "store_ok st \<longleftrightarrow> (\<forall>key. \<forall>v\<in>set (records_read st key). version_ok v)"

lemma covers_version_observe:
  "observe ` set vs = observe ` set ws \<Longrightarrow> covers_version v vs = covers_version v ws"
  unfolding covers_version_def by (metis (mono_tags, opaque_lifting) image_iff)

lemma covers_reconcile:
  assumes "\<forall>v\<in>set vs. version_ok v" "covers_version v vs"
  shows "covers_version v (reconcile vs)"
proof -
  obtain u where u: "u \<in> set vs" "observe u = observe v \<or> superseded (observe v) (observe u)"
    using assms(2) by (auto simp: covers_version_def)
  obtain b where b: "b \<in> siblings (observe ` set vs)" "b = observe u \<or> superseded (observe u) b"
    using sibling_covers[of "observe ` set vs" "observe u"] u(1) by auto
  then obtain w where w: "w \<in> set (reconcile vs)" "b = observe w"
    using reconcile_observed(1)[OF assms(1)] by auto
  have "observe w = observe v \<or> superseded (observe v) (observe w)"
    using u(2) b(2) w(2) sib.trans by metis
  then show ?thesis using w(1) by (auto simp: covers_version_def)
qed

lemma reconcile_ok: "\<forall>v\<in>set vs. version_ok v \<Longrightarrow> \<forall>v\<in>set (reconcile vs). version_ok v"
  using reconcile_observed(2) by blast

lemma thaw_version_ok: "version_ok v \<Longrightarrow> version_ok (thaw_version v)"
  by (auto simp: version_ok_def thaw_version_def clock_ok_def list_all_iff dict_ok_def
      distinct_map inj_on_def)

lemma observe_thaw: "version_ok v \<Longrightarrow> observe (thaw_version v) = observe v"
proof -
  assume ok: "version_ok v"
  let ?d = "vc_entries (ver_clock v)"
  have "map_of (sort_key fst ?d) = map_of ?d"
    using ok by (intro iffD2[OF map_of_inject_set])
      (auto simp: version_ok_def clock_ok_def dict_ok_def distinct_map inj_on_def)
  then show ?thesis
    by (simp add: observe_def thaw_version_def counter_def dict_get_or_def fun_eq_iff)
qed

lemma thaw_simps:
  assumes "\<forall>v\<in>set vs. version_ok v"
  shows "observe ` set (thaw co vs) = observe ` set vs" "\<forall>v\<in>set (thaw co vs). version_ok v"
proof -
  show "observe ` set (thaw co vs) = observe ` set vs"
    using assms by (auto simp: thaw_def image_image observe_thaw)
  show "\<forall>v\<in>set (thaw co vs). version_ok v"
    using assms by (auto simp: thaw_def thaw_version_ok)
qed

lemma decode_encoded_thaw: "decode_encoded co vs = Inr ws \<Longrightarrow> ws = thaw co vs"
  by (auto simp: decode_encoded_def result_simps)

text \<open>A merge leaves the store alone, or sets the key to the reconciliation.\<close>

lemma records_merge_cases:
  assumes "records_merge co put key vs st = (st', r)"
  obtains "st' = st" "r \<noteq> Inr ()"
  | "st' = st" "thaw co (reconcile (records_read st key @ thaw co vs)) = thaw co (records_read st key)"
  | "st' = dict_set key (thaw co (reconcile (records_read st key @ thaw co vs))) st"
  using assms unfolding records_merge_def Let_def
  by (auto split: sum.splits if_splits put_outcome.splits dest!: decode_encoded_thaw)

lemma records_read_set: "records_read (dict_set key vs st) k = (if k = key then vs else records_read st k)"
  by (simp add: records_read_def dict_get_or_def dict_simps)

lemma records_merge_laws:
  assumes "store_ok st" "\<forall>v\<in>set vs. version_ok v"
  shows "store_ok (fst (records_merge co put key vs st))"
    and "covers_version v (records_read st k)
      \<Longrightarrow> covers_version v (records_read (fst (records_merge co put key vs st)) k)"
    and "snd (records_merge co put key vs st) = Inr () \<Longrightarrow> v \<in> set vs
      \<Longrightarrow> covers_version v (records_read (fst (records_merge co put key vs st)) key)"
proof -
  obtain st' r where m: "records_merge co put key vs st = (st', r)" by force
  let ?old = "records_read st key" and ?all = "records_read st key @ thaw co vs"
  have ok: "\<forall>v\<in>set ?all. version_ok v"
    using assms thaw_simps(2)[of vs co] by (auto simp: store_ok_def)
  have new: "covers_version v (thaw co (reconcile ?all))" if "covers_version v ?all" for v
    using covers_reconcile[OF ok that] covers_version_observe[OF thaw_simps(1)[OF reconcile_ok[OF ok]]]
    by simp
  have old: "covers_version v ?all" if "covers_version v ?old" for v
    using that by (auto simp: covers_version_def)
  have add: "covers_version v ?all" if "v \<in> set vs" for v
  proof -
    have "observe v \<in> observe ` set (thaw co vs)" using that thaw_simps(1)[OF assms(2)] by simp
    then show ?thesis by (auto simp: covers_version_def)
  qed
  have thawed: "covers_version v (thaw co ?old) = covers_version v ?old" for v
    using assms(1) by (intro covers_version_observe thaw_simps) (auto simp: store_ok_def)
  show "store_ok (fst (records_merge co put key vs st))"
    using m assms(1) thaw_simps(2)[OF reconcile_ok[OF ok], of co]
    by (cases rule: records_merge_cases[OF m]) (auto simp: store_ok_def records_read_set)
  show "covers_version v (records_read (fst (records_merge co put key vs st)) k)"
    if "covers_version v (records_read st k)"
    using m that new old by (cases rule: records_merge_cases[OF m]) (auto simp: records_read_set)
  show "covers_version v (records_read (fst (records_merge co put key vs st)) key)"
    if "snd (records_merge co put key vs st) = Inr ()" "v \<in> set vs"
    using m that(1) new[OF add[OF that(2)]] thawed
    by (cases rule: records_merge_cases[OF m]) (auto simp: records_read_set)
qed

interpretation rec: replica_store store_ok records_read "records_merge co" version_ok covers_version
  for co
  by unfold_locales (use records_merge_laws in blast)+

section \<open>Steps of the cluster\<close>

datatype event =
    Wrote string string Version "string option"
  | Merged string string "Version list"
  | Answered string string "Version list option"

text \<open>
  The steps: a replica task of some coordinator ends; a replica merges versions it got from
  another node, a delivered hint or a repair; a replica answers a read.
\<close>

inductive cluster_step :: "codec \<Rightarrow> Cluster \<Rightarrow> event \<Rightarrow> Cluster \<Rightarrow> bool" for co where
  wrote: "write_replica co te node key v original s = (s', r) \<Longrightarrow> cluster_step co s (Wrote node key v r) s'"
| merged: "node_merge co put node key vs s = (s', r) \<Longrightarrow> cluster_step co s (Merged node key vs) s'"
| answered: "read_replica works node key s = a \<Longrightarrow> cluster_step co s (Answered node key a) s"

inductive cluster_run :: "codec \<Rightarrow> Cluster \<Rightarrow> event list \<Rightarrow> Cluster \<Rightarrow> bool" for co where
  idle: "cluster_run co s [] s"
| step: "cluster_step co s e s' \<Longrightarrow> cluster_run co s' es s'' \<Longrightarrow> cluster_run co s (e # es) s''"

inductive_cases answered_cases: "cluster_step co s (Answered node key a) s'"
inductive_cases run_Cons_cases: "cluster_run co s (e # es) s'"

fun event_ok :: "event \<Rightarrow> bool" where
  "event_ok (Wrote node key v r) = version_ok v"
| "event_ok (Merged node key vs) = list_all version_ok vs"
| "event_ok (Answered node key a) = True"

definition cluster_ok :: "Cluster \<Rightarrow> bool" where
  "cluster_ok s \<longleftrightarrow> (\<forall>node. store_ok (node_store s node))"

definition node_covers :: "Version \<Rightarrow> string \<Rightarrow> Cluster \<Rightarrow> string \<Rightarrow> bool" where
  "node_covers v key s node \<longleftrightarrow> covers_version v (records_read (node_store s node) key)"

text \<open>\<open>grows s s'\<close>: the step keeps the stores valid and every version a node covers.\<close>

definition grows :: "Cluster \<Rightarrow> Cluster \<Rightarrow> bool" where
  "grows s s' \<longleftrightarrow> (cluster_ok s \<longrightarrow> cluster_ok s' \<and>
     (\<forall>v key node. node_covers v key s node \<longrightarrow> node_covers v key s' node))"

lemma grows_refl [simp, intro]: "grows s s"
  by (simp add: grows_def)

lemma grows_trans [trans]: "grows s t \<Longrightarrow> grows t u \<Longrightarrow> grows s u"
  by (simp add: grows_def)

lemma grows_stores: "cl_stores s' = cl_stores s \<Longrightarrow> grows s s'"
  by (simp add: grows_def cluster_ok_def node_covers_def node_store_def)

lemma save_hint_stores [simp]: "cl_stores (save_hint works node key v s) = cl_stores s"
  by (simp add: save_hint_def)

lemma node_covers_stores: "cl_stores s' = cl_stores s \<Longrightarrow> node_covers v key s' node = node_covers v key s node"
  by (simp add: node_covers_def node_store_def)

lemma node_store_set:
  "node_store (s\<lparr>cl_stores := dict_set node st (cl_stores s)\<rparr>) m = (if m = node then st else node_store s m)"
  by (simp add: node_store_def dict_get_or_def dict_simps)

lemma node_merge_grows:
  assumes "node_merge co put node key vs s = (s', r)" "\<forall>v\<in>set vs. version_ok v"
  shows "grows s s'"
    and "cluster_ok s \<Longrightarrow> r = Inr () \<Longrightarrow> v \<in> set vs \<Longrightarrow> node_covers v key s' node"
proof -
  obtain st where m: "records_merge co put key vs (node_store s node) = (st, r)"
    and s': "s' = s\<lparr>cl_stores := dict_set node st (cl_stores s)\<rparr>"
    using assms(1) by (auto simp: node_merge_def split: prod.splits)
  note laws = rec.merge_ok[of _ vs co put key] rec.merge_keeps[of _ vs _ _ co put key]
    rec.merge_adds[of _ vs co put key]
  show "grows s s'"
    using laws(1,2)[of "node_store s node"] m assms(2)
    by (auto simp: grows_def cluster_ok_def node_covers_def s' node_store_set)
  show "node_covers v key s' node" if "cluster_ok s" "r = Inr ()" "v \<in> set vs"
    using laws(3)[of "node_store s node" v] m assms(2) that
    by (auto simp: cluster_ok_def node_covers_def s' node_store_set)
qed

lemma replica_call_grows:
  assumes "replica_call co te node key v s = (s', success)" "version_ok v"
  shows "grows s s'" and "cluster_ok s \<Longrightarrow> success \<Longrightarrow> node_covers v key s' node"
proof -
  have cases: "s' = s \<and> \<not> success \<or>
      (\<exists>r. node_merge co (engine_outcome te) node key [v] s = (s', r) \<and> (success \<longrightarrow> r = Inr ()))"
    using assms(1) by (auto simp: replica_call_def split: if_splits prod.splits)
  then show "grows s s'" using node_merge_grows(1)[where vs = "[v]"] assms(2) by auto
  show "node_covers v key s' node" if "cluster_ok s" success
    using cases that node_merge_grows(2)[where vs = "[v]" and v = v] assms(2) by auto
qed

lemma write_replica_grows:
  assumes "write_replica co te node key v original s = (s', r)" "version_ok v"
  shows "grows s s'" and "cluster_ok s \<Longrightarrow> r = Some m \<Longrightarrow> m = node \<and> node_covers v key s' node"
proof -
  define s1 where "s1 = (case original of None \<Rightarrow> s | Some x \<Rightarrow> save_hint (hint_first te) x key v s)"
  obtain s2 success where call: "(if original \<noteq> None \<and> \<not> hint_first te then (s1, False)
      else replica_call co te node key v s1) = (s2, success)" by force
  have s1: "cl_stores s1 = cl_stores s" by (simp add: s1_def split: option.split)
  have end_state: "cl_stores s' = cl_stores s2" "r = (if success then Some node else None)"
    using assms(1) call by (auto simp: write_replica_def Let_def s1_def[symmetric] split: if_splits)
  have mid: "grows s1 s2" "cluster_ok s1 \<Longrightarrow> success \<Longrightarrow> node_covers v key s2 node"
    using call replica_call_grows[OF _ assms(2), of co te node key s1] by (auto split: if_splits)
  show "grows s s'" using grows_stores[OF s1] mid(1) grows_stores[OF end_state(1)] grows_trans by blast
  show "m = node \<and> node_covers v key s' node" if "cluster_ok s" "r = Some m"
    using that end_state mid(2) grows_stores[OF s1] node_covers_stores[OF end_state(1)]
    by (auto simp: grows_def split: if_splits)
qed

lemma step_grows: "cluster_step co s e s' \<Longrightarrow> event_ok e \<Longrightarrow> grows s s'"
  by (induction rule: cluster_step.induct)
    (auto simp: list_all_iff intro: write_replica_grows(1) node_merge_grows(1))

lemma run_grows: "cluster_run co s es s' \<Longrightarrow> list_all event_ok es \<Longrightarrow> grows s s'"
  by (induction rule: cluster_run.induct) (auto intro: step_grows grows_trans)

lemma run_answers:
  assumes "cluster_run co s es s'" "list_all event_ok es" "cluster_ok s"
    and "Answered node key (Some vs) \<in> set es"
  shows "list_all version_ok vs" and "node_covers v key s node \<Longrightarrow> covers_version v vs"
proof -
  obtain pre post where es: "es = pre @ Answered node key (Some vs) # post"
    using assms(4) by (meson split_list)
  have "\<exists>t u. cluster_run co s pre t \<and> cluster_step co t (Answered node key (Some vs)) u"
    using assms(1) unfolding es
  proof (induction pre arbitrary: s)
    case Nil
    then obtain u where "cluster_step co s (Answered node key (Some vs)) u"
      by (auto elim: run_Cons_cases)
    then show ?case using cluster_run.idle[of co s] by blast
  next
    case (Cons e pre)
    then show ?case by (auto elim!: run_Cons_cases intro: cluster_run.step) (metis cluster_run.step)
  qed
  then obtain t u where t: "cluster_run co s pre t" "cluster_step co t (Answered node key (Some vs)) u"
    by blast
  have "grows s t" using run_grows[OF t(1)] assms(2) by (simp add: es)
  moreover have "vs = records_read (node_store t node) key"
    using t(2) by (auto elim!: answered_cases simp: read_replica_def split: if_splits)
  ultimately show "list_all version_ok vs" "node_covers v key s node \<Longrightarrow> covers_version v vs"
    using assms(3) by (auto simp: grows_def cluster_ok_def store_ok_def node_covers_def list_all_iff)
qed

section \<open>Collected responses\<close>

definition responders :: "(string \<times> 'a option) list \<Rightarrow> string set" where
  "responders rs = {node. \<exists>x. (node, Some x) \<in> set rs}"

lemma map_filter_snd: "List.map_filter snd rs = map (\<lambda>r. the (snd r)) (filter (\<lambda>r. snd r \<noteq> None) rs)"
  by (induction rs) (auto simp: List.map_filter_def)

lemma length_responses:
  assumes "distinct (map fst rs)"
  shows "length (List.map_filter snd rs) = card (responders rs)"
proof -
  have "responders rs = fst ` set (filter (\<lambda>r. snd r \<noteq> None) rs)"
    by (force simp: responders_def)
  moreover have "distinct (map fst (filter (\<lambda>r. snd r \<noteq> None) rs))"
    using assms by (rule distinct_map_filter)
  ultimately show ?thesis by (metis distinct_card length_map list.set_map map_filter_snd)
qed

lemma map_filter_append: "List.map_filter f (xs @ ys) = List.map_filter f xs @ List.map_filter f ys"
  by (simp add: List.map_filter_def)

lemma collect_prefix:
  "collect required batches acc = Inr rs \<Longrightarrow>
     \<exists>n. rs = acc @ List.map_filter snd (concat (take n batches)) \<and> required \<le> int (length rs)"
proof (induction required batches acc rule: collect.induct)
  case (1 required batches acc)
  show ?case
  proof (cases "int (length acc) < required")
    case True
    then obtain b bs where b: "batches = b # bs"
      "collect required bs (acc @ List.map_filter snd b) = Inr rs"
      using "1.prems" by (auto simp: collect.simps[of required batches] split: list.splits)
    from "1.IH"[OF True b] obtain n where
      "rs = (acc @ List.map_filter snd b) @ List.map_filter snd (concat (take n bs))"
      "required \<le> int (length rs)" by blast
    then show ?thesis by (intro exI[of _ "Suc n"]) (simp add: b(1) map_filter_append)
  next
    case False
    then show ?thesis
      using "1.prems" by (intro exI[of _ 0]) (simp add: collect.simps[of required batches])
  qed
qed

lemma collect_responders:
  assumes "collect required batches [] = Inr rs" "distinct (map fst (concat batches))"
  obtains heard where "set heard \<subseteq> set (concat batches)" "rs = List.map_filter snd heard"
    "length rs = card (responders heard)" "required \<le> int (card (responders heard))"
    "responders heard \<subseteq> fst ` set (concat batches)"
proof -
  obtain n where n: "rs = List.map_filter snd (concat (take n batches))" "required \<le> int (length rs)"
    using collect_prefix[OF assms(1)] by auto
  let ?heard = "concat (take n batches)"
  have split: "concat batches = ?heard @ concat (drop n batches)"
    by (metis append_take_drop_id concat_append)
  have "distinct (map fst ?heard)" using assms(2) unfolding split by simp
  then show thesis
    using n split length_responses[of ?heard]
    by (intro that[of ?heard]) (auto simp: responders_def intro: rev_image_eqI)
qed

lemma quorums_meet:
  assumes "A \<subseteq> T" "B \<subseteq> T" "finite T" "card T < card A + card B"
  obtains x where "x \<in> A" "x \<in> B"
proof -
  have "A \<inter> B \<noteq> {}"
  proof
    assume "A \<inter> B = {}"
    then have "card A + card B = card (A \<union> B)"
      using assms(1-3) by (metis card_Un_disjoint finite_subset)
    also have "\<dots> \<le> card T" using assms(1-3) by (intro card_mono) auto
    finally show False using assms(4) by simp
  qed
  then show thesis using that by blast
qed

section \<open>Replica tasks of one write\<close>

lemma run_tasks_grows:
  assumes "run_tasks co key v reps ts s = (s', rs)" "version_ok v"
  shows "grows s s' \<and> map fst rs = map fst ts \<and>
    (cluster_ok s \<longrightarrow> (\<forall>(node, r)\<in>set rs. \<forall>m. r = Some m \<longrightarrow> node_covers v key s' node))"
  using assms(1)
proof (induction ts arbitrary: s s' rs)
  case (Cons t ts)
  obtain node te where [simp]: "t = (node, te)" by force
  obtain s1 r s2 rs' where
    w: "write_replica co te node key v (dict_get reps node) s = (s1, r)"
    and ts: "run_tasks co key v reps ts s1 = (s2, rs')" and [simp]: "s' = s2" "rs = (node, r) # rs'"
    using Cons.prems by (auto split: prod.splits)
  note first = write_replica_grows[OF w assms(2)]
  note rest = Cons.IH[OF ts]
  show ?case
    using first rest by (auto simp: grows_def)
qed auto

lemma run_batches_grows:
  assumes "run_batches co key v reps bs s = (s', rs)" "version_ok v"
  shows "grows s s' \<and> map fst (concat rs) = map fst (concat bs) \<and>
    (cluster_ok s \<longrightarrow> (\<forall>node\<in>responders (concat rs). node_covers v key s' node))"
  using assms(1)
proof (induction bs arbitrary: s s' rs)
  case (Cons b bs)
  obtain s1 r s2 rs' where
    b: "run_tasks co key v reps b s = (s1, r)"
    and bs: "run_batches co key v reps bs s1 = (s2, rs')" and [simp]: "s' = s2" "rs = r # rs'"
    using Cons.prems by (auto split: prod.splits)
  note first = run_tasks_grows[OF b assms(2)]
  note rest = Cons.IH[OF bs]
  have "responders (concat rs) = responders r \<union> responders (concat rs')"
    by (auto simp: responders_def)
  then show ?case
    using first rest by (fastforce simp: grows_def responders_def)
qed (auto simp: responders_def)

end
