(* ===== verification/KV_Replication_Theorems.thy ===== *)
theory KV_Replication_Theorems
  imports KV_Replication
begin

text \<open>
  Properties of the replicated store: causal order of vector clocks, convergence of sibling
  reconciliation, the clock a coordinator gives to a write, the targets of a request, and that a
  quorum read after a quorum write reports the write or something newer, whatever the other
  coordinators and replicas do in between.
\<close>

section \<open>The clock of a write\<close>

lemma min_node_mem: "min_node d best least = best \<or> min_node d best least \<in> fst ` set d"
  by (induction d best least rule: min_node.induct) auto

lemma least_node_mem: "least_node d = Inr node \<Longrightarrow> node \<in> fst ` set d"
  using min_node_mem by (fastforce simp: least_node_def split: list.splits)

lemma least_node_total: "d \<noteq> [] \<Longrightarrow> \<exists>node. least_node d = Inr node"
  by (auto simp: least_node_def split: list.splits)

text \<open>Pruning drops other nodes until the clock fits; it fails only if nothing else is left.\<close>

lemma prune_loop_result:
  assumes "prune_loop bound node d = Inr d'" "dict_ok d"
  shows "dict_ok d' \<and> int (length d') \<le> bound \<and> dict_get d' node = dict_get d node \<and>
    map_of d' \<subseteq>\<^sub>m map_of d \<and> (int (length d) \<le> bound \<longrightarrow> d' = d)"
  using assms
proof (induction bound node d rule: prune_loop.induct)
  case (1 bound node d)
  show ?case
  proof (cases "bound < int (length d)")
    case True
    then obtain victim where v: "least_node (filter (\<lambda>(m, _). m \<noteq> node) d) = Inr victim"
      "dict_get d victim \<noteq> None" "prune_loop bound node (dict_del victim d) = Inr d'"
      using "1.prems"(1) by (auto simp: prune_loop.simps[of bound] split: sum.splits if_splits)
    have "victim \<noteq> node" using least_node_mem[OF v(1)] by auto
    moreover have "map_of (dict_del victim d) \<subseteq>\<^sub>m map_of d"
      by (auto simp: map_le_def dict_simps)
    ultimately show ?thesis
      using "1.IH"[OF True v(1,2,3)] "1.prems"(2) True map_le_trans
      by (metis delete_conv' dict_ok_del fun_upd_other not_le)
  qed (use "1.prems" in \<open>simp_all add: prune_loop.simps[of bound]\<close>)
qed

lemma prune_loop_total:
  assumes "1 \<le> bound" "dict_ok d"
  shows "\<exists>d'. prune_loop bound node d = Inr d'"
  using assms
proof (induction bound node d rule: prune_loop.induct)
  case (1 bound node d)
  show ?case
  proof (cases "bound < int (length d)")
    case True
    have "filter (\<lambda>(m, _). m \<noteq> node) d \<noteq> []"
    proof
      assume "filter (\<lambda>(m, _). m \<noteq> node) d = []"
      then have "set (map fst d) \<subseteq> {node}" by (auto simp: filter_empty_conv)
      moreover have "card (set (map fst d)) = length d"
        using "1.prems"(2) by (metis dict_ok_def distinct_card length_map)
      ultimately have "length d \<le> 1" by (metis card_mono finite.simps is_singletonI is_singleton_altdef)
      then show False using True "1.prems"(1) by simp
    qed
    from least_node_total[OF this] obtain victim where
      v: "least_node (filter (\<lambda>(m, _). m \<noteq> node) d) = Inr victim" by blast
    have "dict_get d victim \<noteq> None"
      using least_node_mem[OF v] unfolding dict_get_dom by auto
    moreover from this have "prune_loop bound node d = prune_loop bound node (dict_del victim d)"
      by (subst prune_loop.simps) (auto simp: True v)
    ultimately show ?thesis using "1.IH"[OF True v] "1.prems" by simp
  qed (simp add: prune_loop.simps[of bound])
qed

lemma increment_present:
  assumes "dict_get (vc_entries c) node \<noteq> None" "int (length (vc_entries c)) \<le> vc_max_entries c"
  shows "increment node c =
    c\<lparr>vc_entries := dict_set node (counter c node + 1) (vc_entries c)\<rparr>"
  using assms by (auto simp: increment_def length_dict_set counter_def)

lemma fold_max_bounds: "(n :: int) \<le> fold max ns n \<and> (\<forall>m\<in>set ns. m \<le> fold max ns n)"
proof (induction ns arbitrary: n)
  case (Cons m ns)
  from Cons[of "max m n"] show ?case by (auto intro: order_trans)
qed simp

lemma own_counter_ge: "v \<in> set old \<Longrightarrow> counter (ver_clock v) node \<le> own_counter node old"
  using fold_max_bounds by (cases old) (auto simp: own_counter_def)

lemma own_counter_nonneg:
  assumes "\<forall>v\<in>set old. clock_ok (ver_clock v)"
  shows "0 \<le> own_counter node old"
proof (cases old)
  case (Cons v vs)
  then have "0 \<le> counter (ver_clock v) node" "counter (ver_clock v) node \<le> own_counter node old"
    using assms own_counter_ge[of v old] by auto
  then show ?thesis by (rule order_trans)
qed (simp add: own_counter_def)

text \<open>The client's clock, or the empty one.\<close>

definition client_clock :: "VectorClock option \<Rightarrow> VectorClock" where
  "client_clock client = (case client of None \<Rightarrow> vector_clock None 10 | Some c \<Rightarrow> c)"

lemma next_clock_shape:
  assumes "next_clock c client old = Inr clock" "clock_ok (client_clock client)"
  defines "own \<equiv> max (counter (client_clock client) (co_node c)) (own_counter (co_node c) old)"
  obtains d where "dict_ok d" "int (length d) \<le> vector_clock_max_entries (co_config c)"
    "dict_get d (co_node c) = Some own"
    "map_of d \<subseteq>\<^sub>m (map_of (vc_entries (client_clock client)))(co_node c \<mapsto> own)"
    "int (length (dict_set (co_node c) own (vc_entries (client_clock client))))
       \<le> vector_clock_max_entries (co_config c)
     \<Longrightarrow> d = dict_set (co_node c) own (vc_entries (client_clock client))"
    "clock = \<lparr>vc_entries = dict_set (co_node c) (own + 1) d,
              vc_max_entries = vector_clock_max_entries (co_config c)\<rparr>"
proof -
  let ?e = "vc_entries (client_clock client)" and ?m = "vector_clock_max_entries (co_config c)"
  let ?n = "co_node c"
  have e: "(case client of None \<Rightarrow> [] | Some vc \<Rightarrow> vc_entries vc) = ?e"
    by (simp add: client_clock_def vector_clock_def split: option.split)
  obtain d where d: "prune_loop ?m ?n (dict_set ?n own ?e) = Inr d"
    and clock: "clock = increment ?n (vector_clock (Some d) ?m)"
    using assms(1) unfolding next_clock_def Let_def e own_def counter_def by (auto simp: result_simps)
  have "dict_ok (dict_set ?n own ?e)" using assms(2) by (simp add: clock_ok_def)
  note r = prune_loop_result[OF d this]
  have own: "dict_get d ?n = Some own" using r by (simp add: dict_simps)
  moreover have "map_of d \<subseteq>\<^sub>m (map_of ?e)(?n \<mapsto> own)" using r by (simp add: update_conv')
  moreover have "clock = \<lparr>vc_entries = dict_set ?n (own + 1) d, vc_max_entries = ?m\<rparr>"
    using own r increment_present[of "vector_clock (Some d) ?m" ?n]
    by (simp add: clock vector_clock_def counter_some)
  ultimately show thesis using r by (intro that[of d]) auto
qed

lemma next_clock_counters:
  assumes "next_clock c client old = Inr clock" "clock_ok (client_clock client)"
    and "\<forall>v\<in>set old. clock_ok (ver_clock v)"
  shows "clock_ok clock"
    and "counter (client_clock client) (co_node c) < counter clock (co_node c)"
    and "v \<in> set old \<Longrightarrow> counter (ver_clock v) (co_node c) < counter clock (co_node c)"
    and "node \<noteq> co_node c \<Longrightarrow> counter clock node \<le> counter (client_clock client) node"
    and "int (length (vc_entries clock)) \<le> vector_clock_max_entries (co_config c)"
    and "int (length (vc_entries (client_clock client))) < vector_clock_max_entries (co_config c)
      \<Longrightarrow> counter (client_clock client) < counter clock"
proof -
  let ?cl = "client_clock client" and ?n = "co_node c"
  let ?own = "max (counter ?cl ?n) (own_counter ?n old)"
  obtain d where d: "dict_ok d" "int (length d) \<le> vector_clock_max_entries (co_config c)"
    "dict_get d ?n = Some ?own" "map_of d \<subseteq>\<^sub>m (map_of (vc_entries ?cl))(?n \<mapsto> ?own)"
    "int (length (dict_set ?n ?own (vc_entries ?cl))) \<le> vector_clock_max_entries (co_config c)
      \<Longrightarrow> d = dict_set ?n ?own (vc_entries ?cl)"
    "clock = \<lparr>vc_entries = dict_set ?n (?own + 1) d,
              vc_max_entries = vector_clock_max_entries (co_config c)\<rparr>"
    using next_clock_shape[OF assms(1,2)] by blast
  have own: "0 \<le> ?own" using counter_nonneg[OF assms(2), of ?n] by linarith
  have others: "dict_get (vc_entries ?cl) node = Some m" if "dict_get d node = Some m" "node \<noteq> ?n" for node m
    using d(4) that by (fastforce simp: map_le_def dom_def)
  have get: "counter clock node = (if node = ?n then ?own + 1 else dict_get_or d node 0)" for node
    by (simp add: d(6) counter_def counter_set)
  show ok: "clock_ok clock"
    using d(1) own others clock_ok_pos[OF assms(2)]
    by (auto simp: clock_ok_ran d(6) ran_def dict_simps split: if_splits)
  show "counter ?cl ?n < counter clock ?n" by (simp add: get)
  show "counter (ver_clock v) ?n < counter clock ?n" if "v \<in> set old" for v
    using own_counter_ge[OF that, of ?n] by (simp add: get)
  show "counter clock node \<le> counter ?cl node" if "node \<noteq> ?n" for node
    using that others[of node] assms(2)
    by (cases "dict_get d node") (auto simp: get dict_get_or_def counter_some)
  show "int (length (vc_entries clock)) \<le> vector_clock_max_entries (co_config c)"
    using d(2,3) by (simp add: d(6) length_dict_set)
  show "counter ?cl < counter clock"
    if "int (length (vc_entries ?cl)) < vector_clock_max_entries (co_config c)"
  proof -
    have "length (dict_set ?n ?own (vc_entries ?cl)) \<le> Suc (length (vc_entries ?cl))"
      by (simp add: length_dict_set)
    then have "d = dict_set ?n ?own (vc_entries ?cl)" using that d(5) by linarith
    then have "dict_get_or d node 0 = counter ?cl node" if "node \<noteq> ?n" for node
      using that by (simp add: counter_set counter_def)
    then have "counter ?cl node \<le> counter clock node" for node
      by (cases "node = ?n") (auto simp: get)
    moreover have "counter ?cl ?n < counter clock ?n" by (simp add: get)
    ultimately show ?thesis by (metis le_funI less_le not_le order_less_irrefl)
  qed
qed

section \<open>Targets\<close>

lemma substitute_loop_shape:
  assumes "substitute_loop order alive i primary selected reps = (sel, reps')"
    and "distinct selected" "\<forall>j<length primary. selected ! (i + j) = primary ! j"
    and "i + length primary = length selected"
  shows "length sel = length selected \<and> distinct sel \<and>
    (\<forall>j<length selected. sel ! j = selected ! j \<or>
       i \<le> j \<and> \<not> alive (selected ! j) \<and> alive (sel ! j) \<and> sel ! j \<in> set order)"
  using assms
proof (induction order alive i primary selected reps rule: substitute_loop.induct)
  case (2 order alive i node primary selected reps)
  have at: "selected ! i = node" "i < length selected"
    using "2.prems"(3)[rule_format, of 0] "2.prems"(4) by simp_all
  have rest: "\<forall>j<length primary. selected ! (Suc i + j) = primary ! j"
    using "2.prems"(3) by (metis Suc_less_eq add_Suc_shift length_Cons nth_Cons_Suc)
  have weaken: ?case if "length sel = length selected \<and> distinct sel \<and>
      (\<forall>j<length selected. sel ! j = selected ! j \<or>
         Suc i \<le> j \<and> \<not> alive (selected ! j) \<and> alive (sel ! j) \<and> sel ! j \<in> set order)"
    using that Suc_leD by blast
  show ?case
  proof (cases "alive node")
    case True
    show ?thesis by (rule weaken, rule "2.IH"(1)[OF True]) (use "2.prems" rest True in simp_all)
  next
    case dead: False
    show ?thesis
    proof (cases "find (\<lambda>c. c \<notin> set selected \<and> alive c) order")
      case None
      show ?thesis
        by (rule weaken, rule "2.IH"(2)[OF dead None]) (use "2.prems" rest dead None in simp_all)
    next
      case (Some c)
      then have c: "c \<notin> set selected" "alive c" "c \<in> set order"
        by (auto simp: find_Some_iff in_set_conv_nth)
      let ?sel = "selected[i := c]"
      have "distinct ?sel" using "2.prems"(2) c(1) by (simp add: distinct_list_update)
      moreover have "\<forall>j<length primary. ?sel ! (Suc i + j) = primary ! j" using rest by simp
      ultimately have "length sel = length ?sel \<and> distinct sel \<and>
          (\<forall>j<length ?sel. sel ! j = ?sel ! j \<or>
             Suc i \<le> j \<and> \<not> alive (?sel ! j) \<and> alive (sel ! j) \<and> sel ! j \<in> set order)"
        using "2.IH"(3)[OF dead Some] "2.prems" dead Some by simp
      then show ?thesis using at c dead by (auto simp: nth_list_update split: if_splits)
    qed
  qed
qed auto

lemma targets_shape:
  assumes "targets order n alive = (sel, reps)" "distinct order"
  shows "length sel = min n (length order) \<and> distinct sel \<and> set sel \<subseteq> set order \<and>
    (\<forall>j<length sel. sel ! j = order ! j \<or> \<not> alive (order ! j) \<and> alive (sel ! j))"
proof -
  have "substitute_loop order alive 0 (take n order) (take n order) [] = (sel, reps)"
    using assms(1) by (simp add: targets_def Let_def)
  from substitute_loop_shape[OF this] assms(2)
  have shape: "length sel = min n (length order)" "distinct sel"
    "\<forall>j<length sel. sel ! j = order ! j \<or> \<not> alive (order ! j) \<and> alive (sel ! j) \<and> sel ! j \<in> set order"
    by (auto simp: min_def)
  moreover have "set sel \<subseteq> set order"
  proof
    fix x assume "x \<in> set sel"
    then obtain j where "j < length sel" "x = sel ! j" by (auto simp: in_set_conv_nth)
    then show "x \<in> set order" using shape(1,3) by (cases "sel ! j = order ! j") auto
  qed
  ultimately show ?thesis by blast
qed

lemma spread_result:
  assumes "spread dcs order seen front rest = (d, r)" "distinct (map (domain_of dcs) front)" "domain_of dcs ` set front = seen"
  shows "mset (d @ r) = mset (front @ rest @ order) \<and> distinct (map (domain_of dcs) d) \<and>
    domain_of dcs ` set d = seen \<union> domain_of dcs ` set order"
  using assms
proof (induction order arbitrary: seen front rest)
  case (Cons node order)
  show ?case
  proof (cases "domain_of dcs node \<in> seen")
    case True
    then show ?thesis
      using Cons.IH[of seen front "rest @ [node]"] Cons.prems by (auto simp: Let_def)
  next
    case False
    then show ?thesis
      using Cons.IH[of "insert (domain_of dcs node) seen" "front @ [node]" rest] Cons.prems
      by (auto simp: Let_def)
  qed
qed auto

section \<open>Properties\<close>

text \<open>
  On clocks without zero counters, domination is the strict pointwise order of the counters,
  two clocks conflict exactly if neither is pointwise below the other, equality is equality of
  counters, and the merge is the least clock above both.
\<close>

theorem vector_clock_order:
  assumes "clock_ok a" "clock_ok b" "clock_ok c"
  shows "(dominates a b \<longleftrightarrow> (\<forall>node. counter b node \<le> counter a node) \<and> (\<exists>node. counter b node < counter a node))
    \<and> (conflicts_with a b \<longleftrightarrow> (\<exists>node. counter a node < counter b node) \<and> (\<exists>node. counter b node < counter a node))
    \<and> (clock_eq a b \<longleftrightarrow> (\<forall>node. counter a node = counter b node))
    \<and> clock_ok (clock_merge a b)
    \<and> ((\<forall>node. counter (clock_merge a b) node \<le> counter c node) \<longleftrightarrow>
       (\<forall>node. counter a node \<le> counter c node) \<and> (\<forall>node. counter b node \<le> counter c node))"
proof (intro conjI)
  show "dominates a b \<longleftrightarrow> (\<forall>node. counter b node \<le> counter a node) \<and> (\<exists>node. counter b node < counter a node)"
    by (simp add: dominates_iff assms less_fun_def le_fun_def not_le)
  show "conflicts_with a b \<longleftrightarrow> (\<exists>node. counter a node < counter b node) \<and> (\<exists>node. counter b node < counter a node)"
    by (auto simp: conflicts_iff assms le_fun_def not_le)
  show "clock_eq a b \<longleftrightarrow> (\<forall>node. counter a node = counter b node)"
    by (simp add: clock_eq_iff assms fun_eq_iff)
  show "(\<forall>node. counter (clock_merge a b) node \<le> counter c node) \<longleftrightarrow>
      (\<forall>node. counter a node \<le> counter c node) \<and> (\<forall>node. counter b node \<le> counter c node)"
    using clock_merge_least[OF assms] by (simp add: le_fun_def)
qed (use assms in simp)

abbreviation demo_clock :: "(string, int) dict \<Rightarrow> VectorClock" where
  "demo_clock d \<equiv> vector_clock (Some d) 10"

theorem vector_clock_order_witness:
  "dominates (demo_clock [(''a'', 2), (''b'', 1)]) (demo_clock [(''b'', 1)])
   \<and> conflicts_with (demo_clock [(''a'', 2)]) (demo_clock [(''b'', 1)])
   \<and> counter (demo_clock [(''a'', 2)]) ''a'' = 2"
proof -
  have ok: "clock_ok (demo_clock [(''a'', 2), (''b'', 1)])" "clock_ok (demo_clock [(''b'', 1)])"
    "clock_ok (demo_clock [(''a'', 2)])"
    by code_simp+
  have "counter (demo_clock [(''b'', 1)]) node \<le> counter (demo_clock [(''a'', 2), (''b'', 1)]) node" for node
    by (simp add: counter_def vector_clock_def dict_get_or_def)
  moreover have "counter (demo_clock [(''b'', 1)]) ''a'' < counter (demo_clock [(''a'', 2), (''b'', 1)]) ''a''"
    "counter (demo_clock [(''b'', 1)]) ''a'' < counter (demo_clock [(''a'', 2)]) ''a''"
    "counter (demo_clock [(''a'', 2)]) ''b'' < counter (demo_clock [(''b'', 1)]) ''b''"
    "counter (demo_clock [(''a'', 2)]) ''a'' = 2"
    by code_simp+
  ultimately show ?thesis
    using vector_clock_order[OF ok(1,2,1)] vector_clock_order[OF ok(3,2,1)] by blast
qed

text \<open>
  C10.  Reconciliation converges: reconciling what was already reconciled together with new
  versions gives what reconciling everything at once gives, in any order and with any repetition.
  A version is compared by its value, its counters and its timestamp; counters are positive.
\<close>

theorem reconcile_convergent:
  assumes "\<forall>v\<in>set xs \<union> set ys. version_ok v"
  shows "observe ` set (reconcile (reconcile xs @ ys)) = observe ` set (reconcile (xs @ ys))
    \<and> (set zs = set xs \<union> set ys \<longrightarrow> observe ` set (reconcile zs) = observe ` set (reconcile (xs @ ys)))"
proof (intro conjI impI)
  have ok: "\<forall>v\<in>set xs. version_ok v" "\<forall>v\<in>set (reconcile xs @ ys). version_ok v"
    "\<forall>v\<in>set (xs @ ys). version_ok v"
    using assms reconcile_ok[of xs] by auto
  have "observe ` set (reconcile (reconcile xs @ ys)) = siblings (siblings (observe ` set xs) \<union> observe ` set ys)"
    using reconcile_observed(1)[OF ok(2)] reconcile_observed(1)[OF ok(1)] by (simp add: image_Un)
  also have "\<dots> = observe ` set (reconcile (xs @ ys))"
    using reconcile_observed(1)[OF ok(3)] by (simp add: image_Un siblings_absorb)
  finally show "observe ` set (reconcile (reconcile xs @ ys)) = observe ` set (reconcile (xs @ ys))" .
  assume zs: "set zs = set xs \<union> set ys"
  then show "observe ` set (reconcile zs) = observe ` set (reconcile (xs @ ys))"
    using reconcile_observed(1)[OF ok(3)] reconcile_observed(1)[of zs] assms by simp
qed

definition demo_version :: "nat \<Rightarrow> (string, int) dict \<Rightarrow> Version" where
  "demo_version x d = \<lparr>ver_value = Some [of_nat x], ver_clock = demo_clock d, ver_timestamp = 0\<rparr>"

lemma demo_versions_ok:
  "version_ok (demo_version 1 [(''a'', 1)])" "version_ok (demo_version 2 [(''a'', 2)])"
  "version_ok (demo_version 3 [(''b'', 1)])"
  by (simp_all add: version_ok_def clock_ok_def dict_ok_def demo_version_def vector_clock_def float_nan_def)

theorem reconcile_convergent_witness:
  "observe ` set (reconcile (reconcile [demo_version 2 [(''a'', 2)]] @ [demo_version 1 [(''a'', 1)], demo_version 3 [(''b'', 1)]]))
   = observe ` set [demo_version 2 [(''a'', 2)], demo_version 3 [(''b'', 1)]]"
proof -
  have "reconcile ([demo_version 2 [(''a'', 2)]] @ [demo_version 1 [(''a'', 1)], demo_version 3 [(''b'', 1)]])
      = [demo_version 2 [(''a'', 2)], demo_version 3 [(''b'', 1)]]"
    by (simp add: reconcile_def undominated_def keep_newer_def version_id_def demo_version_def
        vector_clock_def dominates_def dict_get_or_def)
  then show ?thesis
    using reconcile_convergent[of "[demo_version 2 [(''a'', 2)]]"
        "[demo_version 1 [(''a'', 1)], demo_version 3 [(''b'', 1)]]" "[]"] demo_versions_ok
    by simp
qed

text \<open>
  C28.  Reconciliation loses nothing: every input version is in the result, with at least its
  timestamp, or dominated by a version of the result; the result holds input versions only, each
  value and clock once, and none dominates another.  Counters are positive; with zero counters this
  is false (\<open>zero_counters_lose_versions\<close>).
\<close>

theorem reconcile_keeps_frontier:
  assumes "\<forall>v\<in>set vs. version_ok v"
  shows "(\<forall>v\<in>set vs. \<exists>u\<in>set (reconcile vs). dominates (ver_clock u) (ver_clock v) \<or>
      ver_value u = ver_value v \<and> clock_eq (ver_clock u) (ver_clock v)
      \<and> float_key (ver_timestamp v) \<le> float_key (ver_timestamp u))
    \<and> set (reconcile vs) \<subseteq> set vs \<and> distinct (map observe (reconcile vs))
    \<and> (\<forall>u\<in>set (reconcile vs). \<forall>w\<in>set (reconcile vs). \<not> dominates (ver_clock u) (ver_clock w))"
proof (intro conjI ballI)
  note obs = reconcile_observed[OF assms]
  have okr: "clock_ok (ver_clock u)" if "u \<in> set (reconcile vs)" for u
    using that obs(2) assms by (auto simp: version_ok_def)
  fix v assume v: "v \<in> set vs"
  have "covers_version v (reconcile vs)"
    using covers_reconcile[OF assms, of v] v by (auto simp: covers_version_def)
  then obtain u where u: "u \<in> set (reconcile vs)" "observe u = observe v \<or> superseded (observe v) (observe u)"
    by (auto simp: covers_version_def)
  have okv: "clock_ok (ver_clock v)" using v assms by (simp add: version_ok_def)
  show "\<exists>u\<in>set (reconcile vs). dominates (ver_clock u) (ver_clock v) \<or>
      ver_value u = ver_value v \<and> clock_eq (ver_clock u) (ver_clock v)
      \<and> float_key (ver_timestamp v) \<le> float_key (ver_timestamp u)"
    using u okr[OF u(1)] okv
    by (intro bexI[of _ u]) (auto simp: dominates_iff clock_eq_iff observe_def superseded_def)
next
  fix u w assume "u \<in> set (reconcile vs)" "w \<in> set (reconcile vs)"
  then show "\<not> dominates (ver_clock u) (ver_clock w)"
    using candidates(1)[OF assms] by (auto simp: reconcile_def undominated_def list_ex_iff)
qed (use reconcile_observed[OF assms] in simp_all)

theorem reconcile_keeps_frontier_witness:
  "\<exists>u\<in>set (reconcile [demo_version 1 [(''a'', 1)], demo_version 2 [(''a'', 2)]]).
     dominates (ver_clock u) (ver_clock (demo_version 1 [(''a'', 1)])) \<or> ver_value u = Some [1]"
  using reconcile_keeps_frontier[of "[demo_version 1 [(''a'', 1)], demo_version 2 [(''a'', 2)]]"]
    demo_versions_ok by (auto simp: demo_version_def)

text \<open>A write that returned: its clock, the local merge, the replica tasks and the quorum.\<close>

lemma write_admitted_elim:
  assumes "write_admitted c order alive local tasks now key data client wc s0 = (s1, Inr (clock, k))"
    and "targets order (nat (q_n (get_quorum_config (co_config c) None))) alive = (sel, reps)"
  defines "v \<equiv> \<lparr>ver_value = data, ver_clock = clock, ver_timestamp = now\<rparr>"
  obtains s' results rs where
    "next_clock c client (records_read (node_store s0 (co_node c)) key) = Inr clock"
    "node_merge (co_codec c) local (co_node c) key [v] s0 = (s', Inr ())"
    "run_batches (co_codec c) key v reps tasks s' = (s1, results)"
    "collect (q_w (get_quorum_config (co_config c) wc)) results [] = Inr rs" "k = length rs"
  using assms(1,2) unfolding write_admitted_def v_def Let_def
  by (auto simp: result_simps split: sum.splits prod.splits)

lemma write_reaches_quorum:
  assumes ok: "cluster_ok s0" "clock_ok (client_clock client)" "\<not> float_nan now"
    and w: "write_admitted c order alive local tasks now key data client wc s0 = (s1, Inr (clock, k))"
    and t: "targets order (nat (q_n (get_quorum_config (co_config c) None))) alive = (sel, reps)"
    and d: "distinct (map fst (concat tasks))"
  defines "v \<equiv> \<lparr>ver_value = data, ver_clock = clock, ver_timestamp = now\<rparr>"
  obtains A where "A \<subseteq> fst ` set (concat tasks)" "card A = k"
    "q_w (get_quorum_config (co_config c) wc) \<le> int k" "\<forall>node\<in>A. node_covers v key s1 node"
    "cluster_ok s1" "version_ok v"
proof -
  obtain s' results rs where
    clock: "next_clock c client (records_read (node_store s0 (co_node c)) key) = Inr clock"
    and m: "node_merge (co_codec c) local (co_node c) key [v] s0 = (s', Inr ())"
    and r: "run_batches (co_codec c) key v reps tasks s' = (s1, results)"
    and q: "collect (q_w (get_quorum_config (co_config c) wc)) results [] = Inr rs" "k = length rs"
    using write_admitted_elim[OF w t] unfolding v_def by metis
  have "\<forall>v\<in>set (records_read (node_store s0 (co_node c)) key). clock_ok (ver_clock v)"
    using ok(1) by (auto simp: cluster_ok_def store_ok_def version_ok_def)
  from next_clock_counters(1)[OF clock ok(2) this] have v: "version_ok v"
    using ok(3) by (simp add: version_ok_def v_def)
  have "cluster_ok s'" using node_merge_grows(1)[OF m] v ok(1) by (simp add: grows_def)
  with run_batches_grows[OF r v] have s1: "cluster_ok s1" "map fst (concat results) = map fst (concat tasks)"
    "\<forall>node\<in>responders (concat results). node_covers v key s1 node" by (auto simp: grows_def)
  obtain heard where h: "set heard \<subseteq> set (concat results)" "length rs = card (responders heard)"
    "q_w (get_quorum_config (co_config c) wc) \<le> int (card (responders heard))"
    "responders heard \<subseteq> fst ` set (concat results)"
    using collect_responders[OF q(1)] d s1(2) by metis
  have "responders heard \<subseteq> responders (concat results)" using h(1) unfolding responders_def by blast
  moreover have "fst ` set (concat results) = fst ` set (concat tasks)"
    using s1(2) by (metis list.set_map)
  ultimately show thesis
    by (intro that[of "responders heard"]) (use h s1 v q(2) in auto)
qed

text \<open>What a read reports: the resolved version, or all the conflicting ones.\<close>

definition reported :: "GetResult \<Rightarrow> (bytes option \<times> VectorClock) list" where
  "reported res =
     (if get_conflict res then get_conflicting res
      else case get_clock res of None \<Rightarrow> [] | Some vc \<Rightarrow> [(get_value res, vc)])"

lemma reported_resolved: "reported (resolved vs) = map (\<lambda>v. (ver_value v, ver_clock v)) vs"
  by (auto simp: reported_def resolved_def split: list.split)

lemma read_reports:
  assumes g: "get_admitted c batches key rc = Inr res" "distinct (map fst (concat batches))"
    and run: "cluster_run co s es s'" "list_all event_ok es" "cluster_ok s"
    and ans: "\<forall>(node, r)\<in>set (concat batches). \<forall>vs. r = Some vs \<longrightarrow> Answered node key (Some vs) \<in> set es"
  obtains B where "B \<subseteq> fst ` set (concat batches)" "q_r (get_quorum_config (co_config c) rc) \<le> int (card B)"
    "\<forall>node\<in>B. \<forall>v. node_covers v key s node \<longrightarrow>
       (\<exists>u. (ver_value u, ver_clock u) \<in> set (reported res) \<and> version_ok u \<and>
         (observe u = observe v \<or> superseded (observe v) (observe u)))"
proof -
  obtain rs where q: "collect (q_r (get_quorum_config (co_config c) rc)) batches [] = Inr rs"
    and res: "res = resolved (reconcile (concat rs))"
    using g(1) by (auto simp: get_admitted_def result_simps)
  obtain heard where h: "set heard \<subseteq> set (concat batches)" "rs = List.map_filter snd heard"
    "q_r (get_quorum_config (co_config c) rc) \<le> int (card (responders heard))"
    "responders heard \<subseteq> fst ` set (concat batches)"
    using collect_responders[OF q g(2)] by metis
  have rs: "set rs = {vs. \<exists>node. (node, Some vs) \<in> set heard}"
    unfolding h(2) map_filter_snd by force
  have a: "Answered node key (Some vs) \<in> set es" if "(node, Some vs) \<in> set heard" for node vs
    using ans h(1) that by blast
  have ok: "\<forall>v\<in>set (concat rs). version_ok v"
    using run_answers(1)[OF run a] by (auto simp: rs list_all_iff)
  show thesis
  proof (rule that[of "responders heard"])
    show "\<forall>node\<in>responders heard. \<forall>v. node_covers v key s node \<longrightarrow>
       (\<exists>u. (ver_value u, ver_clock u) \<in> set (reported res) \<and> version_ok u \<and>
         (observe u = observe v \<or> superseded (observe v) (observe u)))"
    proof (intro ballI allI impI)
      fix node v assume "node \<in> responders heard" and v: "node_covers v key s node"
      then obtain vs where vs: "(node, Some vs) \<in> set heard" by (auto simp: responders_def)
      have "covers_version v vs" using run_answers(2)[OF run a[OF vs] v] .
      then have "covers_version v (concat rs)" using vs by (auto simp: covers_version_def rs)
      then obtain u where "u \<in> set (reconcile (concat rs))"
        "observe u = observe v \<or> superseded (observe v) (observe u)"
        using covers_reconcile[OF ok] by (auto simp: covers_version_def)
      then show "\<exists>u. (ver_value u, ver_clock u) \<in> set (reported res) \<and> version_ok u \<and>
           (observe u = observe v \<or> superseded (observe v) (observe u))"
        using reconcile_ok[OF ok] by (auto simp: res reported_resolved)
    qed
  qed (use h in auto)
qed

text \<open>
  C9.  A quorum read sees a quorum write.  When a write returned with its quorum, the cluster
  then took any steps, and a read got its quorum of answers during them from the same targets,
  with \<open>W + R > N\<close>, the read reports a version whose clock is the one of the write or dominates
  it; with the same clock it has the written value.  All counters involved are positive.
\<close>

theorem quorum_read_sees_write:
  assumes "cluster_ok s0" "clock_ok (client_clock client)" "\<not> float_nan now" "distinct order"
    and "write_admitted c order alive local tasks now key data client wc s0 = (s1, Inr (clock, k))"
    and "targets order (nat (q_n (get_quorum_config (co_config c) None))) alive = (sel, reps)"
    and "distinct (map fst (concat tasks))" "fst ` set (concat tasks) \<subseteq> set sel"
    and "cluster_run (co_codec c) s1 es s2" "list_all event_ok es"
    and "get_admitted c' batches key rc = Inr res"
    and "distinct (map fst (concat batches))" "fst ` set (concat batches) \<subseteq> set sel"
    and "\<forall>(node, r)\<in>set (concat batches). \<forall>vs. r = Some vs \<longrightarrow> Answered node key (Some vs) \<in> set es"
    and "0 \<le> n_replicas (co_config c)"
    and "n_replicas (co_config c)
       < q_w (get_quorum_config (co_config c) wc) + q_r (get_quorum_config (co_config c') rc)"
  shows "\<exists>(x, vc)\<in>set (reported res).
    dominates vc clock \<or> clock_eq vc clock \<and> x = data"
proof -
  let ?v = "\<lparr>ver_value = data, ver_clock = clock, ver_timestamp = now\<rparr>"
  obtain A where A: "A \<subseteq> fst ` set (concat tasks)" "card A = k"
    "q_w (get_quorum_config (co_config c) wc) \<le> int k" "\<forall>node\<in>A. node_covers ?v key s1 node"
    "cluster_ok s1" "version_ok ?v"
    using write_reaches_quorum[OF assms(1-3,5-7)] .
  obtain B where B: "B \<subseteq> fst ` set (concat batches)"
    "q_r (get_quorum_config (co_config c') rc) \<le> int (card B)"
    "\<forall>node\<in>B. \<forall>v. node_covers v key s1 node \<longrightarrow>
       (\<exists>u. (ver_value u, ver_clock u) \<in> set (reported res) \<and> version_ok u \<and>
         (observe u = observe v \<or> superseded (observe v) (observe u)))"
    using read_reports[OF assms(11,12,9,10) A(5) assms(14)] .
  have n: "q_n (get_quorum_config (co_config c) None) = n_replicas (co_config c)"
    by (simp add: get_quorum_config_def)
  have "length sel \<le> nat (n_replicas (co_config c))"
    using targets_shape[OF assms(6,4)] n by simp
  then have "card (set sel) \<le> nat (n_replicas (co_config c))"
    using card_length order_trans by blast
  then have "card (set sel) < card A + card B"
    using A(2,3) B(2) assms(15,16) by linarith
  then obtain node where "node \<in> A" "node \<in> B"
    using quorums_meet[of A "set sel" B] A(1) B(1) assms(8,13) by blast
  then obtain u where u: "(ver_value u, ver_clock u) \<in> set (reported res)" "version_ok u"
    "observe u = observe ?v \<or> superseded (observe ?v) (observe u)"
    using A(4) B(3) by blast
  have ok: "clock_ok (ver_clock u)" "clock_ok clock" using u(2) A(6) by (simp_all add: version_ok_def)
  have "dominates (ver_clock u) clock \<or> clock_eq (ver_clock u) clock \<and> ver_value u = data"
    using u(3) by (auto simp: dominates_iff clock_eq_iff ok observe_def superseded_def)
  with u(1) show ?thesis by blast
qed

text \<open>A cluster of three nodes, two of which acknowledge a write and two answer a read.\<close>

definition demo_codec :: codec where
  "demo_codec = \<lparr>row_text = (\<lambda>_. ''''), raw_size = (\<lambda>_. 0)\<rparr>"

definition demo_coordinator :: Coordinator where
  "demo_coordinator = \<lparr>co_node = ''a'', co_config = \<lparr>n_replicas = 3, w_quorum = 2, r_quorum = 2,
     vector_clock_max_entries = 10\<rparr>, co_codec = demo_codec\<rparr>"

definition demo_task :: task_env where
  "demo_task = \<lparr>hint_first = True, delivered = True, engine_outcome = Put_ok, answered = True, hint_second = True\<rparr>"

definition demo_write :: Version where
  "demo_write = demo_version 7 [(''a'', 1)]"

definition demo_after :: Cluster where
  "demo_after = \<lparr>cl_stores = [(''a'', [(''k'', [demo_write])]), (''b'', [(''k'', [demo_write])])], cl_hints = []\<rparr>"

lemma demo_decode: "decode_encoded demo_codec [demo_write] = Inr [demo_write]"
  by (simp add: decode_encoded_def demo_codec_def demo_write_def demo_version_def thaw_def
      thaw_version_def vector_clock_def check_version_def clock_limits_def float_finite_def float_le_def
      float_nan_def float_key_def MAX_RECORD_TIMESTAMP_def)

lemma demo_reconcile: "reconcile [demo_write] = [demo_write]"
  "reconcile [demo_write, demo_write] = [demo_write]"
  by (simp_all add: reconcile_def undominated_def keep_newer_def demo_write_def demo_version_def
      vector_clock_def dominates_def dict_get_or_def float_lt_def)

lemma demo_thaw: "thaw demo_codec [demo_write] = [demo_write]" "thaw demo_codec [] = []"
  by (simp_all add: thaw_def demo_codec_def thaw_version_def demo_write_def demo_version_def vector_clock_def)

abbreviation empty_cluster :: Cluster where
  "empty_cluster \<equiv> \<lparr>cl_stores = [], cl_hints = []\<rparr>"

lemma demo_merge:
  "records_merge demo_codec Put_ok ''k'' [demo_write] [] = ([(''k'', [demo_write])], Inr ())"
  "records_merge demo_codec Put_ok ''k'' [demo_write] [(''k'', [demo_write])] = ([(''k'', [demo_write])], Inr ())"
  by (simp_all add: records_merge_def demo_decode demo_reconcile demo_thaw records_read_def dict_get_or_def)

lemma demo_targets: "targets [''a'', ''b'', ''c''] 3 (\<lambda>_. True) = ([''a'', ''b'', ''c''], [])"
  by (simp add: targets_def)

lemma demo_clocks: "next_clock demo_coordinator None [] = Inr (demo_clock [(''a'', 1)])"
  by (simp add: next_clock_def demo_coordinator_def own_counter_def dict_get_or_def
      prune_loop.simps increment_def vector_clock_def)

lemma demo_write_returns:
  "write_admitted demo_coordinator [''a'', ''b'', ''c''] (\<lambda>_. True) Put_ok
     [[(''a'', demo_task), (''b'', demo_task)]] 0 ''k'' (Some [7]) None None empty_cluster
   = (demo_after, Inr (demo_clock [(''a'', 1)], 2))"
proof -
  have v: "\<lparr>ver_value = Some [7], ver_clock = demo_clock [(''a'', 1)], ver_timestamp = 0\<rparr> = demo_write"
    by (simp add: demo_write_def demo_version_def)
  have local: "node_merge demo_codec Put_ok ''a'' ''k'' [demo_write] empty_cluster
      = (\<lparr>cl_stores = [(''a'', [(''k'', [demo_write])])], cl_hints = []\<rparr>, Inr ())"
    by (simp add: node_merge_def node_store_def dict_get_or_def demo_merge)
  have tasks: "run_batches demo_codec ''k'' demo_write [] [[(''a'', demo_task), (''b'', demo_task)]]
      \<lparr>cl_stores = [(''a'', [(''k'', [demo_write])])], cl_hints = []\<rparr>
      = (demo_after, [[(''a'', Some ''a''), (''b'', Some ''b'')]])"
    by (simp add: write_replica_def replica_call_def demo_task_def node_merge_def node_store_def
        dict_get_or_def demo_merge demo_after_def)
  have conf: "get_quorum_config (co_config demo_coordinator) None = \<lparr>q_n = 3, q_w = 2, q_r = 2\<rparr>"
    "co_codec demo_coordinator = demo_codec" "co_node demo_coordinator = ''a''"
    by (simp_all add: demo_coordinator_def get_quorum_config_def)
  have valid: "validate_key_value ''k'' [7] = Inr ()" by (simp add: validate_key_value_def)
  have old: "records_read (node_store empty_cluster ''a'') ''k'' = []"
    by (simp add: records_read_def node_store_def dict_get_or_def)
  show ?thesis
    by (simp add: write_admitted_def valid old conf demo_clocks v local demo_targets tasks
        collect.simps map_filter_snd del: run_batches.simps)
qed

theorem quorum_read_sees_write_witness:
  "\<exists>(x, vc)\<in>set (reported (resolved [demo_write])).
     dominates vc (demo_clock [(''a'', 1)]) \<or> clock_eq vc (demo_clock [(''a'', 1)]) \<and> x = Some [7]"
proof -
  let ?es = "[Answered ''c'' ''k'' (Some []), Answered ''b'' ''k'' (Some [demo_write])]"
  have "cluster_step demo_codec demo_after (Answered ''c'' ''k'' (Some [])) demo_after"
    "cluster_step demo_codec demo_after (Answered ''b'' ''k'' (Some [demo_write])) demo_after"
    by (rule cluster_step.answered[where works = True],
        simp add: read_replica_def demo_after_def node_store_def records_read_def dict_get_or_def)+
  then have run: "cluster_run demo_codec demo_after ?es demo_after"
    by (blast intro: cluster_run.intros)
  have get: "get_admitted demo_coordinator [[(''c'', Some []), (''b'', Some [demo_write])]] ''k'' None
      = Inr (resolved [demo_write])"
    by (simp add: get_admitted_def validate_key_value_def get_quorum_config_def demo_coordinator_def
        collect.simps map_filter_snd demo_reconcile)
  have conf: "get_quorum_config (co_config demo_coordinator) None = \<lparr>q_n = 3, q_w = 2, q_r = 2\<rparr>"
    "co_codec demo_coordinator = demo_codec" "n_replicas (co_config demo_coordinator) = 3"
    by (simp_all add: demo_coordinator_def get_quorum_config_def)
  show ?thesis
    by (rule quorum_read_sees_write[OF _ _ _ _ demo_write_returns, where c' = demo_coordinator
          and es = ?es and rc = None and sel = "[''a'', ''b'', ''c'']" and reps = "[]" and ?s2.0 = demo_after
          and batches = "[[(''c'', Some []), (''b'', Some [demo_write])]]"])
      (use run get in \<open>simp_all add: conf demo_targets cluster_ok_def store_ok_def node_store_def
          records_read_def dict_get_or_def client_clock_def clock_ok_def vector_clock_def float_nan_def\<close>)
qed

text \<open>
  With a valid configuration a coordinator always finds a clock for a write.  Its own counter
  exceeds the client's and that of every stored version, so no version is reused and no stored
  version hides the write; no other counter grows; the clock respects its bound; and it dominates
  the client's clock whenever that leaves room for one more entry.
\<close>

theorem coordinator_clock_fresh:
  assumes "replication_config n w r m = Inr (co_config c)"
    and "clock_ok (client_clock client)" "\<forall>v\<in>set old. clock_ok (ver_clock v)"
  shows "\<exists>clock. next_clock c client old = Inr clock \<and> clock_ok clock
    \<and> counter (client_clock client) (co_node c) < counter clock (co_node c)
    \<and> (\<forall>v\<in>set old. counter (ver_clock v) (co_node c) < counter clock (co_node c)
         \<and> \<not> dominates (ver_clock v) clock)
    \<and> (\<forall>node. node \<noteq> co_node c \<longrightarrow> counter clock node \<le> counter (client_clock client) node)
    \<and> int (length (vc_entries clock)) \<le> m
    \<and> (int (length (vc_entries (client_clock client))) < m \<longrightarrow> dominates clock (client_clock client))"
proof -
  have "1 \<le> m \<and> co_config c = \<lparr>n_replicas = n, w_quorum = w, r_quorum = r, vector_clock_max_entries = m\<rparr>"
    using assms(1) by (auto simp: replication_config_def split: if_splits)
  then have m: "1 \<le> m" "vector_clock_max_entries (co_config c) = m" by simp_all
  have e: "(case client of None \<Rightarrow> [] | Some vc \<Rightarrow> vc_entries vc) = vc_entries (client_clock client)"
    by (simp add: client_clock_def vector_clock_def split: option.split)
  have "dict_ok (dict_set (co_node c) x (vc_entries (client_clock client)))" for x
    using assms(2) by (simp add: clock_ok_def)
  from prune_loop_total[OF m(1) this]
  have "\<exists>d. prune_loop m (co_node c) (dict_set (co_node c) x (vc_entries (client_clock client))) = Inr d" for x .
  then have "\<exists>clock. next_clock c client old = Inr clock"
    unfolding next_clock_def Let_def m(2) e by (metis and_then.simps(2))
  then obtain clock where clock: "next_clock c client old = Inr clock" ..
  note facts = next_clock_counters[OF clock assms(2,3)]
  have "\<not> dominates (ver_clock v) clock" if "v \<in> set old" for v
    using facts(3)[OF that] that assms(3) facts(1)
    by (auto simp: dominates_iff less_fun_def le_fun_def not_le)
  moreover have "dominates clock (client_clock client)"
    if "int (length (vc_entries (client_clock client))) < m"
    using facts(6) that m(2) by (simp add: dominates_iff facts(1) assms(2))
  ultimately show ?thesis using clock facts m(2) by blast
qed

theorem coordinator_clock_fresh_witness:
  "\<exists>clock. next_clock demo_coordinator (Some (demo_clock [(''b'', 4)])) [demo_write] = Inr clock
     \<and> 1 < counter clock ''a'' \<and> dominates clock (demo_clock [(''b'', 4)])"
proof -
  have "replication_config 3 2 2 10 = Inr (co_config demo_coordinator)"
    by (simp add: replication_config_def demo_coordinator_def)
  from coordinator_clock_fresh[OF this, of "Some (demo_clock [(''b'', 4)])" "[demo_write]"]
  show ?thesis
    by (auto simp: client_clock_def clock_ok_def dict_ok_def vector_clock_def demo_write_def
        demo_version_def counter_def dict_get_or_def demo_coordinator_def)
qed

text \<open>
  Targets of a request on a reached ring: as many distinct ring nodes as replicas are
  configured (or nodes exist), each the preferred node of its position unless that one is not
  alive and the chosen one is; and the preference list starts with one node of every data center.
\<close>

theorem placement_targets:
  assumes "reachable_ring r" "nodes (state r) \<noteq> []"
    and "placement_get_nodes (snapshot r) dcs key (length (nodes (state r))) = Inr order"
    and "targets order n alive = (sel, reps)"
  shows "distinct sel \<and> length sel = min n (length (nodes (state r))) \<and> set sel \<subseteq> set (nodes (state r))
    \<and> (\<forall>j<length sel. sel ! j = order ! j \<or> \<not> alive (order ! j) \<and> alive (sel ! j))
    \<and> (\<exists>d. inj_on (domain_of dcs) (set (take d order))
        \<and> domain_of dcs ` set (take d order) = domain_of dcs ` set order)"
proof -
  have st: "snap_state (snapshot r) = state r" by (simp add: snapshot_def)
  obtain ring_order front rest where
    ring: "get_nodes (snapshot r) key (int (length (nodes (state r)))) = Inr ring_order"
    and sp: "spread dcs ring_order {} [] [] = (front, rest)"
    and order: "order = take (length (nodes (state r))) (front @ rest)"
    using assms(3) unfolding placement_get_nodes_def st
    by (cases "get_nodes (snapshot r) key (int (length (nodes (state r))))")
      (auto split: prod.splits simp: Let_def)
  have ro: "distinct ring_order" "set ring_order \<subseteq> set (nodes (state r))"
    "length ring_order = length (nodes (state r))"
    using get_nodes_result[OF _ ring] reachable_ring_ok[OF assms(1)] assms(2)
    by (auto simp: ring_ok_def st snapshot_def)
  have res: "mset (front @ rest) = mset ring_order" "distinct (map (domain_of dcs) front)"
    "domain_of dcs ` set front = domain_of dcs ` set ring_order"
    using spread_result[OF sp] by auto
  then have perm: "length (front @ rest) = length ring_order" "set (front @ rest) = set ring_order"
    "distinct (front @ rest)"
    using ro(1) by (metis mset_eq_length, metis mset_eq_setD, metis mset_eq_imp_distinct_iff)
  then have o: "order = front @ rest" using order ro(3) by simp
  have dc: "inj_on (domain_of dcs) (set (take (length front) order))
        \<and> domain_of dcs ` set (take (length front) order) = domain_of dcs ` set order"
    using res(2,3) perm(2) by (auto simp: o distinct_map)
  have "distinct sel \<and> length sel = min n (length (nodes (state r))) \<and> set sel \<subseteq> set (nodes (state r))
      \<and> (\<forall>j<length sel. sel ! j = order ! j \<or> \<not> alive (order ! j) \<and> alive (sel ! j))"
    using targets_shape[OF assms(4)[unfolded o] perm(3)] perm(1,2) ro(2,3) unfolding o by simp blast
  with dc show ?thesis by blast
qed

theorem placement_targets_witness:
  "fst (targets [''a'', ''b''] 2 (\<lambda>n. n = ''b'')) = [''a'', ''b'']
   \<and> length (fst (targets [''a'', ''b''] 2 (\<lambda>n. n = ''b''))) = min 2 (length (nodes (state demo_ring)))"
proof -
  have p: "placement_get_nodes (snapshot demo_ring) [] ''x'' (length (nodes (state demo_ring)))
      = Inr [''a'', ''b'']" by code_simp
  have n: "nodes (state demo_ring) \<noteq> []" by code_simp
  have t: "targets [''a'', ''b''] 2 (\<lambda>n. n = ''b'') = ([''a'', ''b''], [])" by code_simp
  from placement_targets[OF demo_reachable n p t] t show ?thesis by simp
qed

text \<open>The test of the code on entries, without assuming that counters are positive.\<close>

lemma dominates_entries:
  "dominates a b \<longleftrightarrow> (\<forall>(node, n)\<in>set (vc_entries b). n \<le> counter a node) \<and>
     ((\<exists>(node, n)\<in>set (vc_entries b). n < counter a node) \<or>
      (\<exists>(node, n)\<in>set (vc_entries a). dict_get (vc_entries b) node = None))"
  by (auto simp: dominates_def dominates_loop_eq counter_def list_ex_iff)

lemma entries_counter:
  assumes "dict_ok (vc_entries c)" "(node, n) \<in> set (vc_entries c)"
  shows "counter c node = n"
  using assms by (simp add: counter_some dict_ok_def)

lemma limits_counter: "clock_limits c \<Longrightarrow> 0 \<le> counter c node"
  by (cases "dict_get (vc_entries c) node")
    (auto simp: clock_limits_def list_all_iff counter_some counter_none dest: map_of_SomeD)

lemma entries_le:
  assumes "clock_limits a" "dict_ok (vc_entries b)"
  shows "(\<forall>(node, n)\<in>set (vc_entries b). n \<le> counter a node) \<longleftrightarrow> counter b \<le> counter a"
proof
  assume l: "\<forall>(node, n)\<in>set (vc_entries b). n \<le> counter a node"
  show "counter b \<le> counter a"
  proof (rule le_funI)
    fix node
    show "counter b node \<le> counter a node"
      using l limits_counter[OF assms(1), of node]
      by (cases "dict_get (vc_entries b) node") (auto simp: counter_some counter_none dest: map_of_SomeD)
  qed
qed (auto simp: le_fun_def dest: entries_counter[OF assms(2)])

lemma dominates_limits:
  assumes "clock_limits a" "dict_ok (vc_entries b)"
  shows "dominates a b \<longleftrightarrow> counter b \<le> counter a \<and>
     (counter b \<noteq> counter a \<or> (\<exists>node. dict_get (vc_entries a) node \<noteq> None \<and> dict_get (vc_entries b) node = None))"
proof -
  have "(\<exists>(node, n)\<in>set (vc_entries a). dict_get (vc_entries b) node = None) \<longleftrightarrow>
      (\<exists>node. dict_get (vc_entries a) node \<noteq> None \<and> dict_get (vc_entries b) node = None)"
    unfolding dict_get_dom[of "vc_entries a"] by force
  moreover have "counter b \<noteq> counter a \<longleftrightarrow> (\<exists>(node, n)\<in>set (vc_entries b). n < counter a node) \<or>
      (\<exists>node. dict_get (vc_entries b) node = None \<and> counter a node \<noteq> 0)" if le: "counter b \<le> counter a"
  proof -
    have "counter b node \<noteq> counter a node \<longleftrightarrow> (\<exists>n. (node, n) \<in> set (vc_entries b) \<and> n < counter a node) \<or>
        (dict_get (vc_entries b) node = None \<and> counter a node \<noteq> 0)" for node
      using le_funD[OF le, of node] unfolding dict_get_mem[OF assms(2)]
      by (cases "dict_get (vc_entries b) node") (auto simp: counter_some counter_none)
    then show ?thesis by (auto simp: fun_eq_iff)
  qed
  moreover have "dict_get (vc_entries a) node \<noteq> None" if "counter a node \<noteq> 0" for node
    using that counter_none by blast
  ultimately show ?thesis unfolding dominates_entries entries_le[OF assms] by blast
qed

text \<open>
  C29.  When reconciliation loses everything.  Two versions that the record decoder accepts are both
  dropped exactly when their clocks have the same counters and each lists a node that the other does
  not, which is possible because the decoder accepts zero counters: then each dominates the other,
  whatever the values are.
\<close>

theorem zero_counters_lose_versions:
  assumes "check_version v = Inr ()" "check_version w = Inr ()"
    and "dict_ok (vc_entries (ver_clock v))" "dict_ok (vc_entries (ver_clock w))"
  shows "reconcile [v, w] = [] \<longleftrightarrow> counter (ver_clock v) = counter (ver_clock w)
    \<and> (\<exists>node. dict_get (vc_entries (ver_clock v)) node \<noteq> None \<and> dict_get (vc_entries (ver_clock w)) node = None)
    \<and> (\<exists>node. dict_get (vc_entries (ver_clock w)) node \<noteq> None \<and> dict_get (vc_entries (ver_clock v)) node = None)"
proof -
  have l: "clock_limits (ver_clock v)" "clock_limits (ver_clock w)"
    using assms(1,2) by (simp_all add: check_version_def and_then_Inr_iff require_Inr_iff)
  note dom = dominates_limits[OF l(1) assms(4)] dominates_limits[OF l(2) assms(3)]
  have self: "\<not> dominates (ver_clock v) (ver_clock v)" "\<not> dominates (ver_clock w) (ver_clock w)"
    using dominates_limits[OF l(1) assms(3)] dominates_limits[OF l(2) assms(4)] by blast+
  show ?thesis
  proof (cases "version_id v = version_id w")
    case True
    then have "mset (vc_entries (ver_clock v)) = mset (vc_entries (ver_clock w))"
      by (metis version_id_def mset_sort prod.inject)
    then have "set (vc_entries (ver_clock v)) = set (vc_entries (ver_clock w))" by (rule mset_eq_setD)
    then have "dict_get (vc_entries (ver_clock v)) = dict_get (vc_entries (ver_clock w))"
      using map_of_inject_set assms(3,4) unfolding dict_ok_def by blast
    moreover have "reconcile [v, w] \<noteq> []"
      using True self by (simp add: reconcile_def undominated_def keep_newer_def)
    ultimately show ?thesis by auto
  next
    case False
    then have "reconcile [v, w] = [] \<longleftrightarrow> dominates (ver_clock w) (ver_clock v) \<and> dominates (ver_clock v) (ver_clock w)"
      using self by (auto simp: reconcile_def undominated_def keep_newer_def)
    then show ?thesis unfolding dom(1,2) by (metis order.antisym order.refl)
  qed
qed

theorem zero_counters_lose_versions_witness:
  "reconcile [demo_version 1 [(''a'', 0)], demo_version 2 [(''b'', 0)]] = []"
proof -
  have "check_version (demo_version 1 [(''a'', 0)]) = Inr ()" "check_version (demo_version 2 [(''b'', 0)]) = Inr ()"
    by (simp_all add: demo_version_def vector_clock_def check_version_def clock_limits_def float_finite_def
        float_le_def float_nan_def float_key_def MAX_RECORD_TIMESTAMP_def)
  from zero_counters_lose_versions[OF this] show ?thesis
    by (simp add: demo_version_def vector_clock_def dict_ok_def counter_def dict_get_or_def fun_eq_iff)
qed

text \<open>
  C31.  The stand-alone coordinator removes duplicates by clock alone: of two different values with
  the same clock it returns the first without reporting a conflict, where reconciliation keeps both.
\<close>

theorem same_clock_conflict_hidden:
  assumes "clock_ok c" "x \<noteq> y"
  shows "resolve_read_conflicts [(x, c), (y, c)] = single_answer (x, c)
    \<and> length (reconcile [\<lparr>ver_value = Some x, ver_clock = c, ver_timestamp = 0\<rparr>,
                          \<lparr>ver_value = Some y, ver_clock = c, ver_timestamp = 0\<rparr>]) = 2"
proof -
  have "\<not> dominates c c" "clock_eq c c" using assms(1) by (simp_all add: dominates_iff clock_eq_iff)
  then show ?thesis
    using assms(2)
    by (simp add: resolve_read_conflicts_def non_dominated_def reconcile_def undominated_def
        keep_newer_def version_id_def)
qed

theorem same_clock_conflict_hidden_witness:
  "resolve_read_conflicts [([1], demo_clock [(''a'', 1)]), ([2], demo_clock [(''a'', 1)])]
   = single_answer ([1], demo_clock [(''a'', 1)])"
proof -
  have "clock_ok (demo_clock [(''a'', 1)])" "[1 :: byte] \<noteq> [2]"
    by (simp_all add: clock_ok_def dict_ok_def vector_clock_def)
  from same_clock_conflict_hidden[OF this] show ?thesis by simp
qed

section \<open>Stored records decode\<close>

text \<open>
  The laws of the encoding: the text of a row and the length of a record do not depend on the order
  of rows or of the keys of a clock, because the encoder sorts both.
\<close>

definition codec_stable :: "codec \<Rightarrow> bool" where
  "codec_stable co \<longleftrightarrow>
     (\<forall>v. row_text co (thaw_version v) = row_text co v) \<and> (\<forall>vs. raw_size co (thaw co vs) = raw_size co vs)"

definition records_decode :: "codec \<Rightarrow> record_store \<Rightarrow> bool" where
  "records_decode co st \<longleftrightarrow> (\<forall>(key, vs)\<in>set st. decode_encoded co vs = Inr vs)"

lemma thaw_version_idem: "thaw_version (thaw_version v) = thaw_version v"
  by (simp add: thaw_version_def sort_key_id_if_sorted)

lemma thaw_idem:
  assumes "codec_stable co"
  shows "thaw co (thaw co vs) = thaw co vs"
proof -
  let ?xs = "map thaw_version (sort_key (row_text co) vs)"
  have "map (row_text co) ?xs = map (row_text co) (sort_key (row_text co) vs)"
    using assms by (simp add: codec_stable_def)
  then have "sorted (map (row_text co) ?xs)" by (metis sorted_sort_key)
  then have "sort_key (row_text co) ?xs = ?xs" by (rule sort_key_id_if_sorted)
  then show ?thesis by (simp add: thaw_def thaw_version_idem)
qed

lemma decode_encoded_idem:
  assumes "codec_stable co" "decode_encoded co vs = Inr ws"
  shows "decode_encoded co ws = Inr ws"
proof -
  have ws: "ws = thaw co vs" using assms(2) by (rule decode_encoded_thaw)
  have "length ws = length vs" by (simp add: ws thaw_def)
  moreover have "raw_size co ws = raw_size co vs" using assms(1) by (simp add: codec_stable_def ws)
  moreover have "thaw co ws = thaw co vs" using thaw_idem[OF assms(1)] by (simp add: ws)
  ultimately show ?thesis using assms(2) by (simp add: decode_encoded_def)
qed

lemma records_merge_decode:
  assumes "codec_stable co" "records_decode co st"
  shows "records_decode co (fst (records_merge co put key vs st))"
proof -
  have set_ok: "records_decode co (dict_set key ws st)" if "decode_encoded co us = Inr ws" for us ws
    using assms(2) decode_encoded_idem[OF assms(1) that] set_dict_set[of key ws st]
    unfolding records_decode_def by blast
  show ?thesis
    using assms(2) set_ok unfolding records_merge_def Let_def
    by (auto split: sum.splits if_splits put_outcome.splits)
qed

definition cluster_decodes :: "codec \<Rightarrow> Cluster \<Rightarrow> bool" where
  "cluster_decodes co s \<longleftrightarrow> (\<forall>node. records_decode co (node_store s node))"

lemma cluster_decodes_stores: "cl_stores s' = cl_stores s \<Longrightarrow> cluster_decodes co s' = cluster_decodes co s"
  by (simp add: cluster_decodes_def node_store_def)

lemma node_merge_decodes:
  assumes "codec_stable co" "cluster_decodes co s"
  shows "cluster_decodes co (fst (node_merge co put node key vs s))"
  using assms records_merge_decode[OF assms(1), of "node_store s node" put key vs]
  by (auto simp: cluster_decodes_def node_merge_def node_store_set split: prod.splits)

lemma write_replica_decodes:
  assumes "codec_stable co" "cluster_decodes co s" "write_replica co te node key v original s = (s', r)"
  shows "cluster_decodes co s'"
proof -
  define s1 where "s1 = (case original of None \<Rightarrow> s | Some x \<Rightarrow> save_hint (hint_first te) x key v s)"
  obtain s2 success where call: "(if original \<noteq> None \<and> \<not> hint_first te then (s1, False)
      else replica_call co te node key v s1) = (s2, success)" by force
  have "cl_stores s' = cl_stores s2"
    using assms(3) call by (auto simp: write_replica_def Let_def s1_def[symmetric] split: if_splits)
  moreover have "cl_stores s1 = cl_stores s" by (simp add: s1_def split: option.split)
  then have s1: "cluster_decodes co s1" using assms(2) cluster_decodes_stores by blast
  have "cluster_decodes co s2"
    using call s1 node_merge_decodes[OF assms(1) s1, of "engine_outcome te" node key "[v]"]
    by (auto simp: replica_call_def split: if_splits prod.splits)
  ultimately show ?thesis using cluster_decodes_stores by blast
qed

lemma step_decodes:
  "cluster_step co s e s' \<Longrightarrow> codec_stable co \<Longrightarrow> cluster_decodes co s \<Longrightarrow> cluster_decodes co s'"
proof (induction rule: cluster_step.induct)
  case (merged put node key vs s s' r)
  then show ?case using node_merge_decodes[of co s put node key vs] by simp
qed (auto intro: write_replica_decodes)

lemma run_decodes:
  "cluster_run co s es s' \<Longrightarrow> codec_stable co \<Longrightarrow> cluster_decodes co s \<Longrightarrow> cluster_decodes co s'"
  by (induction rule: cluster_run.induct) (auto intro: step_decodes)

text \<open>
  C30.  Replica records are well formed: in every state a cluster reaches from empty stores, each
  stored record is within the decoder's limits and decodes to itself, so reading it cannot fail.
\<close>

theorem replica_records_decode:
  assumes "codec_stable co" "cluster_run co empty_cluster es s"
    and "vs = records_read (node_store s node) key" "vs \<noteq> []"
  shows "decode_encoded co vs = Inr vs \<and> length vs \<le> 256 \<and> (\<forall>v\<in>set vs. check_version v = Inr ())"
proof -
  have "cluster_decodes co empty_cluster"
    by (simp add: cluster_decodes_def records_decode_def node_store_def dict_get_or_def)
  then have "records_decode co (node_store s node)"
    using run_decodes[OF assms(2,1)] by (simp add: cluster_decodes_def)
  moreover have "(key, vs) \<in> set (node_store s node)"
    using assms(3,4) by (auto simp: records_read_def dict_get_or_def dest: map_of_SomeD split: option.splits)
  ultimately have d: "decode_encoded co vs = Inr vs" by (auto simp: records_decode_def)
  have "thaw co vs = vs" using decode_encoded_thaw[OF d] by simp
  then have "length vs \<le> 256 \<and> (\<exists>us. traverse check_version vs = Inr us)"
    using d by (auto simp: decode_encoded_def result_simps)
  then show ?thesis
    using d by (auto simp: traverse_Inr_iff list_all2_conv_all_nth in_set_conv_nth)
qed

theorem replica_records_decode_witness:
  "decode_encoded demo_codec [demo_write] = Inr [demo_write] \<and> check_version demo_write = Inr ()"
proof -
  have stable: "codec_stable demo_codec" by (simp add: codec_stable_def demo_codec_def)
  let ?s = "\<lparr>cl_stores = [(''a'', [(''k'', [demo_write])])], cl_hints = []\<rparr>"
  have "node_merge demo_codec Put_ok ''a'' ''k'' [demo_write] empty_cluster = (?s, Inr ())"
    by (simp add: node_merge_def node_store_def dict_get_or_def demo_merge)
  then have run: "cluster_run demo_codec empty_cluster [Merged ''a'' ''k'' [demo_write]] ?s"
    by (blast intro: cluster_run.intros cluster_step.merged)
  have "[demo_write] = records_read (node_store ?s ''a'') ''k''"
    by (simp add: records_read_def node_store_def dict_get_or_def)
  from replica_records_decode[OF stable run this] show ?thesis by simp
qed

end
