(* ===== verification/KV_Merkle.thy ===== *)
theory KV_Merkle
  imports Bytes
begin

text \<open>
  The Merkle index of the key-value store (\<^verbatim>\<open>kv_store/cluster/merkle_tree.py\<close>): keys are hashed
  into buckets, the hashes of the buckets are the leaves of a binary tree kept in a heap array, and
  an update recomputes the path of its bucket only.  SHA-256 is the parameter \<open>sha\<close>.  A Python
  string is its UTF-8 encoding, as in \<^verbatim>\<open>Bytes\<close>; \<^verbatim>\<open>bisect\<close> on the sorted keys of a bucket is given
  by its contract, the number of smaller keys.

  The lemmas show that the array satisfies the equations of the tree after every operation, that
  these equations determine it, and that a content that gives the same root is the same content
  unless the hash collides on two of the inputs that were hashed.
\<close>

unbundle bit_operations_syntax

section \<open>Encodings\<close>

definition hex_digit :: "nat \<Rightarrow> byte" where
  "hex_digit n = (if n < 10 then of_nat (48 + n) else of_nat (87 + n))"

definition hex_byte :: "byte \<Rightarrow> bytes" where
  "hex_byte b = [hex_digit (unat b div 16), hex_digit (unat b mod 16)]"

definition hex :: "bytes \<Rightarrow> bytes" where
  "hex bs = concat (map hex_byte bs)"

definition be_bytes :: "nat \<Rightarrow> nat \<Rightarrow> bytes" where
  "be_bytes n x = rev (le_bytes n x)"

definition framed :: "bytes \<Rightarrow> bytes" where
  "framed part = be_bytes 8 (length part) @ part"

section \<open>The tree\<close>

record MerkleTree =
  mk_count :: nat
  mk_buckets :: "(bytes, bytes) dict list"
  mk_keys :: "bytes list list"
  mk_hashes :: "bytes list"
  mk_heap :: "bytes list"
  mk_root :: bytes

definition key_to_bucket :: "(bytes \<Rightarrow> bytes) \<Rightarrow> nat \<Rightarrow> bytes \<Rightarrow> nat" where
  "key_to_bucket sha n key = le_nat (rev (take 4 (sha key))) mod n"

definition bucket_input :: "bytes list \<Rightarrow> (bytes, bytes) dict \<Rightarrow> bytes" where
  "bucket_input keys bucket =
     concat (map (\<lambda>key. framed key @ framed (dict_get_or bucket key [])) keys)"

definition bucket_hash :: "(bytes \<Rightarrow> bytes) \<Rightarrow> bytes list \<Rightarrow> (bytes, bytes) dict \<Rightarrow> bytes" where
  "bucket_hash sha keys bucket = (if bucket = [] then [] else hex (sha (bucket_input keys bucket)))"

definition recompute_bucket :: "(bytes \<Rightarrow> bytes) \<Rightarrow> nat \<Rightarrow> MerkleTree \<Rightarrow> MerkleTree" where
  "recompute_bucket sha i t =
     t\<lparr>mk_hashes := (mk_hashes t)[i := bucket_hash sha (mk_keys t ! i) (mk_buckets t ! i)]\<rparr>"

definition set_leaf :: "(bytes \<Rightarrow> bytes) \<Rightarrow> MerkleTree \<Rightarrow> nat \<Rightarrow> bytes list \<Rightarrow> bytes list" where
  "set_leaf sha t i heap = heap[mk_count t + i := sha (mk_hashes t ! i)]"

definition set_inner :: "(bytes \<Rightarrow> bytes) \<Rightarrow> nat \<Rightarrow> bytes list \<Rightarrow> bytes list" where
  "set_inner sha i heap = heap[i := sha (heap ! (i * 2) @ heap ! (i * 2 + 1))]"

definition recompute_root :: "(bytes \<Rightarrow> bytes) \<Rightarrow> MerkleTree \<Rightarrow> MerkleTree" where
  "recompute_root sha t =
     (let heap = replicate (2 * mk_count t) [];
          heap = fold (set_leaf sha t) [0 ..< length (mk_hashes t)] heap;
          heap = fold (set_inner sha) (rev [1 ..< mk_count t]) heap in
      t\<lparr>mk_heap := heap, mk_root := hex (heap ! 1)\<rparr>)"

fun path_loop :: "(bytes \<Rightarrow> bytes) \<Rightarrow> nat \<Rightarrow> bytes list \<Rightarrow> bytes list" where
  "path_loop sha index heap =
     (if 1 < index then path_loop sha (index div 2) (set_inner sha (index div 2) heap) else heap)"

declare path_loop.simps [simp del]

definition update_path :: "(bytes \<Rightarrow> bytes) \<Rightarrow> nat \<Rightarrow> MerkleTree \<Rightarrow> MerkleTree" where
  "update_path sha bucket_id t =
     (let heap = path_loop sha (mk_count t + bucket_id) (set_leaf sha t bucket_id (mk_heap t)) in
      t\<lparr>mk_heap := heap, mk_root := hex (heap ! 1)\<rparr>)"

definition recompute_all :: "(bytes \<Rightarrow> bytes) \<Rightarrow> MerkleTree \<Rightarrow> MerkleTree" where
  "recompute_all sha t = recompute_root sha (fold (recompute_bucket sha) [0 ..< mk_count t] t)"

definition merkle_init :: "(bytes \<Rightarrow> bytes) \<Rightarrow> int \<Rightarrow> MerkleTree result" where
  "merkle_init sha bucket_count =
     (if \<not> (1 \<le> bucket_count \<and> bucket_count \<le> 65536) \<or> bucket_count AND (bucket_count - 1) \<noteq> 0
      then Inl (ValueError ''bucket_count must be a positive power of 2'')
      else let n = nat bucket_count in
        Inr (recompute_all sha \<lparr>mk_count = n, mk_buckets = replicate n [], mk_keys = replicate n [],
          mk_hashes = replicate n [], mk_heap = [], mk_root = []\<rparr>))"

definition bisect_left :: "bytes list \<Rightarrow> bytes \<Rightarrow> nat" where
  "bisect_left keys key = length (takeWhile (\<lambda>k. k < key) keys)"

definition insert_key :: "bytes \<Rightarrow> bytes list \<Rightarrow> bytes list" where
  "insert_key key keys = take (bisect_left keys key) keys @ key # drop (bisect_left keys key) keys"

definition pop_key :: "bytes \<Rightarrow> bytes list \<Rightarrow> bytes list" where
  "pop_key key keys = take (bisect_left keys key) keys @ drop (Suc (bisect_left keys key)) keys"

definition merkle_update :: "(bytes \<Rightarrow> bytes) \<Rightarrow> bytes \<Rightarrow> bytes \<Rightarrow> MerkleTree \<Rightarrow> MerkleTree" where
  "merkle_update sha key value_hash t =
     (let i = key_to_bucket sha (mk_count t) key; bucket = mk_buckets t ! i in
      if dict_get bucket key = Some value_hash then t
      else
        let keys = (if dict_get bucket key = None then insert_key key (mk_keys t ! i) else mk_keys t ! i);
            t1 = t\<lparr>mk_keys := (mk_keys t)[i := keys],
                   mk_buckets := (mk_buckets t)[i := dict_set key value_hash bucket]\<rparr>
        in update_path sha i (recompute_bucket sha i t1))"

definition merkle_remove :: "(bytes \<Rightarrow> bytes) \<Rightarrow> bytes \<Rightarrow> MerkleTree \<Rightarrow> MerkleTree" where
  "merkle_remove sha key t =
     (let i = key_to_bucket sha (mk_count t) key; bucket = mk_buckets t ! i in
      if dict_get bucket key = None then t
      else
        let t1 = t\<lparr>mk_buckets := (mk_buckets t)[i := dict_del key bucket],
                   mk_keys := (mk_keys t)[i := pop_key key (mk_keys t ! i)]\<rparr>
        in update_path sha i (recompute_bucket sha i t1))"

definition merkle_value_hash :: "(bytes \<Rightarrow> bytes) \<Rightarrow> MerkleTree \<Rightarrow> bytes \<Rightarrow> bytes option" where
  "merkle_value_hash sha t key = dict_get (mk_buckets t ! key_to_bucket sha (mk_count t) key) key"

definition merkle_node_hash :: "MerkleTree \<Rightarrow> int \<Rightarrow> bytes result" where
  "merkle_node_hash t index =
     (if 1 \<le> index \<and> index < int (length (mk_heap t)) then Inr (hex (mk_heap t ! nat index))
      else Inl (ValueError ''invalid Merkle node index''))"

definition get_bucket_hash :: "MerkleTree \<Rightarrow> int \<Rightarrow> bytes result" where
  "get_bucket_hash t bucket_id =
     (if bucket_id < 0 \<or> int (mk_count t) \<le> bucket_id then Inl IndexError
      else Inr (mk_hashes t ! nat bucket_id))"

definition key_page :: "MerkleTree \<Rightarrow> int \<Rightarrow> bytes \<Rightarrow> int \<Rightarrow> (bytes list \<times> bool) result" where
  "key_page t bucket_id after limit =
     (if \<not> (0 \<le> bucket_id \<and> bucket_id < int (mk_count t)) then Inl (ValueError ''invalid bucket'')
      else if \<not> (1 \<le> limit \<and> limit \<le> 128) then Inl (ValueError ''invalid key page'')
      else
        let keys = mk_keys t ! nat bucket_id;
            index = (if after \<noteq> [] then length (takeWhile (\<lambda>k. k \<le> after) keys) else 0);
            page = take (nat limit) (drop index keys)
        in Inr (page, index + length page < length keys))"

record SyncDiff =
  diff_bucket :: nat
  diff_local :: bytes
  diff_remote :: bytes
  diff_keys :: "bytes list"

definition merkle_compare :: "MerkleTree \<Rightarrow> (nat, bytes) dict \<Rightarrow> SyncDiff list" where
  "merkle_compare t other =
     concat (map (\<lambda>i.
       let local_hash = mk_hashes t ! i; remote_hash = dict_get_or other i [] in
       if local_hash \<noteq> remote_hash
       then [\<lparr>diff_bucket = i, diff_local = local_hash, diff_remote = remote_hash,
              diff_keys = map fst (mk_buckets t ! i)\<rparr>]
       else []) [0 ..< mk_count t])"

definition get_bucket_hashes :: "MerkleTree \<Rightarrow> (nat, bytes) dict" where
  "get_bucket_hashes t = List.enumerate 0 (mk_hashes t)"

section \<open>The equations of the tree\<close>

definition leaves_ok :: "(bytes \<Rightarrow> bytes) \<Rightarrow> bytes list \<Rightarrow> bytes list \<Rightarrow> bool" where
  "leaves_ok sha hashes heap \<longleftrightarrow>
     (\<forall>i<length hashes. heap ! (length hashes + i) = sha (hashes ! i))"

definition inner_ok :: "(bytes \<Rightarrow> bytes) \<Rightarrow> bytes list \<Rightarrow> nat \<Rightarrow> bool" where
  "inner_ok sha heap j \<longleftrightarrow> heap ! j = sha (heap ! (j * 2) @ heap ! (j * 2 + 1))"

definition heap_ok :: "(bytes \<Rightarrow> bytes) \<Rightarrow> bytes list \<Rightarrow> bytes list \<Rightarrow> bool" where
  "heap_ok sha hashes heap \<longleftrightarrow>
     length heap = 2 * length hashes \<and> heap ! 0 = [] \<and> leaves_ok sha hashes heap \<and>
     (\<forall>j. 1 \<le> j \<and> j < length hashes \<longrightarrow> inner_ok sha heap j)"

lemma set_inner_simps [simp]:
  "length (set_inner sha i heap) = length heap"
  "j \<noteq> i \<Longrightarrow> set_inner sha i heap ! j = heap ! j"
  by (simp_all add: set_inner_def)

lemma set_inner_ok:
  assumes "1 \<le> i" "i < length heap" "inner_ok sha heap j \<or> j = i" "j * 2 \<noteq> i" "j * 2 + 1 \<noteq> i"
  shows "inner_ok sha (set_inner sha i heap) j"
proof (cases "j = i")
  case True
  then show ?thesis using assms(1,2) by (simp add: inner_ok_def set_inner_def)
qed (use assms in \<open>simp add: inner_ok_def set_inner_def\<close>)

lemma path_loop_ok:
  assumes "\<forall>j. 1 \<le> j \<and> j < n \<and> j \<noteq> index div 2 \<longrightarrow> inner_ok sha heap j"
    and "1 \<le> index" "index < 2 * n" "length heap = 2 * n"
  shows "length (path_loop sha index heap) = 2 * n \<and>
    (\<forall>j. j = 0 \<or> n \<le> j \<longrightarrow> path_loop sha index heap ! j = heap ! j) \<and>
    (\<forall>j. 1 \<le> j \<and> j < n \<longrightarrow> inner_ok sha (path_loop sha index heap) j)"
  using assms
proof (induction sha index heap rule: path_loop.induct)
  case (1 sha index heap)
  show ?case
  proof (cases "1 < index")
    case True
    let ?p = "index div 2"
    have p: "1 \<le> ?p" "?p < n" using True "1.prems"(3) by auto
    have "inner_ok sha (set_inner sha ?p heap) j" if "1 \<le> j" "j < n" "j \<noteq> ?p div 2" for j
      using p "1.prems"(1,4) that by (intro set_inner_ok) auto
    with "1.IH"[OF True] p "1.prems"(4) have ih:
      "length (path_loop sha ?p (set_inner sha ?p heap)) = 2 * n \<and>
       (\<forall>j. j = 0 \<or> n \<le> j \<longrightarrow> path_loop sha ?p (set_inner sha ?p heap) ! j = set_inner sha ?p heap ! j) \<and>
       (\<forall>j. 1 \<le> j \<and> j < n \<longrightarrow> inner_ok sha (path_loop sha ?p (set_inner sha ?p heap)) j)"
      by simp
    then show ?thesis
      using True p by (subst (1 2 3) path_loop.simps) auto
  next
    case False
    then have "path_loop sha index heap = heap" by (subst path_loop.simps) simp
    moreover have "index div 2 = 0" using False "1.prems"(2) by simp
    ultimately show ?thesis using "1.prems" by simp
  qed
qed

lemma heap_unique:
  assumes "heap_ok sha hashes a" "heap_ok sha hashes b"
  shows "a = b"
proof (rule nth_equalityI)
  let ?n = "length hashes"
  have "a ! j = b ! j" if "1 \<le> j" "j < 2 * ?n" for j
    using that
  proof (induction "2 * ?n - j" arbitrary: j rule: less_induct)
    case less
    show ?case
    proof (cases "j < ?n")
      case True
      then have "a ! (j * 2) = b ! (j * 2)" "a ! (j * 2 + 1) = b ! (j * 2 + 1)"
        using less by (intro less.hyps; simp)+
      then show ?thesis using assms True less.prems by (simp add: heap_ok_def inner_ok_def)
    next
      case False
      then show ?thesis
        using assms less.prems unfolding heap_ok_def leaves_ok_def
        by (metis add.commute le_add_diff_inverse2 less_diff_conv2 linorder_not_less mult_2)
    qed
  qed
  then show "a ! j = b ! j" if "j < length a" for j
    using assms that by (cases "j = 0") (simp_all add: heap_ok_def)
qed (use assms in \<open>simp add: heap_ok_def\<close>)

lemma fold_set_leaf:
  assumes "length heap = 2 * mk_count t" "k \<le> mk_count t"
  shows "length (fold (set_leaf sha t) [0 ..< k] heap) = length heap \<and>
    (\<forall>j. fold (set_leaf sha t) [0 ..< k] heap ! j =
       (if mk_count t \<le> j \<and> j < mk_count t + k then sha (mk_hashes t ! (j - mk_count t)) else heap ! j))"
  using assms(2)
proof (induction k)
  case (Suc k)
  then show ?case using assms(1) by (auto simp: set_leaf_def nth_list_update)
qed auto

lemma fold_set_inner:
  assumes "length heap = 2 * n" "k \<le> n"
  shows "length (fold (set_inner sha) (rev [n - k ..< n]) heap) = 2 * n \<and>
    (\<forall>j. j < n - k \<or> n \<le> j \<longrightarrow> fold (set_inner sha) (rev [n - k ..< n]) heap ! j = heap ! j) \<and>
    (k < n \<longrightarrow> (\<forall>j. n - k \<le> j \<and> j < n \<longrightarrow> inner_ok sha (fold (set_inner sha) (rev [n - k ..< n]) heap) j))"
  using assms(2)
proof (induction k)
  case (Suc k)
  let ?i = "n - Suc k" and ?h = "fold (set_inner sha) (rev [n - k ..< n]) heap"
  have split: "[?i ..< n] = ?i # [n - k ..< n]"
    using Suc.prems by (metis Suc_diff_Suc Suc_le_lessD diff_less upt_conv_Cons zero_less_Suc less_le_trans)
  have ih: "length ?h = 2 * n" "\<forall>j. j < n - k \<or> n \<le> j \<longrightarrow> ?h ! j = heap ! j"
    "\<forall>j. n - k \<le> j \<and> j < n \<longrightarrow> inner_ok sha ?h j"
    using Suc by auto
  have "inner_ok sha (set_inner sha ?i ?h) j" if "Suc k < n" "?i \<le> j" "j < n" for j
    using that ih by (intro set_inner_ok) (auto simp: not_le)
  then show ?case using ih Suc.prems by (auto simp: split)
qed (use assms in auto)

lemma recompute_root_ok:
  assumes "length (mk_hashes t) = mk_count t" "1 \<le> mk_count t"
  shows "heap_ok sha (mk_hashes t) (mk_heap (recompute_root sha t))"
    and "mk_root (recompute_root sha t) = hex (mk_heap (recompute_root sha t) ! 1)"
proof -
  let ?n = "mk_count t"
  let ?h = "fold (set_leaf sha t) [0 ..< ?n] (replicate (2 * ?n) [])"
  have h: "length ?h = 2 * ?n" "\<forall>i<?n. ?h ! (?n + i) = sha (mk_hashes t ! i)" "?h ! 0 = []"
    using fold_set_leaf[of "replicate (2 * ?n) []" t ?n sha] assms(2) by auto
  have n: "?n - (?n - 1) = 1" using assms(2) by simp
  note inner = fold_set_inner[OF h(1), of "?n - 1" sha, unfolded n]
  have heap: "mk_heap (recompute_root sha t) = fold (set_inner sha) (rev [1 ..< ?n]) ?h"
    by (simp add: recompute_root_def Let_def assms(1))
  show "heap_ok sha (mk_hashes t) (mk_heap (recompute_root sha t))"
    using inner h assms unfolding heap heap_ok_def leaves_ok_def by auto
  show "mk_root (recompute_root sha t) = hex (mk_heap (recompute_root sha t) ! 1)"
    by (simp add: recompute_root_def Let_def)
qed

section \<open>The invariant\<close>

text \<open>
  \<open>merkle_ok\<close>: the keys of a bucket are its dictionary's keys in order, every key is in its
  bucket, and hashes, heap and root are those of the content.
\<close>

definition bucket_ok :: "bytes list \<Rightarrow> (bytes, bytes) dict \<Rightarrow> bool" where
  "bucket_ok keys bucket \<longleftrightarrow> sorted_wrt (<) keys \<and> set keys = fst ` set bucket \<and> dict_ok bucket"

definition merkle_ok :: "(bytes \<Rightarrow> bytes) \<Rightarrow> MerkleTree \<Rightarrow> bool" where
  "merkle_ok sha t \<longleftrightarrow>
     1 \<le> mk_count t \<and> length (mk_buckets t) = mk_count t \<and> length (mk_keys t) = mk_count t \<and>
     length (mk_hashes t) = mk_count t \<and>
     (\<forall>i<mk_count t. bucket_ok (mk_keys t ! i) (mk_buckets t ! i) \<and>
        (\<forall>key\<in>set (mk_keys t ! i). key_to_bucket sha (mk_count t) key = i) \<and>
        mk_hashes t ! i = bucket_hash sha (mk_keys t ! i) (mk_buckets t ! i)) \<and>
     heap_ok sha (mk_hashes t) (mk_heap t) \<and> mk_root t = hex (mk_heap t ! 1)"

lemma update_path_ok:
  assumes "heap_ok sha hashes (mk_heap t)" "mk_hashes t = hashes[i := h]" "mk_count t = length hashes"
    and "i < mk_count t"
  shows "heap_ok sha (mk_hashes t) (mk_heap (update_path sha i t))"
    and "mk_root (update_path sha i t) = hex (mk_heap (update_path sha i t) ! 1)"
proof -
  let ?n = "mk_count t" and ?h = "set_leaf sha t i (mk_heap t)"
  have "inner_ok sha ?h j" if "1 \<le> j" "j < ?n" "j \<noteq> (?n + i) div 2" for j
  proof -
    have "?n + i \<noteq> j * 2" "?n + i \<noteq> j * 2 + 1" "?n + i \<noteq> j" using that by auto
    then show ?thesis using assms(1,3) that by (simp add: inner_ok_def set_leaf_def heap_ok_def)
  qed
  then have p: "length (path_loop sha (?n + i) ?h) = 2 * ?n"
    "\<forall>j. j = 0 \<or> ?n \<le> j \<longrightarrow> path_loop sha (?n + i) ?h ! j = ?h ! j"
    "\<forall>j. 1 \<le> j \<and> j < ?n \<longrightarrow> inner_ok sha (path_loop sha (?n + i) ?h) j"
    using path_loop_ok[of ?n "?n + i" sha ?h] assms(1,3,4) by (auto simp: set_leaf_def heap_ok_def)
  have leaf: "?h ! (?n + j) = sha (mk_hashes t ! j)" if "j < ?n" for j
    using assms that by (auto simp: set_leaf_def nth_list_update heap_ok_def leaves_ok_def)
  have "?n + i \<noteq> 0" using assms(4) by simp
  then have zero: "?h ! 0 = []" using assms(1) by (simp add: set_leaf_def heap_ok_def del: add_is_0)
  have len: "length (mk_hashes t) = ?n" using assms(2,3) by simp
  have heap: "mk_heap (update_path sha i t) = path_loop sha (?n + i) ?h"
    by (simp add: update_path_def Let_def)
  show "heap_ok sha (mk_hashes t) (mk_heap (update_path sha i t))"
    unfolding heap_ok_def leaves_ok_def heap len using p leaf zero by simp
  show "mk_root (update_path sha i t) = hex (mk_heap (update_path sha i t) ! 1)"
    by (simp add: update_path_def Let_def)
qed

lemma insert_key_sorted:
  assumes "sorted_wrt (<) keys" "key \<notin> set keys"
  shows "sorted_wrt (<) (insert_key key keys) \<and> set (insert_key key keys) = insert key (set keys)"
proof -
  have "insert_key key keys = takeWhile (\<lambda>k. k < key) keys @ key # dropWhile (\<lambda>k. k < key) keys"
    by (simp add: insert_key_def bisect_left_def takeWhile_eq_take[symmetric] dropWhile_eq_drop[symmetric])
  moreover have "sorted_wrt (<) (takeWhile (\<lambda>k. k < key) keys @ key # dropWhile (\<lambda>k. k < key) keys)"
    using assms
  proof (induction keys)
    case (Cons k ks)
    then show ?case by (auto dest: set_takeWhileD set_dropWhileD)
  qed simp
  ultimately show ?thesis by (metis insert_is_Un list.simps(15) set_append Un_insert_right takeWhile_dropWhile_id)
qed

lemma pop_key_sorted:
  assumes "sorted_wrt (<) keys" "key \<in> set keys"
  shows "sorted_wrt (<) (pop_key key keys) \<and> set (pop_key key keys) = set keys - {key}"
proof -
  obtain xs ys where k: "keys = xs @ key # ys" using assms(2) by (meson split_list)
  have less: "\<forall>x\<in>set xs. x < key" "\<forall>y\<in>set ys. key < y" using assms(1) by (auto simp: k sorted_wrt_append)
  then have "bisect_left keys key = length xs"
    by (simp add: bisect_left_def k takeWhile_append2)
  then have "pop_key key keys = xs @ ys" by (simp add: pop_key_def k)
  then show ?thesis using assms(1) less by (auto simp: k sorted_wrt_append)
qed

text \<open>Changing one bucket consistently and recomputing its path keeps the invariant.\<close>

lemma bucket_change_ok:
  assumes ok: "merkle_ok sha t" and i: "i < mk_count t"
    and b: "bucket_ok keys bucket" "\<forall>key\<in>set keys. key_to_bucket sha (mk_count t) key = i"
  defines "t1 \<equiv> t\<lparr>mk_keys := (mk_keys t)[i := keys], mk_buckets := (mk_buckets t)[i := bucket]\<rparr>"
  shows "merkle_ok sha (update_path sha i (recompute_bucket sha i t1))"
proof -
  let ?t2 = "recompute_bucket sha i t1"
  have t2: "mk_count ?t2 = mk_count t" "mk_buckets ?t2 = (mk_buckets t)[i := bucket]"
    "mk_keys ?t2 = (mk_keys t)[i := keys]" "mk_heap ?t2 = mk_heap t"
    "mk_hashes ?t2 = (mk_hashes t)[i := bucket_hash sha keys bucket]"
    using ok i by (simp_all add: recompute_bucket_def t1_def merkle_ok_def)
  have same: "mk_count (update_path sha i ?t2) = mk_count ?t2"
    "mk_buckets (update_path sha i ?t2) = mk_buckets ?t2" "mk_keys (update_path sha i ?t2) = mk_keys ?t2"
    "mk_hashes (update_path sha i ?t2) = mk_hashes ?t2"
    by (simp_all add: update_path_def Let_def)
  have pre: "length (mk_hashes t) = mk_count t" "heap_ok sha (mk_hashes t) (mk_heap ?t2)"
    using ok t2(4) by (simp_all add: merkle_ok_def)
  have heap: "heap_ok sha (mk_hashes ?t2) (mk_heap (update_path sha i ?t2))"
    using update_path_ok(1)[OF pre(2) t2(5)] t2(1) pre(1) i by simp
  have root: "mk_root (update_path sha i ?t2) = hex (mk_heap (update_path sha i ?t2) ! 1)"
    using update_path_ok(2)[OF pre(2) t2(5)] t2(1) pre(1) i by simp
  show ?thesis
    using ok i b heap root unfolding merkle_ok_def same t2
    by (auto simp: nth_list_update)
qed

lemma key_to_bucket_less: "1 \<le> n \<Longrightarrow> key_to_bucket sha n key < n"
  by (simp add: key_to_bucket_def)

lemma merkle_ok_bucket:
  "merkle_ok sha t \<Longrightarrow> i < mk_count t \<Longrightarrow> bucket_ok (mk_keys t ! i) (mk_buckets t ! i) \<and>
     (\<forall>key\<in>set (mk_keys t ! i). key_to_bucket sha (mk_count t) key = i)"
  by (simp add: merkle_ok_def)

lemma merkle_update_ok:
  assumes "merkle_ok sha t"
  shows "merkle_ok sha (merkle_update sha key h t)"
proof -
  define i where "i = key_to_bucket sha (mk_count t) key"
  let ?keys = "if dict_get (mk_buckets t ! i) key = None then insert_key key (mk_keys t ! i) else mk_keys t ! i"
  have i: "i < mk_count t" using assms by (simp add: merkle_ok_def key_to_bucket_less i_def)
  note b = merkle_ok_bucket[OF assms i]
  have mem: "dict_get (mk_buckets t ! i) key = None \<longleftrightarrow> key \<notin> set (mk_keys t ! i)"
    using b by (simp add: bucket_ok_def map_of_eq_None_iff)
  have dom: "fst ` set (dict_set key h (mk_buckets t ! i)) = insert key (fst ` set (mk_buckets t ! i))"
    using dom_update[of key h "mk_buckets t ! i"] by (simp add: dom_map_of_conv_image_fst)
  have "bucket_ok ?keys (dict_set key h (mk_buckets t ! i))"
    using b mem insert_key_sorted[of "mk_keys t ! i" key] dom by (auto simp: bucket_ok_def)
  moreover have "\<forall>k\<in>set ?keys. key_to_bucket sha (mk_count t) k = i"
    using b mem insert_key_sorted[of "mk_keys t ! i" key] by (auto simp: bucket_ok_def i_def[symmetric])
  ultimately show ?thesis
    using bucket_change_ok[OF assms i] assms by (simp add: merkle_update_def Let_def i_def[symmetric])
qed

lemma merkle_remove_ok:
  assumes "merkle_ok sha t"
  shows "merkle_ok sha (merkle_remove sha key t)"
proof -
  define i where "i = key_to_bucket sha (mk_count t) key"
  have i: "i < mk_count t" using assms by (simp add: merkle_ok_def key_to_bucket_less i_def)
  note b = merkle_ok_bucket[OF assms i]
  have mem: "dict_get (mk_buckets t ! i) key = None \<longleftrightarrow> key \<notin> set (mk_keys t ! i)"
    using b by (simp add: bucket_ok_def map_of_eq_None_iff)
  show ?thesis
  proof (cases "key \<in> set (mk_keys t ! i)")
    case True
    note pop = pop_key_sorted[OF _ True]
    have del: "fst ` set (dict_del key (mk_buckets t ! i)) = fst ` set (mk_buckets t ! i) - {key}"
      by (auto simp: AList.delete_eq)
    have "bucket_ok (pop_key key (mk_keys t ! i)) (dict_del key (mk_buckets t ! i))"
      using b pop del by (simp add: bucket_ok_def)
    moreover have "\<forall>k\<in>set (pop_key key (mk_keys t ! i)). key_to_bucket sha (mk_count t) k = i"
      using b pop by (auto simp: bucket_ok_def)
    ultimately have "merkle_ok sha (update_path sha i (recompute_bucket sha i
        (t\<lparr>mk_keys := (mk_keys t)[i := pop_key key (mk_keys t ! i)],
           mk_buckets := (mk_buckets t)[i := dict_del key (mk_buckets t ! i)]\<rparr>)))"
      by (rule bucket_change_ok[OF assms i])
    moreover have swap: "t\<lparr>mk_buckets := x, mk_keys := y\<rparr> = t\<lparr>mk_keys := y, mk_buckets := x\<rparr>" for x y by simp
    ultimately show ?thesis
      using assms unfolding merkle_remove_def Let_def i_def[symmetric] swap by simp
  qed (use assms mem in \<open>simp add: merkle_remove_def Let_def i_def[symmetric]\<close>)
qed

lemma fold_recompute_bucket:
  "k \<le> length (mk_hashes t) \<Longrightarrow>
     fold (recompute_bucket sha) [0 ..< k] t =
       t\<lparr>mk_hashes := map (\<lambda>i. bucket_hash sha (mk_keys t ! i) (mk_buckets t ! i)) [0 ..< k]
                       @ drop k (mk_hashes t)\<rparr>"
proof (induction k)
  case (Suc k)
  then show ?case
    by (simp add: recompute_bucket_def list_update_append Cons_nth_drop_Suc[symmetric])
qed simp

lemma recompute_all_hashes:
  assumes "length (mk_hashes t) = mk_count t"
  shows "fold (recompute_bucket sha) [0 ..< mk_count t] t =
    t\<lparr>mk_hashes := map (\<lambda>i. bucket_hash sha (mk_keys t ! i) (mk_buckets t ! i)) [0 ..< mk_count t]\<rparr>"
  using fold_recompute_bucket[of "mk_count t" t sha] assms by simp

lemma merkle_init_ok:
  assumes "merkle_init sha n = Inr t"
  shows "merkle_ok sha t" and "mk_count t = nat n"
proof -
  let ?t0 = "\<lparr>mk_count = nat n, mk_buckets = replicate (nat n) [], mk_keys = replicate (nat n) [],
      mk_hashes = replicate (nat n) [], mk_heap = [], mk_root = []\<rparr>"
  have n: "1 \<le> n" "t = recompute_all sha ?t0"
    using assms by (auto simp: merkle_init_def Let_def split: if_splits)
  let ?t1 = "?t0\<lparr>mk_hashes := map (\<lambda>i. bucket_hash sha (mk_keys ?t0 ! i) (mk_buckets ?t0 ! i)) [0 ..< nat n]\<rparr>"
  have t: "t = recompute_root sha ?t1"
    using recompute_all_hashes[of ?t0 sha] by (simp add: n(2) recompute_all_def)
  have len: "length (mk_hashes ?t1) = mk_count ?t1" "1 \<le> mk_count ?t1" using n(1) by simp_all
  note r = recompute_root_ok[OF len, of sha]
  have same: "mk_count t = nat n" "mk_buckets t = mk_buckets ?t1" "mk_keys t = mk_keys ?t1"
    "mk_hashes t = mk_hashes ?t1"
    by (simp_all add: t recompute_root_def Let_def)
  show "mk_count t = nat n" by (rule same)
  show "merkle_ok sha t"
    unfolding merkle_ok_def using r[folded t] same n(1) by (simp add: bucket_ok_def)
qed

section \<open>The encodings are injective\<close>

lemma hex_digit_inj: "a < 16 \<Longrightarrow> b < 16 \<Longrightarrow> hex_digit a = hex_digit b \<Longrightarrow> a = b"
proof -
  have "distinct (map hex_digit [0 ..< 16])" by code_simp
  then have "inj_on hex_digit {0 ..< 16}" by (simp add: distinct_map del: upt_rec_numeral)
  then show "a < 16 \<Longrightarrow> b < 16 \<Longrightarrow> hex_digit a = hex_digit b \<Longrightarrow> a = b" by (auto dest: inj_onD)
qed

lemma hex_byte_inj: "hex_byte a = hex_byte b \<longleftrightarrow> a = b"
proof
  assume "hex_byte a = hex_byte b"
  then have "hex_digit (unat a div 16) = hex_digit (unat b div 16)"
    "hex_digit (unat a mod 16) = hex_digit (unat b mod 16)" by (simp_all add: hex_byte_def)
  moreover have "unat a < 256" "unat b < 256"
    using unsigned_less[of a, where ?'a = nat] unsigned_less[of b, where ?'a = nat] by simp_all
  ultimately have "unat a div 16 = unat b div 16" "unat a mod 16 = unat b mod 16"
    by (auto intro!: hex_digit_inj simp: less_mult_imp_div_less)
  then have "unat a = unat b" by (metis div_mult_mod_eq)
  then show "a = b" by (simp add: word_unat_eq_iff)
qed simp

lemma hex_inj: "hex a = hex b \<Longrightarrow> a = b"
proof (induction a arbitrary: b)
  case Nil
  then show ?case by (cases b) (simp_all add: hex_def hex_byte_def)
next
  case (Cons x a)
  then obtain y b' where b: "b = y # b'" by (cases b) (simp_all add: hex_def hex_byte_def)
  have "hex_byte x = hex_byte y" "hex a = hex b'"
    using Cons.prems by (simp_all add: hex_def b hex_byte_def)
  then show ?case using Cons.IH by (simp add: b hex_byte_inj)
qed

lemma hex_nonempty: "bs \<noteq> [] \<Longrightarrow> hex bs \<noteq> []"
  by (cases bs) (simp_all add: hex_def hex_byte_def)

definition short :: "bytes \<Rightarrow> bool" where
  "short part \<longleftrightarrow> length part < 256 ^ 8"

lemma framed_inj:
  assumes "framed p @ x = framed q @ y" "short p" "short q"
  shows "p = q" "x = y"
proof -
  have f: "be_bytes 8 (length p) = be_bytes 8 (length q)" "p @ x = q @ y"
    using assms(1) by (simp_all add: framed_def be_bytes_def append_eq_append_conv)
  have "le_nat (le_bytes 8 (length p)) = le_nat (le_bytes 8 (length q))"
    using f(1) by (simp add: be_bytes_def del: le_nat_le_bytes le_bytes.simps)
  then have "length p = length q" using assms(2,3) by (simp add: short_def)
  then show "p = q" "x = y" using f(2) by simp_all
qed

lemma framed_nonempty [simp]: "framed p \<noteq> []" "[] \<noteq> framed p"
proof -
  have "length (framed p) = 8 + length p" by (simp add: framed_def be_bytes_def del: le_bytes.simps)
  then show "framed p \<noteq> []" "[] \<noteq> framed p" by (metis add_is_0 list.size(3) zero_neq_numeral)+
qed

lemma bucket_input_inj:
  assumes "bucket_input ks a = bucket_input ls b"
    and "\<forall>k\<in>set ks. short k \<and> short (dict_get_or a k [])"
    and "\<forall>k\<in>set ls. short k \<and> short (dict_get_or b k [])"
  shows "ks = ls \<and> (\<forall>k\<in>set ks. dict_get_or a k [] = dict_get_or b k [])"
  using assms
proof (induction ks arbitrary: ls)
  case Nil
  then show ?case by (cases ls) (auto simp: bucket_input_def)
next
  case (Cons k ks)
  then obtain l ls' where ls: "ls = l # ls'"
    by (cases ls) (auto simp: bucket_input_def)
  have eq: "framed k @ framed (dict_get_or a k []) @ bucket_input ks a
      = framed l @ framed (dict_get_or b l []) @ bucket_input ls' b"
    using Cons.prems(1) by (simp add: bucket_input_def ls)
  have s: "short k" "short l" "short (dict_get_or a k [])" "short (dict_get_or b l [])"
    using Cons.prems(2,3) by (simp_all add: ls)
  note first = framed_inj[OF eq s(1,2)]
  note second = framed_inj[OF first(2) s(3,4)]
  show ?case using Cons.IH[OF second(2)] Cons.prems(2,3) first(1) second(1) by (simp add: ls)
qed

section \<open>Equal roots\<close>

definition hash_inputs :: "MerkleTree \<Rightarrow> bytes list" where
  "hash_inputs t =
     map (\<lambda>i. bucket_input (mk_keys t ! i) (mk_buckets t ! i))
       (filter (\<lambda>i. mk_buckets t ! i \<noteq> []) [0 ..< mk_count t])
     @ mk_hashes t
     @ map (\<lambda>j. mk_heap t ! (j * 2) @ mk_heap t ! (j * 2 + 1)) [1 ..< mk_count t]"

definition short_content :: "MerkleTree \<Rightarrow> bool" where
  "short_content t \<longleftrightarrow> list_all (list_all (\<lambda>(k, h). short k \<and> short h)) (mk_buckets t)"

definition collide :: "(bytes \<Rightarrow> bytes) \<Rightarrow> bytes list \<Rightarrow> bytes list \<Rightarrow> bool" where
  "collide sha xs ys \<longleftrightarrow> (\<exists>x\<in>set xs. \<exists>y\<in>set ys. x \<noteq> y \<and> sha x = sha y)"

lemma equal_heaps:
  assumes ok: "merkle_ok sha t" "merkle_ok sha u" "mk_count u = mk_count t"
    and sha: "\<forall>x. length (sha x) = 32" "\<not> collide sha (hash_inputs t) (hash_inputs u)"
    and root: "mk_root t = mk_root u" and j: "1 \<le> j" "j < 2 * mk_count t"
  shows "mk_heap t ! j = mk_heap u ! j"
  using j
proof (induction j rule: less_induct)
  case (less j)
  have heap: "heap_ok sha (mk_hashes v) (mk_heap v)" "length (mk_hashes v) = mk_count v"
    if "merkle_ok sha v" for v
    using that by (simp_all add: merkle_ok_def)
  have len: "length (mk_heap v ! i) = 32" if v: "merkle_ok sha v" "1 \<le> i" "i < 2 * mk_count v" for v i
  proof (cases "i < mk_count v")
    case True
    then show ?thesis using heap[OF v(1)] v(2) sha(1) by (simp add: heap_ok_def inner_ok_def)
  next
    case False
    then obtain k where "i = mk_count v + k" "k < mk_count v"
      using v(3) by (metis add_less_cancel_left le_Suc_ex mult_2 not_le)
    then show ?thesis using heap[OF v(1)] sha(1) by (simp add: heap_ok_def leaves_ok_def)
  qed
  show ?case
  proof (cases "j = 1")
    case True
    then show ?thesis using root ok hex_inj by (simp add: merkle_ok_def)
  next
    case False
    let ?p = "j div 2" and ?pair = "\<lambda>v. mk_heap v ! (j div 2 * 2) @ mk_heap v ! (j div 2 * 2 + 1)"
    have p: "1 \<le> ?p" "?p < j" "?p < mk_count t" using False less.prems by auto
    then have "mk_heap t ! ?p = mk_heap u ! ?p" using less.IH[OF p(2) p(1)] by simp
    then have "sha (?pair t) = sha (?pair u)"
      using heap[OF ok(1)] heap[OF ok(2)] ok(3) p by (simp add: heap_ok_def inner_ok_def)
    moreover have "?pair t \<in> set (hash_inputs t)" "?pair u \<in> set (hash_inputs u)"
      using p ok(3) by (auto simp: hash_inputs_def)
    ultimately have "?pair t = ?pair u" using sha(2) by (auto simp: collide_def)
    moreover have "length (mk_heap t ! (?p * 2)) = length (mk_heap u ! (?p * 2))"
      using len[OF ok(1), of "?p * 2"] len[OF ok(2), of "?p * 2"] p ok(3) by simp
    ultimately have "mk_heap t ! (?p * 2) = mk_heap u ! (?p * 2)"
      "mk_heap t ! (?p * 2 + 1) = mk_heap u ! (?p * 2 + 1)" by auto
    moreover have "j = ?p * 2 \<or> j = ?p * 2 + 1" by presburger
    ultimately show ?thesis by metis
  qed
qed

lemma merkle_leaf:
  assumes "merkle_ok sha t" "i < mk_count t"
  shows "mk_heap t ! (mk_count t + i) = sha (mk_hashes t ! i)" "mk_hashes t ! i \<in> set (hash_inputs t)"
proof -
  have l: "length (mk_hashes t) = mk_count t" "leaves_ok sha (mk_hashes t) (mk_heap t)"
    using assms(1) unfolding merkle_ok_def heap_ok_def by blast+
  then show "mk_heap t ! (mk_count t + i) = sha (mk_hashes t ! i)"
    using assms(2) by (simp add: leaves_ok_def)
  show "mk_hashes t ! i \<in> set (hash_inputs t)" using l(1) assms(2) by (simp add: hash_inputs_def)
qed

lemma short_keys:
  assumes "short_content t" "bucket_ok (mk_keys t ! i) (mk_buckets t ! i)" "i < length (mk_buckets t)"
  shows "\<forall>k\<in>set (mk_keys t ! i). short k \<and> short (dict_get_or (mk_buckets t ! i) k [])"
proof
  fix k assume "k \<in> set (mk_keys t ! i)"
  then obtain h where "(k, h) \<in> set (mk_buckets t ! i)" using assms(2) by (auto simp: bucket_ok_def)
  moreover from this have "dict_get (mk_buckets t ! i) k = Some h"
    using assms(2) by (simp add: bucket_ok_def dict_get_mem)
  moreover have "mk_buckets t ! i \<in> set (mk_buckets t)" using assms(3) by simp
  ultimately show "short k \<and> short (dict_get_or (mk_buckets t ! i) k [])"
    using assms(1) by (fastforce simp: short_content_def list_all_iff dict_get_or_def)
qed

lemma equal_buckets:
  assumes ok: "merkle_ok sha t" "merkle_ok sha u" "mk_count u = mk_count t"
    and sha: "\<forall>x. length (sha x) = 32" "\<not> collide sha (hash_inputs t) (hash_inputs u)"
    and short: "short_content t" "short_content u"
    and i: "i < mk_count t" and hash: "mk_hashes t ! i = mk_hashes u ! i"
  shows "map_of (mk_buckets t ! i) = map_of (mk_buckets u ! i)"
proof -
  have b: "bucket_ok (mk_keys t ! i) (mk_buckets t ! i)" "bucket_ok (mk_keys u ! i) (mk_buckets u ! i)"
    and h: "bucket_hash sha (mk_keys t ! i) (mk_buckets t ! i) = bucket_hash sha (mk_keys u ! i) (mk_buckets u ! i)"
    using ok i hash by (auto simp: merkle_ok_def)
  have ne: "hex (sha x) \<noteq> []" for x using hex_nonempty sha(1) by (metis length_0_conv zero_neq_numeral)
  show ?thesis
  proof (cases "mk_buckets t ! i = []")
    case True
    then show ?thesis using h ne ne[symmetric] by (auto simp: bucket_hash_def split: if_splits)
  next
    case False
    then have nu: "mk_buckets u ! i \<noteq> []" using h ne by (auto simp: bucket_hash_def)
    let ?x = "bucket_input (mk_keys t ! i) (mk_buckets t ! i)"
    let ?y = "bucket_input (mk_keys u ! i) (mk_buckets u ! i)"
    have "sha ?x = sha ?y" using h False nu hex_inj by (simp add: bucket_hash_def)
    moreover have "?x \<in> set (hash_inputs t)" "?y \<in> set (hash_inputs u)"
      using i ok(3) False nu by (auto simp: hash_inputs_def)
    ultimately have "?x = ?y" using sha(2) by (auto simp: collide_def)
    moreover have "i < length (mk_buckets t)" "i < length (mk_buckets u)"
      using ok i by (simp_all add: merkle_ok_def)
    ultimately have eq: "mk_keys t ! i = mk_keys u ! i"
      "\<forall>k\<in>set (mk_keys t ! i). dict_get_or (mk_buckets t ! i) k [] = dict_get_or (mk_buckets u ! i) k []"
      using bucket_input_inj short_keys[OF short(1) b(1)] short_keys[OF short(2) b(2)] by blast+
    show ?thesis
    proof
      fix k
      have none: "map_of (mk_buckets t ! i) k = None \<longleftrightarrow> k \<notin> set (mk_keys t ! i)"
        "map_of (mk_buckets u ! i) k = None \<longleftrightarrow> k \<notin> set (mk_keys t ! i)"
        using b eq(1) by (simp_all add: bucket_ok_def map_of_eq_None_iff)
      have some: "k \<in> set (mk_keys t ! i) \<Longrightarrow>
          dict_get_or (mk_buckets t ! i) k [] = dict_get_or (mk_buckets u ! i) k []"
        using eq(2) by blast
      show "map_of (mk_buckets t ! i) k = map_of (mk_buckets u ! i) k"
        using none some by (cases "k \<in> set (mk_keys t ! i)") (auto simp: dict_get_or_def)
    qed
  qed
qed

section \<open>Properties\<close>

inductive merkle_reachable :: "(bytes \<Rightarrow> bytes) \<Rightarrow> MerkleTree \<Rightarrow> bool" for sha where
  constructed: "merkle_init sha n = Inr t \<Longrightarrow> merkle_reachable sha t"
| updated: "merkle_reachable sha t \<Longrightarrow> merkle_reachable sha (merkle_update sha key h t)"
| removed: "merkle_reachable sha t \<Longrightarrow> merkle_reachable sha (merkle_remove sha key t)"

lemma reachable_merkle_ok: "merkle_reachable sha t \<Longrightarrow> merkle_ok sha t"
  by (induction rule: merkle_reachable.induct)
    (auto intro: merkle_init_ok merkle_update_ok merkle_remove_ok)

lemma merkle_ok_recompute:
  assumes ok: "merkle_ok sha t"
  shows "recompute_all sha t = t"
proof -
  have len: "length (mk_hashes t) = mk_count t" "1 \<le> mk_count t" using ok by (simp_all add: merkle_ok_def)
  have "map (\<lambda>i. bucket_hash sha (mk_keys t ! i) (mk_buckets t ! i)) [0 ..< mk_count t] = mk_hashes t"
    using ok by (intro nth_equalityI) (simp_all add: merkle_ok_def)
  then have "recompute_all sha t = recompute_root sha t"
    using recompute_all_hashes[OF len(1), of sha] by (simp add: recompute_all_def)
  moreover have "mk_heap (recompute_root sha t) = mk_heap t"
    using heap_unique[OF recompute_root_ok(1)[OF len]] ok by (simp add: merkle_ok_def)
  moreover from this have "mk_root (recompute_root sha t) = mk_root t"
    using recompute_root_ok(2)[OF len, of sha] ok by (simp add: merkle_ok_def)
  moreover have "recompute_root sha t = t\<lparr>mk_heap := mk_heap (recompute_root sha t), mk_root := mk_root (recompute_root sha t)\<rparr>"
    by (simp add: recompute_root_def Let_def)
  ultimately show ?thesis by simp
qed

lemma value_hash_update:
  assumes "merkle_ok sha t"
  shows "merkle_value_hash sha (merkle_update sha key h t) k =
    (if k = key then Some h else merkle_value_hash sha t k)"
proof -
  have "key_to_bucket sha (mk_count t) key < length (mk_buckets t)"
    using assms by (simp add: merkle_ok_def key_to_bucket_less)
  then show ?thesis
    by (auto simp: merkle_value_hash_def merkle_update_def update_path_def recompute_bucket_def
        Let_def nth_list_update dict_simps)
qed

lemma value_hash_remove:
  assumes "merkle_ok sha t"
  shows "merkle_value_hash sha (merkle_remove sha key t) k =
    (if k = key then None else merkle_value_hash sha t k)"
proof -
  have "key_to_bucket sha (mk_count t) key < length (mk_buckets t)"
    using assms by (simp add: merkle_ok_def key_to_bucket_less)
  then show ?thesis
    by (auto simp: merkle_value_hash_def merkle_remove_def update_path_def recompute_bucket_def
        Let_def nth_list_update dict_simps)
qed

text \<open>
  C26.  Recomputing only the path of a changed bucket is exact: after any sequence of updates and
  removals, rebuilding every hash from the content changes nothing, the keys of a bucket are
  sorted, and a lookup gives the last value hash stored for the key.
\<close>

theorem merkle_incremental_exact:
  assumes "merkle_reachable sha t"
  shows "recompute_all sha t = t
    \<and> (\<forall>keys\<in>set (mk_keys t). sorted_wrt (<) keys)
    \<and> merkle_value_hash sha (merkle_update sha key h t) k =
        (if k = key then Some h else merkle_value_hash sha t k)
    \<and> merkle_value_hash sha (merkle_remove sha key t) k =
        (if k = key then None else merkle_value_hash sha t k)"
proof -
  have ok: "merkle_ok sha t" using assms by (rule reachable_merkle_ok)
  have "\<forall>keys\<in>set (mk_keys t). sorted_wrt (<) keys"
    using ok by (auto simp: merkle_ok_def bucket_ok_def in_set_conv_nth)
  then show ?thesis
    using merkle_ok_recompute[OF ok] value_hash_update[OF ok] value_hash_remove[OF ok] by blast
qed

definition demo_sha :: "bytes \<Rightarrow> bytes" where
  "demo_sha x = take 32 (x @ replicate 32 0)"

definition demo_tree :: MerkleTree where
  "demo_tree = (case merkle_init demo_sha 1 of Inr t \<Rightarrow> t | Inl _ \<Rightarrow> undefined)"

lemma demo_tree_init: "merkle_init demo_sha 1 = Inr demo_tree"
  by (simp add: demo_tree_def merkle_init_def)

theorem merkle_incremental_exact_witness:
  "recompute_all demo_sha (merkle_update demo_sha [7] [1] demo_tree) = merkle_update demo_sha [7] [1] demo_tree
   \<and> merkle_value_hash demo_sha (merkle_update demo_sha [8] [2] (merkle_update demo_sha [7] [1] demo_tree)) [8] = Some [2]"
proof -
  have "merkle_reachable demo_sha (merkle_update demo_sha [7] [1] demo_tree)"
    using merkle_reachable.constructed[OF demo_tree_init] by (rule merkle_reachable.updated)
  from merkle_incremental_exact[OF this, of "[8]" "[2]" "[8]"] show ?thesis by simp
qed

text \<open>
  C27.  The root decides equality: two trees of the same size with the same root index the same
  value hash for every key, unless the hash function collides on two inputs that these trees
  hashed.  A digest has 32 bytes, and keys and value hashes are shorter than \<open>2^64\<close> bytes.
\<close>

theorem merkle_root_decides:
  assumes "merkle_reachable sha t" "merkle_reachable sha u" "mk_count u = mk_count t"
    and "\<forall>x. length (sha x) = 32" "short_content t" "short_content u" "mk_root t = mk_root u"
  shows "(\<forall>key. merkle_value_hash sha t key = merkle_value_hash sha u key)
    \<or> collide sha (hash_inputs t) (hash_inputs u)"
proof (rule disjCI)
  assume free: "\<not> collide sha (hash_inputs t) (hash_inputs u)"
  have ok: "merkle_ok sha t" "merkle_ok sha u" using assms(1,2) by (auto intro: reachable_merkle_ok)
  have hash: "mk_hashes t ! i = mk_hashes u ! i" if i: "i < mk_count t" for i
  proof -
    have "mk_heap t ! (mk_count t + i) = mk_heap u ! (mk_count t + i)"
      using equal_heaps[OF ok assms(3,4) free assms(7), of "mk_count t + i"] i by simp
    then have "sha (mk_hashes t ! i) = sha (mk_hashes u ! i)"
      using merkle_leaf(1)[OF ok(1), of i] merkle_leaf(1)[OF ok(2), of i] i assms(3) by simp
    then show ?thesis
      using merkle_leaf(2)[OF ok(1), of i] merkle_leaf(2)[OF ok(2), of i] i assms(3) free
      unfolding collide_def by metis
  qed
  show "\<forall>key. merkle_value_hash sha t key = merkle_value_hash sha u key"
  proof
    fix key
    have i: "key_to_bucket sha (mk_count t) key < mk_count t"
      using ok(1) by (simp add: merkle_ok_def key_to_bucket_less)
    show "merkle_value_hash sha t key = merkle_value_hash sha u key"
      using equal_buckets[OF ok assms(3,4) free assms(5,6) i hash[OF i]] assms(3)
      by (simp add: merkle_value_hash_def)
  qed
qed

lemma demo_tree_simps: "mk_buckets demo_tree = [[]]" "mk_count demo_tree = 1"
  by (simp_all add: demo_tree_def merkle_init_def recompute_all_def recompute_bucket_def recompute_root_def Let_def)

lemma empty_root:
  assumes "merkle_ok sha t" "mk_buckets t = [[]]" "mk_count t = 1"
  shows "mk_root t = hex (sha [])"
proof -
  have "mk_root t = hex (mk_heap t ! 1)" "mk_hashes t ! 0 = bucket_hash sha (mk_keys t ! 0) (mk_buckets t ! 0)"
    using assms(1,3) by (simp_all add: merkle_ok_def)
  then show ?thesis using merkle_leaf(1)[OF assms(1), of 0] assms(2,3) by (simp add: bucket_hash_def)
qed

theorem merkle_root_decides_witness:
  "(\<forall>key. merkle_value_hash demo_sha demo_tree key
      = merkle_value_hash demo_sha (merkle_remove demo_sha [9] (merkle_update demo_sha [9] [1] demo_tree)) key)
   \<or> collide demo_sha (hash_inputs demo_tree)
       (hash_inputs (merkle_remove demo_sha [9] (merkle_update demo_sha [9] [1] demo_tree)))"
proof -
  let ?u = "merkle_remove demo_sha [9] (merkle_update demo_sha [9] [1] demo_tree)"
  have r: "merkle_reachable demo_sha demo_tree" using demo_tree_init by (rule merkle_reachable.constructed)
  then have u: "merkle_reachable demo_sha ?u" by (intro merkle_reachable.updated merkle_reachable.removed)
  have b: "mk_buckets ?u = [[]]" "mk_count ?u = 1"
    by (simp_all add: merkle_remove_def merkle_update_def key_to_bucket_def update_path_def
        recompute_bucket_def Let_def demo_tree_simps)
  have sha: "\<forall>x. length (demo_sha x) = 32" by (auto simp: demo_sha_def min_def)
  have short: "short_content demo_tree" "short_content ?u"
    by (simp_all add: short_content_def b demo_tree_simps)
  have "mk_root demo_tree = mk_root ?u"
    using empty_root[OF reachable_merkle_ok[OF r] demo_tree_simps] empty_root[OF reachable_merkle_ok[OF u] b]
    by simp
  from merkle_root_decides[OF r u _ sha short this] show ?thesis by (simp add: b demo_tree_simps)
qed

end
