(* ===== verification/Wallet_Shard.thy ===== *)
theory Wallet_Shard
  imports Wire
begin

text \<open>
  The account shards of the digital wallet (\<^verbatim>\<open>digital-wallet-system/src/digital_wallet\<close>): the
  transfer intent (\<^verbatim>\<open>contracts.py\<close>), the event reducer (\<^verbatim>\<open>projection.py\<close>), the checked event log
  and the fence (\<^verbatim>\<open>common.py\<close>), and the shard with its idempotent participant actions
  (\<^verbatim>\<open>shard.py\<close>).  A frozen intent is a record; the SHA-256 digests of accounts and of log rows are
  parameters; a database transaction is one step.

  The lemmas give the effect of every action on balances and participants, and that the stored
  projection is the replay of the stored events.
\<close>

section \<open>Intents\<close>

record Intent =
  transaction_id :: string
  from_account :: string
  to_account :: string
  amount :: int

definition intent :: "json \<Rightarrow> Intent result" where
  "intent body =
     and_then (exact_fields (freeze body)
       [''transaction_id'', ''from_account'', ''to_account'', ''amount'', ''currency'']) (\<lambda>v.
     and_then (and_then (item v ''transaction_id'') check_identifier) (\<lambda>i.
     and_then (and_then (item v ''from_account'') check_identifier) (\<lambda>f.
     and_then (and_then (item v ''to_account'') check_identifier) (\<lambda>t.
     and_then (and_then (item v ''amount'') (\<lambda>n. check_integer n 1 100000000)) (\<lambda>n.
     and_then (item v ''currency'') (\<lambda>c.
       if c \<noteq> JStr ''USD'' \<or> f = t
       then Inl (ValueError ''USD transfer between distinct accounts required'')
       else Inr \<lparr>transaction_id = i, from_account = f, to_account = t, amount = n\<rparr>))))))"

definition intent_json :: "Intent \<Rightarrow> json" where
  "intent_json b = JDict [(''transaction_id'', JStr (transaction_id b)),
     (''from_account'', JStr (from_account b)), (''to_account'', JStr (to_account b)),
     (''amount'', JInt (amount b)), (''currency'', JStr ''USD'')]"

text \<open>The checks of \<^const>\<open>intent\<close> on a value that is already typed.\<close>

definition check_intent :: "Intent \<Rightarrow> unit result" where
  "check_intent b =
     and_then (check_identifier (JStr (transaction_id b))) (\<lambda>_.
     and_then (check_identifier (JStr (from_account b))) (\<lambda>_.
     and_then (check_identifier (JStr (to_account b))) (\<lambda>_.
     and_then (check_integer (JInt (amount b)) 1 100000000) (\<lambda>_.
     require (from_account b \<noteq> to_account b)
       (ValueError ''USD transfer between distinct accounts required'')))))"

section \<open>Events and their projection\<close>

datatype role = Source | Destination | Local
datatype kind = LocalTransfer | Prepare | Confirm | Cancel
datatype part_status = PREPARED | REJECTED | CONFIRMED | CANCELED

datatype shard_event =
    Genesis "(string, int) dict"
  | Action kind role Intent

record balance =
  available :: int
  held :: int

record part =
  part_intent :: Intent
  part_role :: role
  part_status :: part_status

record projection =
  accounts :: "(string, balance) dict"
  parts :: "(string, part) dict"

definition on_balance :: "string \<Rightarrow> int \<Rightarrow> int \<Rightarrow> projection \<Rightarrow> projection result" where
  "on_balance account da dh st =
     (case dict_get (accounts st) account of
        None \<Rightarrow> Inl (KeyError account)
      | Some b \<Rightarrow> Inr (st\<lparr>accounts := dict_set account
          \<lparr>available = available b + da, held = held b + dh\<rparr> (accounts st)\<rparr>))"

definition funded :: "projection \<Rightarrow> string \<Rightarrow> int \<Rightarrow> bool" where
  "funded st account n \<longleftrightarrow>
     (case dict_get (accounts st) account of None \<Rightarrow> False | Some b \<Rightarrow> n \<le> available b)"

text \<open>The four kinds of participant events: the new projection before the final check, and the status.\<close>

definition reduce_local :: "Intent \<Rightarrow> part option \<Rightarrow> projection \<Rightarrow> (projection \<times> part_status) result" where
  "reduce_local b old st =
     (if old \<noteq> None then Inl (ValueError ''duplicate local event'')
      else if dict_get (accounts st) (to_account b) \<noteq> None \<and> funded st (from_account b) (amount b)
      then and_then (on_balance (from_account b) (- amount b) 0 st) (\<lambda>st.
           and_then (on_balance (to_account b) (amount b) 0 st) (\<lambda>st. Inr (st, CONFIRMED)))
      else Inr (st, REJECTED))"

definition reduce_prepare :: "role \<Rightarrow> Intent \<Rightarrow> part option \<Rightarrow> projection \<Rightarrow> (projection \<times> part_status) result" where
  "reduce_prepare r b old st =
     (if old \<noteq> None then Inl (ValueError ''duplicate prepare event'')
      else if r = Source then
        if funded st (from_account b) (amount b)
        then and_then (on_balance (from_account b) (- amount b) (amount b) st) (\<lambda>st. Inr (st, PREPARED))
        else Inr (st, REJECTED)
      else if dict_get (accounts st) (to_account b) \<noteq> None then Inr (st, PREPARED)
      else Inr (st, REJECTED))"

definition reduce_confirm :: "role \<Rightarrow> Intent \<Rightarrow> part option \<Rightarrow> projection \<Rightarrow> (projection \<times> part_status) result" where
  "reduce_confirm r b old st =
     (if map_option part_status old \<noteq> Some PREPARED
      then Inl (ValueError ''confirm requires durable prepare'')
      else and_then (if r = Source then on_balance (from_account b) 0 (- amount b) st
                     else on_balance (to_account b) (amount b) 0 st) (\<lambda>st. Inr (st, CONFIRMED)))"

definition reduce_cancel :: "role \<Rightarrow> Intent \<Rightarrow> part option \<Rightarrow> projection \<Rightarrow> (projection \<times> part_status) result" where
  "reduce_cancel r b old st =
     (if map_option part_status old \<in> {Some CONFIRMED, Some CANCELED}
      then Inl (ValueError ''confirmed participant cannot cancel'')
      else and_then (if map_option part_status old = Some PREPARED \<and> r = Source
                     then on_balance (from_account b) (amount b) (- amount b) st else Inr st)
             (\<lambda>st. Inr (st, CANCELED)))"

fun reduce_kind :: "kind \<Rightarrow> role \<Rightarrow> Intent \<Rightarrow> part option \<Rightarrow> projection \<Rightarrow> (projection \<times> part_status) result" where
  "reduce_kind LocalTransfer r b old st = reduce_local b old st"
| "reduce_kind Prepare r b old st = reduce_prepare r b old st"
| "reduce_kind Confirm r b old st = reduce_confirm r b old st"
| "reduce_kind Cancel r b old st = reduce_cancel r b old st"

definition nonnegative :: "projection \<Rightarrow> bool" where
  "nonnegative st \<longleftrightarrow> list_all (\<lambda>(_, b). 0 \<le> available b \<and> 0 \<le> held b) (accounts st)"

text \<open>The projection before the genesis event is the empty dictionary, here \<^const>\<open>None\<close>.\<close>

fun reduce_event :: "projection option \<Rightarrow> shard_event \<Rightarrow> projection result" where
  "reduce_event state (Genesis opened) =
     and_then (traverse (\<lambda>(a, _). check_identifier (JStr a)) opened) (\<lambda>_.
     if state \<noteq> None then Inl (ValueError ''duplicate genesis'')
     else and_then (traverse (\<lambda>(a, n). and_then (check_integer (JInt n) 0 1000000000000)
              (\<lambda>n. Inr (a, \<lparr>available = n, held = 0\<rparr>))) opened) (\<lambda>rows.
          Inr \<lparr>accounts = rows, parts = []\<rparr>))"
| "reduce_event None (Action k r b) = Inl (ValueError ''invalid event kind/role or missing genesis'')"
| "reduce_event (Some st) (Action k r b) =
     (if (k = LocalTransfer) \<noteq> (r = Local)
      then Inl (ValueError ''invalid event kind/role or missing genesis'')
      else and_then (check_intent b) (\<lambda>_.
        let old = dict_get (parts st) (transaction_id b) in
        if \<exists>p \<in> set_option old. part_intent p \<noteq> b \<or> part_role p \<noteq> r
        then Inl (ValueError ''participant identity conflict'')
        else and_then (reduce_kind k r b old st) (\<lambda>(st, status).
          if \<not> nonnegative st then Inl (ValueError ''negative projection'')
          else Inr (st\<lparr>parts := dict_set (transaction_id b)
                 \<lparr>part_intent = b, part_role = r, part_status = status\<rparr> (parts st)\<rparr>))))"

section \<open>Event logs\<close>

text \<open>A row of a log; \<open>digest\<close> is the checksum of its other fields.\<close>

record 'e row =
  row_seq :: nat
  row_previous :: string
  row_event :: 'e
  row_hash :: string

type_synonym 'e digest = "nat \<Rightarrow> string \<Rightarrow> 'e \<Rightarrow> string"

definition entry :: "'e digest \<Rightarrow> nat \<Rightarrow> string \<Rightarrow> 'e \<Rightarrow> 'e row" where
  "entry digest seq previous event =
     \<lparr>row_seq = seq, row_previous = previous, row_event = event, row_hash = digest seq previous event\<rparr>"

definition no_hash :: string where
  "no_hash = replicate 64 (CHR ''0'')"

fun verify_from :: "'e digest \<Rightarrow> nat \<Rightarrow> string \<Rightarrow> 'e row list \<Rightarrow> string result" where
  "verify_from digest index previous [] = Inr previous"
| "verify_from digest index previous (r # rows) =
     (if r \<noteq> entry digest index previous (row_event r)
      then Inl (ValueError ''event log checksum or sequence mismatch'')
      else verify_from digest (Suc index) (row_hash r) rows)"

definition verify :: "'e digest \<Rightarrow> 'e row list \<Rightarrow> string result" where
  "verify digest rows = verify_from digest 1 no_hash rows"

definition tail_of :: "'e row list \<Rightarrow> nat \<times> string" where
  "tail_of rows = (if rows = [] then (0, no_hash) else (row_seq (List.last rows), row_hash (List.last rows)))"

definition next_row :: "'e digest \<Rightarrow> 'e row list \<Rightarrow> 'e \<Rightarrow> 'e row" where
  "next_row digest rows event = entry digest (fst (tail_of rows) + 1) (snd (tail_of rows)) event"

section \<open>Shards\<close>

record fence =
  epoch :: int
  leader :: string

record Shard =
  sh_index :: nat
  sh_count :: nat
  sh_fence :: fence
  sh_rows :: "shard_event row list"
  sh_state :: projection

text \<open>\<^verbatim>\<open>Fence.init_fence\<close> on a new database; on an existing one only its checks remain.\<close>

definition init_fence :: "int \<Rightarrow> string \<Rightarrow> fence result" where
  "init_fence e l =
     and_then (check_integer (JInt e) 1 1000000000000) (\<lambda>_.
     and_then (check_identifier (JStr l)) (\<lambda>_. Inr \<lparr>epoch = e, leader = l\<rparr>))"

definition check_fence :: "int \<Rightarrow> string \<Rightarrow> fence \<Rightarrow> unit result" where
  "check_fence e l f =
     and_then (check_integer (JInt e) 1 1000000000000) (\<lambda>_.
     and_then (check_identifier (JStr l)) (\<lambda>_.
     require (e = epoch f \<and> l = leader f) (HttpError 409 ''leader fenced; manual epoch recovery required'')))"

definition set_fence :: "int \<Rightarrow> string \<Rightarrow> fence \<Rightarrow> fence result" where
  "set_fence e l f =
     and_then (check_integer (JInt e) 1 1000000000000) (\<lambda>_.
     and_then (check_identifier (JStr l)) (\<lambda>_.
     if e < epoch f \<or> (e = epoch f \<and> l \<noteq> leader f)
     then Inl (HttpError 409 ''epoch cannot move backwards or change owner'')
     else Inr \<lparr>epoch = e, leader = l\<rparr>))"

definition shard_for :: "(string \<Rightarrow> nat) \<Rightarrow> string \<Rightarrow> nat \<Rightarrow> nat" where
  "shard_for sha account n = sha account mod n"

fun replay_events :: "projection option \<Rightarrow> shard_event row list \<Rightarrow> projection option result" where
  "replay_events state [] = Inr state"
| "replay_events state (r # rows) =
     and_then (reduce_event state (row_event r)) (\<lambda>st. replay_events (Some st) rows)"

definition replay :: "shard_event digest \<Rightarrow> shard_event row list \<Rightarrow> projection option result" where
  "replay digest rows = and_then (verify digest rows) (\<lambda>_. replay_events None rows)"

definition shard_init ::
  "shard_event digest \<Rightarrow> (string \<Rightarrow> nat) \<Rightarrow> nat \<Rightarrow> nat \<Rightarrow> (string, int) dict \<Rightarrow> fence \<Rightarrow> Shard result" where
  "shard_init digest sha index num opened f =
     and_then (require (1 \<le> num \<and> num \<le> 100 \<and> index < num)
       (ValueError ''integer cents/sequence outside reference limits'')) (\<lambda>_.
     and_then (init_fence (epoch f) (leader f)) (\<lambda>f.
     let mine = filter (\<lambda>(a, _). shard_for sha a num = index) opened in
     and_then (reduce_event None (Genesis mine)) (\<lambda>st.
       Inr \<lparr>sh_index = index, sh_count = num, sh_fence = f,
            sh_rows = [next_row digest [] (Genesis mine)], sh_state = st\<rparr>)))"

definition shard_append :: "shard_event digest \<Rightarrow> shard_event \<Rightarrow> Shard \<Rightarrow> Shard result" where
  "shard_append digest event s =
     and_then (reduce_event (Some (sh_state s)) event) (\<lambda>st.
       Inr (s\<lparr>sh_rows := sh_rows s @ [next_row digest (sh_rows s) event], sh_state := st\<rparr>))"

text \<open>
  A participant action returns the participant it leaves; a repetition returns the stored one
  without a new event.
\<close>

definition shard_record :: "shard_event digest \<Rightarrow> Intent \<Rightarrow> kind \<Rightarrow> role \<Rightarrow> Shard \<Rightarrow> Shard \<times> part result" where
  "shard_record digest b k r s =
     (case shard_append digest (Action k r b) s of
        Inl x \<Rightarrow> (s, Inl x)
      | Inr s' \<Rightarrow> (s', case dict_get (parts (sh_state s')) (transaction_id b) of
            None \<Rightarrow> Inl (KeyError (transaction_id b)) | Some p \<Rightarrow> Inr p))"

definition shard_apply :: "shard_event digest \<Rightarrow> Intent \<Rightarrow> kind \<Rightarrow> role \<Rightarrow> Shard \<Rightarrow> Shard \<times> part result" where
  "shard_apply digest b k r s =
     (case dict_get (parts (sh_state s)) (transaction_id b) of
        Some old \<Rightarrow>
          if part_intent old \<noteq> b \<or> part_role old \<noteq> r
          then (s, Inl (HttpError 409 ''participant command conflict''))
          else if k \<in> {Prepare, LocalTransfer} \<or> (k = Confirm \<and> part_status old = CONFIRMED) \<or>
                  (k = Cancel \<and> part_status old = CANCELED)
          then (s, Inr old)
          else if k = Confirm \<and> part_status old \<noteq> PREPARED \<or> k = Cancel \<and> part_status old = CONFIRMED
          then (s, Inl (HttpError 409 ''participant terminal conflict''))
          else shard_record digest b k r s
      | None \<Rightarrow>
          if k = Confirm then (s, Inl (HttpError 409 ''confirm without prepare''))
          else shard_record digest b k r s)"

definition shard_action ::
  "shard_event digest \<Rightarrow> (string \<Rightarrow> nat) \<Rightarrow> Intent \<Rightarrow> kind \<Rightarrow> role \<Rightarrow> int \<Rightarrow> string \<Rightarrow> Shard
   \<Rightarrow> Shard \<times> part result" where
  "shard_action digest sha b k r e l s =
     (case and_then (check_intent b) (\<lambda>_.
           and_then (require ((k = LocalTransfer) = (r = Local)) (ValueError ''invalid participant action'')) (\<lambda>_.
           and_then (require (shard_for sha (if r \<noteq> Destination then from_account b else to_account b) (sh_count s)
                 = sh_index s \<and>
               (r = Local \<longrightarrow> shard_for sha (to_account b) (sh_count s) = sh_index s))
             (HttpError 409 ''wrong shard'')) (\<lambda>_.
           check_fence e l (sh_fence s)))) of
        Inl x \<Rightarrow> (s, Inl x)
      | Inr _ \<Rightarrow> shard_apply digest b k r s)"

definition participant :: "string \<Rightarrow> Shard \<Rightarrow> part option result" where
  "participant i s = and_then (check_identifier (JStr i)) (\<lambda>_. Inr (dict_get (parts (sh_state s)) i))"

section \<open>Views, snapshots and the shard audit\<close>

definition shard_view :: "shard_event digest \<Rightarrow> int option \<Rightarrow> Shard \<Rightarrow> (nat \<times> string \<times> projection option) result" where
  "shard_view digest at s =
     (case at of
        None \<Rightarrow> Inr (fst (tail_of (sh_rows s)), snd (tail_of (sh_rows s)), Some (sh_state s))
      | Some n \<Rightarrow>
          and_then (check_integer (JInt n) 1 (int (length (sh_rows s)))) (\<lambda>n.
          and_then (replay digest (take (nat n) (sh_rows s))) (\<lambda>st.
            Inr (row_seq (sh_rows s ! (nat n - 1)), row_hash (sh_rows s ! (nat n - 1)), st))))"

text \<open>A balance, with the shard and the sequence number it was read at.\<close>

definition shard_balance :: "shard_event digest \<Rightarrow> string \<Rightarrow> int option \<Rightarrow> Shard \<Rightarrow> (nat \<times> nat \<times> balance) result" where
  "shard_balance digest account at s =
     and_then (check_identifier (JStr account)) (\<lambda>_.
     and_then (shard_view digest at s) (\<lambda>(seq, _, st).
       case Option.bind st (\<lambda>st. dict_get (accounts st) account) of
         None \<Rightarrow> Inl (HttpError 404 ''account missing'')
       | Some b \<Rightarrow> Inr (sh_index s, seq, b)))"

record snapshot_file =
  snap_seq :: nat
  snap_head :: string
  snap_state :: "projection option"
  snap_intact :: bool

definition shard_snapshot :: "shard_event digest \<Rightarrow> Shard \<Rightarrow> snapshot_file result" where
  "shard_snapshot digest s =
     and_then (replay digest (sh_rows s)) (\<lambda>st.
     if sh_rows s = [] then Inl IndexError
     else Inr \<lparr>snap_seq = length (sh_rows s), snap_head = row_hash (List.last (sh_rows s)),
               snap_state = st, snap_intact = True\<rparr>)"

definition shard_rebuild :: "shard_event digest \<Rightarrow> snapshot_file option \<Rightarrow> Shard \<Rightarrow> projection option result" where
  "shard_rebuild digest snap s =
     and_then (replay digest (sh_rows s)) (\<lambda>st.
     case snap of
       None \<Rightarrow> Inr st
     | Some f \<Rightarrow>
         and_then (check_integer (JInt (int (snap_seq f))) 1 (int (length (sh_rows s)))) (\<lambda>_.
         and_then (replay digest (take (snap_seq f) (sh_rows s))) (\<lambda>prefix.
           if \<not> snap_intact f \<or> snap_head f \<noteq> row_hash (sh_rows s ! (snap_seq f - 1)) \<or> snap_state f \<noteq> prefix
           then Inl (ValueError ''snapshot checksum or projection mismatch'')
           else replay_events (snap_state f) (drop (snap_seq f) (sh_rows s)))))"

text \<open>
  Opening an existing database again with the configured fence \<open>f\<close>: the stored fence stays, the
  genesis event must be that of the configuration, and the projection is rebuilt.  A log with a genesis event never replays to the empty projection.
\<close>

definition shard_reopen ::
  "shard_event digest \<Rightarrow> (string \<Rightarrow> nat) \<Rightarrow> (string, int) dict \<Rightarrow> fence \<Rightarrow> snapshot_file option \<Rightarrow> Shard
   \<Rightarrow> Shard result" where
  "shard_reopen digest sha opened f snap s =
     and_then (init_fence (epoch f) (leader f)) (\<lambda>_. case sh_rows s of
        [] \<Rightarrow> shard_init digest sha (sh_index s) (sh_count s) opened (sh_fence s)
      | r # _ \<Rightarrow>
          if row_event r \<noteq> Genesis (filter (\<lambda>(a, _). shard_for sha a (sh_count s) = sh_index s) opened)
          then Inl (ValueError ''opening configuration changed; refusing to mint new funds'')
          else and_then (shard_rebuild digest snap s) (\<lambda>st.
            Inr (case st of None \<Rightarrow> s | Some st \<Rightarrow> s\<lparr>sh_state := st\<rparr>)))"

definition shard_audit :: "shard_event digest \<Rightarrow> Shard \<Rightarrow> (bool \<times> nat \<times> string) result" where
  "shard_audit digest s =
     and_then (replay digest (sh_rows s)) (\<lambda>replayed.
       Inr (replayed = Some (sh_state s), length (sh_rows s), snd (tail_of (sh_rows s))))"

section \<open>The effect of an event\<close>

definition total :: "projection \<Rightarrow> int" where
  "total st = dict_sum (\<lambda>b. available b + held b) (accounts st)"

definition holds :: "string \<Rightarrow> part \<Rightarrow> int" where
  "holds a p = (if part_role p = Source \<and> part_status p = PREPARED \<and> from_account (part_intent p) = a
                then amount (part_intent p) else 0)"

text \<open>The account a participant works on.\<close>

definition part_account :: "part \<Rightarrow> string" where
  "part_account p =
     (if part_role p = Destination then to_account (part_intent p) else from_account (part_intent p))"

definition part_ok :: "projection \<Rightarrow> string \<Rightarrow> part \<Rightarrow> bool" where
  "part_ok st i p \<longleftrightarrow>
     transaction_id (part_intent p) = i \<and> check_intent (part_intent p) = Inr () \<and>
     (part_status p \<in> {PREPARED, CONFIRMED} \<longrightarrow> part_account p \<in> fst ` set (accounts st))"

text \<open>
  A projection is consistent: no negative balance, and what an account holds is the sum of the
  transfers prepared from it.
\<close>

definition proj_ok :: "projection \<Rightarrow> bool" where
  "proj_ok st \<longleftrightarrow>
     dict_ok (accounts st) \<and> dict_ok (parts st) \<and> nonnegative st \<and>
     (\<forall>a b. dict_get (accounts st) a = Some b \<longrightarrow> held b = dict_sum (holds a) (parts st)) \<and>
     (\<forall>(i, p)\<in>set (parts st). part_ok st i p)"

text \<open>
  What an event of kind \<open>k\<close> may do: the old and new status of the participant, and the change of
  the shard's total.
\<close>

definition part_step :: "kind \<Rightarrow> role \<Rightarrow> int \<Rightarrow> part_status option \<Rightarrow> part_status \<Rightarrow> int \<Rightarrow> bool" where
  "part_step k r n old new d \<longleftrightarrow>
     (case k of
        LocalTransfer \<Rightarrow> old = None \<and> new \<in> {CONFIRMED, REJECTED} \<and> d = 0
      | Prepare \<Rightarrow> old = None \<and> new \<in> {PREPARED, REJECTED} \<and> d = 0
      | Confirm \<Rightarrow> old = Some PREPARED \<and> new = CONFIRMED \<and> d = (if r = Source then - n else n)
      | Cancel \<Rightarrow> old \<notin> {Some CONFIRMED, Some CANCELED} \<and> new = CANCELED \<and> d = 0)"

lemma on_balance_effect:
  assumes "on_balance a da dh st = Inr st'"
  obtains b where "dict_get (accounts st) a = Some b"
    "accounts st' = dict_set a \<lparr>available = available b + da, held = held b + dh\<rparr> (accounts st)"
    "parts st' = parts st" "total st' = total st + da + dh" "fst ` set (accounts st') = fst ` set (accounts st)"
proof -
  obtain b where b: "dict_get (accounts st) a = Some b"
    and st': "st' = st\<lparr>accounts := dict_set a \<lparr>available = available b + da, held = held b + dh\<rparr> (accounts st)\<rparr>"
    using assms by (auto simp: on_balance_def split: option.splits)
  have "fst ` set (accounts st') = insert a (fst ` set (accounts st))"
    by (simp add: st' dom_map_of_conv_image_fst[symmetric] dict_simps)
  moreover have "a \<in> fst ` set (accounts st)" using b dict_get_dom[of "accounts st" a] by simp
  ultimately show thesis using b by (intro that) (auto simp: st' total_def dict_simps)
qed

lemma on_balance_total: "a \<in> fst ` set (accounts st) \<Longrightarrow> \<exists>st'. on_balance a da dh st = Inr st'"
  using dict_get_dom[of "accounts st" a] by (auto simp: on_balance_def split: option.splits)

text \<open>The held amount of account \<open>a\<close> changes by \<open>h\<close>, and no other.\<close>

definition holds_change :: "projection \<Rightarrow> string \<Rightarrow> int \<Rightarrow> projection \<Rightarrow> bool" where
  "holds_change st a h st' \<longleftrightarrow>
     (\<forall>x b'. dict_get (accounts st') x = Some b' \<longrightarrow>
        (\<exists>b. dict_get (accounts st) x = Some b \<and> held b' = held b + (if x = a then h else 0)))"

lemma holds_change_refl [simp]: "holds_change st a 0 st"
  by (simp add: holds_change_def)

lemma on_balance_holds:
  assumes "on_balance a da dh st = Inr st'"
  shows "holds_change st a dh st'" and "dict_ok (accounts st) \<Longrightarrow> dict_ok (accounts st')"
proof -
  obtain b where b: "dict_get (accounts st) a = Some b"
    and st': "accounts st' = dict_set a \<lparr>available = available b + da, held = held b + dh\<rparr> (accounts st)"
    using on_balance_effect[OF assms] by metis
  show "holds_change st a dh st'" unfolding holds_change_def
  proof (intro allI impI)
    fix x b' assume "dict_get (accounts st') x = Some b'"
    then show "\<exists>b. dict_get (accounts st) x = Some b \<and> held b' = held b + (if x = a then dh else 0)"
      using b by (cases "x = a") (auto simp: st' dict_simps)
  qed
  show "dict_ok (accounts st) \<Longrightarrow> dict_ok (accounts st')" by (simp add: st')
qed

lemma holds_change_trans:
  assumes "holds_change st a 0 st1" and "holds_change st1 c 0 st'"
  shows "holds_change st x 0 st'"
  unfolding holds_change_def
proof (intro allI impI)
  fix y b' assume "dict_get (accounts st') y = Some b'"
  then obtain b1 where "dict_get (accounts st1) y = Some b1" "held b' = held b1"
    using assms(2) unfolding holds_change_def by fastforce
  then show "\<exists>b. dict_get (accounts st) y = Some b \<and> held b' = held b + (if y = x then 0 else 0)"
    using assms(1) unfolding holds_change_def by fastforce
qed

lemma holds_change_zero: "holds_change st a 0 st' \<Longrightarrow> holds_change st x 0 st'"
  by (rule holds_change_trans[OF _ holds_change_refl])

text \<open>What the work of an event adds to the total (\<open>d\<close>) and to the held amount of the source (\<open>h\<close>).\<close>

definition event_effect :: "Intent \<Rightarrow> projection \<Rightarrow> projection \<Rightarrow> int \<Rightarrow> int \<Rightarrow> bool" where
  "event_effect b st st' d h \<longleftrightarrow>
     total st' = total st + d \<and> parts st' = parts st \<and>
     fst ` set (accounts st') = fst ` set (accounts st) \<and> dict_ok (accounts st') \<and>
     holds_change st (from_account b) h st'"

lemma event_effect_refl: "dict_ok (accounts st) \<Longrightarrow> event_effect b st st 0 0"
  by (simp add: event_effect_def)

lemma on_balance_event:
  assumes "on_balance a da dh st = Inr st'" and "dict_ok (accounts st)"
    and "a = from_account b \<or> dh = 0"
  shows "event_effect b st st' (da + dh) dh"
proof -
  obtain bal where bal: "dict_get (accounts st) a = Some bal" and "parts st' = parts st"
      "total st' = total st + da + dh" "fst ` set (accounts st') = fst ` set (accounts st)"
    using on_balance_effect[OF assms(1)] by metis
  moreover have "holds_change st (from_account b) dh st'"
    using on_balance_holds(1)[OF assms(1)] assms(3) holds_change_zero by blast
  ultimately show ?thesis using on_balance_holds(2)[OF assms(1,2)] by (simp add: event_effect_def)
qed

lemma on_balance_account: "on_balance a da dh st = Inr st' \<Longrightarrow> a \<in> fst ` set (accounts st)"
  using dict_get_dom[of "accounts st" a] by (auto simp: on_balance_def split: option.splits)

lemma event_effect_trans:
  assumes "event_effect b st st1 d 0" and "event_effect b st1 st' d' 0"
  shows "event_effect b st st' (d + d') 0"
  using assms holds_change_trans unfolding event_effect_def by (metis add.assoc)

lemma funded_account: "funded st a n \<Longrightarrow> a \<in> fst ` set (accounts st)"
  using dict_get_dom[of "accounts st" a] by (auto simp: funded_def split: option.splits)

text \<open>The amount a participant in a given status holds on the source account.\<close>

definition hold_of :: "role \<Rightarrow> Intent \<Rightarrow> part_status option \<Rightarrow> int" where
  "hold_of r b s = (if r = Source \<and> s = Some PREPARED then amount b else 0)"

definition role_account :: "role \<Rightarrow> Intent \<Rightarrow> string" where
  "role_account r b = (if r = Destination then to_account b else from_account b)"

text \<open>What an event must establish: a legal status change, and the effect that goes with it.\<close>

definition kind_effect ::
  "kind \<Rightarrow> role \<Rightarrow> Intent \<Rightarrow> part_status option \<Rightarrow> part_status \<Rightarrow> projection \<Rightarrow> projection \<Rightarrow> bool" where
  "kind_effect k r b old new st st' \<longleftrightarrow>
     (\<exists>d. part_step k r (amount b) old new d \<and>
          event_effect b st st' d (hold_of r b (Some new) - hold_of r b old)) \<and>
     (new \<in> {PREPARED, CONFIRMED} \<longrightarrow> role_account r b \<in> fst ` set (accounts st))"

lemma reduce_local_effect:
  assumes "reduce_local b old st = Inr (st', new)" "dict_ok (accounts st)"
  shows "kind_effect LocalTransfer Local b (map_option part_status old) new st st'"
proof -
  consider (moved) st1 where "funded st (from_account b) (amount b)"
      "on_balance (from_account b) (- amount b) 0 st = Inr st1"
      "on_balance (to_account b) (amount b) 0 st1 = Inr st'" "new = CONFIRMED" "old = None"
    | (rejected) "st' = st" "new = REJECTED" "old = None"
    using assms(1) by (auto simp: reduce_local_def result_simps split: if_splits)
  then show ?thesis
  proof cases
    case (moved st1)
    have "event_effect b st st1 (- amount b + 0) 0" using on_balance_event[OF moved(2) assms(2)] by simp
    moreover from this have "dict_ok (accounts st1)" by (simp add: event_effect_def)
    then have "event_effect b st1 st' (amount b + 0) 0" using on_balance_event[OF moved(3)] by simp
    ultimately have "event_effect b st st' 0 0" using event_effect_trans by fastforce
    then show ?thesis using moved funded_account
      by (simp add: kind_effect_def part_step_def hold_of_def role_account_def)
  next
    case rejected
    then show ?thesis using event_effect_refl[OF assms(2)]
      by (simp add: kind_effect_def part_step_def hold_of_def)
  qed
qed

lemma reduce_prepare_effect:
  assumes "reduce_prepare r b old st = Inr (st', new)" "dict_ok (accounts st)" "r \<noteq> Local"
  shows "kind_effect Prepare r b (map_option part_status old) new st st'"
proof -
  consider (held) "r = Source" "on_balance (from_account b) (- amount b) (amount b) st = Inr st'"
      "new = PREPARED" "old = None"
    | (known) "r = Destination" "dict_get (accounts st) (to_account b) \<noteq> None" "st' = st" "new = PREPARED" "old = None"
    | (rejected) "st' = st" "new = REJECTED" "old = None"
    using assms(1,3) by (cases r) (auto simp: reduce_prepare_def result_simps split: if_splits)
  then show ?thesis
  proof cases
    case held
    then show ?thesis using on_balance_event[OF held(2) assms(2), of b] on_balance_account[OF held(2)]
      by (simp add: kind_effect_def part_step_def hold_of_def role_account_def)
  next
    case known
    then show ?thesis using event_effect_refl[OF assms(2)] dict_get_dom[of "accounts st" "to_account b"]
      by (simp add: kind_effect_def part_step_def hold_of_def role_account_def)
  next
    case rejected
    then show ?thesis using event_effect_refl[OF assms(2)]
      by (simp add: kind_effect_def part_step_def hold_of_def)
  qed
qed

lemma reduce_confirm_effect:
  assumes "reduce_confirm r b old st = Inr (st', new)" "dict_ok (accounts st)" "r \<noteq> Local"
  shows "kind_effect Confirm r b (map_option part_status old) new st st'"
proof (cases "r = Source")
  case True
  then have ob: "on_balance (from_account b) 0 (- amount b) st = Inr st'" and "new = CONFIRMED"
      "map_option part_status old = Some PREPARED"
    using assms(1) by (auto simp: reduce_confirm_def result_simps split: if_splits)
  then show ?thesis using True on_balance_event[OF ob assms(2), of b] on_balance_account[OF ob]
    by (simp add: kind_effect_def part_step_def hold_of_def role_account_def)
next
  case False
  then have ob: "on_balance (to_account b) (amount b) 0 st = Inr st'" and "new = CONFIRMED"
      "map_option part_status old = Some PREPARED" "r = Destination"
    using assms(1,3) by (cases r; auto simp: reduce_confirm_def result_simps split: if_splits)+
  then show ?thesis using on_balance_event[OF ob assms(2), of b] on_balance_account[OF ob]
    by (simp add: kind_effect_def part_step_def hold_of_def role_account_def)
qed

lemma reduce_cancel_effect:
  assumes "reduce_cancel r b old st = Inr (st', new)" "dict_ok (accounts st)"
  shows "kind_effect Cancel r b (map_option part_status old) new st st'"
proof -
  have old: "map_option part_status old \<notin> {Some CONFIRMED, Some CANCELED}" and new: "new = CANCELED"
    using assms(1) by (auto simp: reduce_cancel_def result_simps split: if_splits)
  show ?thesis
  proof (cases "map_option part_status old = Some PREPARED \<and> r = Source")
    case True
    then have ob: "on_balance (from_account b) (amount b) (- amount b) st = Inr st'"
      using assms(1) by (auto simp: reduce_cancel_def result_simps split: if_splits)
    then show ?thesis using True old new on_balance_event[OF ob assms(2), of b]
      by (simp add: kind_effect_def part_step_def hold_of_def)
  next
    case False
    then have "st' = st" using assms(1) by (auto simp: reduce_cancel_def result_simps split: if_splits)
    then show ?thesis using False old new event_effect_refl[OF assms(2)]
      by (auto simp: kind_effect_def part_step_def hold_of_def)
  qed
qed

lemma reduce_kind_effect:
  assumes "reduce_kind k r b old st = Inr (st', new)" "dict_ok (accounts st)"
    and "(k = LocalTransfer) = (r = Local)"
  shows "kind_effect k r b (map_option part_status old) new st st'"
  using assms reduce_local_effect[of b old st st' new] reduce_prepare_effect[of r b old st st' new]
    reduce_confirm_effect[of r b old st st' new] reduce_cancel_effect[of r b old st st' new]
  by (cases k) simp_all

text \<open>The consistency of the projection is kept, and the change of the total is that of the status.\<close>

lemma holds_sum_set:
  assumes "dict_get (parts st) i = old"
    and "\<forall>p\<in>set_option old. part_intent p = b \<and> part_role p = r"
  shows "dict_sum (holds a) (dict_set i \<lparr>part_intent = b, part_role = r, part_status = new\<rparr> (parts st))
    = dict_sum (holds a) (parts st)
      + (if a = from_account b then hold_of r b (Some new) - hold_of r b (map_option part_status old) else 0)"
proof (cases old)
  case None
  then show ?thesis using assms(1) by (simp add: dict_sum_update holds_def hold_of_def)
next
  case (Some p)
  then show ?thesis using assms by (simp add: dict_sum_update holds_def hold_of_def)
qed

lemma holds_changeE:
  assumes "holds_change st a h st'" "dict_get (accounts st') x = Some b'"
  obtains b where "dict_get (accounts st) x = Some b" "held b' = held b + (if x = a then h else 0)"
  using assms unfolding holds_change_def by blast

lemma part_ok_keys:
  "part_ok st i p \<Longrightarrow> fst ` set (accounts st') = fst ` set (accounts st) \<Longrightarrow> part_ok st' i p"
  by (simp add: part_ok_def)

lemma reduce_action:
  assumes "reduce_event (Some st) (Action k r b) = Inr st'" and "proj_ok st"
  obtains new d where
    "part_step k r (amount b) (map_option part_status (dict_get (parts st) (transaction_id b))) new d"
    "parts st' = dict_set (transaction_id b) \<lparr>part_intent = b, part_role = r, part_status = new\<rparr> (parts st)"
    "\<forall>p\<in>set_option (dict_get (parts st) (transaction_id b)). part_intent p = b \<and> part_role p = r"
    "total st' = total st + d" "fst ` set (accounts st') = fst ` set (accounts st)" "proj_ok st'"
proof -
  let ?old = "dict_get (parts st) (transaction_id b)"
  obtain st1 new where kr: "(k = LocalTransfer) = (r = Local)" and ci: "check_intent b = Inr ()"
    and id: "\<forall>p\<in>set_option ?old. part_intent p = b \<and> part_role p = r"
    and red: "reduce_kind k r b ?old st = Inr (st1, new)" and nn: "nonnegative st1"
    and st': "st' = st1\<lparr>parts := dict_set (transaction_id b)
         \<lparr>part_intent = b, part_role = r, part_status = new\<rparr> (parts st1)\<rparr>"
    using assms(1) by (auto simp: result_simps Let_def split: if_splits prod.splits)
  have ok: "dict_ok (accounts st)" "dict_ok (parts st)" using assms(2) by (simp_all add: proj_ok_def)
  obtain d where step: "part_step k r (amount b) (map_option part_status ?old) new d"
    and ef: "event_effect b st st1 d (hold_of r b (Some new) - hold_of r b (map_option part_status ?old))"
    and acc: "new \<in> {PREPARED, CONFIRMED} \<longrightarrow> role_account r b \<in> fst ` set (accounts st)"
    using reduce_kind_effect[OF red ok(1) kr] unfolding kind_effect_def by blast
  have parts': "parts st' = dict_set (transaction_id b) \<lparr>part_intent = b, part_role = r, part_status = new\<rparr> (parts st)"
    and accs': "accounts st' = accounts st1" and keys: "fst ` set (accounts st1) = fst ` set (accounts st)"
    and tot: "total st' = total st + d"
    and hc: "holds_change st (from_account b) (hold_of r b (Some new) - hold_of r b (map_option part_status ?old)) st1"
    using ef by (simp_all add: st' event_effect_def total_def)
  have "held bal = dict_sum (holds a) (parts st')" if bal: "dict_get (accounts st') a = Some bal" for a bal
  proof -
    obtain bal0 where "dict_get (accounts st) a = Some bal0"
      "held bal = held bal0 + (if a = from_account b
         then hold_of r b (Some new) - hold_of r b (map_option part_status ?old) else 0)"
      by (rule holds_changeE[OF hc bal[unfolded accs']])
    moreover have "held bal0 = dict_sum (holds a) (parts st)"
      using assms(2) calculation(1) by (simp add: proj_ok_def)
    ultimately show ?thesis unfolding parts' using holds_sum_set[OF refl id] by simp
  qed
  moreover have "\<forall>(i, p)\<in>set (parts st'). part_ok st' i p"
  proof (clarify)
    fix i p assume "(i, p) \<in> set (parts st')"
    then have "(i, p) \<in> set (parts st) \<or> (i = transaction_id b \<and> p = \<lparr>part_intent = b, part_role = r, part_status = new\<rparr>)"
      using set_dict_set[of "transaction_id b" _ "parts st"] unfolding parts' by blast
    then show "part_ok st' i p"
    proof
      assume "(i, p) \<in> set (parts st)"
      then have "part_ok st i p" using assms(2) unfolding proj_ok_def by blast
      then show ?thesis using part_ok_keys keys accs' by simp
    next
      assume "i = transaction_id b \<and> p = \<lparr>part_intent = b, part_role = r, part_status = new\<rparr>"
      then show ?thesis using ci acc keys accs' by (simp add: part_ok_def part_account_def role_account_def split: if_splits)
    qed
  qed
  ultimately have "proj_ok st'"
    using nn ef ok unfolding proj_ok_def event_effect_def nonnegative_def accs' parts' by simp
  then show thesis using that[OF step parts' id tot] keys accs' by simp
qed

section \<open>The log of a shard\<close>

lemma verify_from_append:
  "verify_from digest n h (xs @ ys)
   = and_then (verify_from digest n h xs) (\<lambda>h'. verify_from digest (n + length xs) h' ys)"
  by (induction digest n h xs rule: verify_from.induct) simp_all

lemma verify_from_tail:
  "verify_from digest n h rows = Inr h' \<Longrightarrow>
   h' = (if rows = [] then h else row_hash (List.last rows)) \<and>
   (\<forall>i < length rows. row_seq (rows ! i) = n + i)"
proof (induction digest n h rows rule: verify_from.induct)
  case (2 digest index previous r rows)
  then have IH: "h' = (if rows = [] then row_hash r else row_hash (List.last rows))"
    and seqs: "\<forall>i < length rows. row_seq (rows ! i) = Suc index + i"
    and r: "r = entry digest index previous (row_event r)"
    by (auto split: if_splits)
  have "row_seq r = index" by (subst r) (simp add: entry_def)
  then have "\<forall>i < length (r # rows). row_seq ((r # rows) ! i) = index + i"
    using seqs by (auto simp: nth_Cons' less_Suc_eq_0_disj)
  then show ?case using IH by simp
qed simp

lemma verify_tail_of:
  assumes "verify digest rows = Inr h"
  shows "tail_of rows = (length rows, h)"
proof (cases "rows = []")
  case True
  then show ?thesis using assms by (simp add: tail_of_def verify_def)
next
  case False
  then have "row_seq (rows ! (length rows - 1)) = 1 + (length rows - 1)"
    using verify_from_tail[OF assms[unfolded verify_def]] by simp
  then show ?thesis using verify_from_tail[OF assms[unfolded verify_def]] False
    by (simp add: tail_of_def last_conv_nth)
qed

lemma verify_next_row:
  assumes "verify digest rows = Inr h"
  shows "verify digest (rows @ [next_row digest rows e]) = Inr (row_hash (next_row digest rows e))"
    "row_event (next_row digest rows e) = e" "row_seq (next_row digest rows e) = Suc (length rows)"
  using verify_tail_of[OF assms] assms
  by (simp_all add: verify_def verify_from_append next_row_def entry_def)

lemma verify_take: "verify digest rows = Inr h \<Longrightarrow> \<exists>h'. verify digest (take n rows) = Inr h'"
  using verify_from_append[of digest 1 no_hash "take n rows" "drop n rows"]
  by (cases "verify_from digest 1 no_hash (take n rows)") (auto simp: verify_def)

lemma replay_events_append:
  "replay_events st (xs @ ys) = and_then (replay_events st xs) (\<lambda>st. replay_events st ys)"
proof (induction xs arbitrary: st)
  case (Cons x xs)
  then show ?case by (cases "reduce_event st (row_event x)") simp_all
qed simp

text \<open>The number of events a participant in a given status can have had.\<close>

definition part_events :: "part \<Rightarrow> int" where
  "part_events p = (if part_status p \<in> {PREPARED, REJECTED} then 1 else 2)"

text \<open>
  The shard invariant: the stored projection is the replay of the stored rows, is consistent, its
  accounts are those of the genesis event, and every later row is an event of some participant.
\<close>

definition shard_ok :: "shard_event digest \<Rightarrow> (string \<Rightarrow> nat) \<Rightarrow> (string, int) dict \<Rightarrow> Shard \<Rightarrow> bool" where
  "shard_ok digest sha opened s \<longleftrightarrow>
     replay digest (sh_rows s) = Inr (Some (sh_state s)) \<and> sh_rows s \<noteq> [] \<and>
     proj_ok (sh_state s) \<and> sh_index s < sh_count s \<and> sh_count s \<le> 100 \<and>
     fst ` set (accounts (sh_state s)) = {a \<in> fst ` set opened. shard_for sha a (sh_count s) = sh_index s} \<and>
     int (length (sh_rows s)) \<le> 1 + dict_sum part_events (parts (sh_state s))"

lemma part_events_step:
  assumes "part_step k r n (map_option part_status (dict_get ps i)) new d"
  shows "1 + dict_sum part_events ps
    \<le> dict_sum part_events (dict_set i \<lparr>part_intent = b, part_role = r', part_status = new\<rparr> ps)"
proof (cases "dict_get ps i")
  case None
  then show ?thesis using assms by (auto simp: dict_sum_update part_events_def)
next
  case (Some p)
  then show ?thesis using assms
    by (cases k; cases "part_status p") (auto simp: part_step_def dict_sum_update part_events_def)
qed

lemma genesis_rows:
  assumes "traverse (\<lambda>(a, n). and_then (check_integer (JInt n) lo hi) (\<lambda>n. Inr (a, f n))) opened = Inr rows"
  shows "rows = map (\<lambda>(a, n). (a, f n)) opened \<and> (\<forall>(a, n)\<in>set opened. lo \<le> n \<and> n \<le> hi)"
  using assms
proof (induction opened arbitrary: rows)
  case (Cons x opened)
  obtain a n where x: "x = (a, n)" by (cases x)
  obtain ys where "lo \<le> n" "n \<le> hi" "rows = (a, f n) # ys"
    "traverse (\<lambda>(a, n). and_then (check_integer (JInt n) lo hi) (\<lambda>n. Inr (a, f n))) opened = Inr ys"
    using Cons.prems by (auto simp: x and_then_Inr_iff simp del: traverse_Inr_iff split: if_splits)
  then show ?case using Cons.IH by (simp add: x)
qed simp

lemma genesis_projection:
  assumes "reduce_event None (Genesis opened) = Inr st" "dict_ok opened"
  shows "proj_ok st" "total st = dict_sum (\<lambda>n. n) opened" "parts st = []"
    "fst ` set (accounts st) = fst ` set opened"
proof -
  have rows: "accounts st = map (\<lambda>(a, n). (a, \<lparr>available = n, held = 0\<rparr>)) opened"
    and p: "parts st = []" and pos: "\<forall>(a, n)\<in>set opened. 0 \<le> n"
  proof -
    obtain rows where "traverse (\<lambda>(a, n). and_then (check_integer (JInt n) 0 1000000000000)
        (\<lambda>n. Inr (a, \<lparr>available = n, held = 0\<rparr>))) opened = Inr rows" "st = \<lparr>accounts = rows, parts = []\<rparr>"
      using assms(1) by (auto simp: and_then_Inr_iff)
    then show "accounts st = map (\<lambda>(a, n). (a, \<lparr>available = n, held = 0\<rparr>)) opened" "parts st = []"
      "\<forall>(a, n)\<in>set opened. 0 \<le> n"
      using genesis_rows by (fastforce simp del: check_integer.simps)+
  qed
  show "parts st = []" by (rule p)
  show "fst ` set (accounts st) = fst ` set opened" by (force simp: rows)
  show "total st = dict_sum (\<lambda>n. n) opened"
    by (simp add: total_def rows dict_sum_def comp_def split_def)
  show "proj_ok st" using assms(2) pos
    by (auto simp: proj_ok_def rows p dict_ok_def nonnegative_def list_all_iff comp_def split_def
        dest!: map_of_SomeD)
qed

lemma shard_append_ok:
  assumes "shard_append digest (Action k r b) s = Inr s'" and "shard_ok digest sha opened s"
  obtains new d where
    "part_step k r (amount b) (map_option part_status (dict_get (parts (sh_state s)) (transaction_id b))) new d"
    "parts (sh_state s') = dict_set (transaction_id b)
       \<lparr>part_intent = b, part_role = r, part_status = new\<rparr> (parts (sh_state s))"
    "\<forall>p\<in>set_option (dict_get (parts (sh_state s)) (transaction_id b)). part_intent p = b \<and> part_role p = r"
    "total (sh_state s') = total (sh_state s) + d" "shard_ok digest sha opened s'"
    "sh_index s' = sh_index s" "sh_count s' = sh_count s" "sh_fence s' = sh_fence s"
proof -
  obtain st where red: "reduce_event (Some (sh_state s)) (Action k r b) = Inr st"
    and s': "s' = s\<lparr>sh_rows := sh_rows s @ [next_row digest (sh_rows s) (Action k r b)], sh_state := st\<rparr>"
    using assms(1) by (auto simp: shard_append_def result_simps)
  have ok: "proj_ok (sh_state s)" "replay_events None (sh_rows s) = Inr (Some (sh_state s))"
    using assms(2) by (auto simp: shard_ok_def replay_def result_simps)
  obtain h where h: "verify digest (sh_rows s) = Inr h"
    using assms(2) by (auto simp: shard_ok_def replay_def result_simps)
  have "replay digest (sh_rows s') = Inr (Some (sh_state s'))"
    using verify_next_row[OF h, of "Action k r b"] ok red
    by (simp add: s' replay_def replay_events_append)
  moreover obtain new d where new:
    "part_step k r (amount b) (map_option part_status (dict_get (parts (sh_state s)) (transaction_id b))) new d"
    "parts st = dict_set (transaction_id b) \<lparr>part_intent = b, part_role = r, part_status = new\<rparr> (parts (sh_state s))"
    "\<forall>p\<in>set_option (dict_get (parts (sh_state s)) (transaction_id b)). part_intent p = b \<and> part_role p = r"
    "total st = total (sh_state s) + d" "fst ` set (accounts st) = fst ` set (accounts (sh_state s))" "proj_ok st"
    by (rule reduce_action[OF red ok(1)])
  moreover from calculation have "shard_ok digest sha opened s'"
    using assms(2) part_events_step[OF new(1), of b r] by (simp add: shard_ok_def s')
  ultimately show thesis by (intro that[of new d]) (simp_all add: s')
qed

section \<open>Actions\<close>

lemma init_fence_Inr_iff:
  "init_fence e l = Inr f \<longleftrightarrow>
    check_integer (JInt e) 1 1000000000000 = Inr e \<and> check_identifier (JStr l) = Inr l \<and> f = \<lparr>epoch = e, leader = l\<rparr>"
  by (auto simp: init_fence_def and_then_Inr_iff)

lemma shard_init_ok:
  assumes "shard_init digest sha i n opened f = Inr s" and "dict_ok opened"
  shows "shard_ok digest sha opened s" "parts (sh_state s) = []" "sh_index s = i" "sh_count s = n"
    "total (sh_state s) = dict_sum (\<lambda>n. n) (filter (\<lambda>(a, _). shard_for sha a n = i) opened)" "sh_fence s = f"
proof -
  let ?mine = "filter (\<lambda>(a, _). shard_for sha a n = i) opened"
  obtain st where n: "n \<le> 100" "i < n" and st: "reduce_event None (Genesis ?mine) = Inr st"
    and s: "s = \<lparr>sh_index = i, sh_count = n, sh_fence = f, sh_rows = [next_row digest [] (Genesis ?mine)], sh_state = st\<rparr>"
    using assms(1) unfolding shard_init_def Let_def and_then_Inr_iff require_Inr_iff init_fence_Inr_iff by auto
  have "dict_ok ?mine" using assms(2) by (simp add: dict_ok_def distinct_map_filter)
  note g = genesis_projection[OF st this]
  have row: "verify digest [next_row digest [] (Genesis ?mine)] = Inr (row_hash (next_row digest [] (Genesis ?mine)))"
    "row_event (next_row digest [] (Genesis ?mine)) = Genesis ?mine"
    using verify_next_row[of digest "[]" _ "Genesis ?mine"] by (simp_all add: verify_def)
  have "replay digest (sh_rows s) = Inr (Some st)"
    using row st by (simp add: s replay_def del: reduce_event.simps)
  moreover have "fst ` set ?mine = {a \<in> fst ` set opened. shard_for sha a n = i}" by force
  ultimately show "shard_ok digest sha opened s" using n g by (simp add: shard_ok_def s)
  show "parts (sh_state s) = []" "sh_index s = i" "sh_count s = n" "sh_fence s = f"
    "total (sh_state s) = dict_sum (\<lambda>n. n) ?mine"
    using g by (simp_all add: s)
qed

text \<open>The checks in front of an action.\<close>

definition action_ready :: "(string \<Rightarrow> nat) \<Rightarrow> Intent \<Rightarrow> kind \<Rightarrow> role \<Rightarrow> int \<Rightarrow> string \<Rightarrow> Shard \<Rightarrow> bool" where
  "action_ready sha b k r e l s \<longleftrightarrow>
     check_intent b = Inr () \<and> (k = LocalTransfer) = (r = Local) \<and>
     shard_for sha (role_account r b) (sh_count s) = sh_index s \<and>
     (r = Local \<longrightarrow> shard_for sha (to_account b) (sh_count s) = sh_index s) \<and>
     check_fence e l (sh_fence s) = Inr ()"

lemma shard_apply_changed:
  "shard_apply digest b k r s = (s', res) \<Longrightarrow> s' \<noteq> s \<Longrightarrow> shard_append digest (Action k r b) s = Inr s'"
  by (auto simp: shard_apply_def shard_record_def split: option.splits if_splits sum.splits)

lemma action_ready_apply:
  "action_ready sha b k r e l s \<Longrightarrow> shard_action digest sha b k r e l s = shard_apply digest b k r s"
  by (auto simp: shard_action_def action_ready_def role_account_def)

lemma shard_action_cases:
  assumes "shard_action digest sha b k r e l s = (s', res)" and "shard_ok digest sha opened s"
  obtains (same) "s' = s"
    | (event) new d where "action_ready sha b k r e l s"
      "part_step k r (amount b) (map_option part_status (dict_get (parts (sh_state s)) (transaction_id b))) new d"
      "parts (sh_state s') = dict_set (transaction_id b)
         \<lparr>part_intent = b, part_role = r, part_status = new\<rparr> (parts (sh_state s))"
      "\<forall>p\<in>set_option (dict_get (parts (sh_state s)) (transaction_id b)). part_intent p = b \<and> part_role p = r"
      "total (sh_state s') = total (sh_state s) + d" "shard_ok digest sha opened s'"
      "sh_index s' = sh_index s" "sh_count s' = sh_count s" "sh_fence s' = sh_fence s"
proof (cases "s' = s")
  case False
  then have ready: "action_ready sha b k r e l s" and "shard_apply digest b k r s = (s', res)"
    using assms(1) by (auto simp: shard_action_def action_ready_def role_account_def result_simps split: sum.splits)
  then have app: "shard_append digest (Action k r b) s = Inr s'"
    using False shard_apply_changed by blast
  show thesis by (rule shard_append_ok[OF app assms(2)]) (rule event[OF ready])
qed (rule same)

lemma shard_action_receipt:
  assumes "shard_action digest sha b k r e l s = (s', Inr p)" and "shard_ok digest sha opened s"
  shows "dict_get (parts (sh_state s')) (transaction_id b) = Some p \<and> part_intent p = b \<and> part_role p = r"
proof (cases "s' = s")
  case True
  have "shard_append digest (Action k r b) s \<noteq> Inr s"
    by (auto simp: shard_append_def result_simps dest: arg_cong[where f = sh_rows])
  then show ?thesis using assms(1) True
    by (auto simp: shard_action_def shard_apply_def shard_record_def split: sum.splits option.splits if_splits)
next
  case False
  then have app: "shard_append digest (Action k r b) s = Inr s'"
    and p: "dict_get (parts (sh_state s')) (transaction_id b) = Some p"
    using assms(1)
    by (auto simp: shard_action_def shard_apply_def shard_record_def split: sum.splits option.splits if_splits)
  show ?thesis by (rule shard_append_ok[OF app assms(2)]) (use p in \<open>auto simp: dict_simps\<close>)
qed

section \<open>Progress of an action\<close>

text \<open>When the status allows an event, the reducer accepts it: no balance can become negative.\<close>

definition status_allows :: "kind \<Rightarrow> part_status option \<Rightarrow> bool" where
  "status_allows k old \<longleftrightarrow>
     (case k of LocalTransfer \<Rightarrow> old = None | Prepare \<Rightarrow> old = None | Confirm \<Rightarrow> old = Some PREPARED
        | Cancel \<Rightarrow> old \<notin> {Some CONFIRMED, Some CANCELED})"

lemma on_balance_nonnegative:
  assumes "nonnegative st" "dict_get (accounts st) a = Some bal" "0 \<le> available bal + da" "0 \<le> held bal + dh"
  shows "\<exists>st'. on_balance a da dh st = Inr st' \<and> nonnegative st' \<and> fst ` set (accounts st') = fst ` set (accounts st)"
proof -
  obtain st' where st': "on_balance a da dh st = Inr st'" using assms(2) by (simp add: on_balance_def)
  have "accounts st' = dict_set a \<lparr>available = available bal + da, held = held bal + dh\<rparr> (accounts st)"
    using st' assms(2) by (auto simp: on_balance_def)
  then have "nonnegative st'"
    using assms(1,3,4) set_dict_set[of a _ "accounts st"] by (fastforce simp: nonnegative_def list_all_iff)
  then show ?thesis using st' on_balance_effect[OF st'] by metis
qed

lemma balance_nonnegative:
  "nonnegative st \<Longrightarrow> dict_get (accounts st) a = Some bal \<Longrightarrow> 0 \<le> available bal \<and> 0 \<le> held bal"
  by (auto simp: nonnegative_def list_all_iff dest!: map_of_SomeD)

lemma dict_sum_ge:
  assumes "\<forall>(k, v)\<in>set d. 0 \<le> f v" "(i, p) \<in> set d"
  shows "f p \<le> dict_sum f d"
  using assms
proof (induction d)
  case (Cons x d)
  obtain k v where x: "x = (k, v)" by (cases x)
  have "0 \<le> dict_sum f d" using Cons.prems(1)
    by (fastforce simp: dict_sum_def intro!: sum_list_nonneg)
  then show ?case using Cons by (auto simp: x)
qed simp

lemma check_intent_Inr [result_simps]:
  "check_intent b = Inr u \<longleftrightarrow>
     is_identifier (transaction_id b) \<and> is_identifier (from_account b) \<and> is_identifier (to_account b) \<and>
     1 \<le> amount b \<and> amount b \<le> 100000000 \<and> from_account b \<noteq> to_account b"
  by (auto simp: check_intent_def result_simps)

lemma prepared_held:
  assumes "proj_ok st" "dict_get (parts st) i = Some p" "part_role p = Source" "part_status p = PREPARED"
  obtains bal where "dict_get (accounts st) (from_account (part_intent p)) = Some bal"
    "amount (part_intent p) \<le> held bal"
proof -
  let ?a = "from_account (part_intent p)"
  have mem: "(i, p) \<in> set (parts st)" using assms(2) by (rule map_of_SomeD)
  then have "part_ok st i p" using assms(1) unfolding proj_ok_def by blast
  then have "?a \<in> fst ` set (accounts st)" using assms(3,4) by (simp add: part_ok_def part_account_def)
  then obtain bal where bal: "dict_get (accounts st) ?a = Some bal"
    using dict_get_dom[of "accounts st" ?a] by blast
  have "\<forall>(k, v)\<in>set (parts st). 0 \<le> holds ?a v"
    using assms(1) unfolding proj_ok_def by (fastforce simp: part_ok_def holds_def check_intent_Inr)
  then have "holds ?a p \<le> dict_sum (holds ?a) (parts st)" using mem by (rule dict_sum_ge)
  moreover have "held bal = dict_sum (holds ?a) (parts st)" using assms(1) bal by (simp add: proj_ok_def)
  ultimately have "amount (part_intent p) \<le> held bal" using assms(3,4) by (simp add: holds_def)
  then show thesis by (rule that[OF bal])
qed

lemma prepared_account:
  assumes "proj_ok st" "dict_get (parts st) i = Some p" "part_status p = PREPARED"
  shows "\<exists>bal. dict_get (accounts st) (part_account p) = Some bal"
proof -
  have "part_ok st i p" using assms(1,2) map_of_SomeD unfolding proj_ok_def by fastforce
  then show ?thesis using assms(3) dict_get_dom[of "accounts st" "part_account p"] by (simp add: part_ok_def)
qed

lemma reduce_local_total:
  assumes nn: "nonnegative st" and ci: "check_intent b = Inr ()"
  shows "\<exists>st' new. reduce_local b None st = Inr (st', new) \<and> nonnegative st'"
proof (cases "dict_get (accounts st) (to_account b) \<noteq> None \<and> funded st (from_account b) (amount b)")
  case True
  have n: "1 \<le> amount b" "from_account b \<noteq> to_account b" using ci by (simp_all add: result_simps)
  obtain bf bt where b: "dict_get (accounts st) (from_account b) = Some bf" "amount b \<le> available bf"
      "dict_get (accounts st) (to_account b) = Some bt"
    using True by (auto simp: funded_def split: option.splits)
  obtain st1 where st1: "on_balance (from_account b) (- amount b) 0 st = Inr st1" "nonnegative st1"
    using on_balance_nonnegative[OF nn b(1), of "- amount b" 0] b(2) balance_nonnegative[OF nn b(1)] by auto
  have "dict_get (accounts st1) (to_account b) = Some bt"
    using st1(1) b n by (auto simp: on_balance_def dict_simps)
  then obtain st2 where "on_balance (to_account b) (amount b) 0 st1 = Inr st2" "nonnegative st2"
    using on_balance_nonnegative[OF st1(2), of "to_account b" bt "amount b" 0] n
      balance_nonnegative[OF st1(2), of "to_account b" bt] by auto
  then show ?thesis using True st1 by (simp add: reduce_local_def)
qed (use nn in \<open>auto simp: reduce_local_def\<close>)

lemma reduce_prepare_total:
  assumes nn: "nonnegative st" and ci: "check_intent b = Inr ()"
  shows "\<exists>st' new. reduce_prepare r b None st = Inr (st', new) \<and> nonnegative st'"
proof (cases "r = Source \<and> funded st (from_account b) (amount b)")
  case True
  then obtain bf where b: "dict_get (accounts st) (from_account b) = Some bf" "amount b \<le> available bf"
    by (auto simp: funded_def split: option.splits)
  have "1 \<le> amount b" using ci by (simp add: result_simps)
  then obtain st' where "on_balance (from_account b) (- amount b) (amount b) st = Inr st'" "nonnegative st'"
    using on_balance_nonnegative[OF nn b(1), of "- amount b" "amount b"] balance_nonnegative[OF nn b(1)] b(2) by auto
  then show ?thesis using True by (simp add: reduce_prepare_def)
qed (use nn in \<open>auto simp: reduce_prepare_def\<close>)

text \<open>Releasing what a prepared source holds, with or without giving it back.\<close>

lemma release_total:
  assumes ok: "proj_ok st" and p: "dict_get (parts st) i = Some p" "part_status p = PREPARED" "part_role p = Source"
    and da: "0 \<le> da"
  shows "\<exists>st'. on_balance (from_account (part_intent p)) da (- amount (part_intent p)) st = Inr st' \<and> nonnegative st'"
proof -
  have nn: "nonnegative st" using ok by (simp add: proj_ok_def)
  obtain bal where bal: "dict_get (accounts st) (from_account (part_intent p)) = Some bal"
      "amount (part_intent p) \<le> held bal"
    by (rule prepared_held[OF ok p(1,3,2)])
  have "0 \<le> available bal + da" "0 \<le> held bal + - amount (part_intent p)"
    using bal(2) da balance_nonnegative[OF nn bal(1)] by simp_all
  then show ?thesis using on_balance_nonnegative[OF nn bal(1)] by blast
qed

lemma reduce_confirm_total:
  assumes ok: "proj_ok st" and p: "dict_get (parts st) i = Some p" "part_status p = PREPARED"
    and b: "part_intent p = b" "part_role p = r" "r \<noteq> Local" "check_intent b = Inr ()"
  shows "\<exists>st' new. reduce_confirm r b (Some p) st = Inr (st', new) \<and> nonnegative st'"
proof (cases "r = Source")
  case True
  then obtain st' where "on_balance (from_account b) 0 (- amount b) st = Inr st'" "nonnegative st'"
    using release_total[OF ok p, of 0] b by auto
  then show ?thesis using True p by (simp add: reduce_confirm_def)
next
  case False
  have nn: "nonnegative st" using ok by (simp add: proj_ok_def)
  have r: "r = Destination" using False b by (cases r) auto
  then obtain bal where bal: "dict_get (accounts st) (to_account b) = Some bal"
    using prepared_account[OF ok p] b by (auto simp: part_account_def)
  have "1 \<le> amount b" using b by (simp add: result_simps)
  then have "0 \<le> available bal + amount b" "0 \<le> held bal + 0" using balance_nonnegative[OF nn bal] by simp_all
  then obtain st' where "on_balance (to_account b) (amount b) 0 st = Inr st'" "nonnegative st'"
    using on_balance_nonnegative[OF nn bal] by blast
  then show ?thesis using r p by (simp add: reduce_confirm_def)
qed

lemma reduce_cancel_total:
  assumes ok: "proj_ok st" and old: "dict_get (parts st) i = old"
    and b: "\<forall>p\<in>set_option old. part_intent p = b \<and> part_role p = r" "check_intent b = Inr ()"
    and st: "map_option part_status old \<notin> {Some CONFIRMED, Some CANCELED}"
  shows "\<exists>st' new. reduce_cancel r b old st = Inr (st', new) \<and> nonnegative st'"
proof (cases "map_option part_status old = Some PREPARED \<and> r = Source")
  case True
  then obtain p where p: "old = Some p" "part_status p = PREPARED" "r = Source" by auto
  have "1 \<le> amount b" using b by (simp add: result_simps)
  then obtain st' where "on_balance (from_account b) (amount b) (- amount b) st = Inr st'" "nonnegative st'"
    using release_total[OF ok, of i p "amount b"] p b old by auto
  then show ?thesis using p by (simp add: reduce_cancel_def)
next
  case False
  then have "reduce_cancel r b old st = Inr (st, CANCELED)" using st by (auto simp: reduce_cancel_def)
  then show ?thesis using ok by (auto simp: proj_ok_def)
qed

lemma reduce_kind_total:
  assumes ok: "proj_ok st" and ci: "check_intent b = Inr ()" and kr: "(k = LocalTransfer) = (r = Local)"
    and old: "dict_get (parts st) i = old" "\<forall>p\<in>set_option old. part_intent p = b \<and> part_role p = r"
    and allowed: "status_allows k (map_option part_status old)"
  shows "\<exists>st' new. reduce_kind k r b old st = Inr (st', new) \<and> nonnegative st'"
proof (cases k)
  case Confirm
  then obtain p where p: "old = Some p" "part_status p = PREPARED"
    using allowed by (auto simp: status_allows_def)
  then show ?thesis using reduce_confirm_total[OF ok, of i p b r] old ci kr Confirm by simp
next
  case Cancel
  then show ?thesis using reduce_cancel_total[OF ok old ci] allowed by (simp add: status_allows_def)
qed (use allowed reduce_local_total[of st b] reduce_prepare_total[of st b r] ok ci in
      \<open>auto simp: status_allows_def proj_ok_def\<close>)

lemma reduce_event_total:
  assumes "proj_ok st" "check_intent b = Inr ()" "(k = LocalTransfer) = (r = Local)"
    and "\<forall>p\<in>set_option (dict_get (parts st) (transaction_id b)). part_intent p = b \<and> part_role p = r"
    and "status_allows k (map_option part_status (dict_get (parts st) (transaction_id b)))"
  shows "\<exists>st'. reduce_event (Some st) (Action k r b) = Inr st'"
proof -
  obtain st' new where "reduce_kind k r b (dict_get (parts st) (transaction_id b)) st = Inr (st', new)" "nonnegative st'"
    using reduce_kind_total[OF assms(1-3) refl assms(4,5)] by blast
  then show ?thesis using assms(2-4) by auto
qed

lemma shard_action_allowed:
  assumes ok: "shard_ok digest sha opened s" and ready: "action_ready sha b k r e l s"
    and old: "\<forall>p\<in>set_option (dict_get (parts (sh_state s)) (transaction_id b)). part_intent p = b \<and> part_role p = r"
    and allowed: "status_allows k (map_option part_status (dict_get (parts (sh_state s)) (transaction_id b)))"
  obtains s' p d where "shard_action digest sha b k r e l s = (s', Inr p)"
    "part_step k r (amount b) (map_option part_status (dict_get (parts (sh_state s)) (transaction_id b))) (part_status p) d"
proof -
  let ?old = "dict_get (parts (sh_state s)) (transaction_id b)"
  have "proj_ok (sh_state s)" using ok by (simp add: shard_ok_def)
  then obtain st where st: "reduce_event (Some (sh_state s)) (Action k r b) = Inr st"
    using reduce_event_total[OF _ _ _ old allowed] ready unfolding action_ready_def by blast
  define s' where "s' = s\<lparr>sh_rows := sh_rows s @ [next_row digest (sh_rows s) (Action k r b)], sh_state := st\<rparr>"
  have app: "shard_append digest (Action k r b) s = Inr s'" using st by (simp add: shard_append_def s'_def)
  obtain new d where step: "part_step k r (amount b) (map_option part_status ?old) new d"
    and parts': "parts (sh_state s') = dict_set (transaction_id b)
       \<lparr>part_intent = b, part_role = r, part_status = new\<rparr> (parts (sh_state s))"
    by (rule shard_append_ok[OF app ok])
  have "shard_action digest sha b k r e l s = (s', Inr \<lparr>part_intent = b, part_role = r, part_status = new\<rparr>)"
    unfolding action_ready_apply[OF ready]
    using app parts' old allowed
    by (cases k) (auto simp: shard_apply_def shard_record_def status_allows_def dict_simps split: option.splits)
  then show thesis
    using that[of s' "\<lparr>part_intent = b, part_role = r, part_status = new\<rparr>" d] step by simp
qed

lemma shard_action_repeated:
  assumes "action_ready sha b k r e l s" "dict_get (parts (sh_state s)) (transaction_id b) = Some p"
    "part_intent p = b" "part_role p = r"
    "k \<in> {Prepare, LocalTransfer} \<or> (k = Confirm \<and> part_status p = CONFIRMED) \<or> (k = Cancel \<and> part_status p = CANCELED)"
  shows "shard_action digest sha b k r e l s = (s, Inr p)"
  using assms(2-5) unfolding action_ready_apply[OF assms(1)] by (auto simp: shard_apply_def)

section \<open>Runs of a shard\<close>

inductive shard_run ::
  "shard_event digest \<Rightarrow> (string \<Rightarrow> nat) \<Rightarrow> (string, int) dict \<Rightarrow> Shard \<Rightarrow> Shard \<Rightarrow> bool"
  for digest sha opened s where
  start: "shard_run digest sha opened s s"
| action: "shard_run digest sha opened s t \<Longrightarrow> shard_run digest sha opened s (fst (shard_action digest sha b k r e l t))"
| fenced: "shard_run digest sha opened s t \<Longrightarrow> set_fence e l (sh_fence t) = Inr f \<Longrightarrow>
    shard_run digest sha opened s (t\<lparr>sh_fence := f\<rparr>)"
| reopen: "shard_run digest sha opened s t \<Longrightarrow> shard_reopen digest sha opened f snap t = Inr u \<Longrightarrow>
    shard_run digest sha opened s u"

lemma shard_ok_verify:
  assumes "shard_ok digest sha opened s"
  obtains h where "verify digest (sh_rows s) = Inr h" "replay_events None (sh_rows s) = Inr (Some (sh_state s))"
    "sh_rows s \<noteq> []"
  using assms by (auto simp: shard_ok_def replay_def result_simps)

lemma shard_ok_fence [simp]: "shard_ok digest sha opened (s\<lparr>sh_fence := f\<rparr>) = shard_ok digest sha opened s"
  by (simp add: shard_ok_def)

lemma shard_rebuild_same:
  assumes "shard_ok digest sha opened s" "shard_rebuild digest snap s = Inr st"
  shows "st = Some (sh_state s)"
proof (cases snap)
  case None
  then show ?thesis using assms by (simp add: shard_rebuild_def shard_ok_def)
next
  case (Some f)
  let ?n = "snap_seq f"
  obtain prefix where "replay_events None (take ?n (sh_rows s)) = Inr prefix"
      "replay_events prefix (drop ?n (sh_rows s)) = Inr st"
    using assms(2) Some by (auto simp: shard_rebuild_def replay_def result_simps split: if_splits)
  then have "replay_events None (take ?n (sh_rows s) @ drop ?n (sh_rows s)) = Inr st"
    unfolding replay_events_append by simp
  then show ?thesis using assms(1) by (auto elim: shard_ok_verify)
qed

lemma shard_reopen_same:
  assumes "shard_ok digest sha opened s" "shard_reopen digest sha opened f snap s = Inr t"
  shows "t = s"
proof -
  obtain st where st: "shard_rebuild digest snap s = Inr st" "t = (case st of None \<Rightarrow> s | Some st \<Rightarrow> s\<lparr>sh_state := st\<rparr>)"
    using assms by (auto simp: shard_reopen_def shard_ok_def and_then_Inr_iff split: list.splits if_splits)
  then show ?thesis using shard_rebuild_same[OF assms(1) st(1)] by simp
qed

lemma shard_run_ok:
  assumes "shard_run digest sha opened s t" "shard_ok digest sha opened s"
  shows "shard_ok digest sha opened t \<and> (\<exists>later. sh_rows t = sh_rows s @ later)"
  using assms
proof (induction rule: shard_run.induct)
  case (action t b k r e l)
  obtain u res where u: "shard_action digest sha b k r e l t = (u, res)" by (cases "shard_action digest sha b k r e l t")
  have t: "shard_ok digest sha opened t" using action by blast
  have "u = t \<or> shard_append digest (Action k r b) t = Inr u"
    using u shard_apply_changed by (fastforce simp: shard_action_def split: sum.splits)
  moreover have "shard_ok digest sha opened u" by (rule shard_action_cases[OF u t]) (simp_all add: t)
  ultimately show ?case using action u by (auto simp: shard_append_def result_simps)
next
  case (reopen t f snap u)
  then show ?case using shard_reopen_same by metis
qed auto

lemma rebuild_from_snapshot:
  assumes s: "shard_ok digest sha opened s" and snap: "shard_snapshot digest s = Inr f"
    and t: "shard_ok digest sha opened t" "sh_rows t = sh_rows s @ later"
  shows "shard_rebuild digest (Some f) t = Inr (Some (sh_state t))"
proof -
  have f: "f = \<lparr>snap_seq = length (sh_rows s), snap_head = row_hash (List.last (sh_rows s)),
      snap_state = Some (sh_state s), snap_intact = True\<rparr>" and ne: "sh_rows s \<noteq> []"
    using snap s by (auto simp: shard_snapshot_def shard_ok_def split: if_splits)
  have "replay_events (Some (sh_state s)) later = Inr (Some (sh_state t))"
    using s t by (auto simp: replay_events_append elim!: shard_ok_verify)
  then show ?thesis using s t ne
    by (simp add: shard_rebuild_def f shard_ok_def nth_append last_conv_nth Suc_leI)
qed

end
