(* ===== verification/Wallet_Journal.thy ===== *)
theory Wallet_Journal
  imports Wallet_Shard
begin

text \<open>
  The coordinator's replicated journal (\<^verbatim>\<open>digital-wallet-system/src/digital_wallet/journal.py\<close>): the
  three replicas, the replication of the local rows to each of them and the quorum that commits
  them.  The \<^verbatim>\<open>committed\<close> column is the length of the committed prefix.  Every exchange with a replica
  has an outcome chosen by the network: delivered, refused, or with the request or the reply lost.

  The lemmas show that the replicas hold prefixes of the local rows and that two of the three hold
  every committed row.  The locale \<open>durable_log\<close> is the contract the coordinator relies on.
\<close>

section \<open>Replicas\<close>

datatype outcome = Delivered | RequestLost | ReplyLost | Refused nat

type_synonym network = "nat \<Rightarrow> outcome"

record 'e replica =
  rep_fence :: fence
  rep_rows :: "'e row list"

definition replica_status :: "int \<Rightarrow> string \<Rightarrow> 'e replica \<Rightarrow> (nat \<times> string) result" where
  "replica_status e l r = and_then (check_fence e l (rep_fence r)) (\<lambda>_. Inr (tail_of (rep_rows r)))"

definition replica_append ::
  "'e digest \<Rightarrow> 'e row \<Rightarrow> int \<Rightarrow> string \<Rightarrow> 'e replica \<Rightarrow> 'e replica \<times> (nat \<times> string) result" where
  "replica_append digest row e l r =
     (case check_fence e l (rep_fence r) of
        Inl x \<Rightarrow> (r, Inl x)
      | Inr _ \<Rightarrow>
          let (seq, head) = tail_of (rep_rows r) in
          if row_seq row < 1 then (r, Inl (ValueError ''invalid sequence''))
          else if row_seq row \<le> seq then
            if find (\<lambda>old. row_seq old = row_seq row) (rep_rows r) \<noteq> Some row
            then (r, Inl (HttpError 409 ''log prefix conflict; operator recovery required''))
            else (r, Inr (row_seq row, row_hash row))
          else if row_seq row \<noteq> seq + 1 \<or> row \<noteq> entry digest (row_seq row) head (row_event row)
          then (r, Inl (HttpError 409 ''log gap or checksum conflict''))
          else (r\<lparr>rep_rows := rep_rows r @ [row]\<rparr>, Inr (row_seq row, row_hash row)))"

section \<open>Replication\<close>

text \<open>The rows sent one by one; \<open>k\<close> numbers the exchanges with this replica.\<close>

fun send_rows ::
  "'e digest \<Rightarrow> int \<Rightarrow> string \<Rightarrow> network \<Rightarrow> nat \<Rightarrow> 'e row list \<Rightarrow> 'e replica \<Rightarrow> 'e replica \<times> bool" where
  "send_rows digest e l net k [] r = (r, True)"
| "send_rows digest e l net k (row # rows) r =
     (case net k of
        Delivered \<Rightarrow>
          (case replica_append digest row e l r of
             (r', Inl _) \<Rightarrow> (r', False)
           | (r', Inr ack) \<Rightarrow>
               if ack \<noteq> (row_seq row, row_hash row) then (r', False)
               else send_rows digest e l net (Suc k) rows r')
      | ReplyLost \<Rightarrow> (fst (replica_append digest row e l r), False)
      | RequestLost \<Rightarrow> (r, False)
      | Refused _ \<Rightarrow> (r, False))"

definition replicate_to ::
  "'e digest \<Rightarrow> int \<Rightarrow> string \<Rightarrow> network \<Rightarrow> 'e row list \<Rightarrow> 'e replica \<Rightarrow> 'e replica \<times> bool" where
  "replicate_to digest e l net rows r =
     (if net 0 \<noteq> Delivered then (r, False)
      else case replica_status e l r of
             Inl _ \<Rightarrow> (r, False)
           | Inr (n, head) \<Rightarrow>
               if length rows < n \<or> head \<noteq> (if n = 0 then no_hash else row_hash (rows ! (n - 1)))
               then (r, False)
               else send_rows digest e l net 1 (drop n rows) r)"

section \<open>The journal\<close>

record 'e journal =
  j_rows :: "'e row list"
  j_committed :: nat
  j_replicas :: "'e replica list"

text \<open>The outcomes of one synchronisation: per replica and exchange, and whether the deadline has passed.\<close>

record sync_net =
  net_of :: "nat \<Rightarrow> network"
  net_expired :: bool

definition journal_sync ::
  "'e digest \<Rightarrow> int \<Rightarrow> string \<Rightarrow> sync_net \<Rightarrow> 'e journal \<Rightarrow> 'e journal \<times> (nat \<times> nat) result" where
  "journal_sync digest e l net j =
     (case verify digest (j_rows j) of
        Inl x \<Rightarrow> (j, Inl x)
      | Inr _ \<Rightarrow>
          let res = map (\<lambda>(i, r). replicate_to digest e l (net_of net i) (j_rows j) r)
                      (enumerate 0 (j_replicas j));
              acks = length (filter snd res);
              j = j\<lparr>j_replicas := map fst res\<rparr> in
          if net_expired net then (j, Inl (HttpError 503 ''journal operation cancelled or expired''))
          else if acks < 2
          then (j, Inl (HttpError 503 ''journal quorum unavailable; retain original transaction identity''))
          else (j\<lparr>j_committed := length (j_rows j)\<rparr>, Inr (acks, length (j_rows j))))"

definition journal_push :: "'e digest \<Rightarrow> 'e \<Rightarrow> 'e journal \<Rightarrow> 'e journal" where
  "journal_push digest event j = j\<lparr>j_rows := j_rows j @ [next_row digest (j_rows j) event]\<rparr>"

definition journal_append ::
  "'e digest \<Rightarrow> int \<Rightarrow> string \<Rightarrow> sync_net \<Rightarrow> sync_net \<Rightarrow> 'e \<Rightarrow> 'e journal \<Rightarrow> 'e journal \<times> 'e row result" where
  "journal_append digest e l net1 net2 event j =
     then_do (journal_sync digest e l net1 j) (\<lambda>j _.
     then_do (journal_sync digest e l net2 (journal_push digest event j)) (\<lambda>j _.
       (j, Inr (List.last (j_rows j)))))"

definition journal_records :: "'e journal \<Rightarrow> 'e row list" where
  "journal_records j = take (j_committed j) (j_rows j)"

definition records_after :: "nat \<Rightarrow> 'e journal \<Rightarrow> 'e row list" where
  "records_after n j = filter (\<lambda>r. n < row_seq r) (journal_records j)"

definition has_pending :: "'e journal \<Rightarrow> bool" where
  "has_pending j \<longleftrightarrow> j_committed j < length (j_rows j)"

text \<open>Opening the journal: three distinct replicas, and a log whose checksums hold.\<close>

definition journal_open :: "'e digest \<Rightarrow> string list \<Rightarrow> 'e journal \<Rightarrow> 'e journal result" where
  "journal_open digest urls j =
     and_then (require (length urls = 3 \<and> distinct urls) (ValueError ''three distinct replica endpoints required''))
       (\<lambda>_. and_then (verify digest (j_rows j)) (\<lambda>_. Inr j))"

section \<open>Prefixes and quorums\<close>

text \<open>
  The journal invariant: a valid chain with at most one uncommitted row, replicas that hold
  prefixes of it, and a quorum that holds the committed rows.
\<close>

definition holds_prefix :: "'e row list \<Rightarrow> 'e replica \<Rightarrow> bool" where
  "holds_prefix rows r \<longleftrightarrow> rep_rows r = take (length (rep_rows r)) rows"

definition journal_ok :: "'e digest \<Rightarrow> 'e journal \<Rightarrow> bool" where
  "journal_ok digest j \<longleftrightarrow>
     (\<exists>h. verify digest (j_rows j) = Inr h) \<and>
     j_committed j \<le> length (j_rows j) \<and> length (j_rows j) \<le> Suc (j_committed j) \<and>
     length (j_replicas j) = 3 \<and> list_all (holds_prefix (j_rows j)) (j_replicas j) \<and>
     2 \<le> length (filter (\<lambda>r. j_committed j \<le> length (rep_rows r)) (j_replicas j))"

lemma holds_prefix_length: "holds_prefix rows r \<Longrightarrow> length (rep_rows r) \<le> length rows"
  unfolding holds_prefix_def by (metis length_take min.cobounded1)

lemma verify_nth:
  assumes "verify digest rows = Inr h" "i < length rows"
  shows "rows ! i = entry digest (Suc i) (snd (tail_of (take i rows))) (row_event (rows ! i))"
proof -
  have split: "rows = take i rows @ rows ! i # drop (Suc i) rows" using assms(2) by (rule id_take_nth_drop)
  obtain h' where h': "verify digest (take i rows) = Inr h'" using verify_take[OF assms(1)] by blast
  have "verify_from digest 1 no_hash (take i rows @ rows ! i # drop (Suc i) rows) = Inr h"
    using assms(1) split by (simp add: verify_def)
  then have "rows ! i = entry digest (1 + length (take i rows)) h' (row_event (rows ! i))"
    using h' unfolding verify_from_append by (auto simp: verify_def split: if_splits)
  then show ?thesis using verify_tail_of[OF h'] assms(2) by simp
qed

text \<open>A row of the journal appended to a prefix of it is accepted at most at its end.\<close>

lemma replica_append_prefix:
  assumes v: "verify digest rows = Inr h" and p: "holds_prefix rows r" and row: "row \<in> set rows"
    and app: "replica_append digest row e l r = (r', res)"
  shows "holds_prefix rows r'" "length (rep_rows r) \<le> length (rep_rows r')"
    "res = Inr ack \<Longrightarrow> row_seq row \<le> length (rep_rows r')"
proof -
  let ?n = "length (rep_rows r)"
  obtain i where i: "i < length rows" "row = rows ! i" using row by (auto simp: in_set_conv_nth)
  have seq: "row_seq row = Suc i" using verify_nth[OF v i(1)] i(2) by (metis entry_def row.select_convs(1))
  obtain h' where "verify digest (take ?n rows) = Inr h'" using verify_take[OF v] by blast
  then have tail: "fst (tail_of (rep_rows r)) = ?n"
    using verify_tail_of p holds_prefix_length[OF p] by (metis fst_conv holds_prefix_def)
  have cases: "r' = r \<and> (res = Inr ack \<longrightarrow> row_seq row \<le> ?n) \<or>
      (row_seq row = Suc ?n \<and> r' = r\<lparr>rep_rows := rep_rows r @ [row]\<rparr>)" for ack
    using app tail by (auto simp: replica_append_def split: sum.splits if_splits prod.splits)
  have "holds_prefix rows r' \<and> ?n \<le> length (rep_rows r') \<and> (res = Inr ack \<longrightarrow> row_seq row \<le> length (rep_rows r'))" for ack
    using cases[of ack]
  proof
    assume a: "row_seq row = Suc ?n \<and> r' = r\<lparr>rep_rows := rep_rows r @ [row]\<rparr>"
    then have "take (Suc ?n) rows = rep_rows r @ [row]"
      using i seq p by (simp add: take_Suc_conv_app_nth holds_prefix_def)
    then show ?thesis using a by (simp add: holds_prefix_def)
  qed (use p in auto)
  then show "holds_prefix rows r'" "?n \<le> length (rep_rows r')"
    "res = Inr ack \<Longrightarrow> row_seq row \<le> length (rep_rows r')" by blast+
qed

lemma send_rows_prefix:
  assumes v: "verify digest rows = Inr h"
  shows "send_rows digest e l net k more_rows r = (r', done_all) \<Longrightarrow> holds_prefix rows r \<Longrightarrow>
    set more_rows \<subseteq> set rows \<Longrightarrow>
    holds_prefix rows r' \<and> length (rep_rows r) \<le> length (rep_rows r') \<and>
    (done_all \<longrightarrow> (\<forall>row\<in>set more_rows. row_seq row \<le> length (rep_rows r')))"
proof (induction more_rows arbitrary: k r)
  case (Cons row rest)
  obtain r1 res where app: "replica_append digest row e l r = (r1, res)"
    by (cases "replica_append digest row e l r")
  have row: "row \<in> set rows" using Cons.prems(3) by simp
  have one: "holds_prefix rows r1" "length (rep_rows r) \<le> length (rep_rows r1)"
    "res = Inr ack \<Longrightarrow> row_seq row \<le> length (rep_rows r1)" for ack
    using replica_append_prefix[OF v Cons.prems(2) row app] by blast+
  show ?case
  proof (cases "\<exists>ack. net k = Delivered \<and> res = Inr ack \<and> ack = (row_seq row, row_hash row)")
    case True
    then have "send_rows digest e l net (Suc k) rest r1 = (r', done_all)" using Cons.prems(1) app by simp
    then have "holds_prefix rows r' \<and> length (rep_rows r1) \<le> length (rep_rows r') \<and>
        (done_all \<longrightarrow> (\<forall>row\<in>set rest. row_seq row \<le> length (rep_rows r')))"
      using Cons.IH[of "Suc k" r1] one(1) Cons.prems(3) by auto
    then show ?thesis using one True by force
  next
    case False
    then have "r' \<in> {r, r1}" "\<not> done_all" using Cons.prems(1) app
      by (auto split: outcome.splits sum.splits if_splits)
    then show ?thesis using one Cons.prems(2) by auto
  qed
qed simp

lemma replicate_to_prefix:
  assumes v: "verify digest rows = Inr h" and p: "holds_prefix rows r"
    and rep: "replicate_to digest e l net rows r = (r', ok)"
  shows "holds_prefix rows r' \<and> length (rep_rows r) \<le> length (rep_rows r') \<and>
    (ok \<longrightarrow> length (rep_rows r') = length rows)"
proof (cases "net 0 = Delivered")
  case True
  let ?n = "length (rep_rows r)"
  have len: "?n \<le> length rows" by (rule holds_prefix_length[OF p])
  show ?thesis
  proof (cases "\<exists>x. replica_status e l r = Inr x")
    case ready: True
    obtain h' where "verify digest (take ?n rows) = Inr h'" using verify_take[OF v] by blast
    then have "tail_of (rep_rows r) = (?n, h')"
      using verify_tail_of[of digest "take ?n rows" h'] p len by (simp add: holds_prefix_def)
    then have st: "replica_status e l r = Inr (?n, h')" using ready by (auto simp: replica_status_def result_simps)
    have "(r', ok) = (r, False) \<or> (r', ok) = send_rows digest e l net 1 (drop ?n rows) r"
      unfolding rep[symmetric] replicate_to_def st using True by simp
    then consider "r' = r" "\<not> ok" | "send_rows digest e l net 1 (drop ?n rows) r = (r', ok)" by auto
    then show ?thesis
    proof cases
      case 2
      then have sent: "holds_prefix rows r'" "?n \<le> length (rep_rows r')"
          "ok \<longrightarrow> (\<forall>row\<in>set (drop ?n rows). row_seq row \<le> length (rep_rows r'))"
        using send_rows_prefix[OF v 2 p set_drop_subset] by blast+
      have "length rows \<le> length (rep_rows r')" if ok
      proof (cases "?n = length rows")
        case False
        then have "List.last rows \<in> set (drop ?n rows)" using len
          by (metis drop_eq_Nil last_drop last_in_set leD le_neq_implies_less)
        moreover have "row_seq (List.last rows) = length rows"
          using verify_tail_of[OF v] False len by (auto simp: tail_of_def split: if_splits)
        ultimately show ?thesis using sent(3) that by fastforce
      qed (use sent in simp)
      then show ?thesis using sent holds_prefix_length[OF sent(1)] by auto
    qed (use p in simp)
  qed (use rep True p in \<open>auto simp: replicate_to_def split: sum.splits\<close>)
qed (use rep p in \<open>auto simp: replicate_to_def\<close>)

lemma filter_acks:
  "\<forall>x\<in>set xs. snd (f x) \<longrightarrow> Q (fst (f x)) \<Longrightarrow>
   length (filter snd (map f xs)) \<le> length (filter Q (map fst (map f xs)))"
  by (induction xs) auto

lemma filter_enumerate:
  "\<forall>(i, x)\<in>set (enumerate n xs). P x \<longrightarrow> P (g (i, x)) \<Longrightarrow>
   length (filter P xs) \<le> length (filter P (map g (enumerate n xs)))"
proof (induction xs arbitrary: n)
  case (Cons x xs)
  then have "length (filter P xs) \<le> length (filter P (map g (enumerate (Suc n) xs)))" by simp
  then show ?case using Cons.prems by auto
qed simp

lemma journal_sync_ok:
  assumes ok: "journal_ok digest j" and sync: "journal_sync digest e l net j = (j', res)"
  shows "journal_ok digest j' \<and> j_rows j' = j_rows j \<and>
    (case res of Inr x \<Rightarrow> j_committed j' = length (j_rows j)
       | Inl y \<Rightarrow> j_committed j' = j_committed j \<and> (\<exists>m. y = HttpError 503 m))"
proof -
  define f where "f = (\<lambda>(i, r). replicate_to digest e l (net_of net i) (j_rows j) r)"
  let ?res = "map f (enumerate 0 (j_replicas j))"
  let ?reps = "map fst ?res"
  obtain h where v: "verify digest (j_rows j) = Inr h" using ok by (auto simp: journal_ok_def)
  have j': "j' = j\<lparr>j_replicas := ?reps\<rparr> \<and> (\<exists>m. res = Inl (HttpError 503 m)) \<or>
      2 \<le> length (filter snd ?res) \<and> j' = j\<lparr>j_replicas := ?reps, j_committed := length (j_rows j)\<rparr> \<and> (\<exists>x. res = Inr x)"
    using sync v by (auto simp: journal_sync_def f_def Let_def split: if_splits)
  have each: "holds_prefix (j_rows j) (fst (f x)) \<and> length (rep_rows (snd x)) \<le> length (rep_rows (fst (f x))) \<and>
      (snd (f x) \<longrightarrow> length (j_rows j) \<le> length (rep_rows (fst (f x))))"
    if "x \<in> set (enumerate 0 (j_replicas j))" for x
  proof -
    have "snd x \<in> set (j_replicas j)" using that map_snd_enumerate[of 0 "j_replicas j"] by (metis image_eqI set_map)
    then have "holds_prefix (j_rows j) (snd x)" using ok by (auto simp: journal_ok_def list_all_iff)
    then show ?thesis using replicate_to_prefix[OF v, of "snd x" e l "net_of net (fst x)" "fst (f x)" "snd (f x)"]
      by (simp add: f_def split_def)
  qed
  have pre: "list_all (holds_prefix (j_rows j)) ?reps" using each by (auto simp: list_all_iff)
  have kept: "length (filter (\<lambda>r. j_committed j \<le> length (rep_rows r)) (j_replicas j))
      \<le> length (filter (\<lambda>r. j_committed j \<le> length (rep_rows r)) ?reps)"
    using filter_enumerate[of 0 "j_replicas j" "\<lambda>r. j_committed j \<le> length (rep_rows r)" "fst \<circ> f"] each
    by (fastforce simp: comp_def)
  have acked: "length (filter snd ?res) \<le> length (filter (\<lambda>r. length (j_rows j) \<le> length (rep_rows r)) ?reps)"
    using each by (intro filter_acks) blast
  show ?thesis using j'
  proof
    assume a: "j' = j\<lparr>j_replicas := ?reps\<rparr> \<and> (\<exists>m. res = Inl (HttpError 503 m))"
    then have "journal_ok digest j'" using ok pre kept by (simp add: journal_ok_def)
    then show ?thesis using a by auto
  next
    assume a: "2 \<le> length (filter snd ?res) \<and>
        j' = j\<lparr>j_replicas := ?reps, j_committed := length (j_rows j)\<rparr> \<and> (\<exists>x. res = Inr x)"
    then have "journal_ok digest j'" using ok pre acked by (simp add: journal_ok_def)
    then show ?thesis using a by auto
  qed
qed

lemma journal_push_ok:
  assumes "journal_ok digest j" "j_committed j = length (j_rows j)"
  shows "journal_ok digest (journal_push digest event j)"
proof -
  obtain h where v: "verify digest (j_rows j) = Inr h" using assms(1) by (auto simp: journal_ok_def)
  have "holds_prefix (j_rows j @ [row]) r" if "holds_prefix (j_rows j) r" for r row
    using that holds_prefix_length[OF that] by (simp add: holds_prefix_def)
  then show ?thesis using assms verify_next_row(1)[OF v, of event]
    by (auto simp: journal_ok_def journal_push_def list_all_iff)
qed

lemma journal_push_event [simp]:
  "map row_event (j_rows (journal_push digest event j)) = map row_event (j_rows j) @ [event]"
  "j_committed (journal_push digest event j) = j_committed j"
  by (simp_all add: journal_push_def next_row_def entry_def)

section \<open>The contract of a durable log\<close>

locale durable_log =
  fixes wf :: "'j \<Rightarrow> bool" and log_entries :: "'j \<Rightarrow> 'e list" and log_committed :: "'j \<Rightarrow> nat"
    and sync :: "'n \<Rightarrow> 'j \<Rightarrow> 'j \<times> 'a result" and push :: "'e \<Rightarrow> 'j \<Rightarrow> 'j"
    and append :: "'n \<Rightarrow> 'n \<Rightarrow> 'e \<Rightarrow> 'j \<Rightarrow> 'j \<times> 'r result"
    and receipt :: "'j \<Rightarrow> 'r"
  assumes bounds: "wf j \<Longrightarrow> log_committed j \<le> length (log_entries j) \<and> length (log_entries j) \<le> Suc (log_committed j)"
    and sync_keeps: "wf j \<Longrightarrow> sync n j = (j', res) \<Longrightarrow> wf j' \<and> log_entries j' = log_entries j"
    and sync_commits: "wf j \<Longrightarrow> sync n j = (j', Inr x) \<Longrightarrow> log_committed j' = length (log_entries j)"
    and sync_fails: "wf j \<Longrightarrow> sync n j = (j', Inl y) \<Longrightarrow>
      log_committed j' = log_committed j \<and> (\<exists>m. y = HttpError 503 m)"
    and push_adds: "wf j \<Longrightarrow> log_committed j = length (log_entries j) \<Longrightarrow>
      wf (push ev j) \<and> log_entries (push ev j) = log_entries j @ [ev] \<and> log_committed (push ev j) = log_committed j"
    and append_syncs: "append n m ev j =
      then_do (sync n j) (\<lambda>j _. then_do (sync m (push ev j)) (\<lambda>j _. (j, Inr (receipt j))))"
begin

lemma pending_cases:
  assumes "wf j"
  obtains "drop (log_committed j) (log_entries j) = []" "log_committed j = length (log_entries j)"
    | ev where "drop (log_committed j) (log_entries j) = [ev]"
      "log_entries j = take (log_committed j) (log_entries j) @ [ev]"
proof (cases "log_committed j = length (log_entries j)")
  case False
  then have "length (drop (log_committed j) (log_entries j)) = Suc 0" using bounds[OF assms] by auto
  then obtain ev where ev: "drop (log_committed j) (log_entries j) = [ev]" by (metis length_Suc_conv length_0_conv)
  then show thesis using that(2) append_take_drop_id[of "log_committed j" "log_entries j"] by metis
qed (use that in simp)

text \<open>
  An append either commits its event, or fails and leaves the log as it was, or fails with the event
  written and not yet committed.
\<close>

lemma append_outcome:
  assumes wf: "wf j" and app: "append n m ev j = (j', res)"
  obtains (committed) x where "wf j'" "res = Inr x" "log_entries j' = log_entries j @ [ev]"
      "log_committed j' = length (log_entries j')"
    | (unchanged) msg where "wf j'" "res = Inl (HttpError 503 msg)" "log_entries j' = log_entries j"
      "log_committed j' = log_committed j"
    | (pending) msg where "wf j'" "res = Inl (HttpError 503 msg)" "log_entries j' = log_entries j @ [ev]"
      "log_committed j' = length (log_entries j)"
proof -
  obtain j1 res1 where s1: "sync n j = (j1, res1)" by (cases "sync n j")
  show thesis
  proof (cases res1)
    case (Inl y)
    then have "j' = j1" "res = Inl y" using s1 app by (simp_all add: append_syncs)
    then show thesis using sync_keeps[OF wf s1] sync_fails[OF wf s1[unfolded Inl]] unchanged by blast
  next
    case (Inr x)
    note j1 = sync_keeps[OF wf s1] sync_commits[OF wf s1[unfolded Inr]]
    then have p: "wf (push ev j1)" "log_entries (push ev j1) = log_entries j @ [ev]"
      "log_committed (push ev j1) = length (log_entries j)"
      using push_adds[of j1 ev] by simp_all
    obtain j2 res2 where s2: "sync m (push ev j1) = (j2, res2)" by (cases "sync m (push ev j1)")
    show thesis
    proof (cases res2)
      case (Inl y)
      then have "j' = j2" "res = Inl y" using s1 s2 app Inr by (simp_all add: append_syncs)
      then show thesis using sync_keeps[OF p(1) s2] sync_fails[OF p(1) s2[unfolded Inl]] p pending by metis
    next
      case (Inr z)
      then have "j' = j2" "res = Inr (receipt j2)" using s1 s2 app \<open>res1 = Inr x\<close> by (auto simp: append_syncs)
      then show thesis using sync_keeps[OF p(1) s2] sync_commits[OF p(1) s2[unfolded Inr]] p committed by metis
    qed
  qed
qed

end

interpretation wj: durable_log "journal_ok digest" "\<lambda>j. map row_event (j_rows j)" j_committed
  "journal_sync digest e l" "journal_push digest" "journal_append digest e l" "\<lambda>j. List.last (j_rows j)"
  for digest e l
proof unfold_locales
  fix j :: "'a journal" assume "journal_ok digest j"
  then show "j_committed j \<le> length (map row_event (j_rows j)) \<and> length (map row_event (j_rows j)) \<le> Suc (j_committed j)"
    by (simp add: journal_ok_def)
qed (use journal_sync_ok journal_push_ok in \<open>fastforce simp: journal_append_def split: sum.splits\<close>)+

end
