(* ===== verification/Wallet.thy ===== *)
theory Wallet
  imports Wallet_Journal Bytes
begin

text \<open>
  The coordinator of the digital wallet (\<^verbatim>\<open>digital-wallet-system/src/digital_wallet\<close>): the projection
  of its journal (\<^verbatim>\<open>coordinator_projection.py\<close>), the try-confirm/cancel protocol over the shards with
  its retries (\<^verbatim>\<open>coordinator.py\<close>) and the audit (\<^verbatim>\<open>audit.py\<close>).  An operation runs under the writer lock;
  each of its exchanges with a shard has an outcome chosen by the network, and before each of them
  any request ever sent may arrive, late or once more.
\<close>

section \<open>The facts of the journal\<close>

datatype decision = COMMIT | CANCEL
datatype transfer_status = PENDING | SUCCEEDED | T_CANCELED | T_REJECTED

datatype fact =
    Accepted string Intent
  | Decision string decision
  | Completed string transfer_status

record command =
  cmd_intent :: Intent
  cmd_decision :: "decision option"
  cmd_status :: transfer_status

type_synonym commands = "(string, command) dict"

definition project_accepted :: "string \<Rightarrow> Intent \<Rightarrow> commands \<Rightarrow> commands result" where
  "project_accepted i b cs =
     and_then (check_intent b) (\<lambda>_.
     if transaction_id b \<noteq> i then Inl (ValueError ''accepted identity mismatch'')
     else if dict_get cs i \<noteq> None then Inl (ValueError ''duplicate accepted command in journal'')
     else Inr (dict_set i \<lparr>cmd_intent = b, cmd_decision = None, cmd_status = PENDING\<rparr> cs))"

definition project_decision :: "string \<Rightarrow> decision \<Rightarrow> commands \<Rightarrow> commands result" where
  "project_decision i d cs =
     (case dict_get cs i of
        None \<Rightarrow> Inl (ValueError ''decision requires pending command'')
      | Some c \<Rightarrow>
          if cmd_status c \<noteq> PENDING then Inl (ValueError ''decision requires pending command'')
          else if cmd_decision c \<noteq> None then Inl (ValueError ''invalid or duplicate decision'')
          else Inr (dict_set i (c\<lparr>cmd_decision := Some d\<rparr>) cs))"

definition project_completed :: "string \<Rightarrow> transfer_status \<Rightarrow> commands \<Rightarrow> commands result" where
  "project_completed i s cs =
     (case dict_get cs i of
        None \<Rightarrow> Inl (ValueError ''completion without command'')
      | Some c \<Rightarrow>
          if cmd_decision c = Some COMMIT \<and> s \<noteq> SUCCEEDED \<or>
             cmd_decision c = Some CANCEL \<and> s \<noteq> T_CANCELED \<or>
             cmd_decision c = None \<and> s = T_CANCELED
          then Inl (ValueError ''completion conflicts with durable decision'')
          else if cmd_status c \<noteq> PENDING \<or> s = PENDING then Inl (ValueError ''invalid terminal status'')
          else Inr (dict_set i (c\<lparr>cmd_status := s\<rparr>) cs))"

fun fact_id :: "fact \<Rightarrow> string" where
  "fact_id (Accepted i b) = i"
| "fact_id (Decision i d) = i"
| "fact_id (Completed i s) = i"

fun project_fact :: "fact \<Rightarrow> commands \<Rightarrow> commands result" where
  "project_fact (Accepted i b) cs = project_accepted i b cs"
| "project_fact (Decision i d) cs = project_decision i d cs"
| "project_fact (Completed i s) cs = project_completed i s cs"

fun project :: "fact row list \<Rightarrow> commands \<Rightarrow> commands result" where
  "project [] cs = Inr cs"
| "project (r # rows) cs =
     and_then (check_identifier (JStr (fact_id (row_event r)))) (\<lambda>_.
     and_then (project_fact (row_event r) cs) (project rows))"

section \<open>The coordinator\<close>

text \<open>
  The configuration, with the functions of libraries as parameters: the SHA-256 of accounts and of
  log rows, and the floating-point time of the next attempt.
\<close>

record wallet_config =
  cfg_accounts :: "(string, string \<times> int) dict"
  cfg_shards :: nat
  cfg_epoch :: int
  cfg_leader :: string
  account_hash :: "string \<Rightarrow> nat"
  shard_digest :: "shard_event digest"
  fact_digest :: "fact digest"
  retry_at :: "float64 \<Rightarrow> nat \<Rightarrow> float64"

record request =
  rq_shard :: nat
  rq_intent :: Intent
  rq_kind :: kind
  rq_role :: role
  rq_epoch :: int
  rq_leader :: string

record retry =
  failures :: nat
  due :: float64
  dead :: bool
  retry_error :: exn

record Wallet =
  w_shards :: "Shard list"
  w_journal :: "fact journal"
  w_retries :: "(string, retry) dict"
  w_cursor :: "string option"
  w_sent :: "request list"

text \<open>
  What the surroundings do to one operation: the outcome of each exchange with a shard and the
  requests that arrive before it, the networks of its synchronisations, and the clock.
\<close>

record surroundings =
  shard_net :: network
  late :: "nat \<Rightarrow> nat list"
  sync_nets :: "nat \<Rightarrow> sync_net"
  clock :: float64

definition indices :: "wallet_config \<Rightarrow> Intent \<Rightarrow> nat \<times> nat" where
  "indices cfg b = (shard_for (account_hash cfg) (from_account b) (cfg_shards cfg),
                    shard_for (account_hash cfg) (to_account b) (cfg_shards cfg))"

subsection \<open>Exchanges with the shards\<close>

text \<open>The handler of a shard turns exceptions into HTTP statuses.\<close>

fun http_error :: "exn \<Rightarrow> exn" where
  "http_error (HttpError n m) = HttpError n m"
| "http_error (ValueError m) = HttpError 400 m"
| "http_error (KeyError m) = HttpError 400 m"
| "http_error (TypeError m) = HttpError 400 m"
| "http_error OSError = HttpError 503 ''temporarily unavailable; retry original transaction_id''"
| "http_error x = HttpError 500 ''internal failure''"

fun http_reply :: "'a result \<Rightarrow> 'a result" where
  "http_reply (Inl x) = Inl (http_error x)"
| "http_reply (Inr v) = Inr v"

definition deliver :: "wallet_config \<Rightarrow> request \<Rightarrow> Wallet \<Rightarrow> Wallet \<times> part result" where
  "deliver cfg rq w =
     (case shard_action (shard_digest cfg) (account_hash cfg) (rq_intent rq) (rq_kind rq) (rq_role rq)
             (rq_epoch rq) (rq_leader rq) (w_shards w ! rq_shard rq) of
        (s, res) \<Rightarrow> (w\<lparr>w_shards := (w_shards w)[rq_shard rq := s]\<rparr>, res))"

definition deliver_late :: "wallet_config \<Rightarrow> nat list \<Rightarrow> Wallet \<Rightarrow> Wallet" where
  "deliver_late cfg js w =
     fold (\<lambda>j w. if j < length (w_sent w) then fst (deliver cfg (w_sent w ! j) w) else w) js w"

definition shard_call ::
  "wallet_config \<Rightarrow> surroundings \<Rightarrow> nat \<Rightarrow> (Wallet \<Rightarrow> Wallet \<times> 'a result) \<Rightarrow> Wallet \<Rightarrow> Wallet \<times> 'a result" where
  "shard_call cfg env k f w =
     (let w = deliver_late cfg (late env k) w in
      case shard_net env k of
        Delivered \<Rightarrow> (fst (f w), http_reply (snd (f w)))
      | ReplyLost \<Rightarrow> (fst (f w), Inl OSError)
      | RequestLost \<Rightarrow> (w, Inl OSError)
      | Refused n \<Rightarrow> (w, Inl (HttpError n ''refused'')))"

text \<open>\<^verbatim>\<open>contracts.participant\<close> as \<^verbatim>\<open>check_part\<close> reports it.\<close>

definition check_receipt :: "part \<Rightarrow> Intent \<Rightarrow> role \<Rightarrow> part result" where
  "check_receipt p b r =
     (if check_intent (part_intent p) \<noteq> Inr () \<or> part_intent p \<noteq> b \<or> part_role p \<noteq> r \<or>
         (r = Local \<and> part_status p \<notin> {CONFIRMED, REJECTED})
      then Inl (HttpError 502 ''participant returned a conflicting receipt'') else Inr p)"

definition read_part ::
  "wallet_config \<Rightarrow> surroundings \<Rightarrow> nat \<Rightarrow> nat \<Rightarrow> Intent \<Rightarrow> role \<Rightarrow> Wallet \<Rightarrow> Wallet \<times> part option result" where
  "read_part cfg env k index b r w =
     then_do (shard_call cfg env k (\<lambda>w. (w, participant (transaction_id b) (w_shards w ! index))) w) (\<lambda>w p.
       (w, case p of None \<Rightarrow> Inr None | Some p \<Rightarrow> and_then (check_receipt p b r) (\<lambda>p. Inr (Some p))))"

definition action ::
  "wallet_config \<Rightarrow> surroundings \<Rightarrow> nat \<Rightarrow> nat \<Rightarrow> Intent \<Rightarrow> kind \<Rightarrow> role \<Rightarrow> Wallet \<Rightarrow> Wallet \<times> part result" where
  "action cfg env k index b kd r w =
     (let rq = \<lparr>rq_shard = index, rq_intent = b, rq_kind = kd, rq_role = r,
                rq_epoch = cfg_epoch cfg, rq_leader = cfg_leader cfg\<rparr> in
      then_do (shard_call cfg env k (deliver cfg rq) (w\<lparr>w_sent := w_sent w @ [rq]\<rparr>)) (\<lambda>w p.
        (w, check_receipt p b r)))"

subsection \<open>The journal\<close>

definition wallet_sync :: "wallet_config \<Rightarrow> sync_net \<Rightarrow> Wallet \<Rightarrow> Wallet \<times> (nat \<times> nat) result" where
  "wallet_sync cfg net w =
     (case journal_sync (fact_digest cfg) (cfg_epoch cfg) (cfg_leader cfg) net (w_journal w) of
        (j, res) \<Rightarrow> (w\<lparr>w_journal := j\<rparr>, res))"

definition append_fact ::
  "wallet_config \<Rightarrow> sync_net \<Rightarrow> sync_net \<Rightarrow> fact \<Rightarrow> Wallet \<Rightarrow> Wallet \<times> unit result" where
  "append_fact cfg net1 net2 f w =
     (case journal_append (fact_digest cfg) (cfg_epoch cfg) (cfg_leader cfg) net1 net2 f (w_journal w) of
        (j, res) \<Rightarrow> (w\<lparr>w_journal := j\<rparr>, and_then res (\<lambda>_. Inr ())))"

text \<open>
  The state is the projection of the committed rows.  The code keeps the projection of the rows it
  has seen and projects only the later ones; \<^verbatim>\<open>Wallet_Invariant\<close> shows that the result is the same.
\<close>

definition wallet_state :: "Wallet \<Rightarrow> commands result" where
  "wallet_state w = project (journal_records (w_journal w)) []"

record state_cache =
  cached :: commands
  cached_seq :: nat

definition cached_state :: "Wallet \<Rightarrow> state_cache \<Rightarrow> state_cache \<times> commands result" where
  "cached_state w c =
     (case records_after (cached_seq c) (w_journal w) of
        [] \<Rightarrow> (c, Inr (cached c))
      | rows \<Rightarrow>
          (case project rows (cached c) of
             Inl x \<Rightarrow> (c, Inl x)
           | Inr cs \<Rightarrow> (\<lparr>cached = cs, cached_seq = row_seq (List.last rows)\<rparr>, Inr cs)))"

subsection \<open>Advancing a transfer\<close>

definition advance_local ::
  "wallet_config \<Rightarrow> surroundings \<Rightarrow> string \<Rightarrow> Intent \<Rightarrow> part option \<Rightarrow> Wallet \<Rightarrow> Wallet \<times> unit result" where
  "advance_local cfg env i b left w =
     then_do (case left of Some p \<Rightarrow> (w, Inr p)
              | None \<Rightarrow> action cfg env 2 (fst (indices cfg b)) b LocalTransfer Local w) (\<lambda>w p.
     append_fact cfg (sync_nets env 1) (sync_nets env 2)
       (Completed i (if part_status p = CONFIRMED then SUCCEEDED else T_REJECTED)) w)"

definition has_status :: "part_status \<Rightarrow> part option \<Rightarrow> bool" where
  "has_status s p \<longleftrightarrow> map_option part_status p = Some s"

text \<open>The next action or fact of a transfer between two shards.\<close>

datatype move =
    Act kind role
  | Append fact
  | Fail exn

definition next_move :: "string \<Rightarrow> decision option \<Rightarrow> part option \<Rightarrow> part option \<Rightarrow> move" where
  "next_move i d left right =
     (case d of
        None \<Rightarrow>
          if has_status REJECTED left \<or> has_status CANCELED left \<or>
             has_status REJECTED right \<or> has_status CANCELED right
          then Append (Decision i CANCEL)
          else if left = None then Act Prepare Source
          else if right = None then Act Prepare Destination
          else if has_status PREPARED left \<and> has_status PREPARED right then Append (Decision i COMMIT)
          else Fail (HttpError 502 ''participant confirmed without durable coordinator decision'')
      | Some COMMIT \<Rightarrow>
          if \<not> has_status CONFIRMED left then Act Confirm Source
          else if \<not> has_status CONFIRMED right then Act Confirm Destination
          else Append (Completed i SUCCEEDED)
      | Some CANCEL \<Rightarrow>
          if \<not> has_status CANCELED left then Act Cancel Source
          else if \<not> has_status CANCELED right then Act Cancel Destination
          else Append (Completed i T_CANCELED))"

fun run_move ::
  "wallet_config \<Rightarrow> surroundings \<Rightarrow> Intent \<Rightarrow> move \<Rightarrow> Wallet \<Rightarrow> Wallet \<times> unit result" where
  "run_move cfg env b (Act k r) w =
     then_do (action cfg env 2 (if r = Destination then snd (indices cfg b) else fst (indices cfg b)) b k r w)
       (\<lambda>w _. (w, Inr ()))"
| "run_move cfg env b (Append f) w = append_fact cfg (sync_nets env 1) (sync_nets env 2) f w"
| "run_move cfg env b (Fail x) w = (w, Inl x)"

definition advance ::
  "wallet_config \<Rightarrow> surroundings \<Rightarrow> string \<Rightarrow> command \<Rightarrow> Wallet \<Rightarrow> Wallet \<times> unit result" where
  "advance cfg env i c w =
     (let b = cmd_intent c; (source, destination) = indices cfg b in
      then_do (read_part cfg env 0 source b (if source = destination then Local else Source) w) (\<lambda>w left.
      if source = destination then advance_local cfg env i b left w
      else then_do (read_part cfg env 1 destination b Destination w) (\<lambda>w right.
        run_move cfg env b (next_move i (cmd_decision c) left right) w)))"

subsection \<open>Operations\<close>

text \<open>The state read inside an operation: a projection error is raised.\<close>

definition with_state :: "Wallet \<Rightarrow> (commands \<Rightarrow> Wallet \<times> 'a result) \<Rightarrow> Wallet \<times> 'a result" where
  "with_state w f = (case wallet_state w of Inl x \<Rightarrow> (w, Inl x) | Inr cs \<Rightarrow> f cs)"

definition state_item :: "string \<Rightarrow> Wallet \<Rightarrow> Wallet \<times> command result" where
  "state_item i w =
     with_state w (\<lambda>cs. (w, case dict_get cs i of None \<Rightarrow> Inl (KeyError i) | Some c \<Rightarrow> Inr c))"

definition create_checks :: "wallet_config \<Rightarrow> json \<Rightarrow> string \<Rightarrow> Intent result" where
  "create_checks cfg body owner =
     and_then (intent body) (\<lambda>b.
       if map_option fst (dict_get (cfg_accounts cfg) (from_account b)) \<noteq> Some owner
       then Inl (HttpError 403 ''only owned source accounts may transfer'')
       else if dict_get (cfg_accounts cfg) (to_account b) = None
       then Inl (HttpError 404 ''destination account missing'')
       else Inr b)"

definition create_synced ::
  "wallet_config \<Rightarrow> surroundings \<Rightarrow> Intent \<Rightarrow> Wallet \<Rightarrow> commands \<Rightarrow> Wallet \<times> command result" where
  "create_synced cfg env b w cs =
     (case dict_get cs (transaction_id b) of
        Some old \<Rightarrow>
          if cmd_intent old \<noteq> b then (w, Inl (HttpError 409 ''transaction identity content conflict''))
          else (w, Inr old)
      | None \<Rightarrow>
          if 1000 \<le> length cs
          then (w, Inl (HttpError 429 ''reference command history is limited to 1000 transfers''))
          else then_do (append_fact cfg (sync_nets env 1) (sync_nets env 2) (Accepted (transaction_id b) b) w)
                 (\<lambda>w _. state_item (transaction_id b) w))"

definition create ::
  "wallet_config \<Rightarrow> surroundings \<Rightarrow> json \<Rightarrow> string \<Rightarrow> Wallet \<Rightarrow> Wallet \<times> command result" where
  "create cfg env body owner w =
     (case create_checks cfg body owner of
        Inl x \<Rightarrow> (w, Inl x)
      | Inr b \<Rightarrow>
          then_do (wallet_sync cfg (sync_nets env 0) w) (\<lambda>w _. with_state w (create_synced cfg env b w)))"

definition owned :: "wallet_config \<Rightarrow> string \<Rightarrow> string \<Rightarrow> Wallet \<Rightarrow> command result" where
  "owned cfg i owner w =
     and_then (wallet_state w) (\<lambda>cs.
       case dict_get cs i of
         None \<Rightarrow> Inl (HttpError 404 ''transfer missing'')
       | Some c \<Rightarrow>
           (case (dict_get (cfg_accounts cfg) (from_account (cmd_intent c)),
                  dict_get (cfg_accounts cfg) (to_account (cmd_intent c))) of
              (Some f, Some t) \<Rightarrow>
                if owner \<noteq> fst f \<and> owner \<noteq> fst t then Inl (HttpError 404 ''transfer missing'') else Inr c
            | (None, _) \<Rightarrow> Inl (KeyError (from_account (cmd_intent c)))
            | (_, None) \<Rightarrow> Inl (KeyError (to_account (cmd_intent c)))))"

definition wallet_retry :: "string \<Rightarrow> Wallet \<Rightarrow> Wallet \<times> unit result" where
  "wallet_retry i w =
     with_state w (\<lambda>cs.
       if dict_get cs i = None then (w, Inl (HttpError 404 ''transfer missing''))
       else (w\<lparr>w_retries := dict_del i (w_retries w)\<rparr>, Inr ()))"

definition cancel_synced ::
  "wallet_config \<Rightarrow> surroundings \<Rightarrow> string \<Rightarrow> Wallet \<Rightarrow> commands \<Rightarrow> Wallet \<times> command result" where
  "cancel_synced cfg env i w cs =
     (case dict_get cs i of
        None \<Rightarrow> (w, Inl (HttpError 404 ''transfer missing''))
      | Some c \<Rightarrow>
          if cmd_status c \<noteq> PENDING \<or> cmd_decision c = Some COMMIT \<or>
             fst (indices cfg (cmd_intent c)) = snd (indices cfg (cmd_intent c))
          then (w, Inl (HttpError 409 ''cannot cancel a committed, terminal or local transfer''))
          else then_do (if cmd_decision c = None
                        then append_fact cfg (sync_nets env 1) (sync_nets env 2) (Decision i CANCEL) w
                        else (w, Inr ())) (\<lambda>w _.
               then_do (wallet_retry i w) (\<lambda>w _. state_item i w)))"

definition wallet_cancel ::
  "wallet_config \<Rightarrow> surroundings \<Rightarrow> string \<Rightarrow> Wallet \<Rightarrow> Wallet \<times> command result" where
  "wallet_cancel cfg env i w =
     then_do (wallet_sync cfg (sync_nets env 0) w) (\<lambda>w _. with_state w (cancel_synced cfg env i w))"

datatype step_result = Idle | Progress string | Failed exn string bool

definition ready :: "float64 \<Rightarrow> (string, retry) dict \<Rightarrow> string \<times> command \<Rightarrow> bool" where
  "ready now retries ic \<longleftrightarrow>
     cmd_status (snd ic) = PENDING \<and>
     (case dict_get retries (fst ic) of None \<Rightarrow> True | Some r \<Rightarrow> \<not> dead r \<and> \<not> float_lt now (due r))"

text \<open>The comparisons of doubles on binary numerals, for evaluation.\<close>

lemma float_code [code]:
  "float_finite w \<longleftrightarrow> uint w mod 2 ^ 63 < 0x7FF0000000000000"
  "float_nan w \<longleftrightarrow> 0x7FF0000000000000 < uint w mod 2 ^ 63"
  "float_key w = (if uint w < 2 ^ 63 then uint w else 2 ^ 63 - uint w)"
proof -
  have u: "uint w = int (unat w)" by simp
  have m: "uint w mod 2 ^ 63 = int (unat w mod 2 ^ 63)" unfolding u by (simp add: zmod_int)
  have k: "uint w < 2 ^ 63 \<longleftrightarrow> unat w < 2 ^ 63" using of_nat_less_iff[of "unat w" "2 ^ 63", where ?'a = int] by simp
  show "float_finite w \<longleftrightarrow> uint w mod 2 ^ 63 < 0x7FF0000000000000" unfolding float_finite_def m by linarith
  show "float_nan w \<longleftrightarrow> 0x7FF0000000000000 < uint w mod 2 ^ 63" unfolding float_nan_def m by linarith
  show "float_key w = (if uint w < 2 ^ 63 then uint w else 2 ^ 63 - uint w)" unfolding float_key_def k using u by simp
qed

text \<open>The commands after the cursor first.\<close>

fun rotate_after :: "string option \<Rightarrow> commands \<Rightarrow> commands" where
  "rotate_after None cs = cs"
| "rotate_after (Some i) cs =
     (if dict_get cs i = None then cs
      else let (ahead, rest) = (takeWhile (\<lambda>ic. fst ic \<noteq> i) cs, dropWhile (\<lambda>ic. fst ic \<noteq> i) cs)
           in tl rest @ ahead @ take 1 rest)"

definition definitive :: "exn \<Rightarrow> bool" where
  "definitive x \<longleftrightarrow> (case x of HttpError n _ \<Rightarrow> n \<in> {400, 404, 422} | _ \<Rightarrow> False)"

definition transient :: "exn \<Rightarrow> bool" where
  "transient x \<longleftrightarrow> (case x of HttpError _ _ \<Rightarrow> True | OSError \<Rightarrow> True | _ \<Rightarrow> False)"

definition attempt_failed ::
  "wallet_config \<Rightarrow> surroundings \<Rightarrow> string \<Rightarrow> command \<Rightarrow> exn \<Rightarrow> Wallet \<Rightarrow> Wallet \<times> step_result result" where
  "attempt_failed cfg env i c x w =
     (if \<not> transient x then (w, Inl x)
      else if definitive x \<and> cmd_decision c = None \<and>
              fst (indices cfg (cmd_intent c)) \<noteq> snd (indices cfg (cmd_intent c))
      then then_do (append_fact cfg (sync_nets env 3) (sync_nets env 4) (Decision i CANCEL) w)
             (\<lambda>w _. (w, Inr (Progress i)))
      else let n = (case dict_get (w_retries w) i of None \<Rightarrow> 1 | Some r \<Rightarrow> failures r + 1) in
           (w\<lparr>w_retries := dict_set i
                \<lparr>failures = n, due = retry_at cfg (clock env) n, dead = (5 \<le> n), retry_error = x\<rparr> (w_retries w)\<rparr>,
            Inr (Failed x i (5 \<le> n))))"

definition attempt ::
  "wallet_config \<Rightarrow> surroundings \<Rightarrow> string \<Rightarrow> command \<Rightarrow> Wallet \<Rightarrow> Wallet \<times> step_result result" where
  "attempt cfg env i c w =
     (case advance cfg env i c (w\<lparr>w_cursor := Some i\<rparr>) of
        (w, Inr _) \<Rightarrow> (w\<lparr>w_retries := dict_del i (w_retries w)\<rparr>, Inr (Progress i))
      | (w, Inl x) \<Rightarrow> attempt_failed cfg env i c x w)"

text \<open>A step: recovery of the quorum first, then the next transfer that is due.\<close>

definition step_ready :: "wallet_config \<Rightarrow> surroundings \<Rightarrow> Wallet \<Rightarrow> commands \<Rightarrow> Wallet \<times> step_result result" where
  "step_ready cfg env w cs =
     (case find (ready (clock env) (w_retries w)) (rotate_after (w_cursor w) cs) of
        None \<Rightarrow> (w, Inr Idle)
      | Some (i, c) \<Rightarrow> attempt cfg env i c w)"

definition step_synced :: "wallet_config \<Rightarrow> surroundings \<Rightarrow> Wallet \<Rightarrow> Wallet \<times> step_result result" where
  "step_synced cfg env w =
     (if \<not> float_finite (clock env) \<or> float_lt (clock env) 0
      then (w, Inl (ValueError ''finite nonnegative retry clock required''))
      else with_state w (step_ready cfg env w))"

definition step :: "wallet_config \<Rightarrow> surroundings \<Rightarrow> Wallet \<Rightarrow> Wallet \<times> step_result result" where
  "step cfg env w =
     with_state w (\<lambda>cs.
       if \<not> has_pending (w_journal w) \<and> \<not> list_ex (\<lambda>(_, c). cmd_status c = PENDING) cs then (w, Inr Idle)
       else then_do (wallet_sync cfg (sync_nets env 0) w) (\<lambda>w _. step_synced cfg env w))"

record status_report =
  st_transfers :: nat
  st_pending :: nat
  st_events :: nat
  st_retries :: "(string, retry) dict"

definition wallet_status :: "Wallet \<Rightarrow> status_report result" where
  "wallet_status w =
     and_then (wallet_state w) (\<lambda>cs. Inr
       \<lparr>st_transfers = length cs, st_pending = length (filter (\<lambda>(_, c). cmd_status c = PENDING) cs),
        st_events = length (journal_records (w_journal w)), st_retries = w_retries w\<rparr>)"

definition opening_supply :: "wallet_config \<Rightarrow> int" where
  "opening_supply cfg = dict_sum snd (cfg_accounts cfg)"

text \<open>A balance read through the coordinator, with the sequence number of the shard it is from.\<close>

definition wallet_balance ::
  "wallet_config \<Rightarrow> surroundings \<Rightarrow> string \<Rightarrow> string \<Rightarrow> int option \<Rightarrow> Wallet
   \<Rightarrow> Wallet \<times> (nat \<times> nat \<times> balance) result" where
  "wallet_balance cfg env account owner at w =
     (if map_option fst (dict_get (cfg_accounts cfg) account) \<noteq> Some owner
      then (w, Inl (HttpError 404 ''account missing''))
      else then_do (shard_call cfg env 0 (\<lambda>w.
             (w, shard_balance (shard_digest cfg) account at
                   (w_shards w ! shard_for (account_hash cfg) account (cfg_shards cfg)))) w) (\<lambda>w (sh, seq, b).
        (w, case and_then (require (sh = shard_for (account_hash cfg) account (cfg_shards cfg))
                   (ValueError ''invalid balance receipt'')) (\<lambda>_.
                 and_then (check_integer (JInt (int seq)) 1 1000000000000) (\<lambda>_.
                 and_then (check_integer (JInt (available b)) 0 (opening_supply cfg)) (\<lambda>_.
                   check_integer (JInt (held b)) 0 (opening_supply cfg)))) of
              Inl _ \<Rightarrow> Inl (HttpError 502 ''participant returned an invalid balance'')
            | Inr _ \<Rightarrow> Inr (sh, seq, b))))"

section \<open>The audit\<close>

record view =
  v_shard :: nat
  v_seq :: nat
  v_head :: string
  v_state :: projection

record audit_report =
  audit_errors :: "string list"
  wallet_total :: int
  in_transit :: int
  audit_quorum :: "nat \<times> nat"

definition fetch_view :: "wallet_config \<Rightarrow> nat \<Rightarrow> Wallet \<Rightarrow> Wallet \<times> view result" where
  "fetch_view cfg i w =
     (w, and_then (shard_view (shard_digest cfg) None (w_shards w ! i)) (\<lambda>(seq, head, st).
       case st of None \<Rightarrow> Inl (KeyError ''accounts'')
       | Some st \<Rightarrow> Inr \<lparr>v_shard = sh_index (w_shards w ! i), v_seq = seq, v_head = head, v_state = st\<rparr>))"

definition fetch_audit :: "wallet_config \<Rightarrow> nat \<Rightarrow> Wallet \<Rightarrow> Wallet \<times> (bool \<times> nat \<times> string) result" where
  "fetch_audit cfg i w = (w, shard_audit (shard_digest cfg) (w_shards w ! i))"

text \<open>A list of exchanges, one after the other; the first failure ends it.\<close>

fun collect :: "('i \<Rightarrow> 's \<Rightarrow> 's \<times> ('e + 'a)) \<Rightarrow> 'i list \<Rightarrow> 's \<Rightarrow> 's \<times> ('e + 'a list)" where
  "collect f [] s = (s, Inr [])"
| "collect f (i # is) s =
     then_do (f i s) (\<lambda>s x. then_do (collect f is s) (\<lambda>s xs. (s, Inr (x # xs))))"

definition check_view :: "wallet_config \<Rightarrow> view \<times> bool \<times> nat \<times> string \<Rightarrow> unit result" where
  "check_view cfg vc =
     (case vc of (v, _, events, _) \<Rightarrow>
       case and_then (check_integer (JInt (int (v_shard v))) 0 (int (cfg_shards cfg) - 1)) (\<lambda>_.
            and_then (check_integer (JInt (int (v_seq v))) 1 1000000000000) (\<lambda>_.
            and_then (check_integer (JInt (int events)) 1 1000000000000) (\<lambda>_.
            and_then (traverse (\<lambda>(_, b). and_then (check_integer (JInt (available b)) 0 (opening_supply cfg)) (\<lambda>_.
                        check_integer (JInt (held b)) 0 (opening_supply cfg))) (accounts (v_state v))) (\<lambda>_.
            traverse (\<lambda>(_, p). check_receipt p (part_intent p) (part_role p)) (parts (v_state v)))))) of
         Inl _ \<Rightarrow> Inl (HttpError 502 ''invalid shard audit receipt'')
       | Inr _ \<Rightarrow> Inr ())"

definition error_if :: "bool \<Rightarrow> string \<Rightarrow> string list" where
  "error_if p m = (if p then [m] else [])"

definition view_errors :: "wallet_config \<Rightarrow> nat \<Rightarrow> view \<Rightarrow> string list" where
  "view_errors cfg i v =
     error_if (v_shard v \<noteq> i) (''shard identity mismatch: '' @ dec_nat i) @
     error_if (fst ` set (accounts (v_state v)) \<noteq>
         fst ` set (filter (\<lambda>(a, _). shard_for (account_hash cfg) a (cfg_shards cfg) = i) (cfg_accounts cfg)))
       (''account distribution mismatch: '' @ dec_nat i)"

definition view_part :: "view list \<Rightarrow> nat \<Rightarrow> string \<Rightarrow> part option" where
  "view_part views index i = dict_get (parts (v_state (views ! index))) i"

definition mismatched :: "Intent \<Rightarrow> role \<Rightarrow> part option \<Rightarrow> bool" where
  "mismatched b r p \<longleftrightarrow> (\<exists>p \<in> set_option p. part_intent p \<noteq> b \<or> part_role p \<noteq> r)"

definition local_errors :: "string \<Rightarrow> command \<Rightarrow> part option \<Rightarrow> string list" where
  "local_errors i c part =
     error_if (cmd_decision c \<noteq> None) (''decision on local transfer: '' @ i) @
     error_if (mismatched (cmd_intent c) Local part) (''mismatched local participant: '' @ i) @
     error_if (cmd_status c = T_REJECTED \<and> \<not> has_status REJECTED part) (''missing rejection: '' @ i) @
     error_if (cmd_status c = SUCCEEDED \<and> \<not> has_status CONFIRMED part) (''missing local effect: '' @ i)"

definition cross_errors :: "string \<Rightarrow> command \<Rightarrow> part option \<Rightarrow> part option \<Rightarrow> string list" where
  "cross_errors i c left right =
     error_if (mismatched (cmd_intent c) Source left) (''mismatched cross-shard participant: '' @ i) @
     error_if (mismatched (cmd_intent c) Destination right) (''mismatched cross-shard participant: '' @ i) @
     error_if (has_status CONFIRMED left \<and> \<not> has_status CONFIRMED right \<and> cmd_decision c \<noteq> Some COMMIT)
       (''uncommitted source confirmation: '' @ i) @
     error_if (has_status CONFIRMED right \<and> (\<not> has_status CONFIRMED left \<or> cmd_decision c \<noteq> Some COMMIT))
       (''destination credited before source confirmation: '' @ i) @
     error_if (cmd_status c = SUCCEEDED \<and> \<not> (has_status CONFIRMED left \<and> has_status CONFIRMED right))
       (''missing completed effect: '' @ i) @
     error_if (cmd_status c = T_CANCELED \<and> \<not> (has_status CANCELED left \<and> has_status CANCELED right))
       (''missing cancellation: '' @ i)"

definition command_errors :: "wallet_config \<Rightarrow> (nat \<Rightarrow> string \<Rightarrow> part option) \<Rightarrow> string \<times> command \<Rightarrow> string list" where
  "command_errors cfg P ic =
     (case ic of (i, c) \<Rightarrow>
       let (source, destination) = indices cfg (cmd_intent c) in
       if source = destination then local_errors i c (P source i)
       else cross_errors i c (P source i) (P destination i))"

text \<open>What has left the source of a transfer and not yet reached its destination.\<close>

definition transit :: "wallet_config \<Rightarrow> (nat \<Rightarrow> string \<Rightarrow> part option) \<Rightarrow> string \<times> command \<Rightarrow> int" where
  "transit cfg P ic =
     (case ic of (i, c) \<Rightarrow>
       let (source, destination) = indices cfg (cmd_intent c) in
       if source \<noteq> destination \<and> has_status CONFIRMED (P source i) \<and> \<not> has_status CONFIRMED (P destination i)
       then amount (cmd_intent c) else 0)"

definition orphan_errors :: "wallet_config \<Rightarrow> commands \<Rightarrow> view \<Rightarrow> string list" where
  "orphan_errors cfg cs v =
     concat (map (\<lambda>(i, p). error_if (map_option cmd_intent (dict_get cs i) \<noteq> Some (part_intent p) \<or>
         v_shard v \<notin> {fst (indices cfg (part_intent p)), snd (indices cfg (part_intent p))})
       (''orphan or mismatched participant: '' @ i)) (parts (v_state v)))"

definition audit_views ::
  "wallet_config \<Rightarrow> commands \<Rightarrow> nat \<times> nat \<Rightarrow> view list \<Rightarrow> (bool \<times> nat \<times> string) list \<Rightarrow> audit_report" where
  "audit_views cfg cs quorum views checks =
     (let tot = sum_list (map (total \<circ> v_state) views);
          moving = sum_list (map (transit cfg (view_part views)) cs) in
      \<lparr>audit_errors =
         concat (map (\<lambda>(i, v). view_errors cfg i v) (enumerate 0 views)) @
         concat (map (command_errors cfg (view_part views)) cs) @
         concat (map (orphan_errors cfg cs) views) @
         error_if (tot + moving \<noteq> opening_supply cfg) ''supply mismatch'' @
         error_if (list_ex (\<lambda>(v, _, events, head). events \<noteq> v_seq v \<or> head \<noteq> v_head v) (zip views checks))
           ''participant changed during audit'' @
         error_if (\<not> list_all fst checks) ''event/projection mismatch'',
       wallet_total = tot, in_transit = moving, audit_quorum = quorum\<rparr>)"

definition wallet_audit :: "wallet_config \<Rightarrow> surroundings \<Rightarrow> Wallet \<Rightarrow> Wallet \<times> audit_report result" where
  "wallet_audit cfg env w =
     (let n = cfg_shards cfg in
      then_do (wallet_sync cfg (sync_nets env 0) w) (\<lambda>w quorum.
      then_do (collect (\<lambda>i. shard_call cfg env i (fetch_view cfg i)) [0..<n] w) (\<lambda>w views.
      then_do (collect (\<lambda>i. shard_call cfg env (n + i) (fetch_audit cfg i)) [0..<n] w) (\<lambda>w checks.
        case traverse (check_view cfg) (zip views checks) of
          Inl x \<Rightarrow> (w, Inl x)
        | Inr _ \<Rightarrow> with_state w (\<lambda>cs. (w, Inr (audit_views cfg cs quorum views checks)))))))"

section \<open>Starting the wallet\<close>

text \<open>The roles started on empty databases: the shards with their accounts, three replicas, no command.\<close>

definition openings :: "wallet_config \<Rightarrow> (string, int) dict" where
  "openings cfg = map (\<lambda>(a, _, n). (a, n)) (cfg_accounts cfg)"

definition wallet_start :: "wallet_config \<Rightarrow> Wallet result" where
  "wallet_start cfg =
     (let f = \<lparr>epoch = cfg_epoch cfg, leader = cfg_leader cfg\<rparr> in
      and_then (require (1 \<le> cfg_shards cfg) (ValueError ''integer cents/sequence outside reference limits'')) (\<lambda>_.
      and_then (traverse (\<lambda>i. shard_init (shard_digest cfg) (account_hash cfg) i (cfg_shards cfg) (openings cfg) f)
          [0..<cfg_shards cfg]) (\<lambda>shards.
        Inr \<lparr>w_shards = shards,
             w_journal = \<lparr>j_rows = [], j_committed = 0, j_replicas = replicate 3 \<lparr>rep_fence = f, rep_rows = []\<rparr>\<rparr>,
             w_retries = [], w_cursor = None, w_sent = []\<rparr>)))"

end
