(* ===== verification/Wallet_Invariant.thy ===== *)
theory Wallet_Invariant
  imports Wallet
begin

text \<open>
  The invariant of the wallet: what the committed facts of the coordinator say of every transfer and
  what its participants may then be, which requests can be on the way, which fact may wait for its
  quorum, and that the money in the shards and in transit is the opening supply.  The lemmas show
  that a delivery keeps it, whichever request arrives and however late, and that a committed fact
  does.
\<close>

section \<open>The invariant\<close>

definition parts_of :: "Wallet \<Rightarrow> nat \<Rightarrow> string \<Rightarrow> part option" where
  "parts_of w index i = dict_get (parts (sh_state (w_shards w ! index))) i"

definition wallet_supply :: "Wallet \<Rightarrow> int" where
  "wallet_supply w = sum_list (map (total \<circ> sh_state) (w_shards w))"

definition shards_ok :: "wallet_config \<Rightarrow> Wallet \<Rightarrow> bool" where
  "shards_ok cfg w \<longleftrightarrow>
     0 < cfg_shards cfg \<and> length (w_shards w) = cfg_shards cfg \<and>
     (\<forall>i < cfg_shards cfg.
        shard_ok (shard_digest cfg) (account_hash cfg) (openings cfg) (w_shards w ! i) \<and>
        sh_index (w_shards w ! i) = i \<and> sh_count (w_shards w ! i) = cfg_shards cfg)"

definition role_index :: "wallet_config \<Rightarrow> Intent \<Rightarrow> role \<Rightarrow> nat" where
  "role_index cfg b r = (if r = Destination then snd (indices cfg b) else fst (indices cfg b))"

definition is_local :: "wallet_config \<Rightarrow> Intent \<Rightarrow> bool" where
  "is_local cfg b \<longleftrightarrow> fst (indices cfg b) = snd (indices cfg b)"

definition status_of :: "wallet_config \<Rightarrow> (nat \<Rightarrow> string \<Rightarrow> part option) \<Rightarrow> Intent \<Rightarrow> role \<Rightarrow> part_status option" where
  "status_of cfg P b r = map_option part_status (P (role_index cfg b r) (transaction_id b))"

text \<open>The statuses of the two participants that a decision allows.\<close>

fun cross_ok :: "decision option \<Rightarrow> part_status option \<Rightarrow> part_status option \<Rightarrow> bool" where
  "cross_ok None left right \<longleftrightarrow>
     left \<in> {None, Some PREPARED, Some REJECTED} \<and> right \<in> {None, Some PREPARED, Some REJECTED}"
| "cross_ok (Some COMMIT) left right \<longleftrightarrow>
     left \<in> {Some PREPARED, Some CONFIRMED} \<and> right \<in> {Some PREPARED, Some CONFIRMED} \<and>
     (right = Some CONFIRMED \<longrightarrow> left = Some CONFIRMED)"
| "cross_ok (Some CANCEL) left right \<longleftrightarrow> left \<noteq> Some CONFIRMED \<and> right \<noteq> Some CONFIRMED"

fun cross_done :: "transfer_status \<Rightarrow> decision option \<Rightarrow> part_status option \<Rightarrow> part_status option \<Rightarrow> bool" where
  "cross_done PENDING d left right \<longleftrightarrow> True"
| "cross_done SUCCEEDED d left right \<longleftrightarrow> d = Some COMMIT \<and> left = Some CONFIRMED \<and> right = Some CONFIRMED"
| "cross_done T_CANCELED d left right \<longleftrightarrow> d = Some CANCEL \<and> left = Some CANCELED \<and> right = Some CANCELED"
| "cross_done T_REJECTED d left right \<longleftrightarrow> False"

fun local_done :: "transfer_status \<Rightarrow> part_status option \<Rightarrow> bool" where
  "local_done PENDING p \<longleftrightarrow> True"
| "local_done SUCCEEDED p \<longleftrightarrow> p = Some CONFIRMED"
| "local_done T_REJECTED p \<longleftrightarrow> p = Some REJECTED"
| "local_done T_CANCELED p \<longleftrightarrow> False"

definition command_ok :: "wallet_config \<Rightarrow> (nat \<Rightarrow> string \<Rightarrow> part option) \<Rightarrow> command \<Rightarrow> bool" where
  "command_ok cfg P c \<longleftrightarrow>
     check_intent (cmd_intent c) = Inr () \<and>
     {from_account (cmd_intent c), to_account (cmd_intent c)} \<subseteq> fst ` set (cfg_accounts cfg) \<and>
     (if is_local cfg (cmd_intent c)
      then cmd_decision c = None \<and>
           status_of cfg P (cmd_intent c) Local \<in> {None, Some CONFIRMED, Some REJECTED} \<and>
           local_done (cmd_status c) (status_of cfg P (cmd_intent c) Local)
      else cross_ok (cmd_decision c) (status_of cfg P (cmd_intent c) Source) (status_of cfg P (cmd_intent c) Destination) \<and>
           cross_done (cmd_status c) (cmd_decision c)
             (status_of cfg P (cmd_intent c) Source) (status_of cfg P (cmd_intent c) Destination))"

definition owned_part :: "wallet_config \<Rightarrow> commands \<Rightarrow> nat \<Rightarrow> string \<Rightarrow> part \<Rightarrow> bool" where
  "owned_part cfg cs index i p \<longleftrightarrow>
     map_option cmd_intent (dict_get cs i) = Some (part_intent p) \<and>
     index = role_index cfg (part_intent p) (part_role p) \<and>
     (part_role p = Local) = is_local cfg (part_intent p)"

definition ledger_ok :: "wallet_config \<Rightarrow> (nat \<Rightarrow> string \<Rightarrow> part option) \<Rightarrow> commands \<Rightarrow> int \<Rightarrow> bool" where
  "ledger_ok cfg P cs t \<longleftrightarrow>
     dict_ok cs \<and> length cs \<le> 1000 \<and>
     (\<forall>i c. dict_get cs i = Some c \<longrightarrow> transaction_id (cmd_intent c) = i \<and> command_ok cfg P c) \<and>
     (\<forall>index < cfg_shards cfg. \<forall>i p. P index i = Some p \<longrightarrow> owned_part cfg cs index i p) \<and>
     t + sum_list (map (transit cfg P) cs) = opening_supply cfg"

text \<open>A request that may be on the way.\<close>

definition request_ok :: "wallet_config \<Rightarrow> (nat \<Rightarrow> string \<Rightarrow> part option) \<Rightarrow> commands \<Rightarrow> request \<Rightarrow> bool" where
  "request_ok cfg P cs rq \<longleftrightarrow>
     (\<exists>c. dict_get cs (transaction_id (rq_intent rq)) = Some c \<and> cmd_intent c = rq_intent rq \<and>
        rq_shard rq = role_index cfg (rq_intent rq) (rq_role rq) \<and>
        (rq_role rq = Local) = is_local cfg (rq_intent rq) \<and>
        (rq_kind rq = LocalTransfer) = (rq_role rq = Local) \<and>
        (rq_kind rq = Confirm \<longrightarrow> cmd_decision c = Some COMMIT \<and>
           (rq_role rq = Destination \<longrightarrow> status_of cfg P (rq_intent rq) Source = Some CONFIRMED)) \<and>
        (rq_kind rq = Cancel \<longrightarrow> cmd_decision c = Some CANCEL))"

text \<open>A fact that may wait for its quorum.\<close>

definition pending_cross :: "wallet_config \<Rightarrow> commands \<Rightarrow> string \<Rightarrow> decision option \<Rightarrow> command \<Rightarrow> bool" where
  "pending_cross cfg cs i d c \<longleftrightarrow>
     dict_get cs i = Some c \<and> cmd_status c = PENDING \<and> cmd_decision c = d \<and> \<not> is_local cfg (cmd_intent c)"

definition both :: "wallet_config \<Rightarrow> (nat \<Rightarrow> string \<Rightarrow> part option) \<Rightarrow> part_status \<Rightarrow> Intent \<Rightarrow> bool" where
  "both cfg P s b \<longleftrightarrow> status_of cfg P b Source = Some s \<and> status_of cfg P b Destination = Some s"

definition completes_local ::
  "wallet_config \<Rightarrow> (nat \<Rightarrow> string \<Rightarrow> part option) \<Rightarrow> commands \<Rightarrow> string \<Rightarrow> part_status \<Rightarrow> bool" where
  "completes_local cfg P cs i s \<longleftrightarrow>
     (\<exists>c. dict_get cs i = Some c \<and> cmd_status c = PENDING \<and> is_local cfg (cmd_intent c) \<and>
        status_of cfg P (cmd_intent c) Local = Some s)"

fun fact_ok :: "wallet_config \<Rightarrow> (nat \<Rightarrow> string \<Rightarrow> part option) \<Rightarrow> commands \<Rightarrow> fact \<Rightarrow> bool" where
  "fact_ok cfg P cs (Accepted i b) \<longleftrightarrow>
     dict_get cs i = None \<and> transaction_id b = i \<and> check_intent b = Inr () \<and> length cs < 1000 \<and>
     {from_account b, to_account b} \<subseteq> fst ` set (cfg_accounts cfg)"
| "fact_ok cfg P cs (Decision i COMMIT) \<longleftrightarrow>
     (\<exists>c. pending_cross cfg cs i None c \<and> both cfg P PREPARED (cmd_intent c))"
| "fact_ok cfg P cs (Decision i CANCEL) \<longleftrightarrow> (\<exists>c. pending_cross cfg cs i None c)"
| "fact_ok cfg P cs (Completed i SUCCEEDED) \<longleftrightarrow>
     (\<exists>c. pending_cross cfg cs i (Some COMMIT) c \<and> both cfg P CONFIRMED (cmd_intent c)) \<or>
     completes_local cfg P cs i CONFIRMED"
| "fact_ok cfg P cs (Completed i T_CANCELED) \<longleftrightarrow>
     (\<exists>c. pending_cross cfg cs i (Some CANCEL) c \<and> both cfg P CANCELED (cmd_intent c))"
| "fact_ok cfg P cs (Completed i T_REJECTED) \<longleftrightarrow> completes_local cfg P cs i REJECTED"
| "fact_ok cfg P cs (Completed i PENDING) \<longleftrightarrow> False"

definition waiting :: "Wallet \<Rightarrow> fact list" where
  "waiting w = map row_event (drop (j_committed (w_journal w)) (j_rows (w_journal w)))"

definition wallet_inv :: "wallet_config \<Rightarrow> Wallet \<Rightarrow> commands \<Rightarrow> bool" where
  "wallet_inv cfg w cs \<longleftrightarrow>
     shards_ok cfg w \<and> journal_ok (fact_digest cfg) (w_journal w) \<and> wallet_state w = Inr cs \<and>
     ledger_ok cfg (parts_of w) cs (wallet_supply w) \<and>
     list_all (request_ok cfg (parts_of w) cs) (w_sent w) \<and>
     list_all (fact_ok cfg (parts_of w) cs) (waiting w)"

section \<open>Growth of the participants\<close>

text \<open>A participant keeps its identity, and its status only moves towards a terminal one.\<close>

definition status_le :: "part_status \<Rightarrow> part_status \<Rightarrow> bool" where
  "status_le s t \<longleftrightarrow> s = t \<or> (s = PREPARED \<and> t \<in> {CONFIRMED, CANCELED}) \<or> (s = REJECTED \<and> t = CANCELED)"

definition grows :: "(nat \<Rightarrow> string \<Rightarrow> part option) \<Rightarrow> (nat \<Rightarrow> string \<Rightarrow> part option) \<Rightarrow> bool" where
  "grows P Q \<longleftrightarrow>
     (\<forall>index i p. P index i = Some p \<longrightarrow>
        (\<exists>q. Q index i = Some q \<and> part_intent q = part_intent p \<and> part_role q = part_role p \<and>
             status_le (part_status p) (part_status q)))"

lemma status_le_refl [simp]: "status_le s s"
  by (simp add: status_le_def)

lemma status_le_trans: "status_le s t \<Longrightarrow> status_le t u \<Longrightarrow> status_le s u"
  by (auto simp: status_le_def)

lemma parts_grow_refl [simp]: "grows P P"
  by (simp add: grows_def)

lemma growsE:
  assumes "grows P Q" "P index i = Some p"
  obtains q where "Q index i = Some q" "part_intent q = part_intent p" "part_role q = part_role p"
    "status_le (part_status p) (part_status q)"
  using assms unfolding grows_def by blast

lemma parts_grow_trans:
  assumes "grows P Q" "grows Q R"
  shows "grows P R"
  unfolding grows_def
proof (intro allI impI)
  fix index i p assume "P index i = Some p"
  then obtain q where q: "Q index i = Some q" "part_intent q = part_intent p" "part_role q = part_role p"
    "status_le (part_status p) (part_status q)" by (rule growsE[OF assms(1)])
  obtain r where "R index i = Some r" "part_intent r = part_intent q" "part_role r = part_role q"
    "status_le (part_status q) (part_status r)" by (rule growsE[OF assms(2) q(1)])
  then show "\<exists>q. R index i = Some q \<and> part_intent q = part_intent p \<and> part_role q = part_role p \<and>
      status_le (part_status p) (part_status q)"
    using q status_le_trans by auto
qed

lemma grows_status:
  assumes "grows P Q" "status_of cfg P b r = Some s"
  obtains t where "status_of cfg Q b r = Some t" "status_le s t"
proof -
  obtain p where p: "P (role_index cfg b r) (transaction_id b) = Some p" "part_status p = s"
    using assms(2) by (auto simp: status_of_def)
  obtain q where "Q (role_index cfg b r) (transaction_id b) = Some q" "status_le (part_status p) (part_status q)"
    by (rule growsE[OF assms(1) p(1)])
  then show thesis using p by (intro that) (auto simp: status_of_def)
qed

lemma ledger_command:
  assumes "ledger_ok cfg P cs t" "dict_get cs i = Some c"
  shows "command_ok cfg P c" "transaction_id (cmd_intent c) = i"
  using assms unfolding ledger_ok_def by blast+

lemma command_local:
  "command_ok cfg P c \<Longrightarrow> is_local cfg (cmd_intent c) \<Longrightarrow>
   cmd_decision c = None \<and> status_of cfg P (cmd_intent c) Local \<in> {None, Some CONFIRMED, Some REJECTED} \<and>
   local_done (cmd_status c) (status_of cfg P (cmd_intent c) Local)"
  by (simp add: command_ok_def)

lemma command_cross:
  "command_ok cfg P c \<Longrightarrow> \<not> is_local cfg (cmd_intent c) \<Longrightarrow>
   cross_ok (cmd_decision c) (status_of cfg P (cmd_intent c) Source) (status_of cfg P (cmd_intent c) Destination) \<and>
   cross_done (cmd_status c) (cmd_decision c)
     (status_of cfg P (cmd_intent c) Source) (status_of cfg P (cmd_intent c) Destination)"
  by (simp add: command_ok_def)

lemma grows_terminal:
  "grows P Q \<Longrightarrow> status_of cfg P b r = Some s \<Longrightarrow> s \<in> {CONFIRMED, CANCELED} \<Longrightarrow> status_of cfg Q b r = Some s"
  by (erule grows_status, assumption) (auto simp: status_le_def)

text \<open>The fact that waits stays possible while participants grow.\<close>

lemma both_prepared_stays:
  assumes "grows P Q" "both cfg P PREPARED b"
    and "cross_ok None (status_of cfg Q b Source) (status_of cfg Q b Destination)"
  shows "both cfg Q PREPARED b"
proof -
  obtain s t where "status_of cfg Q b Source = Some s" "status_le PREPARED s"
      "status_of cfg Q b Destination = Some t" "status_le PREPARED t"
    using assms(2) grows_status[OF assms(1)] unfolding both_def by metis
  then show ?thesis using assms(3) by (auto simp: both_def status_le_def)
qed

lemma both_terminal_stays:
  "grows P Q \<Longrightarrow> both cfg P s b \<Longrightarrow> s \<in> {CONFIRMED, CANCELED} \<Longrightarrow> both cfg Q s b"
  by (simp add: both_def grows_terminal)

lemma completes_local_stays:
  assumes "grows P Q" "completes_local cfg P cs i s" "ledger_ok cfg Q cs t" "s \<in> {CONFIRMED, REJECTED}"
  shows "completes_local cfg Q cs i s"
proof -
  obtain c where c: "dict_get cs i = Some c" "cmd_status c = PENDING" "is_local cfg (cmd_intent c)"
      "status_of cfg P (cmd_intent c) Local = Some s"
    using assms(2) by (auto simp: completes_local_def)
  obtain u where u: "status_of cfg Q (cmd_intent c) Local = Some u" "status_le s u"
    by (rule grows_status[OF assms(1) c(4)])
  have "u \<in> {CONFIRMED, REJECTED}" using command_local[OF ledger_command(1)[OF assms(3) c(1)] c(3)] u by simp
  then have "u = s" using u(2) assms(4) by (auto simp: status_le_def)
  then show ?thesis using c u by (auto simp: completes_local_def)
qed

lemma fact_stays:
  assumes g: "grows P Q" and l: "ledger_ok cfg Q cs t" and f: "fact_ok cfg P cs f"
  shows "fact_ok cfg Q cs f"
proof (cases f)
  case (Decision i d)
  then show ?thesis
  proof (cases d)
    case COMMIT
    then obtain c where c: "pending_cross cfg cs i None c" "both cfg P PREPARED (cmd_intent c)"
      using f Decision by auto
    moreover have "cross_ok None (status_of cfg Q (cmd_intent c) Source) (status_of cfg Q (cmd_intent c) Destination)"
      using c(1) command_cross[OF ledger_command(1)[OF l]] unfolding pending_cross_def by metis
    ultimately show ?thesis using both_prepared_stays[OF g] Decision COMMIT by auto
  qed (use f Decision in auto)
next
  case (Completed i s)
  then show ?thesis
    using f both_terminal_stays[OF g] completes_local_stays[OF g _ l] by (cases s) (fastforce+)
qed (use f in auto)

section \<open>Deliveries\<close>

lemma sum_list_list_update:
  "k < length xs \<Longrightarrow> sum_list (map f (xs[k := x])) = sum_list (map f xs) + f x - (f (xs ! k) :: int)"
proof (induction xs arbitrary: k)
  case (Cons y ys)
  then show ?case by (cases k) auto
qed simp

lemma sum_list_map_change:
  fixes f g :: "'k \<times> 'v \<Rightarrow> int"
  assumes "dict_ok cs" "dict_get cs i = Some c" "\<forall>(j, c')\<in>set cs. j \<noteq> i \<longrightarrow> g (j, c') = f (j, c')"
  shows "sum_list (map g cs) = sum_list (map f cs) + g (i, c) - f (i, c)"
  using assms
proof (induction cs)
  case (Cons x cs)
  obtain j c' where x: "x = (j, c')" by (cases x)
  have ok: "dict_ok cs" "j \<notin> fst ` set cs" using Cons.prems(1) by (auto simp: x dict_ok_def)
  show ?case
  proof (cases "j = i")
    case True
    then have "\<forall>y\<in>set cs. g y = f y" using Cons.prems(3) ok by (force simp: x)
    then have "sum_list (map g cs) = sum_list (map f cs)" by (intro arg_cong[where f = sum_list] map_cong) auto
    then show ?thesis using Cons.prems(2) True by (simp add: x)
  next
    case False
    then show ?thesis using Cons ok by (simp add: x)
  qed
qed simp

text \<open>One event of a participant, seen from the two sides of a transfer.\<close>

definition moving :: "int \<Rightarrow> part_status option \<Rightarrow> part_status option \<Rightarrow> int" where
  "moving n left right = (if left = Some CONFIRMED \<and> right \<noteq> Some CONFIRMED then n else 0)"

lemma cross_source_step:
  assumes "cross_ok d left right" "cross_done s d left right" "k \<noteq> LocalTransfer"
    "k = Confirm \<longrightarrow> d = Some COMMIT" "k = Cancel \<longrightarrow> d = Some CANCEL"
    "part_step k Source n left new \<delta>"
  shows "cross_ok d (Some new) right \<and> cross_done s d (Some new) right \<and>
    \<delta> + moving n (Some new) right = moving n left right"
proof -
  consider "d = None" | "d = Some COMMIT" | "d = Some CANCEL" by (metis not_None_eq decision.exhaust)
  then show ?thesis
    using assms by cases (cases k; cases s; auto simp: part_step_def moving_def)+
qed

lemma cross_destination_step:
  assumes "cross_ok d left right" "cross_done s d left right" "k \<noteq> LocalTransfer"
    "k = Confirm \<longrightarrow> d = Some COMMIT \<and> left = Some CONFIRMED" "k = Cancel \<longrightarrow> d = Some CANCEL"
    "part_step k Destination n right new \<delta>"
  shows "cross_ok d left (Some new) \<and> cross_done s d left (Some new) \<and>
    \<delta> + moving n left (Some new) = moving n left right"
proof -
  consider "d = None" | "d = Some COMMIT" | "d = Some CANCEL" by (metis not_None_eq decision.exhaust)
  then show ?thesis
    using assms by cases (cases k; cases s; auto simp: part_step_def moving_def)+
qed

lemma part_step_le: "part_step k r n (Some s) new d \<Longrightarrow> status_le s new"
  by (cases k; cases s) (auto simp: part_step_def status_le_def)

lemma transit_status:
  assumes "transaction_id (cmd_intent c) = i"
  shows "transit cfg P (i, c) = (if is_local cfg (cmd_intent c) then 0
    else moving (amount (cmd_intent c)) (status_of cfg P (cmd_intent c) Source) (status_of cfg P (cmd_intent c) Destination))"
  using assms
  by (auto simp: transit_def moving_def is_local_def status_of_def role_index_def has_status_def split: prod.splits)

lemma command_ok_cong:
  assumes "\<And>r. status_of cfg Q (cmd_intent c) r = status_of cfg P (cmd_intent c) r"
  shows "command_ok cfg Q c = command_ok cfg P c"
    "transaction_id (cmd_intent c) = i \<Longrightarrow> transit cfg Q (i, c) = transit cfg P (i, c)"
  by (simp_all add: command_ok_def assms transit_status)

text \<open>The participants after an event of request \<open>rq\<close>.\<close>

definition set_part ::
  "request \<Rightarrow> part_status \<Rightarrow> (nat \<Rightarrow> string \<Rightarrow> part option) \<Rightarrow> nat \<Rightarrow> string \<Rightarrow> part option" where
  "set_part rq s P = P(rq_shard rq := (P (rq_shard rq))(transaction_id (rq_intent rq) \<mapsto>
     \<lparr>part_intent = rq_intent rq, part_role = rq_role rq, part_status = s\<rparr>))"

lemma status_of_set_part_other:
  "transaction_id b \<noteq> transaction_id (rq_intent rq) \<Longrightarrow> status_of cfg (set_part rq s P) b r = status_of cfg P b r"
  by (simp add: status_of_def set_part_def)

lemma status_of_set_part:
  assumes "request_ok cfg P cs rq" "\<not> is_local cfg (rq_intent rq)" "r \<noteq> Local"
  shows "status_of cfg (set_part rq s P) (rq_intent rq) r
    = (if r = rq_role rq then Some s else status_of cfg P (rq_intent rq) r)"
  using assms
  by (cases r; cases "rq_role rq") (auto simp: request_ok_def status_of_def set_part_def role_index_def is_local_def)

lemma status_of_set_part_same:
  "request_ok cfg P cs rq \<Longrightarrow> status_of cfg (set_part rq s P) (rq_intent rq) (rq_role rq) = Some s"
  "request_ok cfg P cs rq \<Longrightarrow>
     map_option part_status (P (rq_shard rq) (transaction_id (rq_intent rq))) = status_of cfg P (rq_intent rq) (rq_role rq)"
  by (auto simp: request_ok_def status_of_def set_part_def)

text \<open>What the event of a possible request does to its own transfer.\<close>

lemma command_deliver:
  assumes c: "command_ok cfg P c" "cmd_intent c = rq_intent rq" "transaction_id (rq_intent rq) = i"
    and cs: "dict_get cs i = Some c" and rq: "request_ok cfg P cs rq"
    and step: "part_step (rq_kind rq) (rq_role rq) (amount (rq_intent rq)) (status_of cfg P (rq_intent rq) (rq_role rq)) new d"
  shows "command_ok cfg (set_part rq new P) c \<and> d + transit cfg (set_part rq new P) (i, c) = transit cfg P (i, c)"
proof -
  let ?b = "rq_intent rq" and ?Q = "set_part rq new P"
  have k: "(rq_kind rq = LocalTransfer) = (rq_role rq = Local)" "(rq_role rq = Local) = is_local cfg ?b"
      "rq_kind rq = Confirm \<longrightarrow> cmd_decision c = Some COMMIT \<and>
         (rq_role rq = Destination \<longrightarrow> status_of cfg P ?b Source = Some CONFIRMED)"
      "rq_kind rq = Cancel \<longrightarrow> cmd_decision c = Some CANCEL"
    using rq cs c by (auto simp: request_ok_def)
  show ?thesis
  proof (cases "is_local cfg ?b")
    case True
    then have "status_of cfg ?Q ?b Local = Some new" using status_of_set_part_same(1)[OF rq, of new] k by simp
    moreover have "new \<in> {CONFIRMED, REJECTED}" "d = 0" "status_of cfg P ?b Local = None"
      using step k True by (auto simp: part_step_def)
    moreover from this have "cmd_status c = PENDING"
      using command_local[OF c(1)] True c(2) by (cases "cmd_status c") simp_all
    ultimately show ?thesis using c True by (auto simp: command_ok_def transit_status)
  next
    case False
    note q = status_of_set_part[OF rq False]
    have old: "cross_ok (cmd_decision c) (status_of cfg P ?b Source) (status_of cfg P ?b Destination)"
        "cross_done (cmd_status c) (cmd_decision c) (status_of cfg P ?b Source) (status_of cfg P ?b Destination)"
      using command_cross[OF c(1)] False c(2) by simp_all
    have "cross_ok (cmd_decision c) (status_of cfg ?Q ?b Source) (status_of cfg ?Q ?b Destination) \<and>
        cross_done (cmd_status c) (cmd_decision c) (status_of cfg ?Q ?b Source) (status_of cfg ?Q ?b Destination) \<and>
        d + moving (amount ?b) (status_of cfg ?Q ?b Source) (status_of cfg ?Q ?b Destination)
        = moving (amount ?b) (status_of cfg P ?b Source) (status_of cfg P ?b Destination)"
    proof (cases "rq_role rq")
      case Source
      then show ?thesis using cross_source_step[OF old, of "rq_kind rq" "amount ?b" new d] step k q by simp
    next
      case Destination
      then show ?thesis using cross_destination_step[OF old, of "rq_kind rq" "amount ?b" new d] step k q by simp
    next
      case Local
      then show ?thesis using k False by simp
    qed
    then show ?thesis using c False by (simp add: command_ok_def transit_status)
  qed
qed

lemma ledger_deliver:
  assumes l: "ledger_ok cfg P cs t" and rq: "request_ok cfg P cs rq"
    and step: "part_step (rq_kind rq) (rq_role rq) (amount (rq_intent rq))
      (map_option part_status (P (rq_shard rq) (transaction_id (rq_intent rq)))) new d"
    and same: "\<forall>p\<in>set_option (P (rq_shard rq) (transaction_id (rq_intent rq))).
      part_intent p = rq_intent rq \<and> part_role p = rq_role rq"
  shows "ledger_ok cfg (set_part rq new P) cs (t + d)" "grows P (set_part rq new P)"
proof -
  let ?i = "transaction_id (rq_intent rq)" and ?Q = "set_part rq new P"
  obtain c where c: "dict_get cs ?i = Some c" "cmd_intent c = rq_intent rq" using rq by (auto simp: request_ok_def)
  note own = command_deliver[OF ledger_command(1)[OF l c(1)] c(2) refl c(1) rq, of new d,
      OF step[unfolded status_of_set_part_same(2)[OF rq]]]
  have other: "status_of cfg ?Q (cmd_intent c') r = status_of cfg P (cmd_intent c') r"
    if "dict_get cs j = Some c'" "j \<noteq> ?i" for j c' r
    using that ledger_command(2)[OF l that(1)] by (simp add: status_of_set_part_other)
  have cmds: "command_ok cfg ?Q c'" if "dict_get cs j = Some c'" for j c'
  proof (cases "j = ?i")
    case True
    then show ?thesis using own c that by simp
  next
    case False
    then show ?thesis using command_ok_cong(1)[of cfg ?Q c' P] other[OF that] ledger_command(1)[OF l that] by simp
  qed
  have ok: "dict_ok cs" using l by (simp add: ledger_ok_def)
  have "\<forall>(j, c')\<in>set cs. j \<noteq> ?i \<longrightarrow> transit cfg ?Q (j, c') = transit cfg P (j, c')"
  proof (clarify)
    fix j c' assume "(j, c') \<in> set cs" "j \<noteq> ?i"
    then have "dict_get cs j = Some c'" "j \<noteq> ?i" using dict_get_mem[OF ok] by simp_all
    then show "transit cfg ?Q (j, c') = transit cfg P (j, c')"
      using command_ok_cong(2)[of cfg ?Q c' P j] other ledger_command(2)[OF l] by simp
  qed
  from sum_list_map_change[OF ok c(1) this]
  have "t + d + sum_list (map (transit cfg ?Q) cs) = t + sum_list (map (transit cfg P) cs)" using own by simp
  moreover have "owned_part cfg cs index j p" if "index < cfg_shards cfg" "?Q index j = Some p" for index j p
  proof (cases "index = rq_shard rq \<and> j = ?i")
    case True
    then show ?thesis using that(2) rq c by (auto simp: set_part_def owned_part_def request_ok_def)
  next
    case False
    then have "P index j = Some p" using that(2) by (auto simp: set_part_def split: if_splits)
    then show ?thesis using l that(1) by (simp add: ledger_ok_def)
  qed
  ultimately show "ledger_ok cfg ?Q cs (t + d)"
    using l cmds ledger_command(2)[OF l] unfolding ledger_ok_def by simp
  show "grows P ?Q" unfolding grows_def
  proof (intro allI impI)
    fix index j p assume p: "P index j = Some p"
    show "\<exists>q. ?Q index j = Some q \<and> part_intent q = part_intent p \<and> part_role q = part_role p \<and>
        status_le (part_status p) (part_status q)"
    proof (cases "index = rq_shard rq \<and> j = ?i")
      case True
      then have "part_intent p = rq_intent rq" "part_role p = rq_role rq"
        "part_step (rq_kind rq) (rq_role rq) (amount (rq_intent rq)) (Some (part_status p)) new d"
        using p same step by auto
      then show ?thesis using True part_step_le by (simp add: set_part_def)
    qed (use p in \<open>auto simp: set_part_def\<close>)
  qed
qed

lemma request_stays: "grows P Q \<Longrightarrow> request_ok cfg P cs rq \<Longrightarrow> request_ok cfg Q cs rq"
  unfolding request_ok_def using grows_terminal by blast

lemma role_index_less: "0 < cfg_shards cfg \<Longrightarrow> role_index cfg b r < cfg_shards cfg"
  by (simp add: role_index_def indices_def shard_for_def)

definition only_shards :: "Wallet \<Rightarrow> Wallet \<Rightarrow> bool" where
  "only_shards w w' \<longleftrightarrow>
     w_journal w' = w_journal w \<and> w_sent w' = w_sent w \<and> w_retries w' = w_retries w \<and> w_cursor w' = w_cursor w"

lemma only_shards_simps:
  assumes "only_shards w w'"
  shows "w_journal w' = w_journal w" "w_sent w' = w_sent w" "w_retries w' = w_retries w" "w_cursor w' = w_cursor w"
    "wallet_state w' = wallet_state w" "waiting w' = waiting w"
  using assms by (simp_all add: only_shards_def wallet_state_def waiting_def)

lemma only_shards_trans: "only_shards w w' \<Longrightarrow> only_shards w' w'' \<Longrightarrow> only_shards w w''"
  by (simp add: only_shards_def)

text \<open>What the arrival of a request may change in the wallet: one shard, by one legal event.\<close>

lemma deliver_cases:
  assumes ok: "shards_ok cfg w" and idx: "rq_shard rq < cfg_shards cfg" and dl: "deliver cfg rq w = (w', res)"
  obtains (same) "w' = w"
    | (event) new d where
      "part_step (rq_kind rq) (rq_role rq) (amount (rq_intent rq))
         (map_option part_status (parts_of w (rq_shard rq) (transaction_id (rq_intent rq)))) new d"
      "\<forall>p\<in>set_option (parts_of w (rq_shard rq) (transaction_id (rq_intent rq))).
         part_intent p = rq_intent rq \<and> part_role p = rq_role rq"
      "parts_of w' = set_part rq new (parts_of w)" "wallet_supply w' = wallet_supply w + d"
      "shards_ok cfg w'" "only_shards w w'"
proof -
  let ?k = "rq_shard rq"
  obtain s where act: "shard_action (shard_digest cfg) (account_hash cfg) (rq_intent rq) (rq_kind rq) (rq_role rq)
        (rq_epoch rq) (rq_leader rq) (w_shards w ! ?k) = (s, res)"
    and w': "w' = w\<lparr>w_shards := (w_shards w)[?k := s]\<rparr>"
    using dl by (auto simp: deliver_def split: prod.splits)
  have sk: "shard_ok (shard_digest cfg) (account_hash cfg) (openings cfg) (w_shards w ! ?k)" "?k < length (w_shards w)"
    using ok idx by (auto simp: shards_ok_def)
  show thesis
  proof (rule shard_action_cases[OF act sk(1)])
    assume "s = w_shards w ! ?k"
    then show thesis using same by (simp add: w')
  next
    fix new d
    assume e: "part_step (rq_kind rq) (rq_role rq) (amount (rq_intent rq))
        (map_option part_status (dict_get (parts (sh_state (w_shards w ! ?k))) (transaction_id (rq_intent rq)))) new d"
      "parts (sh_state s) = dict_set (transaction_id (rq_intent rq))
        \<lparr>part_intent = rq_intent rq, part_role = rq_role rq, part_status = new\<rparr> (parts (sh_state (w_shards w ! ?k)))"
      "\<forall>p\<in>set_option (dict_get (parts (sh_state (w_shards w ! ?k))) (transaction_id (rq_intent rq))).
        part_intent p = rq_intent rq \<and> part_role p = rq_role rq"
      "total (sh_state s) = total (sh_state (w_shards w ! ?k)) + d"
      "shard_ok (shard_digest cfg) (account_hash cfg) (openings cfg) s"
      "sh_index s = sh_index (w_shards w ! ?k)" "sh_count s = sh_count (w_shards w ! ?k)"
    have "parts_of w' index i = set_part rq new (parts_of w) index i" for index i
      using sk(2) e(2) by (cases "index = ?k") (simp_all add: w' parts_of_def set_part_def dict_simps)
    then have P: "parts_of w' = set_part rq new (parts_of w)" by blast
    have S: "wallet_supply w' = wallet_supply w + d"
      using sum_list_list_update[OF sk(2), of "total \<circ> sh_state" s] e(4) by (simp add: w' wallet_supply_def)
    have "shards_ok cfg w'" using ok idx e(5-7) by (auto simp: shards_ok_def w' nth_list_update)
    then show thesis using event[OF _ _ P S] e(1,3) by (simp add: parts_of_def w' only_shards_def)
  qed
qed

lemma deliver_inv:
  assumes inv: "wallet_inv cfg w cs" and rq: "request_ok cfg (parts_of w) cs rq" and dl: "deliver cfg rq w = (w', res)"
  shows "wallet_inv cfg w' cs" "grows (parts_of w) (parts_of w')" "only_shards w w'"
proof -
  have ok: "shards_ok cfg w" and l: "ledger_ok cfg (parts_of w) cs (wallet_supply w)"
    using inv by (simp_all add: wallet_inv_def)
  have idx: "rq_shard rq < cfg_shards cfg"
    using rq ok role_index_less by (auto simp: request_ok_def shards_ok_def)
  have "wallet_inv cfg w' cs \<and> grows (parts_of w) (parts_of w') \<and> only_shards w w'"
  proof (rule deliver_cases[OF ok idx dl])
    assume "w' = w"
    then show ?thesis using inv by (simp add: only_shards_def)
  next
    fix new d
    assume e: "part_step (rq_kind rq) (rq_role rq) (amount (rq_intent rq))
         (map_option part_status (parts_of w (rq_shard rq) (transaction_id (rq_intent rq)))) new d"
      "\<forall>p\<in>set_option (parts_of w (rq_shard rq) (transaction_id (rq_intent rq))).
         part_intent p = rq_intent rq \<and> part_role p = rq_role rq"
      "parts_of w' = set_part rq new (parts_of w)" "wallet_supply w' = wallet_supply w + d"
      "shards_ok cfg w'" "only_shards w w'"
    note os = e(6)
    have l': "ledger_ok cfg (parts_of w') cs (wallet_supply w')" and g: "grows (parts_of w) (parts_of w')"
      using ledger_deliver[OF l rq e(1,2)] by (simp_all add: e(3,4))
    have "list_all (request_ok cfg (parts_of w') cs) (w_sent w')"
      using inv request_stays[OF g] by (auto simp: wallet_inv_def list_all_iff only_shards_simps[OF os])
    moreover have "list_all (fact_ok cfg (parts_of w') cs) (waiting w')"
      using inv fact_stays[OF g l'] by (auto simp: wallet_inv_def list_all_iff only_shards_simps[OF os])
    ultimately show ?thesis
      using inv l' g os e(5) by (simp add: wallet_inv_def only_shards_simps[OF os])
  qed
  then show "wallet_inv cfg w' cs" "grows (parts_of w) (parts_of w')" "only_shards w w'" by blast+
qed

lemma deliver_late_inv:
  assumes "wallet_inv cfg w cs"
  shows "wallet_inv cfg (deliver_late cfg js w) cs \<and> grows (parts_of w) (parts_of (deliver_late cfg js w)) \<and>
    only_shards w (deliver_late cfg js w)"
  using assms
proof (induction js arbitrary: w)
  case Nil
  then show ?case by (simp add: deliver_late_def only_shards_def)
next
  case (Cons j js)
  define w1 where "w1 = (if j < length (w_sent w) then fst (deliver cfg (w_sent w ! j) w) else w)"
  have w1: "wallet_inv cfg w1 cs \<and> grows (parts_of w) (parts_of w1) \<and> only_shards w w1"
  proof (cases "j < length (w_sent w)")
    case True
    then have "request_ok cfg (parts_of w) cs (w_sent w ! j)"
      using Cons.prems by (simp add: wallet_inv_def list_all_length)
    then show ?thesis using deliver_inv[OF Cons.prems] True by (metis surjective_pairing w1_def)
  qed (use Cons.prems in \<open>simp add: w1_def only_shards_def\<close>)
  then have "wallet_inv cfg (deliver_late cfg js w1) cs \<and> grows (parts_of w1) (parts_of (deliver_late cfg js w1)) \<and>
      only_shards w1 (deliver_late cfg js w1)"
    using Cons.IH by blast
  moreover have "deliver_late cfg (j # js) w = deliver_late cfg js w1" by (simp add: deliver_late_def w1_def)
  ultimately show ?case using w1 parts_grow_trans only_shards_trans by metis
qed

section \<open>Committed facts\<close>

lemma sum_list_map_set:
  fixes f :: "'k \<times> 'v \<Rightarrow> int"
  shows "sum_list (map f (dict_set i c cs))
    = sum_list (map f cs) + f (i, c) - (case dict_get cs i of None \<Rightarrow> 0 | Some c' \<Rightarrow> f (i, c'))"
  by (induction cs) auto

lemma ledger_update:
  assumes l: "ledger_ok cfg P cs t" and c: "dict_get cs i = Some c" "cmd_intent c' = cmd_intent c"
    and ok: "command_ok cfg P c'"
  shows "ledger_ok cfg P (dict_set i c' cs) t"
proof -
  have "transit cfg P (i, c') = transit cfg P (i, c)" using c(2) by (simp add: transit_def split: prod.splits)
  then have "sum_list (map (transit cfg P) (dict_set i c' cs)) = sum_list (map (transit cfg P) cs)"
    using c(1) by (simp add: sum_list_map_set)
  moreover have "owned_part cfg (dict_set i c' cs) index j p = owned_part cfg cs index j p" for index j p
    using c by (auto simp: owned_part_def dict_simps)
  moreover have "transaction_id (cmd_intent c') = i" using ledger_command(2)[OF l c(1)] c(2) by simp
  ultimately show ?thesis using l c ok unfolding ledger_ok_def by (auto simp: dict_simps length_dict_set)
qed

lemma request_update:
  assumes "request_ok cfg P cs rq" "dict_get cs i = Some c" "cmd_intent c' = cmd_intent c"
    "cmd_decision c = None \<or> cmd_decision c' = cmd_decision c"
  shows "request_ok cfg P (dict_set i c' cs) rq"
  using assms by (auto simp: request_ok_def dict_simps)

lemma ledger_accept:
  assumes l: "ledger_ok cfg P cs t" and n: "0 < cfg_shards cfg" and f: "fact_ok cfg P cs (Accepted i b)"
  shows "ledger_ok cfg P (dict_set i \<lparr>cmd_intent = b, cmd_decision = None, cmd_status = PENDING\<rparr> cs) t"
proof -
  let ?c = "\<lparr>cmd_intent = b, cmd_decision = None, cmd_status = PENDING\<rparr>"
  have fresh: "dict_get cs i = None" and i: "transaction_id b = i" using f by simp_all
  have none: "status_of cfg P b r = None" for r
  proof (cases "P (role_index cfg b r) i")
    case (Some p)
    then have "owned_part cfg cs (role_index cfg b r) i p" using l role_index_less[OF n] by (simp add: ledger_ok_def)
    then show ?thesis using fresh by (simp add: owned_part_def)
  qed (simp add: status_of_def i)
  have "command_ok cfg P ?c" using f none by (simp add: command_ok_def)
  moreover have "sum_list (map (transit cfg P) (dict_set i ?c cs)) = sum_list (map (transit cfg P) cs)"
    using fresh none i by (simp add: sum_list_map_set transit_status moving_def)
  moreover have "owned_part cfg (dict_set i ?c cs) index j p" if "owned_part cfg cs index j p" for index j p
    using that fresh by (auto simp: owned_part_def dict_simps)
  ultimately show ?thesis using l f unfolding ledger_ok_def by (auto simp: dict_simps length_dict_set)
qed

lemma fact_commits:
  assumes l: "ledger_ok cfg P cs t" and n: "0 < cfg_shards cfg" and f: "fact_ok cfg P cs f"
  obtains cs' where "is_identifier (fact_id f)" "project_fact f cs = Inr cs'" "ledger_ok cfg P cs' t"
    "\<And>rq. request_ok cfg P cs rq \<Longrightarrow> request_ok cfg P cs' rq"
proof -
  have id: "is_identifier i" if "dict_get cs i = Some c" for i c
    using ledger_command[OF l that] by (auto simp: command_ok_def result_simps)
  show thesis
  proof (cases f)
    case (Accepted i b)
    let ?c = "\<lparr>cmd_intent = b, cmd_decision = None, cmd_status = PENDING\<rparr>"
    have "request_ok cfg P (dict_set i ?c cs) rq" if "request_ok cfg P cs rq" for rq
      using that f Accepted by (auto simp: request_ok_def dict_simps)
    then show thesis using that[of "dict_set i ?c cs"] f ledger_accept[OF l n f[unfolded Accepted]] Accepted
      by (auto simp: project_accepted_def result_simps)
  next
    case (Decision i d)
    obtain c where c: "pending_cross cfg cs i None c" "d = COMMIT \<longrightarrow> both cfg P PREPARED (cmd_intent c)"
      using f Decision by (cases d) auto
    let ?c = "c\<lparr>cmd_decision := Some d\<rparr>"
    have get: "dict_get cs i = Some c" using c by (simp add: pending_cross_def)
    have "command_ok cfg P ?c"
      using c ledger_command(1)[OF l get] by (cases d) (auto simp: pending_cross_def command_ok_def both_def)
    then have "ledger_ok cfg P (dict_set i ?c cs) t" using ledger_update[OF l get, of ?c] by simp
    moreover have "request_ok cfg P (dict_set i ?c cs) rq" if "request_ok cfg P cs rq" for rq
      using request_update[OF that get, of ?c] c by (simp add: pending_cross_def)
    ultimately show thesis using that[of "dict_set i ?c cs"] c get id[OF get] Decision
      by (simp add: project_decision_def pending_cross_def)
  next
    case (Completed i s)
    obtain c where get: "dict_get cs i = Some c" and c: "cmd_status c = PENDING" "s \<noteq> PENDING"
      "command_ok cfg P (c\<lparr>cmd_status := s\<rparr>)"
      "cmd_decision c = Some COMMIT \<longrightarrow> s = SUCCEEDED" "cmd_decision c = Some CANCEL \<longrightarrow> s = T_CANCELED"
      "cmd_decision c = None \<longrightarrow> s \<noteq> T_CANCELED"
      using f Completed ledger_command(1)[OF l]
      by (cases s) (fastforce simp: pending_cross_def command_ok_def both_def completes_local_def)+
    let ?c = "c\<lparr>cmd_status := s\<rparr>"
    have "ledger_ok cfg P (dict_set i ?c cs) t" using ledger_update[OF l get, of ?c] c by simp
    moreover have "request_ok cfg P (dict_set i ?c cs) rq" if "request_ok cfg P cs rq" for rq
      using request_update[OF that get, of ?c] by simp
    ultimately show thesis using that[of "dict_set i ?c cs"] c get id[OF get] Completed
      by (auto simp: project_completed_def)
  qed
qed

text \<open>Commands are never forgotten; a decision and a terminal status are final.\<close>

definition commands_le :: "commands \<Rightarrow> commands \<Rightarrow> bool" where
  "commands_le cs cs' \<longleftrightarrow>
     (\<forall>i c. dict_get cs i = Some c \<longrightarrow>
        (\<exists>c'. dict_get cs' i = Some c' \<and> cmd_intent c' = cmd_intent c \<and>
           (cmd_status c \<noteq> PENDING \<longrightarrow> c' = c) \<and> (cmd_decision c \<noteq> None \<longrightarrow> cmd_decision c' = cmd_decision c)))"

lemma commands_le_refl [simp]: "commands_le cs cs"
  by (simp add: commands_le_def)

lemma commands_le_trans:
  assumes "commands_le cs ds" "commands_le ds es"
  shows "commands_le cs es"
  unfolding commands_le_def
proof (intro allI impI)
  fix i c assume "dict_get cs i = Some c"
  then obtain d where d: "dict_get ds i = Some d" "cmd_intent d = cmd_intent c" "cmd_status c \<noteq> PENDING \<longrightarrow> d = c"
      "cmd_decision c \<noteq> None \<longrightarrow> cmd_decision d = cmd_decision c"
    using assms(1) unfolding commands_le_def by blast
  obtain e where "dict_get es i = Some e" "cmd_intent e = cmd_intent d" "cmd_status d \<noteq> PENDING \<longrightarrow> e = d"
      "cmd_decision d \<noteq> None \<longrightarrow> cmd_decision e = cmd_decision d"
    using assms(2) d(1) unfolding commands_le_def by blast
  then show "\<exists>e. dict_get es i = Some e \<and> cmd_intent e = cmd_intent c \<and>
      (cmd_status c \<noteq> PENDING \<longrightarrow> e = c) \<and> (cmd_decision c \<noteq> None \<longrightarrow> cmd_decision e = cmd_decision c)"
    using d by auto
qed

lemma commands_le_set:
  assumes "\<forall>c\<in>set_option (dict_get cs i). cmd_intent c' = cmd_intent c \<and> cmd_status c = PENDING \<and>
      (cmd_decision c \<noteq> None \<longrightarrow> cmd_decision c' = cmd_decision c)"
  shows "commands_le cs (dict_set i c' cs)"
  using assms by (auto simp: commands_le_def dict_simps)

lemma project_fact_le: "project_fact f cs = Inr cs' \<Longrightarrow> commands_le cs cs'"
  by (cases f)
     (auto simp: project_accepted_def project_decision_def project_completed_def and_then_Inr_iff
       split: option.splits if_splits intro!: commands_le_set)

section \<open>The journal inside the wallet\<close>

lemma project_append:
  "project (xs @ ys) cs = and_then (project xs cs) (project ys)"
proof (induction xs arbitrary: cs)
  case (Cons x xs)
  then show ?case
    by (cases "project_fact (row_event x) cs") simp_all
qed simp

lemma project_events: "map row_event xs = map row_event ys \<Longrightarrow> project xs cs = project ys cs"
proof (induction xs arbitrary: ys cs)
  case (Cons x xs)
  then obtain y zs where ys: "ys = y # zs" "row_event x = row_event y" "map row_event xs = map row_event zs"
    by (cases ys) auto
  then have "project xs = project zs" using Cons.IH by blast
  then show ?case using ys by simp
qed simp

text \<open>The events of the journal, and the state they project to.\<close>

abbreviation facts :: "Wallet \<Rightarrow> fact list" where
  "facts w \<equiv> map row_event (j_rows (w_journal w))"

lemma waiting_facts: "waiting w = drop (j_committed (w_journal w)) (facts w)"
  by (simp add: waiting_def drop_map)

lemma wallet_state_facts:
  "take (j_committed (w_journal w')) (facts w') = take (j_committed (w_journal w)) (facts w) \<Longrightarrow>
   wallet_state w' = wallet_state w"
  unfolding wallet_state_def journal_records_def by (rule project_events) (simp add: take_map)

lemma wallet_state_commit:
  assumes "take (j_committed (w_journal w')) (facts w') = take (j_committed (w_journal w)) (facts w) @ [f]"
    and "wallet_state w = Inr cs" "is_identifier (fact_id f)"
  shows "wallet_state w' = project_fact f cs"
proof -
  define r where "r = \<lparr>row_seq = 0, row_previous = no_hash, row_event = f, row_hash = no_hash\<rparr>"
  have "project (journal_records (w_journal w')) [] = project (journal_records (w_journal w) @ [r]) []"
    using assms(1) by (intro project_events) (simp add: journal_records_def take_map r_def)
  then show ?thesis
    using assms(2,3) unfolding wallet_state_def project_append
    by (cases "project_fact f cs") (simp_all add: r_def)
qed

text \<open>
  The cache of the coordinator: if it holds the projection of the first \<open>n\<close> committed rows, reading
  the state gives the projection of all of them, and leaves such a cache behind.
\<close>

lemma records_seq:
  assumes "journal_ok digest j" "i < length (journal_records j)"
  shows "row_seq (journal_records j ! i) = Suc i"
proof -
  obtain h where "verify digest (j_rows j) = Inr h" using assms(1) by (auto simp: journal_ok_def)
  moreover have "i < length (j_rows j)" "journal_records j ! i = j_rows j ! i"
    using assms(2) by (simp_all add: journal_records_def)
  ultimately show ?thesis using verify_from_tail[of digest 1 no_hash "j_rows j" h] by (simp add: verify_def)
qed

lemma records_after_drop:
  assumes "journal_ok digest j"
  shows "records_after n j = drop n (journal_records j)"
proof -
  let ?rs = "journal_records j"
  have "filter (\<lambda>r. n < row_seq r) (take n ?rs) = []" "filter (\<lambda>r. n < row_seq r) (drop n ?rs) = drop n ?rs"
    using records_seq[OF assms] by (auto simp: filter_empty_conv filter_id_conv in_set_conv_nth)
  then have "filter (\<lambda>r. n < row_seq r) (take n ?rs @ drop n ?rs) = drop n ?rs" by (simp only: filter_append append_Nil)
  then show ?thesis by (simp add: records_after_def)
qed

lemma cached_state_exact:
  assumes "journal_ok digest (w_journal w)" and "wallet_state w = Inr cs"
    and "project (take (cached_seq c) (journal_records (w_journal w))) [] = Inr (cached c)"
    and "cached_seq c \<le> length (journal_records (w_journal w))"
  shows "cached_state w c = (\<lparr>cached = cs, cached_seq = length (journal_records (w_journal w))\<rparr>, Inr cs)"
proof -
  let ?rs = "journal_records (w_journal w)" and ?n = "cached_seq c"
  have "project (take ?n ?rs @ drop ?n ?rs) [] = Inr cs" using assms(2) by (simp add: wallet_state_def)
  then have cs: "project (drop ?n ?rs) (cached c) = Inr cs" unfolding project_append assms(3) by simp
  have tail: "row_seq (List.last (drop ?n ?rs)) = length ?rs" if ne: "drop ?n ?rs \<noteq> []"
  proof -
    have "?n < length ?rs" using ne by simp
    then have "List.last (drop ?n ?rs) = ?rs ! (length ?rs - 1)" "length ?rs - 1 < length ?rs"
      by (auto simp: last_conv_nth intro!: arg_cong[of _ _ "\<lambda>i. ?rs ! i"])
    then show ?thesis using records_seq[OF assms(1), of "length ?rs - 1"] \<open>?n < length ?rs\<close> by simp
  qed
  show ?thesis
  proof (cases "drop ?n ?rs")
    case Nil
    then show ?thesis using cs assms(4) by (cases c) (simp add: cached_state_def records_after_drop[OF assms(1)])
  next
    case (Cons r rs)
    then show ?thesis using cs tail by (simp add: cached_state_def records_after_drop[OF assms(1)])
  qed
qed

definition only_journal :: "Wallet \<Rightarrow> Wallet \<Rightarrow> bool" where
  "only_journal w w' \<longleftrightarrow>
     w_shards w' = w_shards w \<and> w_sent w' = w_sent w \<and> w_retries w' = w_retries w \<and> w_cursor w' = w_cursor w"

lemma only_journal_simps:
  assumes "only_journal w w'"
  shows "w_shards w' = w_shards w" "w_sent w' = w_sent w" "w_retries w' = w_retries w" "w_cursor w' = w_cursor w"
    "parts_of w' = parts_of w" "wallet_supply w' = wallet_supply w" "shards_ok cfg w' = shards_ok cfg w"
  using assms by (simp_all add: only_journal_def parts_of_def fun_eq_iff wallet_supply_def shards_ok_def)

text \<open>Another journal with the same committed facts, or with one more.\<close>

lemma inv_same_facts:
  assumes inv: "wallet_inv cfg w cs" and os: "only_journal w w'" and j: "journal_ok (fact_digest cfg) (w_journal w')"
    and st: "take (j_committed (w_journal w')) (facts w') = take (j_committed (w_journal w)) (facts w)"
    and fs: "list_all (fact_ok cfg (parts_of w) cs) (waiting w')"
  shows "wallet_inv cfg w' cs"
  using inv j fs wallet_state_facts[OF st] unfolding wallet_inv_def only_journal_simps[OF os] by simp

lemma inv_commit:
  assumes inv: "wallet_inv cfg w cs" and os: "only_journal w w'" and j: "journal_ok (fact_digest cfg) (w_journal w')"
    and st: "take (j_committed (w_journal w')) (facts w') = take (j_committed (w_journal w)) (facts w) @ [f]"
    and f: "fact_ok cfg (parts_of w) cs f" and none: "waiting w' = []"
  obtains cs' where "wallet_inv cfg w' cs'" "project_fact f cs = Inr cs'"
proof -
  have l: "ledger_ok cfg (parts_of w) cs (wallet_supply w)" and n: "0 < cfg_shards cfg"
    using inv by (simp_all add: wallet_inv_def shards_ok_def)
  obtain cs' where cs': "is_identifier (fact_id f)" "project_fact f cs = Inr cs'"
      "ledger_ok cfg (parts_of w) cs' (wallet_supply w)"
      "\<forall>rq. request_ok cfg (parts_of w) cs rq \<longrightarrow> request_ok cfg (parts_of w) cs' rq"
    by (rule fact_commits[OF l n f]) blast
  have "wallet_state w' = Inr cs'"
    using wallet_state_commit[OF st _ cs'(1)] inv cs'(2) by (simp add: wallet_inv_def)
  then have "wallet_inv cfg w' cs'"
    using inv j none cs'(3,4) unfolding wallet_inv_def only_journal_simps[OF os] by (simp add: list_all_iff)
  then show thesis using cs'(2) by (rule that)
qed

lemma wallet_sync_inv:
  assumes inv: "wallet_inv cfg w cs" and sync: "wallet_sync cfg net w = (w', res)"
  obtains (synced) x cs' where "res = Inr x" "wallet_inv cfg w' cs'" "waiting w' = []" "only_journal w w'"
      "waiting w = [] \<longrightarrow> cs' = cs" "commands_le cs cs'"
    | (failed) m where "res = Inl (HttpError 503 m)" "wallet_inv cfg w' cs" "only_journal w w'"
proof -
  let ?j = "w_journal w"
  have jok: "journal_ok (fact_digest cfg) ?j" using inv by (simp add: wallet_inv_def)
  obtain j where s: "journal_sync (fact_digest cfg) (cfg_epoch cfg) (cfg_leader cfg) net ?j = (j, res)"
    and w': "w' = w\<lparr>w_journal := j\<rparr>"
    using sync by (auto simp: wallet_sync_def split: prod.splits)
  have os: "only_journal w w'" by (simp add: w' only_journal_def)
  have k: "journal_ok (fact_digest cfg) (w_journal w')" "facts w' = facts w"
    using wj.sync_keeps[OF jok s] by (simp_all add: w')
  show thesis
  proof (cases res)
    case (Inl y)
    then obtain m where c: "j_committed (w_journal w') = j_committed ?j" "y = HttpError 503 m"
      using wj.sync_fails[OF jok s[unfolded Inl]] by (auto simp: w')
    then have "wallet_inv cfg w' cs"
      using inv_same_facts[OF inv os k(1)] inv k(2) by (simp add: waiting_facts wallet_inv_def)
    then show thesis using failed Inl c os by blast
  next
    case (Inr x)
    then have c: "j_committed (w_journal w') = length (facts w)"
      using wj.sync_commits[OF jok s[unfolded Inr]] by (simp add: w')
    then have none: "waiting w' = []" by (simp add: waiting_facts k(2))
    show thesis
    proof (rule wj.pending_cases[OF jok])
      assume "drop (j_committed ?j) (facts w) = []" "j_committed ?j = length (facts w)"
      then have "wallet_inv cfg w' cs" using inv_same_facts[OF inv os k(1)] c k(2) none by simp
      then show thesis by (rule synced[OF Inr _ none os]) simp_all
    next
      fix f assume f: "drop (j_committed ?j) (facts w) = [f]" "facts w = take (j_committed ?j) (facts w) @ [f]"
      then have "fact_ok cfg (parts_of w) cs f" using inv by (simp add: wallet_inv_def waiting_facts)
      moreover have "take (j_committed (w_journal w')) (facts w') = take (j_committed ?j) (facts w) @ [f]"
        using c k(2) f(2) by simp
      ultimately obtain cs' where cs': "wallet_inv cfg w' cs'" "project_fact f cs = Inr cs'"
        using inv_commit[OF inv os k(1) _ _ none] by metis
      show thesis by (rule synced[OF Inr cs'(1) none os _ project_fact_le[OF cs'(2)]]) (use f(1) in \<open>simp add: waiting_facts\<close>)
    qed
  qed
qed

lemma append_fact_inv:
  assumes inv: "wallet_inv cfg w cs" and none: "waiting w = []" and f: "fact_ok cfg (parts_of w) cs f"
    and app: "append_fact cfg n m f w = (w', res)"
  obtains (committed) cs' where "res = Inr ()" "wallet_inv cfg w' cs'" "waiting w' = []" "only_journal w w'"
      "project_fact f cs = Inr cs'"
    | (failed) msg where "res = Inl (HttpError 503 msg)" "wallet_inv cfg w' cs" "only_journal w w'"
proof -
  let ?j = "w_journal w"
  have jok: "journal_ok (fact_digest cfg) ?j" using inv by (simp add: wallet_inv_def)
  have all: "j_committed ?j = length (facts w)"
    using none wj.bounds[OF jok] by (simp add: waiting_facts)
  obtain j res' where a: "journal_append (fact_digest cfg) (cfg_epoch cfg) (cfg_leader cfg) n m f ?j = (j, res')"
    and w': "w' = w\<lparr>w_journal := j\<rparr>" and res: "res = and_then res' (\<lambda>_. Inr ())"
    using app by (auto simp: append_fact_def split: prod.splits)
  have os: "only_journal w w'" by (simp add: w' only_journal_def)
  show thesis
  proof (rule wj.append_outcome[OF jok a])
    fix x assume j: "journal_ok (fact_digest cfg) j" "res' = Inr x" "map row_event (j_rows j) = facts w @ [f]"
      "j_committed j = length (map row_event (j_rows j))"
    have "take (j_committed (w_journal w')) (facts w') = take (j_committed ?j) (facts w) @ [f]"
      "waiting w' = []" using j(3,4) all by (simp_all add: w' waiting_facts)
    then show thesis using inv_commit[OF inv os _ _ f] j committed os by (auto simp: w' res)
  next
    fix msg assume j: "journal_ok (fact_digest cfg) j" "res' = Inl (HttpError 503 msg)"
      "map row_event (j_rows j) = facts w" "j_committed j = j_committed ?j"
    then have "wallet_inv cfg w' cs" using inv_same_facts[OF inv os] none by (simp add: w' waiting_facts)
    then show thesis using failed os j by (simp add: res)
  next
    fix msg assume j: "journal_ok (fact_digest cfg) j" "res' = Inl (HttpError 503 msg)"
      "map row_event (j_rows j) = facts w @ [f]" "j_committed j = length (facts w)"
    then have "wallet_inv cfg w' cs" using inv_same_facts[OF inv os] all f by (simp add: w' waiting_facts)
    then show thesis using failed os j by (simp add: res)
  qed
qed

end
