(* ===== verification/Wallet_Operations.thy ===== *)
theory Wallet_Operations
  imports Wallet_Invariant
begin

text \<open>
  Every operation of the coordinator keeps the invariant of the wallet, whatever the network does to
  its exchanges: the reads and actions of the protocol, the step that advances a transfer, creation,
  cancellation and retry.
\<close>

section \<open>Exchanges\<close>

lemma parts_of_bookkeeping [simp]:
  "parts_of (w\<lparr>w_retries := x\<rparr>) = parts_of w" "parts_of (w\<lparr>w_cursor := y\<rparr>) = parts_of w"
  "parts_of (w\<lparr>w_sent := z\<rparr>) = parts_of w"
  by (simp_all add: fun_eq_iff parts_of_def)

lemma inv_bookkeeping [simp]:
  "wallet_inv cfg (w\<lparr>w_retries := x\<rparr>) cs = wallet_inv cfg w cs"
  "wallet_inv cfg (w\<lparr>w_cursor := y\<rparr>) cs = wallet_inv cfg w cs"
  "waiting (w\<lparr>w_retries := x\<rparr>) = waiting w" "waiting (w\<lparr>w_cursor := y\<rparr>) = waiting w"
  "waiting (w\<lparr>w_sent := z\<rparr>) = waiting w"
  by (simp_all add: wallet_inv_def shards_ok_def wallet_state_def wallet_supply_def waiting_def)

lemma inv_send:
  "wallet_inv cfg w cs \<Longrightarrow> request_ok cfg (parts_of w) cs rq \<Longrightarrow> wallet_inv cfg (w\<lparr>w_sent := w_sent w @ [rq]\<rparr>) cs"
  by (simp add: wallet_inv_def shards_ok_def wallet_state_def wallet_supply_def waiting_def)

lemma transient_http [simp]: "transient (http_error x)"
  by (cases x) (simp_all add: transient_def)

lemma transient_simps [simp]: "transient (HttpError n m)" "transient OSError"
  "\<not> definitive (HttpError 503 m)" "\<not> definitive (HttpError 502 m)" "\<not> definitive OSError"
  by (simp_all add: transient_def definitive_def)

text \<open>An exchange whose handler keeps the invariant.\<close>

lemma shard_call_inv:
  assumes inv: "wallet_inv cfg w cs"
    and f: "\<And>w1. wallet_inv cfg w1 cs \<Longrightarrow> grows (parts_of w) (parts_of w1) \<Longrightarrow>
      wallet_inv cfg (fst (f w1)) cs \<and> grows (parts_of w1) (parts_of (fst (f w1))) \<and> only_shards w1 (fst (f w1))"
    and call: "shard_call cfg env k f w = (w', res)"
  shows "wallet_inv cfg w' cs" "grows (parts_of w) (parts_of w')" "only_shards w w'" "res = Inl x \<Longrightarrow> transient x"
    "res = Inr v \<Longrightarrow> \<exists>w1. wallet_inv cfg w1 cs \<and> grows (parts_of w) (parts_of w1) \<and> f w1 = (w', Inr v)"
proof -
  define w1 where "w1 = deliver_late cfg (late env k) w"
  have w1: "wallet_inv cfg w1 cs" "grows (parts_of w) (parts_of w1)" "only_shards w w1"
    using deliver_late_inv[OF inv] by (simp_all add: w1_def)
  note f1 = f[OF w1(1,2)]
  have w': "w' \<in> {w1, fst (f w1)}"
    using call by (auto simp: shard_call_def w1_def Let_def split: outcome.splits)
  then show "wallet_inv cfg w' cs" "grows (parts_of w) (parts_of w')" "only_shards w w'"
    using w1 f1 parts_grow_trans only_shards_trans by blast+
  show "res = Inl x \<Longrightarrow> transient x"
    using call by (cases "snd (f w1)") (auto simp: shard_call_def w1_def Let_def split: outcome.splits)
  assume "res = Inr v"
  then have "f w1 = (w', Inr v)"
    using call by (cases "f w1"; cases "snd (f w1)") (auto simp: shard_call_def w1_def Let_def split: outcome.splits)
  then show "\<exists>w1. wallet_inv cfg w1 cs \<and> grows (parts_of w) (parts_of w1) \<and> f w1 = (w', Inr v)" using w1 by blast
qed

lemma check_receipt_cases:
  "check_receipt p b r = Inr q \<Longrightarrow> q = p \<and> part_intent p = b \<and> part_role p = r \<and> check_intent b = Inr ()"
  "check_receipt p b r = Inl x \<Longrightarrow> \<exists>m. x = HttpError 502 m"
  by (auto simp: check_receipt_def split: if_splits)

lemma read_part_inv:
  assumes inv: "wallet_inv cfg w cs" and rd: "read_part cfg env k index b r w = (w', res)"
  shows "wallet_inv cfg w' cs" "grows (parts_of w) (parts_of w')" "only_shards w w'" "res = Inl x \<Longrightarrow> transient x"
    "res = Inr p \<Longrightarrow> p = parts_of w' index (transaction_id b)"
proof -
  let ?f = "\<lambda>w. (w, participant (transaction_id b) (w_shards w ! index))"
  obtain w1 res1 where call: "shard_call cfg env k ?f w = (w1, res1)" by (cases "shard_call cfg env k ?f w")
  note c = shard_call_inv[OF inv _ call, simplified, unfolded only_shards_def, simplified, folded only_shards_def]
  have w1: "w' = w1" using rd call by (cases res1) (auto simp: read_part_def)
  show "wallet_inv cfg w' cs" "grows (parts_of w) (parts_of w')" "only_shards w w'" using c w1 by blast+
  show "res = Inl x \<Longrightarrow> transient x"
    using rd call c check_receipt_cases(2) by (cases res1) (fastforce simp: read_part_def and_then_Inl_iff split: option.splits)+
  show "res = Inr p \<Longrightarrow> p = parts_of w' index (transaction_id b)"
    using rd call c check_receipt_cases(1)
    by (cases res1) (fastforce simp: read_part_def and_then_Inr_iff participant_def parts_of_def split: option.splits)+
qed

lemma action_inv:
  assumes inv: "wallet_inv cfg w cs"
    and rq: "rq = \<lparr>rq_shard = index, rq_intent = b, rq_kind = k, rq_role = r, rq_epoch = cfg_epoch cfg, rq_leader = cfg_leader cfg\<rparr>"
    and ok: "request_ok cfg (parts_of w) cs rq" and act: "action cfg env n index b k r w = (w', res)"
  shows "wallet_inv cfg w' cs" "grows (parts_of w) (parts_of w')" "waiting w' = waiting w" "res = Inl x \<Longrightarrow> transient x"
    "res = Inr p \<Longrightarrow> parts_of w' index (transaction_id b) = Some p"
proof -
  let ?w0 = "w\<lparr>w_sent := w_sent w @ [rq]\<rparr>"
  have inv0: "wallet_inv cfg ?w0 cs" by (rule inv_send[OF inv ok])
  obtain w1 res1 where call: "shard_call cfg env n (deliver cfg rq) ?w0 = (w1, res1)"
    by (cases "shard_call cfg env n (deliver cfg rq) ?w0")
  have f: "wallet_inv cfg (fst (deliver cfg rq u)) cs \<and> grows (parts_of u) (parts_of (fst (deliver cfg rq u))) \<and>
      only_shards u (fst (deliver cfg rq u))" if "wallet_inv cfg u cs" "grows (parts_of ?w0) (parts_of u)" for u
    using deliver_inv[OF that(1) request_stays[OF that(2)[simplified] ok], of "fst (deliver cfg rq u)" "snd (deliver cfg rq u)"]
    by simp
  note c = shard_call_inv[OF inv0 f call]
  have w1: "w' = w1" "res = and_then res1 (\<lambda>p. check_receipt p b r)"
    using act call by (cases res1; auto simp: action_def rq[symmetric] Let_def)+
  show "wallet_inv cfg w' cs" "grows (parts_of w) (parts_of w')" using c w1(1) by simp_all
  show "waiting w' = waiting w" using only_shards_simps(6)[OF c(3)] w1(1) by simp
  show "transient x" if "res = Inl x"
    using that w1(2) c(4) by (auto simp: and_then_Inl_iff dest!: check_receipt_cases(2))
  show "parts_of w' index (transaction_id b) = Some p" if "res = Inr p"
  proof -
    have "res1 = Inr p" using that w1(2) check_receipt_cases(1) by (auto simp: and_then_Inr_iff)
    then obtain u where u: "wallet_inv cfg u cs" "deliver cfg rq u = (w', Inr p)" using c(5) w1(1) by blast
    have idx: "index < cfg_shards cfg"
      using ok inv role_index_less by (auto simp: request_ok_def wallet_inv_def shards_ok_def rq)
    then have s: "shard_ok (shard_digest cfg) (account_hash cfg) (openings cfg) (w_shards u ! index)" "index < length (w_shards u)"
      using u(1) by (auto simp: wallet_inv_def shards_ok_def)
    obtain s' where "shard_action (shard_digest cfg) (account_hash cfg) b k r (cfg_epoch cfg) (cfg_leader cfg)
        (w_shards u ! index) = (s', Inr p)" "w' = u\<lparr>w_shards := (w_shards u)[index := s']\<rparr>"
      using u(2) by (auto simp: deliver_def rq split: prod.splits)
    then show ?thesis using shard_action_receipt[OF _ s(1)] s(2) by (auto simp: parts_of_def)
  qed
qed

section \<open>Advancing a transfer\<close>

text \<open>What an attempt may leave: a failure keeps the state it started from.\<close>

definition kept :: "wallet_config \<Rightarrow> commands \<Rightarrow> Wallet \<times> 'a result \<Rightarrow> bool" where
  "kept cfg cs out \<longleftrightarrow>
     (case out of
        (w, Inr _) \<Rightarrow> \<exists>cs'. wallet_inv cfg w cs'
      | (w, Inl x) \<Rightarrow> transient x \<and> wallet_inv cfg w cs \<and> (definitive x \<longrightarrow> waiting w = []))"

lemma append_fact_kept:
  assumes "wallet_inv cfg w cs" "waiting w = []" "fact_ok cfg (parts_of w) cs f"
  shows "kept cfg cs (append_fact cfg n m f w)"
proof -
  obtain w' res where a: "append_fact cfg n m f w = (w', res)" by (cases "append_fact cfg n m f w")
  show ?thesis by (rule append_fact_inv[OF assms a]) (auto simp: kept_def a)
qed

definition move_ok :: "wallet_config \<Rightarrow> Wallet \<Rightarrow> commands \<Rightarrow> Intent \<Rightarrow> move \<Rightarrow> bool" where
  "move_ok cfg w cs b mv \<longleftrightarrow>
     (case mv of
        Act k r \<Rightarrow> request_ok cfg (parts_of w) cs \<lparr>rq_shard = role_index cfg b r, rq_intent = b, rq_kind = k,
          rq_role = r, rq_epoch = cfg_epoch cfg, rq_leader = cfg_leader cfg\<rparr>
      | Append f \<Rightarrow> fact_ok cfg (parts_of w) cs f
      | Fail x \<Rightarrow> transient x)"

lemma run_move_kept:
  assumes inv: "wallet_inv cfg w cs" and none: "waiting w = []" and mv: "move_ok cfg w cs b mv"
  shows "kept cfg cs (run_move cfg env b mv w)"
proof (cases mv)
  case (Act k r)
  obtain w' res where a: "action cfg env 2 (role_index cfg b r) b k r w = (w', res)"
    by (cases "action cfg env 2 (role_index cfg b r) b k r w")
  have "wallet_inv cfg w' cs" "waiting w' = waiting w" "\<And>x. res = Inl x \<Longrightarrow> transient x"
    using action_inv[OF inv refl _ a] mv Act by (simp_all add: move_ok_def)
  then show ?thesis using a none Act by (cases res) (auto simp: kept_def role_index_def)
next
  case (Append f)
  then show ?thesis using append_fact_kept[OF inv none] mv by (simp add: move_ok_def)
next
  case (Fail x)
  then show ?thesis using mv inv none by (simp add: kept_def move_ok_def)
qed

text \<open>The next move is allowed, although the first participant was read before the second.\<close>

lemma next_move_ok:
  assumes inv: "wallet_inv cfg w cs" and c: "pending_cross cfg cs i d c"
    and left: "left = P0 (role_index cfg (cmd_intent c) Source) i" "grows P0 (parts_of w)"
    and right: "right = parts_of w (role_index cfg (cmd_intent c) Destination) i"
  shows "move_ok cfg w cs (cmd_intent c) (next_move i d left right)"
proof -
  let ?b = "cmd_intent c" and ?P = "parts_of w"
  have l: "ledger_ok cfg ?P cs (wallet_supply w)" using inv by (simp add: wallet_inv_def)
  have get: "dict_get cs i = Some c" and x: "\<not> is_local cfg ?b" and d: "cmd_decision c = d" "cmd_status c = PENDING"
    using c by (auto simp: pending_cross_def)
  have id: "transaction_id ?b = i" by (rule ledger_command(2)[OF l get])
  have L: "map_option part_status left = status_of cfg P0 ?b Source"
    and R: "map_option part_status right = status_of cfg ?P ?b Destination"
    by (simp_all add: status_of_def id left(1) right)
  have ok: "cross_ok d (status_of cfg ?P ?b Source) (status_of cfg ?P ?b Destination)"
    using command_cross[OF ledger_command(1)[OF l get] x] d by simp
  have req: "move_ok cfg w cs ?b (Act k r)"
    if "k \<noteq> LocalTransfer" "r \<noteq> Local" "k = Cancel \<longrightarrow> d = Some CANCEL"
      "k = Confirm \<longrightarrow> d = Some COMMIT \<and> (r = Destination \<longrightarrow> status_of cfg ?P ?b Source = Some CONFIRMED)" for k r
    using that get id x d by (auto simp: move_ok_def request_ok_def)
  have stay: "s \<in> {CONFIRMED, CANCELED} \<Longrightarrow> has_status s left \<Longrightarrow> status_of cfg ?P ?b Source = Some s" for s
    using grows_terminal[OF left(2)] L by (simp add: has_status_def)
  have prep: "status_of cfg ?P ?b Source = Some PREPARED" if p: "has_status PREPARED left" "d = None"
  proof -
    obtain t where "status_of cfg ?P ?b Source = Some t" "status_le PREPARED t"
      using grows_status[OF left(2), of cfg ?b Source PREPARED] p L by (auto simp: has_status_def)
    then show ?thesis using ok p(2) by (auto simp: status_le_def)
  qed
  consider "d = None" | "d = Some COMMIT" | "d = Some CANCEL" by (metis not_None_eq decision.exhaust)
  then show ?thesis
  proof cases
    case 1
    then show ?thesis using c req prep R
      by (auto simp: next_move_def move_ok_def both_def has_status_def)
  next
    case 2
    then show ?thesis using c req stay R
      by (auto simp: next_move_def move_ok_def both_def has_status_def)
  next
    case 3
    then show ?thesis using c req stay R
      by (auto simp: next_move_def move_ok_def both_def has_status_def)
  qed
qed

lemma local_fact_ok:
  assumes inv: "wallet_inv cfg w cs" and c: "dict_get cs i = Some c" "cmd_status c = PENDING" "is_local cfg (cmd_intent c)"
    and p: "parts_of w (fst (indices cfg (cmd_intent c))) i = Some p"
  shows "fact_ok cfg (parts_of w) cs (Completed i (if part_status p = CONFIRMED then SUCCEEDED else T_REJECTED))"
proof -
  have l: "ledger_ok cfg (parts_of w) cs (wallet_supply w)" using inv by (simp add: wallet_inv_def)
  have st: "status_of cfg (parts_of w) (cmd_intent c) Local = Some (part_status p)"
    using p ledger_command(2)[OF l c(1)] by (simp add: status_of_def role_index_def)
  then have "part_status p \<in> {CONFIRMED, REJECTED}" using command_local[OF ledger_command(1)[OF l c(1)] c(3)] by simp
  then show ?thesis using c st by (auto simp: completes_local_def)
qed

lemma advance_local_kept:
  assumes inv: "wallet_inv cfg w cs" and none: "waiting w = []"
    and c: "dict_get cs i = Some c" "cmd_status c = PENDING" "is_local cfg (cmd_intent c)"
    and left: "left = parts_of w (fst (indices cfg (cmd_intent c))) i"
  shows "kept cfg cs (advance_local cfg env i (cmd_intent c) left w)"
proof (cases left)
  case (Some p)
  then show ?thesis using append_fact_kept[OF inv none local_fact_ok[OF inv c]] left
    by (simp add: advance_local_def)
next
  case None
  let ?b = "cmd_intent c" and ?k = "fst (indices cfg (cmd_intent c))"
  let ?rq = "\<lparr>rq_shard = ?k, rq_intent = ?b, rq_kind = LocalTransfer, rq_role = Local,
      rq_epoch = cfg_epoch cfg, rq_leader = cfg_leader cfg\<rparr>"
  have id: "transaction_id ?b = i" using inv ledger_command(2)[OF _ c(1)] by (auto simp: wallet_inv_def)
  have rq: "request_ok cfg (parts_of w) cs ?rq" using c id by (simp add: request_ok_def role_index_def)
  obtain w1 res where a: "action cfg env 2 ?k ?b LocalTransfer Local w = (w1, res)"
    by (cases "action cfg env 2 ?k ?b LocalTransfer Local w")
  note w1 = action_inv[OF inv refl rq a]
  show ?thesis
  proof (cases res)
    case (Inl x)
    then show ?thesis using w1(1,3,4) none None a by (simp add: advance_local_def kept_def)
  next
    case (Inr p)
    then have "parts_of w1 ?k i = Some p" using w1(5) id by simp
    then show ?thesis
      using append_fact_kept[OF w1(1) _ local_fact_ok[OF w1(1) c]] w1(3) none None a Inr by (simp add: advance_local_def)
  qed
qed

lemma advance_kept:
  assumes inv: "wallet_inv cfg w cs" and none: "waiting w = []" and c: "dict_get cs i = Some c" "cmd_status c = PENDING"
  shows "kept cfg cs (advance cfg env i c w)"
proof -
  let ?b = "cmd_intent c"
  obtain src dst where ix: "indices cfg ?b = (src, dst)" by (cases "indices cfg ?b")
  have id: "transaction_id ?b = i" using inv ledger_command(2)[OF _ c(1)] by (auto simp: wallet_inv_def)
  define r where "r = (if src = dst then Local else Source)"
  obtain w1 res where rd: "read_part cfg env 0 src ?b r w = (w1, res)" by (cases "read_part cfg env 0 src ?b r w")
  note w1 = read_part_inv[OF inv rd]
  have none1: "waiting w1 = []" using only_shards_simps(6)[OF w1(3)] none by simp
  show ?thesis
  proof (cases res)
    case (Inl x)
    then show ?thesis using w1(1,4) none1 rd by (simp add: advance_def ix r_def kept_def)
  next
    case (Inr left)
    have left: "left = parts_of w1 src i" using w1(5) Inr id by simp
    show ?thesis
    proof (cases "src = dst")
      case True
      then have "is_local cfg ?b" by (simp add: is_local_def ix)
      from advance_local_kept[OF w1(1) none1 c this, of left] show ?thesis
        using rd True left Inr by (simp add: advance_def ix r_def)
    next
      case False
      have x: "pending_cross cfg cs i (cmd_decision c) c" using c False by (simp add: pending_cross_def is_local_def ix)
      obtain w2 res2 where rd2: "read_part cfg env 1 dst ?b Destination w1 = (w2, res2)"
        by (cases "read_part cfg env 1 dst ?b Destination w1")
      note w2 = read_part_inv[OF w1(1) rd2]
      have none2: "waiting w2 = []" using only_shards_simps(6)[OF w2(3)] none1 by simp
      show ?thesis
      proof (cases res2)
        case (Inl y)
        then show ?thesis using w2(1,4) none2 rd rd2 False \<open>res = Inr left\<close> by (simp add: advance_def ix r_def kept_def)
      next
        case (Inr right)
        have "move_ok cfg w2 cs ?b (next_move i (cmd_decision c) left right)"
          by (rule next_move_ok[OF w2(1) x _ w2(2)]) (use left w2(5) Inr id ix in \<open>simp_all add: role_index_def\<close>)
        then show ?thesis using run_move_kept[OF w2(1) none2] rd rd2 False \<open>res = Inr left\<close> Inr
          by (simp add: advance_def ix r_def)
      qed
    qed
  qed
qed

section \<open>Operations\<close>

definition inv_kept :: "wallet_config \<Rightarrow> Wallet \<times> 'a result \<Rightarrow> bool" where
  "inv_kept cfg out \<longleftrightarrow> (\<exists>cs. wallet_inv cfg (fst out) cs)"

lemma kept_inv: "kept cfg cs out \<Longrightarrow> inv_kept cfg out"
  by (cases out; cases "snd out") (auto simp: kept_def inv_kept_def)

lemma inv_kept_then:
  "inv_kept cfg m \<Longrightarrow> (\<And>w x cs. m = (w, Inr x) \<Longrightarrow> wallet_inv cfg w cs \<Longrightarrow> inv_kept cfg (f w x)) \<Longrightarrow>
   inv_kept cfg (then_do m f)"
  by (cases m; cases "snd m") (auto simp: inv_kept_def)

lemma inv_kept_state:
  "wallet_inv cfg w cs \<Longrightarrow> inv_kept cfg (f cs) \<Longrightarrow> inv_kept cfg (with_state w f)"
  by (simp add: with_state_def wallet_inv_def)

lemma inv_kept_item: "wallet_inv cfg w cs \<Longrightarrow> inv_kept cfg (state_item i w)"
  unfolding state_item_def by (rule inv_kept_state) (auto simp: inv_kept_def)

lemma sync_then:
  assumes inv: "wallet_inv cfg w cs"
    and f: "\<And>w' cs' x. wallet_inv cfg w' cs' \<Longrightarrow> waiting w' = [] \<Longrightarrow> only_journal w w' \<Longrightarrow> inv_kept cfg (f w' x)"
  shows "inv_kept cfg (then_do (wallet_sync cfg net w) f)"
proof -
  obtain w' res where s: "wallet_sync cfg net w = (w', res)" by (cases "wallet_sync cfg net w")
  show ?thesis
  proof (rule wallet_sync_inv[OF inv s])
    fix x cs' assume "res = Inr x" "wallet_inv cfg w' cs'" "waiting w' = []" "only_journal w w'"
    then show ?thesis using f s by simp
  next
    fix m assume "res = Inl (HttpError 503 m)" "wallet_inv cfg w' cs"
    then show ?thesis using s by (auto simp: inv_kept_def)
  qed
qed

lemma attempt_inv:
  assumes inv: "wallet_inv cfg w cs" and none: "waiting w = []" and c: "dict_get cs i = Some c" "cmd_status c = PENDING"
  shows "inv_kept cfg (attempt cfg env i c w)"
proof -
  obtain w' res where a: "advance cfg env i c (w\<lparr>w_cursor := Some i\<rparr>) = (w', res)"
    by (cases "advance cfg env i c (w\<lparr>w_cursor := Some i\<rparr>)")
  have k: "kept cfg cs (w', res)" using advance_kept[of cfg "w\<lparr>w_cursor := Some i\<rparr>" cs i c env] inv none c a by simp
  show ?thesis
  proof (cases res)
    case (Inr u)
    then show ?thesis using k a by (auto simp: attempt_def kept_def inv_kept_def)
  next
    case (Inl x)
    have w': "wallet_inv cfg w' cs" "definitive x \<longrightarrow> waiting w' = []" using k Inl by (simp_all add: kept_def)
    have "inv_kept cfg (attempt_failed cfg env i c x w')"
    proof (cases "transient x \<and> definitive x \<and> cmd_decision c = None \<and> \<not> is_local cfg (cmd_intent c)")
      case True
      then have "fact_ok cfg (parts_of w') cs (Decision i CANCEL)" using c by (auto simp: pending_cross_def)
      then have "inv_kept cfg (append_fact cfg (sync_nets env 3) (sync_nets env 4) (Decision i CANCEL) w')"
        using append_fact_kept[OF w'(1)] w'(2) True kept_inv by blast
      then have "inv_kept cfg (then_do (append_fact cfg (sync_nets env 3) (sync_nets env 4) (Decision i CANCEL) w')
          (\<lambda>w _. (w, Inr (Progress i))))"
        by (rule inv_kept_then) (auto simp: inv_kept_def)
      then show ?thesis using True by (simp add: attempt_failed_def is_local_def)
    next
      case False
      then show ?thesis using w' by (auto simp: attempt_failed_def inv_kept_def is_local_def Let_def)
    qed
    then show ?thesis using a Inl by (simp add: attempt_def)
  qed
qed

lemma set_tl_subset: "set (tl xs) \<subseteq> set xs"
  by (cases xs) auto

lemma rotate_after_set: "set (rotate_after cur cs) \<subseteq> set cs"
proof (cases cur)
  case (Some i)
  have "set (tl (dropWhile (\<lambda>ic. fst ic \<noteq> i) cs)) \<subseteq> set cs"
    using set_tl_subset[of "dropWhile (\<lambda>ic. fst ic \<noteq> i) cs"] set_dropWhileD by fastforce
  then show ?thesis using Some by (auto simp: Let_def dest: set_takeWhileD set_dropWhileD in_set_takeD)
qed simp

lemma find_SomeD: "find P xs = Some x \<Longrightarrow> x \<in> set xs \<and> P x"
  by (auto simp: find_Some_iff)

lemma step_ready_inv:
  assumes inv: "wallet_inv cfg w cs" and none: "waiting w = []"
  shows "inv_kept cfg (step_ready cfg env w cs)"
proof (cases "find (ready (clock env) (w_retries w)) (rotate_after (w_cursor w) cs)")
  case None
  then show ?thesis using inv by (auto simp: step_ready_def inv_kept_def)
next
  case (Some ic)
  obtain i c where ic: "ic = (i, c)" by (cases ic)
  have "(i, c) \<in> set cs" "cmd_status c = PENDING"
    using find_SomeD[OF Some] rotate_after_set[of "w_cursor w" cs] by (auto simp: ic ready_def)
  moreover have "dict_ok cs" using inv by (simp add: wallet_inv_def ledger_ok_def)
  ultimately show ?thesis using attempt_inv[OF inv none] Some ic by (simp add: step_ready_def dict_get_mem)
qed

lemma step_inv:
  assumes inv: "wallet_inv cfg w cs"
  shows "inv_kept cfg (step cfg env w)"
proof -
  have "inv_kept cfg (then_do (wallet_sync cfg (sync_nets env 0) w) (\<lambda>w _. step_synced cfg env w))"
  proof (rule sync_then[OF inv])
    fix w' cs' x assume w': "wallet_inv cfg w' cs'" "waiting w' = []"
    have "inv_kept cfg (with_state w' (step_ready cfg env w'))" by (rule inv_kept_state[OF w'(1)]) (rule step_ready_inv[OF w'])
    then show "inv_kept cfg (step_synced cfg env w')" using w'(1) by (auto simp: step_synced_def inv_kept_def)
  qed
  then show ?thesis using inv unfolding step_def by (intro inv_kept_state[OF inv]) (auto simp: inv_kept_def)
qed

lemma wallet_retry_inv: "wallet_inv cfg w cs \<Longrightarrow> inv_kept cfg (wallet_retry i w)"
  unfolding wallet_retry_def by (rule inv_kept_state) (auto simp: inv_kept_def)

lemma cancel_synced_inv:
  assumes w: "wallet_inv cfg w cs" "waiting w = []"
  shows "inv_kept cfg (cancel_synced cfg env i w cs)"
proof (cases "\<exists>c. dict_get cs i = Some c \<and> cmd_status c = PENDING \<and> cmd_decision c \<noteq> Some COMMIT \<and> \<not> is_local cfg (cmd_intent c)")
  case True
  then obtain c where c: "dict_get cs i = Some c" "cmd_status c = PENDING" "cmd_decision c \<noteq> Some COMMIT"
    "\<not> is_local cfg (cmd_intent c)" by blast
  let ?m = "if cmd_decision c = None then append_fact cfg (sync_nets env 1) (sync_nets env 2) (Decision i CANCEL) w
    else (w, Inr ())"
  have "inv_kept cfg ?m"
  proof (cases "cmd_decision c = None")
    case True
    then have "fact_ok cfg (parts_of w) cs (Decision i CANCEL)" using c by (auto simp: pending_cross_def)
    from kept_inv[OF append_fact_kept[OF w this]] show ?thesis using True by simp
  qed (use w in \<open>auto simp: inv_kept_def\<close>)
  then have "inv_kept cfg (then_do ?m (\<lambda>w _. then_do (wallet_retry i w) (\<lambda>w _. state_item i w)))"
    by (rule inv_kept_then) (rule inv_kept_then, erule wallet_retry_inv, erule inv_kept_item)
  then show ?thesis using c by (simp add: cancel_synced_def is_local_def)
next
  case False
  then have "fst (cancel_synced cfg env i w cs) = w"
    by (auto simp: cancel_synced_def is_local_def split: option.splits)
  then show ?thesis using w by (auto simp: inv_kept_def)
qed

lemma wallet_cancel_inv:
  assumes inv: "wallet_inv cfg w cs"
  shows "inv_kept cfg (wallet_cancel cfg env i w)"
  unfolding wallet_cancel_def
proof (rule sync_then[OF inv])
  fix w' cs' x assume w': "wallet_inv cfg w' cs'" "waiting w' = []"
  show "inv_kept cfg (with_state w' (cancel_synced cfg env i w'))"
    by (rule inv_kept_state[OF w'(1)]) (rule cancel_synced_inv[OF w'])
qed

lemma intent_check:
  assumes "intent body = Inr b"
  shows "check_intent b = Inr ()"
  using assms unfolding intent_def and_then_Inr_iff check_identifier_Inr check_integer_Inr
  by (auto simp: check_intent_Inr split: if_splits)

lemma create_checks_ok:
  assumes "create_checks cfg body owner = Inr b"
  shows "check_intent b = Inr ()" "{from_account b, to_account b} \<subseteq> fst ` set (cfg_accounts cfg)"
proof -
  have b: "intent body = Inr b" "dict_get (cfg_accounts cfg) (from_account b) \<noteq> None"
    "dict_get (cfg_accounts cfg) (to_account b) \<noteq> None"
    using assms unfolding create_checks_def and_then_Inr_iff by (auto split: if_splits)
  show "check_intent b = Inr ()" by (rule intent_check[OF b(1)])
  show "{from_account b, to_account b} \<subseteq> fst ` set (cfg_accounts cfg)" using b(2,3) unfolding dict_get_dom by simp
qed

lemma create_synced_inv:
  assumes w: "wallet_inv cfg w cs" "waiting w = []"
    and b: "check_intent b = Inr ()" "{from_account b, to_account b} \<subseteq> fst ` set (cfg_accounts cfg)"
  shows "inv_kept cfg (create_synced cfg env b w cs)"
proof (cases "dict_get cs (transaction_id b) = None \<and> length cs < 1000")
  case True
  then have "fact_ok cfg (parts_of w) cs (Accepted (transaction_id b) b)" using b by simp
  from kept_inv[OF append_fact_kept[OF w this]]
  have "inv_kept cfg (then_do (append_fact cfg (sync_nets env 1) (sync_nets env 2) (Accepted (transaction_id b) b) w)
      (\<lambda>w _. state_item (transaction_id b) w))"
    by (rule inv_kept_then) (rule inv_kept_item)
  then show ?thesis using True by (simp add: create_synced_def)
next
  case False
  then have "fst (create_synced cfg env b w cs) = w" by (auto simp: create_synced_def split: option.splits)
  then show ?thesis using w by (auto simp: inv_kept_def)
qed

lemma create_inv:
  assumes inv: "wallet_inv cfg w cs"
  shows "inv_kept cfg (create cfg env body owner w)"
proof (cases "create_checks cfg body owner")
  case (Inl x)
  then show ?thesis using inv by (auto simp: create_def inv_kept_def)
next
  case (Inr b)
  have "inv_kept cfg (then_do (wallet_sync cfg (sync_nets env 0) w) (\<lambda>w _. with_state w (create_synced cfg env b w)))"
  proof (rule sync_then[OF inv])
    fix w' cs' x assume w': "wallet_inv cfg w' cs'" "waiting w' = []"
    show "inv_kept cfg (with_state w' (create_synced cfg env b w'))"
      by (rule inv_kept_state[OF w'(1)]) (rule create_synced_inv[OF w' create_checks_ok[OF Inr]])
  qed
  then show ?thesis by (simp add: create_def Inr)
qed

end
