(* ===== verification/Wallet_Runs.thy ===== *)
theory Wallet_Runs
  imports Wallet_Operations
begin

text \<open>
  Runs of the wallet: the operations of the coordinator under any leader credentials, requests and
  journal rows that arrive late, fencing, restarts of the coordinator and of shards.  Every state of
  a run satisfies the invariant.
\<close>

section \<open>The start\<close>

lemma sum_shards:
  fixes f :: "int \<Rightarrow> int"
  assumes "0 < n"
  shows "sum_list (map (\<lambda>i. dict_sum f (filter (\<lambda>(a, _). shard_for h a n = i) d)) [0..<n]) = dict_sum f d"
proof (induction d)
  case (Cons x d)
  obtain a v where x: "x = (a, v)" by (cases x)
  have "sum_list (map (\<lambda>i. dict_sum f (filter (\<lambda>(a, _). shard_for h a n = i) (x # d))) [0..<n])
      = (\<Sum>i = 0..<n. (if i = shard_for h a n then f v else 0) + dict_sum f (filter (\<lambda>(a, _). shard_for h a n = i) d))"
    unfolding interv_sum_list_conv_sum_set_nat by (rule sum.cong) (auto simp: x)
  also have "\<dots> = f v + dict_sum f d"
    using assms Cons.IH by (simp add: sum.distrib sum.delta interv_sum_list_conv_sum_set_nat shard_for_def)
  finally show ?case by (simp add: x)
qed simp

lemma dict_sum_openings: "dict_sum (\<lambda>n. n) (openings cfg) = opening_supply cfg"
  by (simp add: openings_def opening_supply_def dict_sum_def comp_def split_def)

lemma dict_ok_openings: "dict_ok (openings cfg) = dict_ok (cfg_accounts cfg)"
  by (simp add: openings_def dict_ok_def comp_def split_def)

lemma openings_keys: "fst ` set (openings cfg) = fst ` set (cfg_accounts cfg)"
  by (force simp: openings_def)

lemma wallet_start_inv:
  assumes start: "wallet_start cfg = Inr w" and accs: "dict_ok (cfg_accounts cfg)"
  shows "wallet_inv cfg w []"
proof -
  let ?f = "\<lparr>epoch = cfg_epoch cfg, leader = cfg_leader cfg\<rparr>" and ?n = "cfg_shards cfg"
  obtain ss where n: "1 \<le> ?n"
    and ss: "list_all2 (\<lambda>i s. shard_init (shard_digest cfg) (account_hash cfg) i ?n (openings cfg) ?f = Inr s) [0..<?n] ss"
    and w: "w = \<lparr>w_shards = ss,
             w_journal = \<lparr>j_rows = [], j_committed = 0, j_replicas = replicate 3 \<lparr>rep_fence = ?f, rep_rows = []\<rparr>\<rparr>,
             w_retries = [], w_cursor = None, w_sent = []\<rparr>"
    using start by (auto simp: wallet_start_def Let_def and_then_Inr_iff require_Inr_iff traverse_Inr_iff)
  have len: "length ss = ?n" using ss by (simp add: list_all2_lengthD[symmetric])
  have each: "shard_init (shard_digest cfg) (account_hash cfg) i ?n (openings cfg) ?f = Inr (ss ! i)" if "i < ?n" for i
    using list_all2_nthD[OF ss, of i] that by simp
  have ok: "dict_ok (openings cfg)" using accs by (simp add: dict_ok_openings)
  note s = shard_init_ok[OF each ok]
  have shards: "shards_ok cfg w" using n len s by (simp add: shards_ok_def w)
  have none: "parts_of w index i = None" if "index < ?n" for index i
    using s(2)[OF that] by (simp add: parts_of_def w)
  have "map (total \<circ> sh_state) ss
      = map (\<lambda>i. dict_sum (\<lambda>n. n) (filter (\<lambda>(a, _). shard_for (account_hash cfg) a ?n = i) (openings cfg))) [0..<?n]"
    by (rule nth_equalityI) (simp_all add: len s)
  then have "wallet_supply w = opening_supply cfg"
    using sum_shards[of ?n "\<lambda>n. n" "account_hash cfg" "openings cfg"] n
    by (simp add: wallet_supply_def w dict_sum_openings)
  then have "ledger_ok cfg (parts_of w) [] (wallet_supply w)" using none by (simp add: ledger_ok_def)
  moreover have "journal_ok (fact_digest cfg) (w_journal w)"
    by (simp add: w journal_ok_def verify_def holds_prefix_def list_all_iff)
  ultimately show ?thesis using shards
    by (simp add: wallet_inv_def w wallet_state_def journal_records_def waiting_def)
qed

section \<open>Steps that are not operations of the coordinator\<close>

definition as_leader :: "int \<Rightarrow> string \<Rightarrow> wallet_config \<Rightarrow> wallet_config" where
  "as_leader e l cfg = cfg\<lparr>cfg_epoch := e, cfg_leader := l\<rparr>"

lemma as_leader_simps [simp]:
  "cfg_accounts (as_leader e l cfg) = cfg_accounts cfg" "cfg_shards (as_leader e l cfg) = cfg_shards cfg"
  "account_hash (as_leader e l cfg) = account_hash cfg" "shard_digest (as_leader e l cfg) = shard_digest cfg"
  "fact_digest (as_leader e l cfg) = fact_digest cfg" "indices (as_leader e l cfg) = indices cfg"
  "openings (as_leader e l cfg) = openings cfg"  "opening_supply (as_leader e l cfg) = opening_supply cfg"
  by (simp_all add: as_leader_def indices_def fun_eq_iff openings_def opening_supply_def)

text \<open>The invariant does not mention the credentials.\<close>

lemma status_of_leader [simp]:
  "role_index (as_leader e l cfg) = role_index cfg" "is_local (as_leader e l cfg) = is_local cfg"
  "status_of (as_leader e l cfg) = status_of cfg"
  by (simp_all add: fun_eq_iff role_index_def is_local_def status_of_def)

lemma inv_leader [simp]: "wallet_inv (as_leader e l cfg) w cs = wallet_inv cfg w cs"
proof -
  have c: "command_ok (as_leader e l cfg) = command_ok cfg" "owned_part (as_leader e l cfg) = owned_part cfg"
    "transit (as_leader e l cfg) = transit cfg" "request_ok (as_leader e l cfg) = request_ok cfg"
    "shards_ok (as_leader e l cfg) = shards_ok cfg" "pending_cross (as_leader e l cfg) = pending_cross cfg"
    by (simp_all add: fun_eq_iff command_ok_def owned_part_def transit_def request_ok_def shards_ok_def pending_cross_def)
  have "ledger_ok (as_leader e l cfg) = ledger_ok cfg" by (simp add: fun_eq_iff ledger_ok_def c)
  moreover have "fact_ok (as_leader e l cfg) P cs' f = fact_ok cfg P cs' f" for P cs' f
    by (cases "(cfg, P, cs', f)" rule: fact_ok.cases)
       (simp_all add: c both_def completes_local_def)
  then have "fact_ok (as_leader e l cfg) = fact_ok cfg" by (simp add: fun_eq_iff)
  ultimately show ?thesis by (simp add: wallet_inv_def c)
qed

text \<open>A shard replaced by one with the same projection: another fence, or the database opened again.\<close>

lemma inv_same_shard:
  assumes inv: "wallet_inv cfg w cs" and i: "i < cfg_shards cfg"
    and s: "shard_ok (shard_digest cfg) (account_hash cfg) (openings cfg) s" "sh_state s = sh_state (w_shards w ! i)"
      "sh_index s = i" "sh_count s = cfg_shards cfg"
  shows "wallet_inv cfg (w\<lparr>w_shards := (w_shards w)[i := s]\<rparr>) cs"
proof -
  let ?w = "w\<lparr>w_shards := (w_shards w)[i := s]\<rparr>"
  have len: "i < length (w_shards w)" using inv i by (simp add: wallet_inv_def shards_ok_def)
  have "parts_of ?w index j = parts_of w index j" for index j
    using len s(2) by (cases "index = i") (simp_all add: parts_of_def)
  then have "parts_of ?w = parts_of w" by blast
  moreover have "wallet_supply ?w = wallet_supply w"
    using sum_list_list_update[OF len, of "total \<circ> sh_state" s] s(2) by (simp add: wallet_supply_def)
  moreover have "shards_ok cfg ?w" using inv i s by (auto simp: wallet_inv_def shards_ok_def nth_list_update)
  ultimately show ?thesis using inv by (simp add: wallet_inv_def wallet_state_def waiting_def)
qed

text \<open>A replica that received a row of the journal late, or was fenced.\<close>

lemma filter_update_mono:
  "k < length xs \<Longrightarrow> (P (xs ! k) \<longrightarrow> P x) \<Longrightarrow> length (filter P xs) \<le> length (filter P (xs[k := x]))"
proof (induction xs arbitrary: k)
  case (Cons y ys)
  then show ?case by (cases k) auto
qed simp

lemma journal_replica_ok:
  assumes ok: "journal_ok digest j" and k: "k < 3" and r: "holds_prefix (j_rows j) r"
    "length (rep_rows (j_replicas j ! k)) \<le> length (rep_rows r)"
  shows "journal_ok digest (j\<lparr>j_replicas := (j_replicas j)[k := r]\<rparr>)"
proof -
  let ?P = "\<lambda>r. j_committed j \<le> length (rep_rows r)"
  have len: "k < length (j_replicas j)" using ok k by (simp add: journal_ok_def)
  have "length (filter ?P (j_replicas j)) \<le> length (filter ?P ((j_replicas j)[k := r]))"
    using filter_update_mono[OF len, of ?P r] r(2) by simp
  moreover have "list_all (holds_prefix (j_rows j)) ((j_replicas j)[k := r])"
    using ok r(1) set_update_subset_insert[of "j_replicas j" k r] by (auto simp: journal_ok_def list_all_iff)
  ultimately show ?thesis using ok by (simp add: journal_ok_def)
qed

lemma inv_replica:
  assumes inv: "wallet_inv cfg w cs" and k: "k < 3" and r: "holds_prefix (j_rows (w_journal w)) r"
    "length (rep_rows (j_replicas (w_journal w) ! k)) \<le> length (rep_rows r)"
  shows "wallet_inv cfg (w\<lparr>w_journal := (w_journal w)\<lparr>j_replicas := (j_replicas (w_journal w))[k := r]\<rparr>\<rparr>) cs"
  using inv journal_replica_ok[OF _ k r, of "fact_digest cfg"]
  by (intro inv_same_facts[OF inv]) (auto simp: only_journal_def wallet_inv_def waiting_def)

lemma inv_replica_prefix:
  "wallet_inv cfg w cs \<Longrightarrow> k < 3 \<Longrightarrow> holds_prefix (j_rows (w_journal w)) (j_replicas (w_journal w) ! k)"
  by (simp add: wallet_inv_def journal_ok_def list_all_length)

section \<open>Reading operations\<close>

lemma collect_inv:
  assumes f: "\<And>i w. wallet_inv cfg w cs \<Longrightarrow> wallet_inv cfg (fst (f i w)) cs"
  shows "wallet_inv cfg w cs \<Longrightarrow> wallet_inv cfg (fst (collect f is w)) cs"
proof (induction "is" arbitrary: w)
  case (Cons i "is")
  obtain w1 r1 where a: "f i w = (w1, r1)" by (cases "f i w")
  obtain w2 r2 where b: "collect f is w1 = (w2, r2)" by (cases "collect f is w1")
  have "wallet_inv cfg w1 cs" using f[OF Cons.prems, of i] a by simp
  moreover from this have "wallet_inv cfg w2 cs" using Cons.IH[of w1] b by simp
  ultimately show ?case using a b by (cases r1; cases r2) auto
qed simp

lemma read_call_inv:
  assumes "wallet_inv cfg w cs"
  shows "wallet_inv cfg (fst (shard_call cfg env k (\<lambda>w. (w, f w)) w)) cs"
  using shard_call_inv(1)[OF assms, of "\<lambda>w. (w, f w)" env k "fst (shard_call cfg env k (\<lambda>w. (w, f w)) w)"
      "snd (shard_call cfg env k (\<lambda>w. (w, f w)) w)"]
  by (simp add: only_shards_def)

lemma wallet_audit_inv:
  assumes inv: "wallet_inv cfg w cs"
  shows "inv_kept cfg (wallet_audit cfg env w)"
  unfolding wallet_audit_def Let_def
proof (rule sync_then[OF inv])
  fix w1 cs1 q assume w1: "wallet_inv cfg w1 cs1"
  let ?views = "collect (\<lambda>i. shard_call cfg env i (fetch_view cfg i)) [0..<cfg_shards cfg]"
  let ?checks = "collect (\<lambda>i. shard_call cfg env (cfg_shards cfg + i) (fetch_audit cfg i)) [0..<cfg_shards cfg]"
  have v: "inv_kept cfg (?views w)" if "wallet_inv cfg w cs" for w cs
    unfolding inv_kept_def fetch_view_def by (rule exI, rule collect_inv[OF _ that], erule read_call_inv)
  have a: "inv_kept cfg (?checks w)" if "wallet_inv cfg w cs" for w cs
    unfolding inv_kept_def fetch_audit_def by (rule exI, rule collect_inv[OF _ that], erule read_call_inv)
  show "inv_kept cfg (then_do (?views w1) (\<lambda>w views. then_do (?checks w) (\<lambda>w checks.
      case traverse (check_view cfg) (zip views checks) of
        Inl x \<Rightarrow> (w, Inl x)
      | Inr _ \<Rightarrow> with_state w (\<lambda>cs. (w, Inr (audit_views cfg cs q views checks))))))"
  proof (rule inv_kept_then[OF v[OF w1]], rule inv_kept_then[OF a], assumption)
    fix w2 cs2 views checks w3 cs3 assume "wallet_inv cfg w3 cs3"
    then show "inv_kept cfg (case traverse (check_view cfg) (zip views checks) of
        Inl x \<Rightarrow> (w3, Inl x)
      | Inr _ \<Rightarrow> with_state w3 (\<lambda>cs. (w3, Inr (audit_views cfg cs q views checks))))"
      by (auto simp: inv_kept_def with_state_def split: sum.splits)
  qed
qed

lemma wallet_balance_inv:
  assumes inv: "wallet_inv cfg w cs"
  shows "inv_kept cfg (wallet_balance cfg env account owner at w)"
  unfolding wallet_balance_def
proof (cases "map_option fst (dict_get (cfg_accounts cfg) account) \<noteq> Some owner")
  case False
  let ?call = "shard_call cfg env 0 (\<lambda>w. (w, shard_balance (shard_digest cfg) account at
      (w_shards w ! shard_for (account_hash cfg) account (cfg_shards cfg)))) w"
  have "inv_kept cfg ?call" unfolding inv_kept_def by (rule exI) (rule read_call_inv[OF inv])
  then have "inv_kept cfg (then_do ?call g)" if "\<And>w x. fst (g w x) = w" for g :: "Wallet \<Rightarrow> _ \<Rightarrow> Wallet \<times> (nat \<times> nat \<times> balance) result"
    by (rule inv_kept_then) (auto simp: inv_kept_def that)
  then show "inv_kept cfg (if map_option fst (dict_get (cfg_accounts cfg) account) \<noteq> Some owner
      then (w, Inl (HttpError 404 ''account missing'')) else then_do ?call (\<lambda>w (sh, seq, b).
        (w, case and_then (require (sh = shard_for (account_hash cfg) account (cfg_shards cfg))
                   (ValueError ''invalid balance receipt'')) (\<lambda>_.
                 and_then (check_integer (JInt (int seq)) 1 1000000000000) (\<lambda>_.
                 and_then (check_integer (JInt (available b)) 0 (opening_supply cfg)) (\<lambda>_.
                   check_integer (JInt (held b)) 0 (opening_supply cfg)))) of
              Inl _ \<Rightarrow> Inl (HttpError 502 ''participant returned an invalid balance'')
            | Inr _ \<Rightarrow> Inr (sh, seq, b))))"
    using False by (simp add: split_def)
qed (use inv in \<open>auto simp: inv_kept_def\<close>)

section \<open>Runs\<close>

inductive wallet_run :: "wallet_config \<Rightarrow> Wallet \<Rightarrow> bool" for cfg where
  started: "wallet_start cfg = Inr w \<Longrightarrow> wallet_run cfg w"
| created: "wallet_run cfg w \<Longrightarrow> wallet_run cfg (fst (create (as_leader e l cfg) env body owner w))"
| stepped: "wallet_run cfg w \<Longrightarrow> wallet_run cfg (fst (step (as_leader e l cfg) env w))"
| canceled: "wallet_run cfg w \<Longrightarrow> wallet_run cfg (fst (wallet_cancel (as_leader e l cfg) env i w))"
| retried: "wallet_run cfg w \<Longrightarrow> wallet_run cfg (fst (wallet_retry i w))"
| synced: "wallet_run cfg w \<Longrightarrow> wallet_run cfg (fst (wallet_sync (as_leader e l cfg) net w))"
| audited: "wallet_run cfg w \<Longrightarrow> wallet_run cfg (fst (wallet_audit (as_leader e l cfg) env w))"
| balance_read: "wallet_run cfg w \<Longrightarrow> wallet_run cfg (fst (wallet_balance (as_leader e l cfg) env account owner at w))"
| arrived: "wallet_run cfg w \<Longrightarrow> wallet_run cfg (deliver_late cfg js w)"
| row_arrived: "wallet_run cfg w \<Longrightarrow> k < 3 \<Longrightarrow> row \<in> set (j_rows (w_journal w)) \<Longrightarrow>
    wallet_run cfg (w\<lparr>w_journal := (w_journal w)\<lparr>j_replicas := (j_replicas (w_journal w))[k :=
      fst (replica_append (fact_digest cfg) row e l (j_replicas (w_journal w) ! k))]\<rparr>\<rparr>)"
| replica_fenced: "wallet_run cfg w \<Longrightarrow> k < 3 \<Longrightarrow>
    set_fence e l (rep_fence (j_replicas (w_journal w) ! k)) = Inr f \<Longrightarrow>
    wallet_run cfg (w\<lparr>w_journal := (w_journal w)\<lparr>j_replicas := (j_replicas (w_journal w))[k :=
      (j_replicas (w_journal w) ! k)\<lparr>rep_fence := f\<rparr>]\<rparr>\<rparr>)"
| shard_fenced: "wallet_run cfg w \<Longrightarrow> i < cfg_shards cfg \<Longrightarrow> set_fence e l (sh_fence (w_shards w ! i)) = Inr f \<Longrightarrow>
    wallet_run cfg (w\<lparr>w_shards := (w_shards w)[i := (w_shards w ! i)\<lparr>sh_fence := f\<rparr>]\<rparr>)"
| shard_restarted: "wallet_run cfg w \<Longrightarrow> i < cfg_shards cfg \<Longrightarrow>
    shard_reopen (shard_digest cfg) (account_hash cfg) (openings cfg) f snap (w_shards w ! i) = Inr s \<Longrightarrow>
    wallet_run cfg (w\<lparr>w_shards := (w_shards w)[i := s]\<rparr>)"
| restarted: "wallet_run cfg w \<Longrightarrow> wallet_run cfg (w\<lparr>w_cursor := None\<rparr>)"

lemma inv_keptE:
  assumes "inv_kept (as_leader e l cfg) out"
  shows "\<exists>cs. wallet_inv cfg (fst out) cs"
  using assms by (simp add: inv_kept_def)

lemma wallet_run_inv:
  assumes "wallet_run cfg w" and accs: "dict_ok (cfg_accounts cfg)"
  shows "\<exists>cs. wallet_inv cfg w cs"
  using assms(1)
proof (induction rule: wallet_run.induct)
  case (started w)
  then show ?case using wallet_start_inv accs by blast
next
  case (created w e l env body owner)
  then obtain cs where "wallet_inv (as_leader e l cfg) w cs" by auto
  then show ?case by (rule inv_keptE[OF create_inv])
next
  case (stepped w e l env)
  then obtain cs where "wallet_inv (as_leader e l cfg) w cs" by auto
  then show ?case by (rule inv_keptE[OF step_inv])
next
  case (canceled w e l env i)
  then obtain cs where "wallet_inv (as_leader e l cfg) w cs" by auto
  then show ?case by (rule inv_keptE[OF wallet_cancel_inv])
next
  case (retried w i)
  then show ?case using wallet_retry_inv by (auto simp: inv_kept_def)
next
  case (synced w e l net)
  then obtain cs where inv: "wallet_inv (as_leader e l cfg) w cs" by auto
  have "inv_kept (as_leader e l cfg) (then_do (wallet_sync (as_leader e l cfg) net w) (\<lambda>w x. (w, Inr x)))"
    by (rule sync_then[OF inv]) (auto simp: inv_kept_def)
  moreover have "fst (then_do m (\<lambda>w x. (w, Inr x))) = fst m" for m :: "Wallet \<times> (nat \<times> nat) result"
    by (cases m; cases "snd m") auto
  ultimately show ?case by (simp add: inv_kept_def)
next
  case (audited w e l env)
  then obtain cs where "wallet_inv (as_leader e l cfg) w cs" by auto
  then show ?case by (rule inv_keptE[OF wallet_audit_inv])
next
  case (balance_read w e l env account owner at)
  then obtain cs where "wallet_inv (as_leader e l cfg) w cs" by auto
  then show ?case by (rule inv_keptE[OF wallet_balance_inv])
next
  case (arrived w js)
  then show ?case using deliver_late_inv by blast
next
  case (row_arrived w k row e l)
  then obtain cs where inv: "wallet_inv cfg w cs" by blast
  obtain h where v: "verify (fact_digest cfg) (j_rows (w_journal w)) = Inr h"
    using inv by (auto simp: wallet_inv_def journal_ok_def)
  let ?r = "j_replicas (w_journal w) ! k"
  obtain r res where r: "replica_append (fact_digest cfg) row e l ?r = (r, res)"
    by (cases "replica_append (fact_digest cfg) row e l ?r")
  have "holds_prefix (j_rows (w_journal w)) r" "length (rep_rows ?r) \<le> length (rep_rows r)"
    using replica_append_prefix[OF v inv_replica_prefix[OF inv row_arrived(2)] row_arrived(3) r] by blast+
  then show ?case using inv_replica[OF inv row_arrived(2)] r by auto
next
  case (replica_fenced w k e l f)
  then obtain cs where inv: "wallet_inv cfg w cs" by blast
  let ?r = "(j_replicas (w_journal w) ! k)\<lparr>rep_fence := f\<rparr>"
  have "holds_prefix (j_rows (w_journal w)) ?r" "length (rep_rows (j_replicas (w_journal w) ! k)) \<le> length (rep_rows ?r)"
    using inv_replica_prefix[OF inv replica_fenced(2)] by (simp_all add: holds_prefix_def)
  then show ?case using inv_replica[OF inv replica_fenced(2)] by blast
next
  case (shard_fenced w i e l f)
  then obtain cs where inv: "wallet_inv cfg w cs" by blast
  then have "shard_ok (shard_digest cfg) (account_hash cfg) (openings cfg) (w_shards w ! i)"
    "sh_index (w_shards w ! i) = i" "sh_count (w_shards w ! i) = cfg_shards cfg"
    using shard_fenced(2) by (auto simp: wallet_inv_def shards_ok_def)
  then show ?case using inv_same_shard[OF inv shard_fenced(2), of "(w_shards w ! i)\<lparr>sh_fence := f\<rparr>"] by auto
next
  case (shard_restarted w i f snap s)
  then obtain cs where inv: "wallet_inv cfg w cs" by blast
  then have ok: "shard_ok (shard_digest cfg) (account_hash cfg) (openings cfg) (w_shards w ! i)"
    using shard_restarted(2) by (auto simp: wallet_inv_def shards_ok_def)
  have "s = w_shards w ! i" by (rule shard_reopen_same[OF ok shard_restarted(3)])
  then show ?case using inv by auto
next
  case (restarted w)
  then show ?case by simp
qed

end
