(* ===== verification/Wallet_Audit.thy ===== *)
theory Wallet_Audit
  imports Wallet_Runs
begin

text \<open>
  The audit of a wallet that satisfies the invariant: every check of every view passes, and every
  list of errors is empty.
\<close>

section \<open>Bounds\<close>

lemma dict_sum_le: "\<forall>(k, v)\<in>set d. f v \<le> c \<Longrightarrow> dict_sum f d \<le> c * int (length d)"
  by (induction d) (auto simp: algebra_simps)

lemma keys_length:
  assumes "dict_ok d" "fst ` set d \<subseteq> fst ` set e"
  shows "length d \<le> length e"
proof -
  have "length d = card (fst ` set d)" using distinct_card[of "map fst d"] assms(1) by (simp add: dict_ok_def)
  also have "\<dots> \<le> card (fst ` set e)" using assms(2) by (rule card_mono[OF finite_imageI[OF finite_set]])
  also have "\<dots> \<le> length e" by (metis card_length length_map set_map)
  finally show ?thesis .
qed

lemma audit_ledger:
  assumes "wallet_inv cfg w cs"
  shows "ledger_ok cfg (parts_of w) cs (wallet_supply w)" "0 < cfg_shards cfg" "length (w_shards w) = cfg_shards cfg"
  using assms by (auto simp: wallet_inv_def shards_ok_def)

lemma audit_shard:
  assumes "wallet_inv cfg w cs" "i < cfg_shards cfg"
  shows "shard_ok (shard_digest cfg) (account_hash cfg) (openings cfg) (w_shards w ! i)"
    "sh_index (w_shards w ! i) = i" "sh_count (w_shards w ! i) = cfg_shards cfg"
  using assms by (auto simp: wallet_inv_def shards_ok_def)

lemma audit_part:
  assumes inv: "wallet_inv cfg w cs" and i: "index < cfg_shards cfg" and p: "parts_of w index i = Some p"
  obtains c where "dict_get cs i = Some c" "cmd_intent c = part_intent p" "command_ok cfg (parts_of w) c"
    "transaction_id (cmd_intent c) = i" "index = role_index cfg (part_intent p) (part_role p)"
    "(part_role p = Local) = is_local cfg (part_intent p)"
proof -
  have "owned_part cfg cs index i p" using audit_ledger(1)[OF inv] i p by (simp add: ledger_ok_def)
  then obtain c where "dict_get cs i = Some c" "cmd_intent c = part_intent p"
      "index = role_index cfg (part_intent p) (part_role p)" "(part_role p = Local) = is_local cfg (part_intent p)"
    by (auto simp: owned_part_def)
  then show thesis using that ledger_command[OF audit_ledger(1)[OF inv]] by blast
qed

lemma audit_log_length:
  assumes inv: "wallet_inv cfg w cs" and i: "i < cfg_shards cfg"
  shows "1 \<le> length (sh_rows (w_shards w ! i))" "length (sh_rows (w_shards w ! i)) \<le> 2001"
proof -
  let ?s = "w_shards w ! i"
  have ok: "shard_ok (shard_digest cfg) (account_hash cfg) (openings cfg) ?s" by (rule audit_shard(1)[OF inv i])
  then show "1 \<le> length (sh_rows ?s)" by (simp add: shard_ok_def Suc_le_eq)
  have dok: "dict_ok (parts (sh_state ?s))" using ok by (simp add: shard_ok_def proj_ok_def)
  have "fst ` set (parts (sh_state ?s)) \<subseteq> fst ` set cs"
  proof
    fix j assume "j \<in> fst ` set (parts (sh_state ?s))"
    then obtain p where "parts_of w i j = Some p" using dict_get_dom[of "parts (sh_state ?s)" j] by (auto simp: parts_of_def)
    then obtain c where "dict_get cs j = Some c" by (rule audit_part[OF inv i])
    then show "j \<in> fst ` set cs" using dict_get_dom[of cs j] by simp
  qed
  then have "length (parts (sh_state ?s)) \<le> length cs" by (rule keys_length[OF dok])
  moreover have "length cs \<le> 1000" using audit_ledger(1)[OF inv] by (simp add: ledger_ok_def)
  moreover have "dict_sum part_events (parts (sh_state ?s)) \<le> 2 * int (length (parts (sh_state ?s)))"
    by (rule dict_sum_le) (auto simp: part_events_def)
  moreover have "int (length (sh_rows ?s)) \<le> 1 + dict_sum part_events (parts (sh_state ?s))"
    using ok by (simp add: shard_ok_def)
  ultimately show "length (sh_rows ?s) \<le> 2001" by linarith
qed

lemma transit_nonneg:
  assumes "command_ok cfg P c"
  shows "0 \<le> transit cfg P (i, c)"
  using assms by (auto simp: transit_def command_ok_def result_simps split: prod.splits)

lemma sum_list_member:
  fixes f :: "'a \<Rightarrow> int"
  shows "\<forall>y\<in>set xs. 0 \<le> f y \<Longrightarrow> x \<in> set xs \<Longrightarrow> f x \<le> sum_list (map f xs)"
proof (induction xs)
  case (Cons y ys)
  have "0 \<le> sum_list (map f ys)" using Cons.prems(1) by (auto intro!: sum_list_nonneg)
  then show ?case using Cons by auto
qed simp

lemma total_nonneg: "nonnegative st \<Longrightarrow> 0 \<le> total st"
  unfolding total_def dict_sum_def by (rule sum_list_nonneg) (auto simp: nonnegative_def list_all_iff)

lemma audit_balance:
  assumes inv: "wallet_inv cfg w cs" and i: "i < cfg_shards cfg" and b: "(a, b) \<in> set (accounts (sh_state (w_shards w ! i)))"
  shows "0 \<le> available b" "available b \<le> opening_supply cfg" "0 \<le> held b" "held b \<le> opening_supply cfg"
proof -
  have nn: "nonnegative (sh_state s)" if "s \<in> set (w_shards w)" for s
    using that audit_shard(1)[OF inv] audit_ledger(3)[OF inv] by (auto simp: in_set_conv_nth shard_ok_def proj_ok_def)
  have mem: "w_shards w ! i \<in> set (w_shards w)" using i audit_ledger(3)[OF inv] by simp
  then have *: "\<forall>(_, b)\<in>set (accounts (sh_state (w_shards w ! i))). 0 \<le> available b \<and> 0 \<le> held b"
    using nn by (auto simp: nonnegative_def list_all_iff)
  then show "0 \<le> available b" "0 \<le> held b" using b by auto
  have "available b + held b \<le> total (sh_state (w_shards w ! i))"
    unfolding total_def using * b by (intro dict_sum_ge[where f = "\<lambda>b. available b + held b"]) auto
  also have "\<dots> \<le> wallet_supply w"
    using sum_list_member[of "w_shards w" "total \<circ> sh_state", OF _ mem] nn total_nonneg by (simp add: wallet_supply_def)
  also have "\<dots> \<le> opening_supply cfg"
  proof -
    have l: "ledger_ok cfg (parts_of w) cs (wallet_supply w)" by (rule audit_ledger(1)[OF inv])
    then have ok: "dict_ok cs" by (simp add: ledger_ok_def)
    have "0 \<le> sum_list (map (transit cfg (parts_of w)) cs)"
      using transit_nonneg ledger_command(1)[OF l] dict_get_mem[OF ok] by (intro sum_list_nonneg) fastforce
    then show ?thesis using l by (simp add: ledger_ok_def)
  qed
  finally show "available b \<le> opening_supply cfg" "held b \<le> opening_supply cfg"
    using \<open>0 \<le> available b\<close> \<open>0 \<le> held b\<close> by simp_all
qed

section \<open>The checks of the audit\<close>

definition view_of :: "Wallet \<Rightarrow> nat \<Rightarrow> view" where
  "view_of w i = \<lparr>v_shard = i, v_seq = length (sh_rows (w_shards w ! i)),
     v_head = snd (tail_of (sh_rows (w_shards w ! i))), v_state = sh_state (w_shards w ! i)\<rparr>"

definition check_of :: "Wallet \<Rightarrow> nat \<Rightarrow> bool \<times> nat \<times> string" where
  "check_of w i = (True, length (sh_rows (w_shards w ! i)), snd (tail_of (sh_rows (w_shards w ! i))))"

lemma audit_fetch:
  assumes inv: "wallet_inv cfg w cs" and i: "i < cfg_shards cfg"
  shows "fetch_view cfg i w = (w, Inr (view_of w i))" "fetch_audit cfg i w = (w, Inr (check_of w i))"
proof -
  let ?s = "w_shards w ! i"
  note ok = audit_shard[OF inv i]
  obtain h where h: "verify (shard_digest cfg) (sh_rows ?s) = Inr h" using ok(1) by (rule shard_ok_verify)
  show "fetch_view cfg i w = (w, Inr (view_of w i))"
    using verify_tail_of[OF h] ok(2) by (simp add: fetch_view_def shard_view_def view_of_def)
  show "fetch_audit cfg i w = (w, Inr (check_of w i))"
    using ok(1) by (simp add: fetch_audit_def shard_audit_def check_of_def shard_ok_def)
qed

lemma audit_check_view:
  assumes inv: "wallet_inv cfg w cs" and i: "i < cfg_shards cfg"
  shows "check_view cfg (view_of w i, check_of w i) = Inr ()"
proof -
  let ?st = "sh_state (w_shards w ! i)"
  have n: "check_integer (JInt (int i)) 0 (int (cfg_shards cfg) - 1) = Inr (int i)" using i by simp
  have l: "check_integer (JInt (int (length (sh_rows (w_shards w ! i))))) 1 1000000000000
      = Inr (int (length (sh_rows (w_shards w ! i))))"
    using audit_log_length[OF inv i] by simp
  have b: "traverse (\<lambda>(_, b). and_then (check_integer (JInt (available b)) 0 (opening_supply cfg)) (\<lambda>_.
      check_integer (JInt (held b)) 0 (opening_supply cfg))) (accounts ?st) = Inr (map (\<lambda>(_, b). held b) (accounts ?st))"
    using audit_balance[OF inv i] by (intro traverse_total) auto
  have "check_receipt p (part_intent p) (part_role p) = Inr p" if "(j, p) \<in> set (parts ?st)" for j p
  proof -
    have dok: "dict_ok (parts ?st)" using audit_shard(1)[OF inv i] by (simp add: shard_ok_def proj_ok_def)
    then have p: "parts_of w i j = Some p" using that by (simp add: parts_of_def dict_get_mem)
    obtain c where c: "cmd_intent c = part_intent p" "command_ok cfg (parts_of w) c" "transaction_id (cmd_intent c) = j"
        "i = role_index cfg (part_intent p) (part_role p)" "(part_role p = Local) = is_local cfg (part_intent p)"
      by (rule audit_part[OF inv i p])
    have "part_status p \<in> {CONFIRMED, REJECTED}" if "part_role p = Local"
      using command_local[OF c(2)] c p that by (simp add: status_of_def)
    then show ?thesis using c(1,2) by (auto simp: check_receipt_def command_ok_def)
  qed
  then have r: "traverse (\<lambda>(_, p). check_receipt p (part_intent p) (part_role p)) (parts ?st)
      = Inr (map (\<lambda>(_, p). p) (parts ?st))"
    by (intro traverse_total) auto
  show ?thesis by (simp add: check_view_def view_of_def check_of_def n l b r del: check_integer.simps)
qed

section \<open>The errors of the audit\<close>

lemma error_if_Nil [simp]: "error_if p m = [] \<longleftrightarrow> \<not> p"
  by (simp add: error_if_def)

lemma audit_view_errors:
  assumes inv: "wallet_inv cfg w cs" and i: "i < cfg_shards cfg"
  shows "view_errors cfg i (view_of w i) = []"
proof -
  have "fst ` set (accounts (sh_state (w_shards w ! i)))
      = {a \<in> fst ` set (cfg_accounts cfg). shard_for (account_hash cfg) a (cfg_shards cfg) = i}"
    using audit_shard[OF inv i] by (simp add: shard_ok_def openings_keys)
  also have "\<dots> = fst ` set (filter (\<lambda>(a, _). shard_for (account_hash cfg) a (cfg_shards cfg) = i) (cfg_accounts cfg))"
    by force
  finally show ?thesis by (simp add: view_errors_def view_of_def)
qed

lemma audit_not_mismatched:
  assumes inv: "wallet_inv cfg w cs" and c: "dict_get cs i = Some c"
    and r: "(r = Local) = is_local cfg (cmd_intent c)"
  shows "\<not> mismatched (cmd_intent c) r (parts_of w (role_index cfg (cmd_intent c) r) i)"
proof
  assume "mismatched (cmd_intent c) r (parts_of w (role_index cfg (cmd_intent c) r) i)"
  then obtain p where p: "parts_of w (role_index cfg (cmd_intent c) r) i = Some p"
    "part_intent p \<noteq> cmd_intent c \<or> part_role p \<noteq> r" by (auto simp: mismatched_def)
  obtain c' where "dict_get cs i = Some c'" "cmd_intent c' = part_intent p"
      "role_index cfg (cmd_intent c) r = role_index cfg (part_intent p) (part_role p)"
      "(part_role p = Local) = is_local cfg (part_intent p)"
    by (rule audit_part[OF inv role_index_less[OF audit_ledger(2)[OF inv]] p(1)])
  then show False using p(2) c r by (cases r; cases "part_role p") (auto simp: role_index_def is_local_def)
qed

lemma audit_command_errors:
  assumes inv: "wallet_inv cfg w cs" and c: "dict_get cs i = Some c"
  shows "command_errors cfg (parts_of w) (i, c) = []"
proof -
  note l = ledger_command[OF audit_ledger(1)[OF inv] c]
  obtain src dst where ix: "indices cfg (cmd_intent c) = (src, dst)" by (cases "indices cfg (cmd_intent c)")
  have st: "has_status s (parts_of w (role_index cfg (cmd_intent c) r) i)
      = (status_of cfg (parts_of w) (cmd_intent c) r = Some s)" for s r
    by (simp add: has_status_def status_of_def l(2))
  note m = audit_not_mismatched[OF inv c]
  show ?thesis
  proof (cases "src = dst")
    case True
    then have loc: "is_local cfg (cmd_intent c)" by (simp add: is_local_def ix)
    then show ?thesis
      using command_local[OF l(1) loc] m[of Local] st[where r = Local] True
      by (cases "cmd_status c") (auto simp: command_errors_def local_errors_def ix role_index_def)
  next
    case False
    then have x: "\<not> is_local cfg (cmd_intent c)" by (simp add: is_local_def ix)
    have r: "role_index cfg (cmd_intent c) Source = src" "role_index cfg (cmd_intent c) Destination = dst"
      by (simp_all add: role_index_def ix)
    note cross = command_cross[OF l(1) x]
    have sts: "has_status s (parts_of w src i) = (status_of cfg (parts_of w) (cmd_intent c) Source = Some s)"
      "has_status s (parts_of w dst i) = (status_of cfg (parts_of w) (cmd_intent c) Destination = Some s)" for s
      using st[of s Source] st[of s Destination] by (simp_all add: r)
    have mm: "\<not> mismatched (cmd_intent c) Source (parts_of w src i)" "\<not> mismatched (cmd_intent c) Destination (parts_of w dst i)"
      using m[of Source] m[of Destination] x by (simp_all add: r)
    consider "cmd_decision c = None" | "cmd_decision c = Some COMMIT" | "cmd_decision c = Some CANCEL"
      by (metis not_None_eq decision.exhaust)
    then have e: "cross_errors i c (parts_of w src i) (parts_of w dst i) = []"
      using cross mm by cases (cases "cmd_status c"; auto simp: cross_errors_def sts)+
    then show ?thesis using False by (simp add: command_errors_def ix)
  qed
qed

lemma audit_orphans:
  assumes inv: "wallet_inv cfg w cs" and i: "i < cfg_shards cfg"
  shows "orphan_errors cfg cs (view_of w i) = []"
proof -
  have "map_option cmd_intent (dict_get cs j) = Some (part_intent p) \<and>
      i \<in> {fst (indices cfg (part_intent p)), snd (indices cfg (part_intent p))}"
    if "(j, p) \<in> set (parts (sh_state (w_shards w ! i)))" for j p
  proof -
    have "dict_ok (parts (sh_state (w_shards w ! i)))"
      using audit_shard(1)[OF inv i] by (simp add: shard_ok_def proj_ok_def)
    then have p: "parts_of w i j = Some p" using that by (simp add: parts_of_def dict_get_mem)
    obtain c where "dict_get cs j = Some c" "cmd_intent c = part_intent p"
        "i = role_index cfg (part_intent p) (part_role p)"
      by (rule audit_part[OF inv i p])
    then show ?thesis by (auto simp: role_index_def)
  qed
  then show ?thesis by (auto simp: orphan_errors_def view_of_def)
qed

lemma audit_view_part:
  "i < n \<Longrightarrow> view_part (map (view_of w) [0..<n]) i j = parts_of w i j"
  by (simp add: view_part_def view_of_def parts_of_def)

lemma audit_views_command:
  assumes "0 < cfg_shards cfg"
  shows "command_errors cfg (view_part (map (view_of w) [0..<cfg_shards cfg])) ic = command_errors cfg (parts_of w) ic"
    "transit cfg (view_part (map (view_of w) [0..<cfg_shards cfg])) ic = transit cfg (parts_of w) ic"
proof -
  obtain i c where ic: "ic = (i, c)" by (cases ic)
  have "fst (indices cfg (cmd_intent c)) < cfg_shards cfg" "snd (indices cfg (cmd_intent c)) < cfg_shards cfg"
    using assms by (simp_all add: indices_def shard_for_def)
  then show "command_errors cfg (view_part (map (view_of w) [0..<cfg_shards cfg])) ic = command_errors cfg (parts_of w) ic"
    "transit cfg (view_part (map (view_of w) [0..<cfg_shards cfg])) ic = transit cfg (parts_of w) ic"
    by (simp_all add: ic command_errors_def transit_def audit_view_part Let_def split_def)
qed

lemma audit_views_clean:
  assumes inv: "wallet_inv cfg w cs"
  shows "audit_views cfg cs q (map (view_of w) [0..<cfg_shards cfg]) (map (check_of w) [0..<cfg_shards cfg])
    = \<lparr>audit_errors = [], wallet_total = wallet_supply w,
       in_transit = sum_list (map (transit cfg (parts_of w)) cs), audit_quorum = q\<rparr>"
proof -
  let ?n = "cfg_shards cfg"
  let ?views = "map (view_of w) [0..<?n]" and ?checks = "map (check_of w) [0..<?n]"
  note l = audit_ledger[OF inv]
  have ok: "dict_ok cs" using l(1) by (simp add: ledger_ok_def)
  have "map (total \<circ> v_state) ?views = map (total \<circ> sh_state) (w_shards w)"
    by (rule nth_equalityI) (simp_all add: l(3) view_of_def)
  then have tot: "sum_list (map (total \<circ> v_state) ?views) = wallet_supply w" by (simp add: wallet_supply_def)
  have mv: "sum_list (map (transit cfg (view_part ?views)) cs) = sum_list (map (transit cfg (parts_of w)) cs)"
    by (intro arg_cong[where f = sum_list] map_cong refl audit_views_command(2)[OF l(2)])
  have "concat (map (\<lambda>(i, v). view_errors cfg i v) (enumerate 0 ?views)) = []"
    using audit_view_errors[OF inv] by (auto simp: in_set_enumerate_eq)
  moreover have "concat (map (command_errors cfg (view_part ?views)) cs) = []"
    using audit_command_errors[OF inv] dict_get_mem[OF ok] by (auto simp: audit_views_command(1)[OF l(2)])
  moreover have "concat (map (orphan_errors cfg cs) ?views) = []" using audit_orphans[OF inv] by simp
  moreover have "wallet_supply w + sum_list (map (transit cfg (parts_of w)) cs) = opening_supply cfg"
    using l(1) by (simp add: ledger_ok_def)
  moreover have "\<not> list_ex (\<lambda>(v, _, events, head). events \<noteq> v_seq v \<or> head \<noteq> v_head v) (zip ?views ?checks)"
    by (auto simp: list_ex_iff set_zip view_of_def check_of_def)
  moreover have "list_all fst ?checks" by (simp add: list_all_iff check_of_def)
  ultimately show ?thesis unfolding audit_views_def Let_def tot mv by simp
qed

text \<open>Exchanges that all arrive at once.\<close>

definition undisturbed :: "surroundings \<Rightarrow> bool" where
  "undisturbed env \<longleftrightarrow> (\<forall>k. shard_net env k = Delivered \<and> late env k = [])"

lemma shard_call_undisturbed:
  "undisturbed env \<Longrightarrow> shard_call cfg env k f w = (fst (f w), http_reply (snd (f w)))"
  by (simp add: shard_call_def undisturbed_def deliver_late_def)

lemma collect_read: "\<forall>i\<in>set is. f i w = (w, Inr (g i)) \<Longrightarrow> collect f is w = (w, Inr (map g is))"
  by (induction "is") simp_all

lemma wallet_audit_result:
  assumes inv: "wallet_inv cfg w cs" and env: "undisturbed env" and sync: "wallet_sync cfg (sync_nets env 0) w = (w', Inr q)"
  obtains cs' where "wallet_inv cfg w' cs'"
    "wallet_audit cfg env w = (w', Inr \<lparr>audit_errors = [], wallet_total = wallet_supply w',
       in_transit = sum_list (map (transit cfg (parts_of w')) cs'), audit_quorum = q\<rparr>)"
proof -
  let ?n = "cfg_shards cfg"
  obtain cs' where inv': "wallet_inv cfg w' cs'" using wallet_sync_inv[OF inv sync] by blast
  have v: "collect (\<lambda>i. shard_call cfg env i (fetch_view cfg i)) [0..<?n] w' = (w', Inr (map (view_of w') [0..<?n]))"
    by (rule collect_read) (simp add: shard_call_undisturbed[OF env] audit_fetch[OF inv'])
  have c: "collect (\<lambda>i. shard_call cfg env (?n + i) (fetch_audit cfg i)) [0..<?n] w' = (w', Inr (map (check_of w') [0..<?n]))"
    by (rule collect_read) (simp add: shard_call_undisturbed[OF env] audit_fetch[OF inv'])
  have "zip (map (view_of w') [0..<?n]) (map (check_of w') [0..<?n]) = map (\<lambda>i. (view_of w' i, check_of w' i)) [0..<?n]"
    by (simp add: zip_map_map zip_same_conv_map)
  then have "traverse (check_view cfg) (zip (map (view_of w') [0..<?n]) (map (check_of w') [0..<?n]))
      = Inr (map (\<lambda>_. ()) (zip (map (view_of w') [0..<?n]) (map (check_of w') [0..<?n])))"
    using audit_check_view[OF inv'] by (intro traverse_total) auto
  moreover have "wallet_state w' = Inr cs'" using inv' by (simp add: wallet_inv_def)
  ultimately show thesis using that[OF inv'] audit_views_clean[OF inv', of q]
    by (simp add: wallet_audit_def Let_def sync v c with_state_def)
qed

end
