(* ===== verification/Wallet_Progress.thy ===== *)
theory Wallet_Progress
  imports Wallet_Audit
begin

text \<open>
  Progress of the wallet while nothing fails: the journal reaches its quorum, a participant accepts
  the next action of a transfer, and every step of the coordinator brings some pending transfer
  closer to its end.
\<close>

section \<open>Replication without failures\<close>

definition net_up :: "sync_net \<Rightarrow> bool" where
  "net_up net \<longleftrightarrow> (\<forall>i k. net_of net i k = Delivered) \<and> \<not> net_expired net"

definition fence_of :: "wallet_config \<Rightarrow> fence" where
  "fence_of cfg = \<lparr>epoch = cfg_epoch cfg, leader = cfg_leader cfg\<rparr>"

definition credentials_ok :: "wallet_config \<Rightarrow> bool" where
  "credentials_ok cfg \<longleftrightarrow> 1 \<le> cfg_epoch cfg \<and> cfg_epoch cfg \<le> 1000000000000 \<and> is_identifier (cfg_leader cfg)"

lemma check_fence_of: "credentials_ok cfg \<Longrightarrow> check_fence (cfg_epoch cfg) (cfg_leader cfg) (fence_of cfg) = Inr ()"
  by (simp add: check_fence_def fence_of_def credentials_ok_def)

lemma replica_append_next:
  assumes v: "verify digest rows = Inr h" and p: "holds_prefix rows r" and n: "length (rep_rows r) < length rows"
    and f: "check_fence e l (rep_fence r) = Inr ()"
  shows "replica_append digest (rows ! length (rep_rows r)) e l r
    = (r\<lparr>rep_rows := rep_rows r @ [rows ! length (rep_rows r)]\<rparr>,
       Inr (row_seq (rows ! length (rep_rows r)), row_hash (rows ! length (rep_rows r))))"
proof -
  let ?n = "length (rep_rows r)"
  have pre: "take ?n rows = rep_rows r" using p by (simp add: holds_prefix_def)
  have row: "rows ! ?n = entry digest (Suc ?n) (snd (tail_of (rep_rows r))) (row_event (rows ! ?n))"
    using verify_nth[OF v n] by (simp add: pre)
  have seq: "row_seq (rows ! ?n) = Suc ?n" by (subst row) (simp add: entry_def)
  obtain h' where h': "verify digest (rep_rows r) = Inr h'" using verify_take[OF v, of ?n] by (auto simp: pre)
  have tail: "tail_of (rep_rows r) = (?n, h')" by (rule verify_tail_of[OF h'])
  have "rows ! ?n = entry digest (Suc ?n) h' (row_event (rows ! ?n))" using row by (simp add: tail)
  then show ?thesis unfolding replica_append_def f tail sum.case prod.case Let_def seq by simp
qed

lemma send_rows_all:
  assumes v: "verify digest rows = Inr h" and up: "\<forall>k. net k = Delivered"
  shows "holds_prefix rows r \<Longrightarrow> check_fence e l (rep_fence r) = Inr () \<Longrightarrow>
    send_rows digest e l net k (drop (length (rep_rows r)) rows) r = (r\<lparr>rep_rows := rows\<rparr>, True)"
proof (induction "length rows - length (rep_rows r)" arbitrary: r k)
  case 0
  then have "length (rep_rows r) = length rows" using holds_prefix_length[of rows r] by simp
  then show ?case using 0 by (simp add: holds_prefix_def)
next
  case (Suc d)
  let ?n = "length (rep_rows r)"
  have n: "?n < length rows" using Suc.hyps(2) by simp
  let ?r = "r\<lparr>rep_rows := rep_rows r @ [rows ! ?n]\<rparr>"
  have "holds_prefix rows ?r" using Suc.prems(1) n by (simp add: holds_prefix_def take_Suc_conv_app_nth)
  then have "send_rows digest e l net (Suc k) (drop (Suc ?n) rows) ?r = (r\<lparr>rep_rows := rows\<rparr>, True)"
    using Suc.hyps(1)[of ?r "Suc k"] Suc.hyps(2) Suc.prems(2) by simp
  then show ?case
    using replica_append_next[OF v Suc.prems(1) n Suc.prems(2)] up by (simp add: Cons_nth_drop_Suc[OF n, symmetric])
qed

lemma replicate_to_all:
  assumes v: "verify digest rows = Inr h" and up: "\<forall>k. net k = Delivered"
    and p: "holds_prefix rows r" and f: "check_fence e l (rep_fence r) = Inr ()"
  shows "replicate_to digest e l net rows r = (r\<lparr>rep_rows := rows\<rparr>, True)"
proof -
  let ?n = "length (rep_rows r)"
  have pre: "take ?n rows = rep_rows r" using p by (simp add: holds_prefix_def)
  obtain h' where h': "verify digest (rep_rows r) = Inr h'" using verify_take[OF v, of ?n] by (auto simp: pre)
  have le: "?n \<le> length rows" by (rule holds_prefix_length[OF p])
  have "h' = (if ?n = 0 then no_hash else row_hash (rows ! (?n - 1)))"
  proof (cases "rep_rows r = []")
    case True
    then show ?thesis using h' by (simp add: verify_def)
  next
    case False
    then have "List.last (rep_rows r) = rows ! (?n - 1)" using pre le
      by (metis diff_less last_conv_nth length_greater_0_conv nth_take zero_less_one)
    then show ?thesis using verify_tail_of[OF h'] False by (simp add: tail_of_def)
  qed
  moreover have "net 0 = Delivered" using up by blast
  ultimately show ?thesis using verify_tail_of[OF h'] f le send_rows_all[OF v up p f, of 1]
    by (simp add: replicate_to_def replica_status_def)
qed

lemma journal_sync_up:
  assumes ok: "journal_ok digest j" and up: "net_up net" and f: "\<forall>r\<in>set (j_replicas j). check_fence e l (rep_fence r) = Inr ()"
  shows "journal_sync digest e l net j
    = (j\<lparr>j_replicas := map (\<lambda>r. r\<lparr>rep_rows := j_rows j\<rparr>) (j_replicas j), j_committed := length (j_rows j)\<rparr>, Inr (3, length (j_rows j)))"
proof -
  obtain h where v: "verify digest (j_rows j) = Inr h" using ok by (auto simp: journal_ok_def)
  have "map (\<lambda>(i, r). replicate_to digest e l (net_of net i) (j_rows j) r) (enumerate 0 (j_replicas j))
      = map (\<lambda>(i, r). (r\<lparr>rep_rows := j_rows j\<rparr>, True)) (enumerate 0 (j_replicas j))"
  proof (rule map_cong[OF refl], clarify)
    fix i r assume "(i, r) \<in> set (enumerate 0 (j_replicas j))"
    then have "r \<in> set (j_replicas j)" by (auto simp: in_set_enumerate_eq)
    then show "replicate_to digest e l (net_of net i) (j_rows j) r = (r\<lparr>rep_rows := j_rows j\<rparr>, True)"
      using replicate_to_all[OF v] up f ok by (auto simp: net_up_def journal_ok_def list_all_iff)
  qed
  also have "\<dots> = map (\<lambda>r. (r\<lparr>rep_rows := j_rows j\<rparr>, True)) (map snd (enumerate 0 (j_replicas j)))"
    by (simp only: map_map comp_def split_def)
  finally have res: "map (\<lambda>(i, r). replicate_to digest e l (net_of net i) (j_rows j) r) (enumerate 0 (j_replicas j))
      = map (\<lambda>r. (r\<lparr>rep_rows := j_rows j\<rparr>, True)) (j_replicas j)" by (simp only: map_snd_enumerate)
  have acks: "length (filter snd (map (\<lambda>r. (r\<lparr>rep_rows := j_rows j\<rparr>, True)) (j_replicas j))) = 3"
    using ok by (simp add: journal_ok_def filter_map comp_def)
  show ?thesis unfolding journal_sync_def v sum.case res Let_def acks using up by (simp add: net_up_def comp_def)
qed

section \<open>The coordinator without failures\<close>

definition calm :: "surroundings \<Rightarrow> bool" where
  "calm env \<longleftrightarrow> undisturbed env \<and> (\<forall>k. net_up (sync_nets env k)) \<and>
     float_finite (clock env) \<and> \<not> float_lt (clock env) 0"

text \<open>The shards and the replicas accept the credentials of the coordinator.\<close>

definition led_by :: "wallet_config \<Rightarrow> Wallet \<Rightarrow> bool" where
  "led_by cfg w \<longleftrightarrow>
     credentials_ok cfg \<and> (\<forall>i < cfg_shards cfg. sh_fence (w_shards w ! i) = fence_of cfg) \<and>
     (\<forall>r\<in>set (j_replicas (w_journal w)). rep_fence r = fence_of cfg)"

lemma led_by_replicas:
  "led_by cfg w \<Longrightarrow> \<forall>r\<in>set (j_replicas (w_journal w)). check_fence (cfg_epoch cfg) (cfg_leader cfg) (rep_fence r) = Inr ()"
  by (simp add: led_by_def check_fence_of)

lemma wallet_sync_up:
  assumes inv: "wallet_inv cfg w cs" and led: "led_by cfg w" and up: "net_up net"
  obtains w' q where "wallet_sync cfg net w = (w', Inr q)" "led_by cfg w'"
proof -
  have ok: "journal_ok (fact_digest cfg) (w_journal w)" using inv by (simp add: wallet_inv_def)
  show thesis
    using that led journal_sync_up[OF ok up led_by_replicas[OF led]] by (simp add: wallet_sync_def led_by_def)
qed

lemma append_fact_up:
  assumes inv: "wallet_inv cfg w cs" and led: "led_by cfg w" and up: "net_up n" "net_up m"
    and none: "waiting w = []" and f: "fact_ok cfg (parts_of w) cs f"
  obtains w' cs' where "append_fact cfg n m f w = (w', Inr ())" "wallet_inv cfg w' cs'" "waiting w' = []"
    "only_journal w w'" "project_fact f cs = Inr cs'" "led_by cfg w'"
proof -
  let ?j = "w_journal w" and ?d = "fact_digest cfg"
  have ok: "journal_ok ?d ?j" using inv by (simp add: wallet_inv_def)
  note s1 = journal_sync_up[OF ok up(1) led_by_replicas[OF led]]
  define j1 where "j1 = ?j\<lparr>j_replicas := map (\<lambda>r. r\<lparr>rep_rows := j_rows ?j\<rparr>) (j_replicas ?j), j_committed := length (j_rows ?j)\<rparr>"
  have "journal_ok ?d j1" using wj.sync_keeps[OF ok s1] by (simp add: j1_def)
  then have ok2: "journal_ok ?d (journal_push ?d f j1)" by (rule journal_push_ok) (simp add: j1_def)
  have f2: "\<forall>r\<in>set (j_replicas (journal_push ?d f j1)). rep_fence r = fence_of cfg"
    using led by (auto simp: j1_def journal_push_def led_by_def)
  then have "\<forall>r\<in>set (j_replicas (journal_push ?d f j1)). check_fence (cfg_epoch cfg) (cfg_leader cfg) (rep_fence r) = Inr ()"
    using led by (simp add: led_by_def check_fence_of)
  note s2 = journal_sync_up[OF ok2 up(2) this]
  define j2 where "j2 = fst (journal_sync ?d (cfg_epoch cfg) (cfg_leader cfg) m (journal_push ?d f j1))"
  have "journal_append ?d (cfg_epoch cfg) (cfg_leader cfg) n m f ?j = (j2, Inr (List.last (j_rows j2)))"
    unfolding journal_append_def s1[folded j1_def] j2_def by (simp add: s2)
  then have a: "append_fact cfg n m f w = (w\<lparr>w_journal := j2\<rparr>, Inr ())" by (simp add: append_fact_def)
  have "\<forall>r\<in>set (j_replicas j2). rep_fence r = fence_of cfg" using f2 unfolding j2_def s2 by simp
  then have led2: "led_by cfg (w\<lparr>w_journal := j2\<rparr>)" using led by (simp add: led_by_def)
  show thesis
  proof (rule append_fact_inv[OF inv none f a])
    fix cs' assume "wallet_inv cfg (w\<lparr>w_journal := j2\<rparr>) cs'" "waiting (w\<lparr>w_journal := j2\<rparr>) = []"
      "only_journal w (w\<lparr>w_journal := j2\<rparr>)" "project_fact f cs = Inr cs'"
    then show thesis using that[OF a] led2 by blast
  qed simp
qed

lemma shard_append_fence: "shard_append digest ev s = Inr s' \<Longrightarrow> sh_fence s' = sh_fence s"
  by (auto simp: shard_append_def and_then_Inr_iff simp del: reduce_event.simps)

lemma shard_action_fence: "sh_fence (fst (shard_action digest sha b k r e l s)) = sh_fence s"
proof (cases "fst (shard_action digest sha b k r e l s) = s")
  case False
  then have a: "shard_action digest sha b k r e l s = shard_apply digest b k r s"
    by (auto simp: shard_action_def split: sum.splits)
  have "shard_append digest (Action k r b) s = Inr (fst (shard_apply digest b k r s))"
    using shard_apply_changed[of digest b k r s "fst (shard_apply digest b k r s)" "snd (shard_apply digest b k r s)"] False
    by (simp add: a)
  from shard_append_fence[OF this] show ?thesis by (simp add: a)
qed simp

lemma part_step_moves: "part_step k r n old new d \<Longrightarrow> old \<noteq> Some new"
  by (cases k) (auto simp: part_step_def)

text \<open>An action the status of the participant allows succeeds.\<close>

lemma action_up:
  assumes inv: "wallet_inv cfg w cs" and led: "led_by cfg w" and env: "undisturbed env"
    and rq: "rq = \<lparr>rq_shard = role_index cfg b r, rq_intent = b, rq_kind = k, rq_role = r,
      rq_epoch = cfg_epoch cfg, rq_leader = cfg_leader cfg\<rparr>"
    and ok: "request_ok cfg (parts_of w) cs rq" and allowed: "status_allows k (status_of cfg (parts_of w) b r)"
  obtains w' p d where "action cfg env n (role_index cfg b r) b k r w = (w', Inr p)" "wallet_inv cfg w' cs"
    "waiting w' = waiting w" "w_retries w' = w_retries w" "led_by cfg w'"
    "parts_of w' = set_part rq (part_status p) (parts_of w)"
    "part_step k r (amount b) (status_of cfg (parts_of w) b r) (part_status p) d"
proof -
  let ?i = "role_index cfg b r" and ?w0 = "w\<lparr>w_sent := w_sent w @ [rq]\<rparr>"
  let ?s = "w_shards w ! ?i"
  obtain c where c: "dict_get cs (transaction_id b) = Some c" "cmd_intent c = b" "(r = Local) = is_local cfg b"
      "(k = LocalTransfer) = (r = Local)"
    using ok by (auto simp: request_ok_def rq)
  have i: "?i < cfg_shards cfg" by (rule role_index_less[OF audit_ledger(2)[OF inv]])
  note sok = audit_shard[OF inv i]
  have ci: "check_intent b = Inr ()" using ledger_command(1)[OF audit_ledger(1)[OF inv] c(1)] c(2) by (simp add: command_ok_def)
  have ready: "action_ready (account_hash cfg) b k r (cfg_epoch cfg) (cfg_leader cfg) ?s"
    using ci c(3,4) led i sok(2,3) check_fence_of
    by (auto simp: action_ready_def led_by_def role_account_def role_index_def indices_def is_local_def)
  have old: "\<forall>p\<in>set_option (dict_get (parts (sh_state ?s)) (transaction_id b)). part_intent p = b \<and> part_role p = r"
    using audit_not_mismatched[OF inv c(1), of r] c(2,3) by (auto simp: mismatched_def parts_of_def)
  have st: "map_option part_status (dict_get (parts (sh_state ?s)) (transaction_id b)) = status_of cfg (parts_of w) b r"
    by (simp add: status_of_def parts_of_def)
  obtain s' p d where act: "shard_action (shard_digest cfg) (account_hash cfg) b k r (cfg_epoch cfg) (cfg_leader cfg) ?s = (s', Inr p)"
    and step: "part_step k r (amount b) (status_of cfg (parts_of w) b r) (part_status p) d"
    by (rule shard_action_allowed[OF sok(1) ready old, unfolded st, OF allowed])
  have p: "dict_get (parts (sh_state s')) (transaction_id b) = Some p" "part_intent p = b" "part_role p = r"
    using shard_action_receipt[OF act sok(1)] by simp_all
  define w' where "w' = ?w0\<lparr>w_shards := (w_shards w)[?i := s']\<rparr>"
  have dl: "deliver cfg rq ?w0 = (w', Inr p)" using act by (simp add: deliver_def rq w'_def)
  have inv0: "wallet_inv cfg ?w0 cs" by (rule inv_send[OF inv ok])
  have P0: "parts_of ?w0 = parts_of w" by simp
  have len: "?i < length (w_shards w)" using i audit_ledger(3)[OF inv] by simp
  have now: "parts_of w' ?i (transaction_id b) = Some p" using p len by (simp add: parts_of_def w'_def)
  have parts': "parts_of w' = set_part rq (part_status p) (parts_of w)"
  proof (rule deliver_cases[of cfg ?w0 rq w' "Inr p"])
    show "shards_ok cfg ?w0" using inv0 by (simp add: wallet_inv_def)
    show "rq_shard rq < cfg_shards cfg" using i by (simp add: rq)
    show "deliver cfg rq ?w0 = (w', Inr p)" by (rule dl)
  next
    assume "w' = ?w0"
    then have "status_of cfg (parts_of w) b r = Some (part_status p)" using now by (simp add: status_of_def)
    then show ?thesis using part_step_moves[OF step] by simp
  next
    fix new d' assume new: "parts_of w' = set_part rq new (parts_of ?w0)"
    then have "new = part_status p" using now by (auto simp: set_part_def rq)
    then show ?thesis using new by simp
  qed
  have receipt: "check_receipt p b r = Inr p"
    using p(2,3) ci step c(4) by (auto simp: check_receipt_def part_step_def)
  have a: "action cfg env n ?i b k r w = (w', Inr p)"
    using dl receipt by (simp add: action_def rq[symmetric] shard_call_undisturbed[OF env])
  have "led_by cfg w'"
    using led shard_action_fence[of "shard_digest cfg" "account_hash cfg" b k r "cfg_epoch cfg" "cfg_leader cfg" ?s] act len
    by (auto simp: led_by_def w'_def nth_list_update)
  then show thesis
    using that[OF a action_inv(1,3)[OF inv _ ok a]] parts' step rq by (simp add: w'_def)
qed

section \<open>The distance of a transfer from its end\<close>

fun cross_rank :: "decision option \<Rightarrow> part_status option \<Rightarrow> part_status option \<Rightarrow> int" where
  "cross_rank None left right =
     (if left = Some REJECTED \<or> right = Some REJECTED then 4
      else if left = None then 6 else if right = None then 5 else 4)"
| "cross_rank (Some COMMIT) left right =
     (if left \<noteq> Some CONFIRMED then 3 else if right \<noteq> Some CONFIRMED then 2 else 1)"
| "cross_rank (Some CANCEL) left right =
     (if left \<noteq> Some CANCELED then 3 else if right \<noteq> Some CANCELED then 2 else 1)"

definition rank :: "wallet_config \<Rightarrow> (nat \<Rightarrow> string \<Rightarrow> part option) \<Rightarrow> string \<times> command \<Rightarrow> int" where
  "rank cfg P ic =
     (case ic of (_, c) \<Rightarrow>
       if cmd_status c \<noteq> PENDING then 0
       else if is_local cfg (cmd_intent c) then 1
       else cross_rank (cmd_decision c) (status_of cfg P (cmd_intent c) Source) (status_of cfg P (cmd_intent c) Destination))"

definition wallet_rank :: "wallet_config \<Rightarrow> Wallet \<Rightarrow> commands \<Rightarrow> int" where
  "wallet_rank cfg w cs = sum_list (map (rank cfg (parts_of w)) cs)"

lemma cross_rank_bounds: "1 \<le> cross_rank d left right" "cross_rank d left right \<le> 6"
  by (cases "(d, left, right)" rule: cross_rank.cases; simp)+

lemma rank_bounds: "0 \<le> rank cfg P ic" "rank cfg P ic \<le> 6" "cmd_status (snd ic) = PENDING \<longrightarrow> 1 \<le> rank cfg P ic"
proof -
  obtain i c where ic: "ic = (i, c)" by (cases ic)
  show "0 \<le> rank cfg P ic" "rank cfg P ic \<le> 6" "cmd_status (snd ic) = PENDING \<longrightarrow> 1 \<le> rank cfg P ic"
    using cross_rank_bounds[of "cmd_decision c" "status_of cfg P (cmd_intent c) Source" "status_of cfg P (cmd_intent c) Destination"]
    by (simp_all add: rank_def ic)
qed

lemma wallet_rank_nonneg: "0 \<le> wallet_rank cfg w cs"
  unfolding wallet_rank_def by (rule sum_list_nonneg) (auto simp: rank_bounds)

lemma wallet_rank_le: "wallet_rank cfg w cs \<le> 6 * int (length cs)"
proof (induction cs)
  case (Cons ic cs)
  then show ?case using rank_bounds(2)[of cfg "parts_of w" ic] by (simp add: wallet_rank_def)
qed (simp add: wallet_rank_def)

lemma wallet_rank_zero:
  assumes "wallet_rank cfg w cs = 0" "(i, c) \<in> set cs"
  shows "cmd_status c \<noteq> PENDING"
proof
  assume "cmd_status c = PENDING"
  then have "1 \<le> rank cfg (parts_of w) (i, c)" using rank_bounds(3)[of "(i, c)"] by simp
  moreover have "rank cfg (parts_of w) (i, c) \<le> wallet_rank cfg w cs"
    unfolding wallet_rank_def using assms(2) by (intro sum_list_member) (simp_all add: rank_bounds)
  ultimately show False using assms(1) by simp
qed

lemma wallet_rank_terminal:
  assumes "\<forall>(i, c)\<in>set cs. cmd_status c \<noteq> PENDING"
  shows "wallet_rank cfg w cs = 0"
proof -
  have "map (rank cfg (parts_of w)) cs = map (\<lambda>_. 0) cs" using assms by (auto simp: rank_def)
  then show ?thesis by (simp only: wallet_rank_def sum_list_0)
qed

text \<open>What a successful attempt leaves.\<close>

definition advanced :: "wallet_config \<Rightarrow> Wallet \<Rightarrow> commands \<Rightarrow> Wallet \<times> 'a result \<Rightarrow> bool" where
  "advanced cfg w cs out \<longleftrightarrow>
     (\<exists>w' x cs'. out = (w', Inr x) \<and> wallet_inv cfg w' cs' \<and> waiting w' = [] \<and> led_by cfg w' \<and>
        w_retries w' = w_retries w \<and> commands_le cs cs' \<and> wallet_rank cfg w' cs' < wallet_rank cfg w cs)"

lemma append_advances:
  assumes inv: "wallet_inv cfg w cs" and led: "led_by cfg w" and env: "calm env" and none: "waiting w = []"
    and f: "fact_ok cfg (parts_of w) cs f" and c: "dict_get cs i = Some c"
    and pr: "project_fact f cs = Inr (dict_set i c' cs)" and rk: "rank cfg (parts_of w) (i, c') < rank cfg (parts_of w) (i, c)"
  shows "advanced cfg w cs (append_fact cfg (sync_nets env a) (sync_nets env b) f w)"
proof -
  have up: "net_up (sync_nets env k)" for k using env by (simp add: calm_def)
  obtain w' cs' where w': "append_fact cfg (sync_nets env a) (sync_nets env b) f w = (w', Inr ())" "wallet_inv cfg w' cs'"
      "waiting w' = []" "only_journal w w'" "project_fact f cs = Inr cs'" "led_by cfg w'"
    by (rule append_fact_up[OF inv led up up none f])
  have "wallet_rank cfg w' cs' < wallet_rank cfg w cs"
  proof -
    have "cs' = dict_set i c' cs" using w'(5) pr by simp
    then show ?thesis using c rk
      by (simp only: wallet_rank_def only_journal_simps[OF w'(4)] sum_list_map_set option.case)
  qed
  then show ?thesis using w' only_journal_simps(3)[OF w'(4)] project_fact_le unfolding advanced_def by blast
qed

lemma decide_advances:
  assumes inv: "wallet_inv cfg w cs" and led: "led_by cfg w" and env: "calm env" and none: "waiting w = []"
    and c: "pending_cross cfg cs i None c" and f: "fact_ok cfg (parts_of w) cs (Decision i d)"
    and four: "4 \<le> rank cfg (parts_of w) (i, c)"
  shows "advanced cfg w cs (append_fact cfg (sync_nets env a) (sync_nets env b) (Decision i d) w)"
proof (rule append_advances[OF inv led env none f])
  show "dict_get cs i = Some c" using c by (simp add: pending_cross_def)
  show "project_fact (Decision i d) cs = Inr (dict_set i (c\<lparr>cmd_decision := Some d\<rparr>) cs)"
    using c by (simp add: pending_cross_def project_decision_def)
  show "rank cfg (parts_of w) (i, c\<lparr>cmd_decision := Some d\<rparr>) < rank cfg (parts_of w) (i, c)"
    using four c by (cases d) (auto simp: rank_def pending_cross_def)
qed

lemma complete_advances:
  assumes inv: "wallet_inv cfg w cs" and led: "led_by cfg w" and env: "calm env" and none: "waiting w = []"
    and f: "fact_ok cfg (parts_of w) cs (Completed i s)"
  shows "advanced cfg w cs (append_fact cfg (sync_nets env a) (sync_nets env b) (Completed i s) w)"
proof -
  obtain c where c: "dict_get cs i = Some c" "cmd_status c = PENDING" "s \<noteq> PENDING"
    using f by (cases s) (auto simp: pending_cross_def completes_local_def)
  obtain cs' where "project_fact (Completed i s) cs = Inr cs'"
    using fact_commits[OF audit_ledger(1,2)[OF inv] f] by blast
  then have p: "project_fact (Completed i s) cs = Inr (dict_set i (c\<lparr>cmd_status := s\<rparr>) cs)"
    using c by (auto simp: project_completed_def split: if_splits)
  show ?thesis
    by (rule append_advances[OF inv led env none f c(1) p])
       (use rank_bounds(3)[of "(i, c)" cfg "parts_of w"] c in \<open>simp add: rank_def\<close>)
qed

text \<open>An action brings its transfer closer to the end.\<close>

lemma rank_set_part_other:
  "transaction_id (cmd_intent c) \<noteq> transaction_id (rq_intent rq) \<Longrightarrow>
   rank cfg (set_part rq s P) (i, c) = rank cfg P (i, c)"
  by (simp add: rank_def status_of_set_part_other)

lemma act_advances:
  assumes inv: "wallet_inv cfg w cs" and led: "led_by cfg w" and env: "calm env" and none: "waiting w = []"
    and c: "pending_cross cfg cs i (cmd_decision c) c"
    and mv: "move_ok cfg w cs (cmd_intent c) (Act k r)" and r: "r \<noteq> Local"
    and allowed: "status_allows k (status_of cfg (parts_of w) (cmd_intent c) r)"
    and rk: "\<And>new d. part_step k r (amount (cmd_intent c)) (status_of cfg (parts_of w) (cmd_intent c) r) new d \<Longrightarrow>
      cross_rank (cmd_decision c)
        (if r = Source then Some new else status_of cfg (parts_of w) (cmd_intent c) Source)
        (if r = Destination then Some new else status_of cfg (parts_of w) (cmd_intent c) Destination)
      < cross_rank (cmd_decision c) (status_of cfg (parts_of w) (cmd_intent c) Source)
          (status_of cfg (parts_of w) (cmd_intent c) Destination)"
  shows "advanced cfg w cs (run_move cfg env (cmd_intent c) (Act k r) w)"
proof -
  let ?b = "cmd_intent c" and ?P = "parts_of w"
  let ?rq = "\<lparr>rq_shard = role_index cfg ?b r, rq_intent = ?b, rq_kind = k, rq_role = r,
      rq_epoch = cfg_epoch cfg, rq_leader = cfg_leader cfg\<rparr>"
  have rq: "request_ok cfg ?P cs ?rq" using mv by (simp add: move_ok_def)
  have und: "undisturbed env" using env by (simp add: calm_def)
  obtain w' p d where w': "action cfg env 2 (role_index cfg ?b r) ?b k r w = (w', Inr p)" "wallet_inv cfg w' cs"
      "waiting w' = waiting w" "w_retries w' = w_retries w" "led_by cfg w'"
      "parts_of w' = set_part ?rq (part_status p) ?P"
      "part_step k r (amount ?b) (status_of cfg ?P ?b r) (part_status p) d"
    by (rule action_up[OF inv led und refl rq allowed])
  have get: "dict_get cs i = Some c" and x: "\<not> is_local cfg ?b" "cmd_status c = PENDING"
    using c by (simp_all add: pending_cross_def)
  note l = audit_ledger(1)[OF inv]
  have id: "transaction_id ?b = i" by (rule ledger_command(2)[OF l get])
  have ok: "dict_ok cs" using l by (simp add: ledger_ok_def)
  have "\<forall>(j, c')\<in>set cs. j \<noteq> i \<longrightarrow> rank cfg (parts_of w') (j, c') = rank cfg ?P (j, c')"
  proof (clarify)
    fix j c' assume "(j, c') \<in> set cs" "j \<noteq> i"
    then have "transaction_id (cmd_intent c') \<noteq> i" using ledger_command(2)[OF l] dict_get_mem[OF ok] by metis
    then show "rank cfg (parts_of w') (j, c') = rank cfg ?P (j, c')" by (simp add: w'(6) rank_set_part_other id)
  qed
  from sum_list_map_change[OF ok get this]
  have "wallet_rank cfg w' cs = wallet_rank cfg w cs + rank cfg (parts_of w') (i, c) - rank cfg ?P (i, c)"
    by (simp add: wallet_rank_def)
  moreover have "rank cfg (parts_of w') (i, c) < rank cfg ?P (i, c)"
    using rk[OF w'(7)] status_of_set_part[OF rq, of Source "part_status p"]
      status_of_set_part[OF rq, of Destination "part_status p"] x r
    by (auto simp: rank_def w'(6) split: if_splits)
  ultimately have "wallet_rank cfg w' cs < wallet_rank cfg w cs" by simp
  moreover have "run_move cfg env ?b (Act k r) w = (w', Inr ())" using w'(1) r by (simp add: role_index_def)
  ultimately show ?thesis using w'(2-5) none unfolding advanced_def by auto
qed

text \<open>The next move of a transfer always helps it.\<close>

definition helps :: "string \<Rightarrow> decision option \<Rightarrow> part_status option \<Rightarrow> part_status option \<Rightarrow> move \<Rightarrow> bool" where
  "helps i d L R mv \<longleftrightarrow>
     (case mv of
        Act k r \<Rightarrow> r \<noteq> Local \<and> status_allows k (if r = Source then L else R) \<and>
          (\<forall>n new \<delta>. part_step k r n (if r = Source then L else R) new \<delta> \<longrightarrow>
             cross_rank d (if r = Source then Some new else L) (if r = Destination then Some new else R) < cross_rank d L R)
      | Append (Decision j _) \<Rightarrow> j = i \<and> d = None \<and> 4 \<le> cross_rank d L R
      | Append (Completed j _) \<Rightarrow> j = i
      | _ \<Rightarrow> False)"

lemma next_move_helps:
  assumes "cross_ok d (map_option part_status left) (map_option part_status right)"
  shows "helps i d (map_option part_status left) (map_option part_status right) (next_move i d left right)"
proof -
  consider "d = None" | "d = Some COMMIT" | "d = Some CANCEL" by (metis not_None_eq decision.exhaust)
  then show ?thesis
    using assms
    by cases (cases left; cases right; auto simp: next_move_def helps_def has_status_def status_allows_def part_step_def)+
qed

lemma move_advances:
  assumes inv: "wallet_inv cfg w cs" and led: "led_by cfg w" and env: "calm env" and none: "waiting w = []"
    and c: "pending_cross cfg cs i (cmd_decision c) c"
    and left: "left = parts_of w (role_index cfg (cmd_intent c) Source) i"
    and right: "right = parts_of w (role_index cfg (cmd_intent c) Destination) i"
  shows "advanced cfg w cs (run_move cfg env (cmd_intent c) (next_move i (cmd_decision c) left right) w)"
proof -
  let ?b = "cmd_intent c" and ?P = "parts_of w" and ?mv = "next_move i (cmd_decision c) left right"
  let ?L = "status_of cfg ?P ?b Source" and ?R = "status_of cfg ?P ?b Destination"
  have get: "dict_get cs i = Some c" and x: "\<not> is_local cfg ?b" and pend: "cmd_status c = PENDING"
    using c by (simp_all add: pending_cross_def)
  note l = ledger_command[OF audit_ledger(1)[OF inv] get]
  have "map_option part_status left = ?L" "map_option part_status right = ?R"
    by (simp_all add: status_of_def left right l(2))
  then have helps: "helps i (cmd_decision c) ?L ?R ?mv"
    using next_move_helps[of "cmd_decision c" left right i] command_cross[OF l(1) x] by simp
  have mv: "move_ok cfg w cs ?b ?mv" by (rule next_move_ok[OF inv c left parts_grow_refl right])
  have rk: "rank cfg ?P (i, c) = cross_rank (cmd_decision c) ?L ?R" using pend x by (simp add: rank_def)
  show ?thesis
  proof (cases ?mv)
    case (Act k r)
    then show ?thesis using act_advances[OF inv led env none c, of k r] mv helps
      by (cases r) (auto simp: helps_def)
  next
    case (Append f)
    then show ?thesis
      using decide_advances[OF inv led env none, of i c] complete_advances[OF inv led env none] c mv helps rk
      by (cases f) (auto simp: helps_def move_ok_def)
  next
    case (Fail e)
    then show ?thesis using helps by (simp add: helps_def)
  qed
qed

lemma read_part_up:
  assumes inv: "wallet_inv cfg w cs" and env: "undisturbed env" and c: "dict_get cs i = Some c"
    and r: "(r = Local) = is_local cfg (cmd_intent c)"
  shows "read_part cfg env k (role_index cfg (cmd_intent c) r) (cmd_intent c) r w
    = (w, Inr (parts_of w (role_index cfg (cmd_intent c) r) i))"
proof -
  let ?b = "cmd_intent c" and ?i = "role_index cfg (cmd_intent c) r"
  note l = ledger_command[OF audit_ledger(1)[OF inv] c]
  have ci: "check_intent ?b = Inr ()" using l(1) by (simp add: command_ok_def)
  then have "is_identifier i" using l(2) by (auto simp: result_simps)
  then have p: "participant i (w_shards w ! ?i) = Inr (parts_of w ?i i)" by (simp add: participant_def parts_of_def)
  have "check_receipt p ?b r = Inr p" if "parts_of w ?i i = Some p" for p
  proof -
    have "part_intent p = ?b" "part_role p = r" using audit_not_mismatched[OF inv c r] that by (auto simp: mismatched_def)
    moreover have "part_status p \<in> {CONFIRMED, REJECTED}" if "r = Local"
      using command_local[OF l(1)] r that \<open>parts_of w ?i i = Some p\<close> l(2) by (simp add: status_of_def)
    ultimately show ?thesis using ci by (auto simp: check_receipt_def)
  qed
  then show ?thesis
    by (simp add: read_part_def shard_call_undisturbed[OF env] l(2) p split: option.split)
qed

lemma local_advances:
  assumes inv: "wallet_inv cfg w cs" and led: "led_by cfg w" and env: "calm env" and none: "waiting w = []"
    and c: "dict_get cs i = Some c" "cmd_status c = PENDING" "is_local cfg (cmd_intent c)"
    and left: "left = parts_of w (fst (indices cfg (cmd_intent c))) i"
  shows "advanced cfg w cs (advance_local cfg env i (cmd_intent c) left w)"
proof (cases left)
  case (Some p)
  then show ?thesis using complete_advances[OF inv led env none local_fact_ok[OF inv c]] left
    by (simp add: advance_local_def)
next
  case None
  let ?b = "cmd_intent c" and ?k = "fst (indices cfg (cmd_intent c))"
  let ?rq = "\<lparr>rq_shard = role_index cfg ?b Local, rq_intent = ?b, rq_kind = LocalTransfer, rq_role = Local,
      rq_epoch = cfg_epoch cfg, rq_leader = cfg_leader cfg\<rparr>"
  note l = ledger_command[OF audit_ledger(1)[OF inv] c(1)]
  have rq: "request_ok cfg (parts_of w) cs ?rq" using c l(2) by (simp add: request_ok_def)
  have al: "status_allows LocalTransfer (status_of cfg (parts_of w) ?b Local)"
    using None left l(2) by (simp add: status_allows_def status_of_def role_index_def)
  have und: "undisturbed env" using env by (simp add: calm_def)
  obtain w1 p d where w1: "action cfg env 2 (role_index cfg ?b Local) ?b LocalTransfer Local w = (w1, Inr p)"
      "wallet_inv cfg w1 cs" "waiting w1 = waiting w" "w_retries w1 = w_retries w" "led_by cfg w1"
      "parts_of w1 = set_part ?rq (part_status p) (parts_of w)"
    by (rule action_up[OF inv led und refl rq al])
  have "rank cfg (parts_of w1) (j, c') = rank cfg (parts_of w) (j, c')" if "(j, c') \<in> set cs" for j c'
  proof (cases "j = i")
    case True
    then have "c' = c" using that c(1) audit_ledger(1)[OF inv] by (auto simp: ledger_ok_def dict_get_mem)
    then show ?thesis using c by (simp add: rank_def)
  next
    case False
    have "dict_get cs j = Some c'" using that audit_ledger(1)[OF inv] by (simp add: ledger_ok_def dict_get_mem)
    then have "transaction_id (cmd_intent c') \<noteq> transaction_id ?b"
      using ledger_command(2)[OF audit_ledger(1)[OF inv]] l(2) False by blast
    then show ?thesis by (simp add: w1(6) rank_set_part_other)
  qed
  then have "map (rank cfg (parts_of w1)) cs = map (rank cfg (parts_of w)) cs" by (intro map_cong) auto
  then have same: "wallet_rank cfg w1 cs = wallet_rank cfg w cs" by (simp only: wallet_rank_def)
  have "parts_of w1 ?k i = Some p" using action_inv(5)[OF inv refl rq w1(1)] l(2) by (simp add: role_index_def)
  from complete_advances[OF w1(2,5) env _ local_fact_ok[OF w1(2) c this]] w1(3) none
  have "advanced cfg w1 cs (append_fact cfg (sync_nets env 1) (sync_nets env 2)
      (Completed i (if part_status p = CONFIRMED then SUCCEEDED else T_REJECTED)) w1)" by simp
  then show ?thesis using same w1(1,4) None unfolding advanced_def by (simp add: advance_local_def role_index_def)
qed

lemma advance_advances:
  assumes inv: "wallet_inv cfg w cs" and led: "led_by cfg w" and env: "calm env" and none: "waiting w = []"
    and c: "dict_get cs i = Some c" "cmd_status c = PENDING"
  shows "advanced cfg w cs (advance cfg env i c w)"
proof -
  let ?b = "cmd_intent c"
  obtain src dst where ix: "indices cfg ?b = (src, dst)" by (cases "indices cfg ?b")
  have und: "undisturbed env" using env by (simp add: calm_def)
  note rd = read_part_up[OF inv und c(1)]
  show ?thesis
  proof (cases "src = dst")
    case True
    then have loc: "is_local cfg ?b" by (simp add: is_local_def ix)
    then show ?thesis using rd[of Local 0] local_advances[OF inv led env none c loc refl] True
      by (simp add: advance_def ix role_index_def)
  next
    case False
    then have x: "\<not> is_local cfg ?b" by (simp add: is_local_def ix)
    then have "pending_cross cfg cs i (cmd_decision c) c" using c by (simp add: pending_cross_def)
    from move_advances[OF inv led env none this refl refl] show ?thesis
      using rd[of Source 0] rd[of Destination 1] False x by (simp add: advance_def ix role_index_def)
  qed
qed

section \<open>Steps\<close>

lemma has_pending_waiting: "has_pending (w_journal w) \<longleftrightarrow> waiting w \<noteq> []"
  by (auto simp: has_pending_def waiting_def)

lemma set_tl_take: "set xs \<subseteq> set (tl xs) \<union> set (take 1 xs)"
  by (cases xs) auto

lemma find_ready:
  assumes "find (ready now []) (rotate_after cur cs) = None" "(i, c) \<in> set cs"
  shows "cmd_status c \<noteq> PENDING"
proof -
  have "set cs \<subseteq> set (rotate_after cur cs)"
  proof (cases cur)
    case (Some k)
    let ?t = "takeWhile (\<lambda>ic. fst ic \<noteq> k) cs" and ?d = "dropWhile (\<lambda>ic. fst ic \<noteq> k) cs"
    have "set cs = set ?t \<union> set ?d" using takeWhile_dropWhile_id[of "\<lambda>ic. fst ic \<noteq> k" cs] by (metis set_append)
    moreover have "set ?d \<subseteq> set (tl ?d) \<union> set (take 1 ?d)" by (rule set_tl_take)
    moreover have "set (rotate_after cur cs) = (if dict_get cs k = None then set cs else set (tl ?d) \<union> set ?t \<union> set (take 1 ?d))"
      using Some by (simp add: Let_def Un_assoc)
    ultimately show ?thesis by (cases "dict_get cs k = None") auto
  qed simp
  then show ?thesis using assms by (auto simp: find_None_iff ready_def)
qed

text \<open>A step of a calm wallet: it advances some transfer, or every transfer has ended.\<close>

definition settled :: "wallet_config \<Rightarrow> Wallet \<Rightarrow> commands \<Rightarrow> bool" where
  "settled cfg w cs \<longleftrightarrow> wallet_inv cfg w cs \<and> led_by cfg w \<and> w_retries w = []"

lemma led_by_bookkeeping [simp]:
  "led_by cfg (w\<lparr>w_retries := x\<rparr>) = led_by cfg w" "led_by cfg (w\<lparr>w_cursor := y\<rparr>) = led_by cfg w"
  "wallet_rank cfg (w\<lparr>w_retries := x\<rparr>) cs = wallet_rank cfg w cs" "wallet_rank cfg (w\<lparr>w_cursor := y\<rparr>) cs = wallet_rank cfg w cs"
  by (simp_all add: led_by_def wallet_rank_def)

lemma attempt_up:
  assumes s: "settled cfg w cs" and env: "calm env" and none: "waiting w = []"
    and c: "dict_get cs i = Some c" "cmd_status c = PENDING"
  obtains w' cs' where "attempt cfg env i c w = (w', Inr (Progress i))" "settled cfg w' cs'" "waiting w' = []"
    "wallet_rank cfg w' cs' < wallet_rank cfg w cs" "commands_le cs cs'"
proof -
  let ?w = "w\<lparr>w_cursor := Some i\<rparr>"
  have "advanced cfg ?w cs (advance cfg env i c ?w)"
    using s none by (intro advance_advances[OF _ _ env _ c]) (simp_all add: settled_def)
  then obtain w' x cs' where "advance cfg env i c ?w = (w', Inr x)" "wallet_inv cfg w' cs'" "waiting w' = []" "led_by cfg w'"
      "w_retries w' = []" "wallet_rank cfg w' cs' < wallet_rank cfg w cs" "commands_le cs cs'"
    using s unfolding advanced_def settled_def by auto
  then show thesis by (intro that[of "w'\<lparr>w_retries := []\<rparr>" cs']) (simp_all add: attempt_def settled_def)
qed

lemma step_up:
  assumes s: "settled cfg w cs" and env: "calm env"
  obtains w' cs' where "fst (step cfg env w) = w'" "settled cfg w' cs'" "waiting w' = []" "commands_le cs cs'"
    "waiting w = [] \<longrightarrow> wallet_rank cfg w' cs' < wallet_rank cfg w cs \<or> wallet_rank cfg w' cs' = 0"
proof -
  have inv: "wallet_inv cfg w cs" and led: "led_by cfg w" and ret: "w_retries w = []" using s by (simp_all add: settled_def)
  have state: "wallet_state w = Inr cs" using inv by (simp add: wallet_inv_def)
  note zero = wallet_rank_terminal
  show thesis
  proof (cases "waiting w = [] \<and> \<not> list_ex (\<lambda>(_, c). cmd_status c = PENDING) cs")
    case True
    then have "step cfg env w = (w, Inr Idle)" by (simp add: step_def with_state_def state has_pending_waiting)
    moreover have "wallet_rank cfg w cs = 0" using True by (intro zero) (auto simp: list_ex_iff)
    ultimately show thesis using that[of w cs] s True by simp
  next
    case False
    have up: "net_up (sync_nets env 0)" using env by (simp add: calm_def)
    obtain w1 q where w1: "wallet_sync cfg (sync_nets env 0) w = (w1, Inr q)" "led_by cfg w1"
      by (rule wallet_sync_up[OF inv led up])
    obtain cs1 where cs1: "wallet_inv cfg w1 cs1" "waiting w1 = []" "only_journal w w1" "waiting w = [] \<longrightarrow> cs1 = cs"
        "commands_le cs cs1"
      using wallet_sync_inv[OF inv w1(1)] by blast
    have s1: "settled cfg w1 cs1" using cs1 w1(2) ret only_journal_simps(3)[OF cs1(3)] by (simp add: settled_def)
    have rk: "wallet_rank cfg w1 ds = wallet_rank cfg w ds" for ds by (simp add: wallet_rank_def only_journal_simps(5)[OF cs1(3)])
    have st: "step cfg env w = step_ready cfg env w1 cs1"
      using False w1(1) cs1(1) env
      by (auto simp: step_def with_state_def state has_pending_waiting step_synced_def calm_def wallet_inv_def)
    show thesis
    proof (cases "find (ready (clock env) (w_retries w1)) (rotate_after (w_cursor w1) cs1)")
      case None
      then have "wallet_rank cfg w1 cs1 = 0" using find_ready s1 by (intro zero) (auto simp: settled_def)
      then show thesis using that[of w1 cs1] s1 cs1(2,5) None st by (simp add: step_ready_def)
    next
      case (Some ic)
      obtain i c where ic: "ic = (i, c)" by (cases ic)
      have "(i, c) \<in> set cs1" "cmd_status c = PENDING"
        using find_SomeD[OF Some] rotate_after_set[of "w_cursor w1" cs1] by (auto simp: ic ready_def)
      then have c: "dict_get cs1 i = Some c" "cmd_status c = PENDING"
        using audit_ledger(1)[OF cs1(1)] by (auto simp: ledger_ok_def dict_get_mem)
      obtain w' cs' where w': "attempt cfg env i c w1 = (w', Inr (Progress i))" "settled cfg w' cs'" "waiting w' = []"
          "wallet_rank cfg w' cs' < wallet_rank cfg w1 cs1" "commands_le cs1 cs'"
        by (rule attempt_up[OF s1 env cs1(2) c])
      then show thesis using that[of w' cs'] st Some ic cs1(4) rk commands_le_trans[OF cs1(5) w'(5)]
        by (auto simp: step_ready_def)
    qed
  qed
qed

fun steps :: "wallet_config \<Rightarrow> surroundings \<Rightarrow> nat \<Rightarrow> Wallet \<Rightarrow> Wallet" where
  "steps cfg env 0 w = w"
| "steps cfg env (Suc n) w = steps cfg env n (fst (step cfg env w))"

lemma steps_finish:
  assumes "calm env"
  shows "settled cfg w cs \<Longrightarrow> waiting w = [] \<Longrightarrow> wallet_rank cfg w cs \<le> int n \<Longrightarrow>
    \<exists>cs'. settled cfg (steps cfg env n w) cs' \<and> wallet_rank cfg (steps cfg env n w) cs' = 0 \<and> commands_le cs cs'"
proof (induction n arbitrary: w cs)
  case 0
  then show ?case using wallet_rank_nonneg[of cfg w cs] by auto
next
  case (Suc n)
  obtain w' cs' where w': "fst (step cfg env w) = w'" "settled cfg w' cs'" "waiting w' = []" "commands_le cs cs'"
      "waiting w = [] \<longrightarrow> wallet_rank cfg w' cs' < wallet_rank cfg w cs \<or> wallet_rank cfg w' cs' = 0"
    by (rule step_up[OF Suc.prems(1) assms])
  have "wallet_rank cfg w' cs' \<le> int n" using Suc.prems(2,3) w'(5) by auto
  from Suc.IH[OF w'(2,3) this]
  show ?case using w'(1,4) commands_le_trans by fastforce
qed

lemma steps_complete:
  assumes s: "settled cfg w cs" and env: "calm env"
  obtains cs' where "wallet_state (steps cfg env 6001 w) = Inr cs'" "\<forall>(i, c)\<in>set cs'. cmd_status c \<noteq> PENDING"
    "commands_le cs cs'"
proof -
  obtain w' cs' where w': "fst (step cfg env w) = w'" "settled cfg w' cs'" "waiting w' = []" "commands_le cs cs'"
    by (rule step_up[OF s env])
  have "length cs' \<le> 1000" using w'(2) audit_ledger(1)[of cfg w' cs'] by (simp add: settled_def ledger_ok_def)
  then have "wallet_rank cfg w' cs' \<le> int 6000" using wallet_rank_le[of cfg w' cs'] by simp
  from steps_finish[OF env w'(2,3) this]
  obtain ds where "settled cfg (steps cfg env 6000 w') ds" "wallet_rank cfg (steps cfg env 6000 w') ds = 0"
    "commands_le cs' ds" by blast
  moreover have "steps cfg env 6001 w = steps cfg env 6000 w'"
    using steps.simps(2)[of cfg env 6000 w] w'(1) by simp
  moreover from calculation have "\<forall>(i, c)\<in>set ds. cmd_status c \<noteq> PENDING" using wallet_rank_zero by blast
  ultimately show thesis using that[of ds] commands_le_trans[OF w'(4)] by (simp add: settled_def wallet_inv_def)
qed

end
