(* ===== verification/Wallet_Theorems.thy ===== *)
theory Wallet_Theorems
  imports Wallet_Progress
begin

text \<open>
  The properties of the digital wallet, stated over every run of the coordinator, its shards and its
  journal replicas, and over every run of a single shard.
\<close>

section \<open>A small wallet\<close>

text \<open>Two accounts on two shards and one transfer, on which the properties are evaluated.\<close>

definition small_cfg :: wallet_config where
  "small_cfg = \<lparr>cfg_accounts = [(''a'', ''ann'', 100), (''b'', ''ben'', 50)], cfg_shards = 2, cfg_epoch = 1,
     cfg_leader = ''c'', account_hash = (\<lambda>a. if a = ''a'' then 0 else 1), shard_digest = (\<lambda>_ _ _. ''s''),
     fact_digest = (\<lambda>_ _ _. ''f''), retry_at = (\<lambda>t _. t)\<rparr>"

definition calm_env :: surroundings where
  "calm_env = \<lparr>shard_net = (\<lambda>_. Delivered), late = (\<lambda>_. []),
     sync_nets = (\<lambda>_. \<lparr>net_of = (\<lambda>_ _. Delivered), net_expired = False\<rparr>), clock = 0\<rparr>"

definition small_body :: json where
  "small_body = JDict [(''transaction_id'', JStr ''t''), (''from_account'', JStr ''a''), (''to_account'', JStr ''b''),
     (''amount'', JInt 30), (''currency'', JStr ''USD'')]"

definition small_start :: Wallet where
  "small_start = (case wallet_start small_cfg of Inr w \<Rightarrow> w | Inl _ \<Rightarrow>
     \<lparr>w_shards = [], w_journal = \<lparr>j_rows = [], j_committed = 0, j_replicas = []\<rparr>, w_retries = [], w_cursor = None, w_sent = []\<rparr>)"

definition small_created :: Wallet where
  "small_created = fst (create small_cfg calm_env small_body ''ann'' small_start)"

text \<open>After four steps the source has confirmed and the destination has not.\<close>

definition small_half :: Wallet where
  "small_half = steps small_cfg calm_env 4 small_created"

lemma small_leader: "as_leader 1 ''c'' small_cfg = small_cfg"
  by (simp add: as_leader_def small_cfg_def)

lemma small_accounts: "dict_ok (cfg_accounts small_cfg)"
  by (simp add: dict_ok_def small_cfg_def)

lemma run_steps: "wallet_run cfg w \<Longrightarrow> wallet_run cfg (steps (as_leader e l cfg) env n w)"
  by (induction n arbitrary: w) (simp_all add: wallet_run.stepped)

lemma small_started: "wallet_start small_cfg = Inr small_start"
  by code_simp

lemma small_runs: "wallet_run small_cfg small_created" "wallet_run small_cfg small_half"
proof -
  show c: "wallet_run small_cfg small_created"
    using wallet_run.created[OF wallet_run.started[OF small_started], of 1 "''c''" calm_env small_body "''ann''"]
    by (simp add: small_created_def small_leader)
  show "wallet_run small_cfg small_half"
    using run_steps[OF c, of 1 "''c''" calm_env 4] by (simp add: small_half_def small_leader)
qed

lemma calm_env_calm: "calm calm_env" "undisturbed calm_env"
proof -
  have "float_finite 0 \<and> \<not> float_lt 0 0" by code_simp
  then show "calm calm_env" "undisturbed calm_env" by (simp_all add: calm_def undisturbed_def net_up_def calm_env_def)
qed

section \<open>Money\<close>

text \<open>
  C2.  In every state of every run of the wallet, with requests lost, delivered late or more than
  once, journal rows waiting for their quorum, leaders fenced and processes restarted, the facts of
  the journal project to a state of the commands, the balances of all shards and the money in
  transit between them sum to the opening supply, no balance is negative, and what an account holds
  is exactly the sum of the transfers prepared from it.
\<close>

theorem wallet_conserves_money:
  assumes "dict_ok (cfg_accounts cfg)" and "wallet_run cfg w"
  shows "\<exists>cs. wallet_state w = Inr cs \<and>
    wallet_supply w + sum_list (map (transit cfg (parts_of w)) cs) = opening_supply cfg \<and>
    (\<forall>s\<in>set (w_shards w). \<forall>a b. dict_get (accounts (sh_state s)) a = Some b \<longrightarrow>
       0 \<le> available b \<and> 0 \<le> held b \<and> held b = dict_sum (holds a) (parts (sh_state s)))"
proof -
  obtain cs where inv: "wallet_inv cfg w cs" using wallet_run_inv[OF assms(2,1)] by blast
  have "proj_ok (sh_state s)" if "s \<in> set (w_shards w)" for s
    using that audit_shard(1)[OF inv] audit_ledger(3)[OF inv] by (auto simp: in_set_conv_nth shard_ok_def)
  then have "\<forall>s\<in>set (w_shards w). \<forall>a b. dict_get (accounts (sh_state s)) a = Some b \<longrightarrow>
      0 \<le> available b \<and> 0 \<le> held b \<and> held b = dict_sum (holds a) (parts (sh_state s))"
    using balance_nonnegative unfolding proj_ok_def by blast
  moreover have "wallet_state w = Inr cs"
    "wallet_supply w + sum_list (map (transit cfg (parts_of w)) cs) = opening_supply cfg"
    using inv by (simp_all add: wallet_inv_def ledger_ok_def)
  ultimately show ?thesis by blast
qed

theorem wallet_conserves_money_witness:
  "wallet_supply small_half = 120 \<and> (\<exists>cs. wallet_state small_half = Inr cs \<and>
    120 + sum_list (map (transit small_cfg (parts_of small_half)) cs) = opening_supply small_cfg)"
proof -
  have "wallet_supply small_half = 120" by code_simp
  then show ?thesis using wallet_conserves_money[OF small_accounts small_runs(2)] by auto
qed

text \<open>
  C8.  An audit by any leader whose journal synchronisation succeeds and whose exchanges with the shards are
  answered, with no late request arriving in between, returns a report without errors: every shard
  holds its accounts, its projection is the replay of its events, every participant belongs to a
  command and agrees with its decision, and the total with the money in transit is the opening
  supply.
\<close>

theorem wallet_audit_clean:
  assumes "dict_ok (cfg_accounts cfg)" and "wallet_run cfg w" and "undisturbed env"
    and "wallet_sync (as_leader e l cfg) (sync_nets env 0) w = (w', Inr q)"
  shows "\<exists>report. wallet_audit (as_leader e l cfg) env w = (w', Inr report) \<and> audit_errors report = [] \<and>
    wallet_total report = wallet_supply w' \<and> wallet_total report + in_transit report = opening_supply cfg"
proof -
  obtain cs where inv: "wallet_inv (as_leader e l cfg) w cs" using wallet_run_inv[OF assms(2,1)] by auto
  obtain cs' where "wallet_inv (as_leader e l cfg) w' cs'"
    "wallet_audit (as_leader e l cfg) env w = (w', Inr \<lparr>audit_errors = [], wallet_total = wallet_supply w',
       in_transit = sum_list (map (transit (as_leader e l cfg) (parts_of w')) cs'), audit_quorum = q\<rparr>)"
    by (rule wallet_audit_result[OF inv assms(3,4)])
  then show ?thesis using audit_ledger(1)[of "as_leader e l cfg" w' cs'] by (simp add: ledger_ok_def)
qed

theorem wallet_audit_clean_witness:
  "\<exists>report. wallet_audit small_cfg calm_env small_half
      = (fst (wallet_sync small_cfg (sync_nets calm_env 0) small_half), Inr report) \<and>
    audit_errors report = [] \<and> wallet_total report + in_transit report = 150"
proof -
  have "snd (wallet_sync small_cfg (sync_nets calm_env 0) small_half) = Inr (3, 2)" by code_simp
  then have "wallet_sync small_cfg (sync_nets calm_env 0) small_half
      = (fst (wallet_sync small_cfg (sync_nets calm_env 0) small_half), Inr (3, 2))" by (metis prod.collapse)
  moreover have "opening_supply small_cfg = 150" by code_simp
  ultimately show ?thesis
    using wallet_audit_clean[OF small_accounts small_runs(2) calm_env_calm(2), of 1 "''c''"] by (fastforce simp: small_leader)
qed

section \<open>Transfers\<close>

text \<open>
  C6.  A transfer is atomic.  Between two shards, a transfer reported as succeeded is confirmed on
  both sides and one reported as canceled is canceled on both; the destination is confirmed only
  after the source; a side is confirmed only under a committed decision, and then the other side is
  neither rejected nor canceled.  Within one shard, success means that the single local event was
  confirmed and rejection that it was rejected.
\<close>

theorem wallet_transfer_atomic:
  assumes "dict_ok (cfg_accounts cfg)" and "wallet_run cfg w" and "wallet_state w = Inr cs" and "dict_get cs i = Some c"
    and "L = status_of cfg (parts_of w) (cmd_intent c) Source" and "R = status_of cfg (parts_of w) (cmd_intent c) Destination"
  shows "if is_local cfg (cmd_intent c)
    then cmd_status c \<noteq> T_CANCELED \<and> (cmd_status c = SUCCEEDED \<longrightarrow> L = Some CONFIRMED) \<and>
         (cmd_status c = T_REJECTED \<longrightarrow> L = Some REJECTED)
    else cmd_status c \<noteq> T_REJECTED \<and> (cmd_status c = SUCCEEDED \<longrightarrow> L = Some CONFIRMED \<and> R = Some CONFIRMED) \<and>
         (cmd_status c = T_CANCELED \<longrightarrow> L = Some CANCELED \<and> R = Some CANCELED) \<and>
         (R = Some CONFIRMED \<longrightarrow> L = Some CONFIRMED) \<and>
         (L = Some CONFIRMED \<longrightarrow> cmd_decision c = Some COMMIT \<and> R \<in> {Some PREPARED, Some CONFIRMED})"
proof -
  obtain cs' where inv: "wallet_inv cfg w cs'" using wallet_run_inv[OF assms(2,1)] by blast
  then have "cs' = cs" using assms(3) by (simp add: wallet_inv_def)
  then have c: "command_ok cfg (parts_of w) c" using ledger_command(1)[OF audit_ledger(1)[OF inv]] assms(4) by blast
  show ?thesis
  proof (cases "is_local cfg (cmd_intent c)")
    case True
    moreover have "L = status_of cfg (parts_of w) (cmd_intent c) Local"
      by (simp add: assms(5) status_of_def role_index_def)
    ultimately show ?thesis using command_local[OF c True] by (cases "cmd_status c") auto
  next
    case False
    consider "cmd_decision c = None" | "cmd_decision c = Some COMMIT" | "cmd_decision c = Some CANCEL"
      by (metis not_None_eq decision.exhaust)
    then show ?thesis
      using command_cross[OF c False] False unfolding assms(5,6) by cases (cases "cmd_status c"; auto)+
  qed
qed

theorem wallet_transfer_atomic_witness:
  "\<exists>cs c. wallet_state small_half = Inr cs \<and> dict_get cs ''t'' = Some c \<and> cmd_status c = PENDING \<and>
     status_of small_cfg (parts_of small_half) (cmd_intent c) Source = Some CONFIRMED \<and>
     cmd_decision c = Some COMMIT \<and>
     status_of small_cfg (parts_of small_half) (cmd_intent c) Destination \<in> {Some PREPARED, Some CONFIRMED}"
proof -
  let ?b = "\<lparr>transaction_id = ''t'', from_account = ''a'', to_account = ''b'', amount = 30\<rparr>"
  let ?c = "\<lparr>cmd_intent = ?b, cmd_decision = Some COMMIT, cmd_status = PENDING\<rparr>"
  have s: "wallet_state small_half = Inr [(''t'', ?c)]" by code_simp
  have l: "status_of small_cfg (parts_of small_half) ?b Source = Some CONFIRMED" by code_simp
  have x: "\<not> is_local small_cfg ?b" by code_simp
  have "dict_get [(''t'', ?c)] ''t'' = Some ?c" by simp
  from wallet_transfer_atomic[OF small_accounts small_runs(2) s this refl refl] show ?thesis using s l x by auto
qed

text \<open>
  C7.  While no exchange fails and the credentials of the present coordinator, those of the start or
  of a later leader, are accepted everywhere, its scheduler finishes all transfers: from any state of a run without recorded
  failures, 6001 steps (six for each of the at most 1000 transfers, and one that recovers the
  quorum) leave no transfer pending, and no command, decision or terminal status is lost on the way.
\<close>

theorem wallet_transfers_complete:
  assumes "dict_ok (cfg_accounts cfg)" and "wallet_run cfg w" and "led_by (as_leader e l cfg) w" and "w_retries w = []"
    and "calm env" and "wallet_state w = Inr cs"
  shows "\<exists>cs'. wallet_state (steps (as_leader e l cfg) env 6001 w) = Inr cs' \<and> (\<forall>(i, c)\<in>set cs'. cmd_status c \<noteq> PENDING) \<and>
    commands_le cs cs'"
proof -
  obtain cs0 where inv: "wallet_inv (as_leader e l cfg) w cs0" using wallet_run_inv[OF assms(2,1)] by auto
  then have "cs0 = cs" using assms(6) by (simp add: wallet_inv_def)
  then have "settled (as_leader e l cfg) w cs" using inv assms(3,4) by (simp add: settled_def)
  then show ?thesis using steps_complete[OF _ assms(5)] by metis
qed

theorem wallet_transfers_complete_witness:
  "\<exists>cs cs'. wallet_state small_created = Inr cs \<and> length cs = 1 \<and>
     wallet_state (steps small_cfg calm_env 6001 small_created) = Inr cs' \<and>
     (\<forall>(i, c)\<in>set cs'. cmd_status c \<noteq> PENDING) \<and> commands_le cs cs'"
proof -
  let ?b = "\<lparr>transaction_id = ''t'', from_account = ''a'', to_account = ''b'', amount = 30\<rparr>"
  let ?c = "\<lparr>cmd_intent = ?b, cmd_decision = None, cmd_status = PENDING\<rparr>"
  have s: "wallet_state small_created = Inr [(''t'', ?c)]" by code_simp
  have "credentials_ok small_cfg \<and> (\<forall>i\<in>set [0, 1]. sh_fence (w_shards small_created ! i) = fence_of small_cfg) \<and>
      (\<forall>r\<in>set (j_replicas (w_journal small_created)). rep_fence r = fence_of small_cfg) \<and> w_retries small_created = []"
    by code_simp
  moreover have "i = 0 \<or> i = 1" if "i < cfg_shards small_cfg" for i using that by (auto simp: small_cfg_def)
  ultimately have "led_by small_cfg small_created" "w_retries small_created = []" by (auto simp: led_by_def)
  from wallet_transfers_complete[of small_cfg small_created 1 "''c''", unfolded small_leader,
      OF small_accounts small_runs(1) this calm_env_calm(1) s]
  show ?thesis using s by simp
qed

section \<open>The journal\<close>

lemma length_filter_imp: "\<forall>x\<in>set xs. P x \<longrightarrow> Q x \<Longrightarrow> length (filter P xs) \<le> length (filter Q xs)"
  by (induction xs) auto

text \<open>
  C15.  A committed fact survives the loss of any one replica: at every moment of every run each
  replica holds a prefix of the coordinator's rows, and at least two of the three hold all the
  committed rows.
\<close>

theorem wallet_journal_quorum:
  assumes "dict_ok (cfg_accounts cfg)" and "wallet_run cfg w" and "j = w_journal w"
  shows "length (j_replicas j) = 3 \<and> (\<forall>r\<in>set (j_replicas j). \<exists>n. rep_rows r = take n (j_rows j)) \<and>
    2 \<le> length (filter (\<lambda>r. take (j_committed j) (rep_rows r) = journal_records j) (j_replicas j))"
proof -
  obtain cs where "wallet_inv cfg w cs" using wallet_run_inv[OF assms(2,1)] by blast
  then have ok: "journal_ok (fact_digest cfg) j" by (simp add: wallet_inv_def assms(3))
  have pre: "rep_rows r = take (length (rep_rows r)) (j_rows j)" if "r \<in> set (j_replicas j)" for r
    using ok that by (simp add: journal_ok_def list_all_iff holds_prefix_def)
  have "take (j_committed j) (rep_rows r) = journal_records j"
    if r: "r \<in> set (j_replicas j)" "j_committed j \<le> length (rep_rows r)" for r
  proof -
    have "take (j_committed j) (rep_rows r) = take (j_committed j) (take (length (rep_rows r)) (j_rows j))"
      using pre[OF r(1)] by simp
    then show ?thesis using r(2) by (simp add: journal_records_def min_absorb1)
  qed
  then have "length (filter (\<lambda>r. j_committed j \<le> length (rep_rows r)) (j_replicas j))
      \<le> length (filter (\<lambda>r. take (j_committed j) (rep_rows r) = journal_records j) (j_replicas j))"
    by (intro length_filter_imp) blast
  then show ?thesis using ok pre unfolding journal_ok_def by (metis order_trans)
qed

theorem wallet_journal_quorum_witness:
  "j_committed (w_journal small_half) = 2 \<and>
   2 \<le> length (filter (\<lambda>r. take 2 (rep_rows r) = journal_records (w_journal small_half)) (j_replicas (w_journal small_half)))"
proof -
  have "j_committed (w_journal small_half) = 2" by code_simp
  then show ?thesis using wallet_journal_quorum[OF small_accounts small_runs(2) refl] by simp
qed

text \<open>
  C16.  Without a quorum no participant is asked for anything: under any leader, when the synchronisation at the start
  of a step fails, the step sends no request, changes no shard and leaves the commands as they were,
  even those with a prior decision.
\<close>

theorem wallet_no_quorum_no_action:
  assumes "dict_ok (cfg_accounts cfg)" and "wallet_run cfg w"
    and "snd (wallet_sync (as_leader e l cfg) (sync_nets env 0) w) = Inl x"
    and "step (as_leader e l cfg) env w = (w', res)"
  shows "w_shards w' = w_shards w \<and> w_sent w' = w_sent w \<and> wallet_state w' = wallet_state w \<and>
    (res = Inl x \<or> (res = Inr Idle \<and> w' = w))"
proof -
  obtain cs where inv: "wallet_inv (as_leader e l cfg) w cs" using wallet_run_inv[OF assms(2,1)] by auto
  obtain w1 where s: "wallet_sync (as_leader e l cfg) (sync_nets env 0) w = (w1, Inl x)"
    using assms(3) by (metis prod.collapse)
  have w1: "wallet_inv (as_leader e l cfg) w1 cs" "only_journal w w1" using wallet_sync_inv[OF inv s] by blast+
  have st: "wallet_state w = Inr cs" "wallet_state w1 = Inr cs" using inv w1(1) by (simp_all add: wallet_inv_def)
  have "(w', res) = (w, Inr Idle) \<or> (w', res) = (w1, Inl x)"
    unfolding assms(4)[symmetric] step_def with_state_def st(1) using s by simp
  then show ?thesis using st only_journal_simps(1,2)[OF w1(2)] by auto
qed

definition partition_env :: surroundings where
  "partition_env = calm_env\<lparr>sync_nets := (\<lambda>_. \<lparr>net_of = (\<lambda>_ _. RequestLost), net_expired = False\<rparr>)\<rparr>"

theorem wallet_no_quorum_no_action_witness:
  "w_shards (fst (step small_cfg partition_env small_half)) = w_shards small_half \<and>
   w_sent (fst (step small_cfg partition_env small_half)) = w_sent small_half"
proof -
  have x: "snd (wallet_sync small_cfg (sync_nets partition_env 0) small_half)
      = Inl (HttpError 503 ''journal quorum unavailable; retain original transaction identity'')" by code_simp
  from wallet_no_quorum_no_action[of small_cfg small_half 1 "''c''", unfolded small_leader,
      OF small_accounts small_runs(2) x prod.collapse[symmetric]]
  show ?thesis by blast
qed

section \<open>Shards\<close>

text \<open>
  C17.  A shard can be rebuilt from its events at any time: after any run of actions, fences and
  restarts the stored projection is the replay of the stored rows, and rebuilding from a snapshot
  taken at any earlier point gives the same projection as replaying everything.
\<close>

theorem shard_rebuild_exact:
  assumes "dict_ok opened" and "shard_init digest sha i n opened f = Inr s0" and "shard_run digest sha opened s0 s"
    and "shard_snapshot digest s = Inr snap" and "shard_run digest sha opened s t"
  shows "shard_rebuild digest (Some snap) t = Inr (Some (sh_state t)) \<and>
    shard_rebuild digest None t = Inr (Some (sh_state t)) \<and>
    (\<exists>head. shard_audit digest t = Inr (True, length (sh_rows t), head))"
proof -
  have s0: "shard_ok digest sha opened s0" by (rule shard_init_ok(1)[OF assms(2,1)])
  have s: "shard_ok digest sha opened s" using shard_run_ok[OF assms(3) s0] by blast
  obtain later where t: "shard_ok digest sha opened t" "sh_rows t = sh_rows s @ later"
    using shard_run_ok[OF assms(5) s] by blast
  have "shard_rebuild digest (Some snap) t = Inr (Some (sh_state t))" by (rule rebuild_from_snapshot[OF s assms(4) t])
  moreover have "shard_rebuild digest None t = Inr (Some (sh_state t))" "\<exists>head. shard_audit digest t = Inr (True, length (sh_rows t), head)"
    using t(1) by (simp_all add: shard_ok_def shard_rebuild_def shard_audit_def)
  ultimately show ?thesis by blast
qed

text \<open>A shard with one account, a prepared transfer from it and its confirmation.\<close>

definition small_intent :: Intent where
  "small_intent = \<lparr>transaction_id = ''t'', from_account = ''a'', to_account = ''b'', amount = 30\<rparr>"

definition one_hash :: "string \<Rightarrow> nat" where
  "one_hash a = 0"

definition one_digest :: "shard_event digest" where
  "one_digest n h e = ''s''"

definition one_shard :: Shard where
  "one_shard = \<lparr>sh_index = 0, sh_count = 1, sh_fence = \<lparr>epoch = 1, leader = ''c''\<rparr>,
     sh_rows = [next_row one_digest [] (Genesis [(''a'', 100)])],
     sh_state = \<lparr>accounts = [(''a'', \<lparr>available = 100, held = 0\<rparr>)], parts = []\<rparr>\<rparr>"

definition one_act :: "kind \<Rightarrow> Shard \<Rightarrow> Shard \<times> part result" where
  "one_act k s = shard_action one_digest one_hash small_intent k Source 1 ''c'' s"

lemma one_shard_init: "shard_init one_digest one_hash 0 1 [(''a'', 100)] \<lparr>epoch = 1, leader = ''c''\<rparr> = Inr one_shard"
  by code_simp

lemma one_run:
  "shard_run one_digest one_hash [(''a'', 100)] s t \<Longrightarrow> shard_run one_digest one_hash [(''a'', 100)] s (fst (one_act k t))"
  unfolding one_act_def by (rule shard_run.action)

lemma one_accounts: "dict_ok [(''a'', 100 :: int)]"
  by (simp add: dict_ok_def)

theorem shard_rebuild_exact_witness:
  "\<exists>snap. shard_snapshot one_digest (fst (one_act Prepare one_shard)) = Inr snap \<and>
     shard_rebuild one_digest (Some snap) (fst (one_act Confirm (fst (one_act Prepare one_shard))))
     = Inr (Some (sh_state (fst (one_act Confirm (fst (one_act Prepare one_shard))))))"
proof -
  have "(case shard_snapshot one_digest (fst (one_act Prepare one_shard)) of Inr _ \<Rightarrow> True | Inl _ \<Rightarrow> False)" by code_simp
  then obtain snap where snap: "shard_snapshot one_digest (fst (one_act Prepare one_shard)) = Inr snap"
    by (auto split: sum.splits)
  from shard_rebuild_exact[OF one_accounts one_shard_init one_run[OF shard_run.start] snap one_run[OF shard_run.start]]
  show ?thesis using snap by blast
qed

text \<open>
  C18.  An action can be repeated: when it was answered, sending it again to the shard it left, as a
  coordinator does that lost the answer, returns the same participant and changes nothing.
\<close>

theorem shard_action_repeats:
  assumes "dict_ok opened" and "shard_init digest sha i n opened f = Inr s0" and "shard_run digest sha opened s0 s"
    and "shard_action digest sha b k r e l s = (s', Inr p)"
  shows "shard_action digest sha b k r e l s' = (s', Inr p)"
proof -
  have s0: "shard_ok digest sha opened s0" by (rule shard_init_ok(1)[OF assms(2,1)])
  have s: "shard_ok digest sha opened s" using shard_run_ok[OF assms(3) s0] by blast
  note receipt = shard_action_receipt[OF assms(4) s]
  show ?thesis
  proof (rule shard_action_cases[OF assms(4) s])
    assume "s' = s"
    then show ?thesis using assms(4) by simp
  next
    fix new d
    assume a: "action_ready sha b k r e l s"
      "part_step k r (amount b) (map_option part_status (dict_get (parts (sh_state s)) (transaction_id b))) new d"
      "parts (sh_state s') = dict_set (transaction_id b)
         \<lparr>part_intent = b, part_role = r, part_status = new\<rparr> (parts (sh_state s))"
      "sh_index s' = sh_index s" "sh_count s' = sh_count s" "sh_fence s' = sh_fence s"
    have "action_ready sha b k r e l s'" using a(1,4-6) by (simp add: action_ready_def)
    moreover have "part_status p = new" using receipt a(3) by (auto simp: dict_simps)
    ultimately show ?thesis using receipt a(2)
      by (intro shard_action_repeated) (cases k; auto simp: part_step_def)+
  qed
qed

theorem shard_action_repeats_witness:
  "\<exists>p. snd (one_act Prepare one_shard) = Inr p \<and> part_status p = PREPARED \<and>
     one_act Prepare (fst (one_act Prepare one_shard)) = (fst (one_act Prepare one_shard), Inr p)"
proof -
  let ?p = "\<lparr>part_intent = small_intent, part_role = Source, part_status = PREPARED\<rparr>"
  have p: "snd (one_act Prepare one_shard) = Inr ?p" by code_simp
  then have "shard_action one_digest one_hash small_intent Prepare Source 1 ''c'' one_shard = (fst (one_act Prepare one_shard), Inr ?p)"
    by (metis one_act_def prod.collapse)
  from shard_action_repeats[OF one_accounts one_shard_init shard_run.start this] show ?thesis
    using p by (simp add: one_act_def)
qed

text \<open>
  Fencing: an epoch never moves backwards or changes its owner, and once a shard has accepted a
  fence, an action with any other credentials is refused and changes nothing.
\<close>

theorem shard_fences_out:
  assumes "set_fence e l (sh_fence s) = Inr f" and "(e', l') \<noteq> (e, l)"
  shows "epoch (sh_fence s) \<le> epoch f \<and> (epoch (sh_fence s) = epoch f \<longrightarrow> leader (sh_fence s) = leader f) \<and>
    (\<exists>x. shard_action digest sha b k r e' l' (s\<lparr>sh_fence := f\<rparr>) = (s\<lparr>sh_fence := f\<rparr>, Inl x))"
proof -
  have f: "f = \<lparr>epoch = e, leader = l\<rparr>" "epoch (sh_fence s) \<le> e" "epoch (sh_fence s) = e \<longrightarrow> l = leader (sh_fence s)"
    using assms(1) by (auto simp: set_fence_def and_then_Inr_iff split: if_splits)
  have "\<not> action_ready sha b k r e' l' (s\<lparr>sh_fence := f\<rparr>)"
    using assms(2) by (auto simp: action_ready_def check_fence_def f(1) result_simps)
  then have "\<exists>x. shard_action digest sha b k r e' l' (s\<lparr>sh_fence := f\<rparr>) = (s\<lparr>sh_fence := f\<rparr>, Inl x)"
    by (auto simp: shard_action_def action_ready_def role_account_def result_simps split: sum.splits)
  then show ?thesis using f by auto
qed

theorem shard_fences_out_witness:
  "\<exists>f x. set_fence 2 ''d'' (sh_fence one_shard) = Inr f \<and>
     shard_action one_digest one_hash small_intent Prepare Source 1 ''c'' (one_shard\<lparr>sh_fence := f\<rparr>)
     = (one_shard\<lparr>sh_fence := f\<rparr>, Inl x)"
proof -
  have "set_fence 2 ''d'' (sh_fence one_shard) = Inr \<lparr>epoch = 2, leader = ''d''\<rparr>" by code_simp
  then show ?thesis using shard_fences_out[of 2 "''d''" one_shard _ 1 "''c''"] by fastforce
qed

end
