(* ===== verification/Spec2Isabelle.thy ===== *)
theory Spec2Isabelle
  imports Prelude Unique_Id Hash_Ring Exchange_Theorems KV_Store_Theorems KV_Replication_Theorems KV_Merkle Wallet_Theorems
begin

text \<open>
  \<^bold>\<open>Verification of the system-design reference implementations.\<close>

  The repository holds independent Python packages, one per system design chapter.  This library
  models the ones whose logic is their own code rather than SQL or transport: the identifier
  generator, the consistent hashing ring, the matching engine of the stock exchange, the
  key-value store from its files up to its replication protocol, and the digital wallet with its
  event-sourced shards, its replicated journal and its try-confirm/cancel coordinator.

  \<^bold>\<open>Conventions.\<close>  \<^verbatim>\<open>Prelude\<close> has the exceptions of the packages, the result type
  \<open>exn + 'a\<close> with its sequencing, dictionaries in insertion order, and decimal text.  A class is a
  record, an operation a function that returns the new state, a raise a value \<open>Inl\<close>.  A lock makes
  its critical section one step.  Python integers are \<open>int\<close>; a Python float that is only compared is
  its IEEE bit pattern in a 64-bit word with the order of doubles.  Functions that the code calls
  from outside the repository or that are cryptographic (hash functions, logarithm and rounding of
  doubles, clocks, the disk, the network) are parameters, and what is assumed of them is a
  hypothesis of the theorem.

  \<^bold>\<open>Identifiers\<close> (\<^verbatim>\<open>unique-id-generator/src/unique_id\<close>): theory \<^verbatim>\<open>Unique_Id\<close>.  Configuration,
  generator, parser, clocks.  The waiting loop is a \<^verbatim>\<open>partial_function\<close> over a stream of clock
  readings; on an advancing clock it is shown to return.  Theorems: identifiers increase, fit 63
  bits, parse back, and never meet those of another node.

  \<^bold>\<open>Ring\<close> (\<^verbatim>\<open>consistent-hashing/src/consistent_hashing\<close>): theory \<^verbatim>\<open>Hash_Ring\<close>.  Topologies,
  writers, snapshots, replica lists and the migration planner.  Reachability is an inductive
  predicate; the invariant gives clockwise routing, minimal disruption and exact migration plans.

  \<^bold>\<open>Exchange\<close> (\<^verbatim>\<open>stock-exchange-system/src/stock_exchange\<close>): \<^verbatim>\<open>Wire\<close> (contracts), \<^verbatim>\<open>Order_Book\<close>
  (the linked index, a locale for its interface and its refinement of plain lists), \<^verbatim>\<open>Matching\<close>
  (the reducer), \<^verbatim>\<open>Exchange_Invariant\<close> and \<^verbatim>\<open>Exchange\<close> (the invariant over a replayed journal),
  \<^verbatim>\<open>Exchange_Audit\<close> (the audit), \<^verbatim>\<open>Exchange_Theorems\<close>.  The matching loop carries fuel, one more
  than the quantity of the order, since every round fills at least one unit; the theorem on
  returning commands shows that it is enough.

  \<^bold>\<open>Storage engine of the key-value store\<close> (\<^verbatim>\<open>key-value-store/src/kv_store/storage\<close>): \<^verbatim>\<open>Bytes\<close>
  (struct, UTF-8, doubles, CRC-32), \<^verbatim>\<open>KV_Memtable\<close>, \<^verbatim>\<open>KV_Bloom\<close>, \<^verbatim>\<open>KV_Wal\<close> (frames, replay and the
  fence, for every outcome of a disk operation), \<^verbatim>\<open>KV_SSTable\<close> and \<^verbatim>\<open>KV_SSTable_Laws\<close> (the file
  format byte by byte), \<^verbatim>\<open>KV_Compaction\<close> (the k-way merge), \<^verbatim>\<open>KV_Engine\<close>, \<^verbatim>\<open>KV_Engine_Laws\<close> (the
  tables enter through the locale \<open>sorted_table\<close>) and \<^verbatim>\<open>KV_Store_Theorems\<close>: over any run with
  failing writes, crashes and restarts, reads return the newest acknowledged write, restarts
  succeed and scans agree with reads.

  \<^bold>\<open>Replication\<close> (\<^verbatim>\<open>kv_store/replication\<close>, \<^verbatim>\<open>kv_store/cluster\<close>): \<^verbatim>\<open>KV_Versions\<close> (vector clocks and
  sibling versions; the locale \<open>version_order\<close> gives the maximal elements), \<^verbatim>\<open>KV_Replication\<close>
  (quorums, placement on the ring of \<^verbatim>\<open>Hash_Ring\<close>, replica records, tasks, hints, the coordinator;
  the locale \<open>replica_store\<close> is what the coordinator needs of a store; the step relation
  \<open>cluster_step\<close> interleaves the tasks of all coordinators), \<^verbatim>\<open>KV_Replication_Theorems\<close> (a quorum read
  sees a quorum write, reconciliation converges and loses nothing, clocks are fresh, records decode)
  and \<^verbatim>\<open>KV_Merkle\<close> (path updates equal a rebuild; equal roots mean equal content unless the hash
  collides on inputs the trees hashed).

  \<^bold>\<open>Digital wallet\<close> (\<^verbatim>\<open>digital-wallet-system/src/digital_wallet\<close>).  \<^verbatim>\<open>Wallet_Shard\<close>: intents
  (\<^verbatim>\<open>contracts.py\<close>), the event reducer (\<^verbatim>\<open>projection.py\<close>), checksum-chained logs and fences
  (\<^verbatim>\<open>common.py\<close>) and the shard (\<^verbatim>\<open>shard.py\<close>), a record of its rows, its stored projection and its fence.
  \<^verbatim>\<open>Wallet_Journal\<close>: replicas and two-of-three commit (\<^verbatim>\<open>journal.py\<close>), with the locale \<open>durable_log\<close> as
  the contract the coordinator relies on.  \<^verbatim>\<open>Wallet\<close>: the projection of the journal
  (\<^verbatim>\<open>coordinator_projection.py\<close>), the coordinator (\<^verbatim>\<open>coordinator.py\<close>) and its audit (\<^verbatim>\<open>audit.py\<close>).  Every
  exchange with a shard or a replica has an outcome (delivered, refused, request lost, reply lost),
  and before every exchange with a shard any request sent earlier may arrive, late or again.
  \<^verbatim>\<open>Wallet_Invariant\<close> has the invariant: which statuses of the two participants are compatible with
  the decision of a command, that no request under way can break this, and what each change does to
  the supply.  \<^verbatim>\<open>Wallet_Operations\<close> and \<^verbatim>\<open>Wallet_Runs\<close> carry it through every operation, through
  fencing, restarts and late rows (the relation \<open>wallet_run\<close>); \<^verbatim>\<open>Wallet_Audit\<close> derives that an undisturbed
  audit is clean; \<^verbatim>\<open>Wallet_Progress\<close> ranks the work left: a transfer needs at most six steps and there
  are at most 1000 of them, so 6001 steps, one of which recovers the quorum, finish everything while
  the network is up.  \<^verbatim>\<open>Wallet_Theorems\<close> states the properties.

  \<^bold>\<open>What the model shows to be wrong.\<close>  A key whose bytes spell a table footer makes the table
  unreadable for lookups (\<open>decoy_key_lost\<close>); zero counters, which the record decoder accepts, make
  two versions dominate each other, so that reconciliation drops both (\<open>zero_counters_lose_versions\<close>);
  the stand-alone coordinator hides a conflict between values with one clock
  (\<open>same_clock_conflict_hidden\<close>); the filter of a table outgrows its size field well before the entry
  count does (\<open>sstable_write_fits\<close>, bounds 415 and 480 million entries).  The theorems on reads, tables and versions therefore carry the
  hypotheses that exclude these inputs.

  \<^bold>\<open>Not modelled.\<close>  The JSON and base64 text of replica records (its row order and length are a
  parameter of the record model), admission limits and task ownership of the coordinator, gossip
  rounds, hint delivery and repair (they enter as arbitrary merges at any replica; the merges a
  write waits for run without a step of another coordinator in between, its later ones are steps of
  their own), transport and process wiring; log recovery whose own truncation fails (the runs start
  engines on a working disk); the SQLite journal and HTTP layer of the exchange; for the wallet, HTTP parsing and
  authentication, deadlines inside an exchange, waiting for completion (\<^verbatim>\<open>wait_owned\<close>), configuration
  files, the fingerprint of the journal database and the durability of SQLite itself (a transaction
  is one step), and rows that reach a replica late are taken to do so between operations;
  floating-point summaries; and the chapters whose rules live in SQL transactions or are HTTP glue.
  Next in order: the merge of membership tables, hint delivery, the rate limiter's windows, and the
  URL shortener's base-62 strategies and cache.
\<close>

end
